(* ===== verification/Prelude.thy ===== *)
theory Prelude
  imports Main "HOL-Library.Word" "HOL-Library.Multiset" "HOL-Library.List_Lexorder"
begin

text \<open>
  Types and automation shared by every component: the machine types of
  include/m3bp/types.hpp, the byte memory that pointers of the program refer to, the
  wrap-around arithmetic of size_type, and generic lemmas on lists and segments of lists.

  A pointer is an address (\<open>nat\<close>) into a byte memory (\<open>mem\<close>). The memory is total: what an
  address outside every allocation holds is left open, as it is for the program, so a result
  that depends on a read beyond a record is visible in a theorem. \<open>size_type\<close> and
  \<open>identifier_type\<close> are 64-bit; they are \<open>nat\<close> here, with \<open>sz_add\<close>, \<open>sz_sub\<close> and \<open>sz_mul\<close>
  writing the wrap-around out where the operands are data.
\<close>

unbundle bit_operations_syntax

type_synonym u8 = "8 word"
type_synonym u32 = "32 word"
type_synonym u64 = "64 word"
type_synonym size_type = nat
type_synonym identifier_type = nat
type_synonym addr = nat
type_synonym mem = "nat \<Rightarrow> u8"

named_theorems mem_simps \<open>reads of a memory after a write\<close>
named_theorems size_simps \<open>size_type arithmetic that does not wrap\<close>

subsection \<open>size_type arithmetic\<close>

definition size_modulus :: nat where
  "size_modulus = 2 ^ 64"

text \<open>std::numeric_limits<identifier_type>::max(), the identifier that means "none".\<close>

definition invalid_id :: identifier_type where
  "invalid_id = 2 ^ 64 - 1"

definition sz_add :: "size_type \<Rightarrow> size_type \<Rightarrow> size_type" where
  "sz_add a b = (a + b) mod size_modulus"

definition sz_sub :: "size_type \<Rightarrow> size_type \<Rightarrow> size_type" where
  "sz_sub a b = (if b \<le> a then a - b else (a + size_modulus - b)) mod size_modulus"

definition sz_mul :: "size_type \<Rightarrow> size_type \<Rightarrow> size_type" where
  "sz_mul a b = (a * b) mod size_modulus"

lemma sz_add_exact [size_simps]: "a + b < size_modulus \<Longrightarrow> sz_add a b = a + b"
  by (simp add: sz_add_def)

lemma sz_sub_exact [size_simps]: "b \<le> a \<Longrightarrow> a < size_modulus \<Longrightarrow> sz_sub a b = a - b"
  by (simp add: sz_sub_def)

lemma sz_mul_exact [size_simps]: "a * b < size_modulus \<Longrightarrow> sz_mul a b = a * b"
  by (simp add: sz_mul_def)

lemma sz_sub_wraps: "a < b \<Longrightarrow> b < size_modulus \<Longrightarrow> sz_sub a b = size_modulus - (b - a)"
  by (simp add: sz_sub_def)

subsection \<open>Byte memory\<close>

fun le_val :: "u8 list \<Rightarrow> nat" where
  "le_val [] = 0"
| "le_val (b # bs) = unat b + 256 * le_val bs"

fun be_val :: "u8 list \<Rightarrow> nat" where
  "be_val [] = 0"
| "be_val (b # bs) = unat b * 256 ^ length bs + be_val bs"

fun le_bytes :: "nat \<Rightarrow> nat \<Rightarrow> u8 list" where
  "le_bytes 0 v = []"
| "le_bytes (Suc k) v = of_nat v # le_bytes k (v div 256)"

definition load_bytes :: "mem \<Rightarrow> addr \<Rightarrow> nat \<Rightarrow> u8 list" where
  "load_bytes m a n = map m [a..<a + n]"

definition store_bytes :: "mem \<Rightarrow> addr \<Rightarrow> u8 list \<Rightarrow> mem" where
  "store_bytes m a bs = (\<lambda>x. if a \<le> x \<and> x < a + length bs then bs ! (x - a) else m x)"

text \<open>\<open>*reinterpret_cast<size_type *>(a)\<close> as a read and as a write (little-endian).\<close>

definition load_size :: "mem \<Rightarrow> addr \<Rightarrow> size_type" where
  "load_size m a = le_val (load_bytes m a 8)"

definition store_size :: "mem \<Rightarrow> addr \<Rightarrow> size_type \<Rightarrow> mem" where
  "store_size m a v = store_bytes m a (le_bytes 8 v)"

definition memcpy :: "mem \<Rightarrow> addr \<Rightarrow> addr \<Rightarrow> nat \<Rightarrow> mem" where
  "memcpy m dst src n = store_bytes m dst (load_bytes m src n)"

lemma unat_u8_less: "unat (b :: u8) < 256"
  using unsigned_less [of b, where 'a = nat] by simp

lemma length_le_bytes [simp]: "length (le_bytes k v) = k"
  by (induction k v rule: le_bytes.induct) auto

lemma length_load_bytes [simp]: "length (load_bytes m a n) = n"
  by (simp add: load_bytes_def)

lemma nth_load_bytes [simp]: "i < n \<Longrightarrow> load_bytes m a n ! i = m (a + i)"
  by (simp add: load_bytes_def)

lemma load_bytes_0 [simp]: "load_bytes m a 0 = []"
  by (simp add: load_bytes_def)

lemma load_bytes_add: "load_bytes m a (n + k) = load_bytes m a n @ load_bytes m (a + n) k"
  by (rule nth_equalityI) (auto simp: nth_append add.assoc)

lemma load_bytes_cong:
  "(\<And>x. a \<le> x \<Longrightarrow> x < a + n \<Longrightarrow> m x = m' x) \<Longrightarrow> load_bytes m a n = load_bytes m' a n"
  by (simp add: load_bytes_def)

lemma le_val_bound: "le_val bs < 256 ^ length bs"
proof (induction bs)
  case (Cons b bs)
  have "unat b < 256"
    by (rule unat_u8_less)
  moreover have "le_val bs + 1 \<le> 256 ^ length bs"
    using Cons by simp
  then have "256 * le_val bs + 256 \<le> 256 * 256 ^ length bs"
    by (metis add_mult_distrib2 mult_le_mono2 mult.right_neutral)
  ultimately show ?case by simp
qed simp

lemma be_val_bound: "be_val bs < 256 ^ length bs"
proof (induction bs)
  case (Cons b bs)
  have "unat b + 1 \<le> 256"
    using unat_u8_less [of b] by simp
  then have "unat b * 256 ^ length bs + 256 ^ length bs \<le> 256 * 256 ^ length bs"
    by (metis add_mult_distrib mult_1 mult_le_mono1)
  with Cons have "be_val (b # bs) < 256 * 256 ^ length bs"
    unfolding be_val.simps by linarith
  then show ?case by simp
qed simp

lemma load_size_bound: "load_size m a < size_modulus"
  using le_val_bound [of "load_bytes m a 8"] by (simp add: load_size_def size_modulus_def)

lemma le_val_le_bytes: "le_val (le_bytes k v) = v mod 256 ^ k"
proof (induction k arbitrary: v)
  case (Suc k)
  have "unat (of_nat v :: u8) = v mod 256"
    by (simp add: unat_of_nat)
  moreover have "v mod (256 * 256 ^ k) = v mod 256 + 256 * (v div 256 mod 256 ^ k)"
    by (simp add: mod_mult2_eq)
  ultimately show ?case using Suc by simp
qed simp

lemma store_bytes_same [mem_simps]: "load_bytes (store_bytes m a bs) a (length bs) = bs"
  by (rule nth_equalityI) (auto simp: store_bytes_def)

lemma store_bytes_other [mem_simps]:
  "x < a \<or> a + length bs \<le> x \<Longrightarrow> store_bytes m a bs x = m x"
  by (auto simp: store_bytes_def)

lemma load_bytes_store_disjoint [mem_simps]:
  "b + n \<le> a \<or> a + length bs \<le> b \<Longrightarrow> load_bytes (store_bytes m a bs) b n = load_bytes m b n"
  by (auto intro!: load_bytes_cong simp: store_bytes_def)

lemma load_size_store_same [mem_simps]:
  "load_size (store_size m a v) a = v mod size_modulus"
  using store_bytes_same [of m a "le_bytes 8 v"]
  by (simp add: load_size_def store_size_def le_val_le_bytes size_modulus_def)

lemma load_size_store_bytes_disjoint [mem_simps]:
  "b + 8 \<le> a \<or> a + length bs \<le> b \<Longrightarrow> load_size (store_bytes m a bs) b = load_size m b"
  by (simp add: load_size_def load_bytes_store_disjoint)

lemma load_size_store_size_disjoint [mem_simps]:
  "b + 8 \<le> a \<or> a + 8 \<le> b \<Longrightarrow> load_size (store_size m a v) b = load_size m b"
  by (simp add: store_size_def load_size_store_bytes_disjoint)

lemma load_bytes_store_size_disjoint [mem_simps]:
  "b + n \<le> a \<or> a + 8 \<le> b \<Longrightarrow> load_bytes (store_size m a v) b n = load_bytes m b n"
  by (simp add: store_size_def load_bytes_store_disjoint)

lemma load_bytes_memcpy_same [mem_simps]:
  "load_bytes (memcpy m d s n) d n = load_bytes m s n"
  using store_bytes_same [of m d "load_bytes m s n"] by (simp add: memcpy_def)

lemma load_bytes_memcpy_disjoint [mem_simps]:
  "b + k \<le> d \<or> d + n \<le> b \<Longrightarrow> load_bytes (memcpy m d s n) b k = load_bytes m b k"
  by (simp add: memcpy_def load_bytes_store_disjoint)

lemma load_size_memcpy_disjoint [mem_simps]:
  "b + 8 \<le> d \<or> d + n \<le> b \<Longrightarrow> load_size (memcpy m d s n) b = load_size m b"
  by (simp add: memcpy_def load_size_store_bytes_disjoint)

lemma load_size_cong:
  "(\<And>x. a \<le> x \<Longrightarrow> x < a + 8 \<Longrightarrow> m x = m' x) \<Longrightarrow> load_size m a = load_size m' a"
  unfolding load_size_def by (metis load_bytes_cong)

text \<open>Two memories that agree outside a region.\<close>

definition same_outside :: "addr \<Rightarrow> addr \<Rightarrow> mem \<Rightarrow> mem \<Rightarrow> bool" where
  "same_outside lo hi m m' \<longleftrightarrow> (\<forall>x. x < lo \<or> hi \<le> x \<longrightarrow> m' x = m x)"

definition apart :: "addr \<Rightarrow> nat \<Rightarrow> addr \<Rightarrow> addr \<Rightarrow> bool" where
  "apart a n lo hi \<longleftrightarrow> a + n \<le> lo \<or> hi \<le> a"

lemma same_outside_refl [simp]: "same_outside lo hi m m"
  by (simp add: same_outside_def)

lemma same_outside_trans: "same_outside lo hi m m' \<Longrightarrow> same_outside lo hi m' m'' \<Longrightarrow> same_outside lo hi m m''"
  by (simp add: same_outside_def)

lemma same_outside_store:
  "lo \<le> a \<Longrightarrow> a + length bs \<le> hi \<Longrightarrow> same_outside lo hi m (store_bytes m a bs)"
  by (simp add: same_outside_def store_bytes_def)

lemma same_outside_store_size:
  "lo \<le> a \<Longrightarrow> a + 8 \<le> hi \<Longrightarrow> same_outside lo hi m (store_size m a v)"
  by (simp add: store_size_def same_outside_store)

lemma same_outside_memcpy:
  "lo \<le> a \<Longrightarrow> a + n \<le> hi \<Longrightarrow> same_outside lo hi m (memcpy m a b n)"
  by (simp add: memcpy_def same_outside_store)

lemma load_bytes_same_outside:
  "same_outside lo hi m m' \<Longrightarrow> apart a n lo hi \<Longrightarrow> load_bytes m' a n = load_bytes m a n"
  by (rule load_bytes_cong) (auto simp: same_outside_def apart_def)

lemma load_size_same_outside:
  "same_outside lo hi m m' \<Longrightarrow> apart a 8 lo hi \<Longrightarrow> load_size m' a = load_size m a"
  by (simp add: load_size_def load_bytes_same_outside)

lemma apart_sub: "apart a n lo hi \<Longrightarrow> a \<le> b \<Longrightarrow> b + k \<le> a + n \<Longrightarrow> apart b k lo hi"
  by (auto simp: apart_def)

text \<open>A table of size_type values, as an offset table of a buffer is read.\<close>

definition load_sizes :: "mem \<Rightarrow> addr \<Rightarrow> nat \<Rightarrow> size_type list" where
  "load_sizes m a n = map (\<lambda>i. load_size m (a + 8 * i)) [0..<n]"

lemma length_load_sizes [simp]: "length (load_sizes m a n) = n"
  by (simp add: load_sizes_def)

lemma nth_load_sizes [simp]: "i < n \<Longrightarrow> load_sizes m a n ! i = load_size m (a + 8 * i)"
  by (simp add: load_sizes_def)

subsection \<open>Segments of lists\<close>

text \<open>
  A call on \<open>array + head\<close> with \<open>tail - head\<close> elements reads and writes one segment of the
  caller's array: \<open>segment\<close> is what the callee sees, \<open>splice_at\<close> puts what it leaves there back.
\<close>

definition segment :: "nat \<Rightarrow> nat \<Rightarrow> 'a list \<Rightarrow> 'a list" where
  "segment h t xs = take (t - h) (drop h xs)"

definition splice_at :: "nat \<Rightarrow> 'a list \<Rightarrow> 'a list \<Rightarrow> 'a list" where
  "splice_at h ys xs = take (length xs) (take h xs @ ys @ drop (h + length ys) xs)"

lemma length_segment [simp]: "h \<le> t \<Longrightarrow> t \<le> length xs \<Longrightarrow> length (segment h t xs) = t - h"
  by (simp add: segment_def)

lemma length_splice_at [simp]: "length (splice_at h ys xs) = length xs"
  by (simp add: splice_at_def)

lemma splice_at_eq:
  "h + length ys \<le> length xs \<Longrightarrow> splice_at h ys xs = take h xs @ ys @ drop (h + length ys) xs"
  by (simp add: splice_at_def)

lemma nth_segment [simp]: "i < t - h \<Longrightarrow> t \<le> length xs \<Longrightarrow> segment h t xs ! i = xs ! (h + i)"
  by (simp add: segment_def)

lemma nth_splice_at:
  "h + length ys \<le> length xs \<Longrightarrow> i < length xs \<Longrightarrow>
     splice_at h ys xs ! i = (if h \<le> i \<and> i < h + length ys then ys ! (i - h) else xs ! i)"
  by (auto simp: splice_at_eq nth_append min_def)

lemma take_splice_at [simp]: "h + length ys \<le> length xs \<Longrightarrow> take h (splice_at h ys xs) = take h xs"
  by (simp add: splice_at_eq)

lemma take_splice_at_end:
  "h + length ys \<le> length xs \<Longrightarrow> take (h + length ys) (splice_at h ys xs) = take h xs @ ys"
  by (simp add: splice_at_eq)

lemma drop_splice_at [simp]:
  "h + length ys \<le> length xs \<Longrightarrow> t = h + length ys \<Longrightarrow> drop t (splice_at h ys xs) = drop t xs"
  by (simp add: splice_at_eq)

lemma take_segment: "h \<le> t \<Longrightarrow> take t xs = take h xs @ segment h t xs"
  by (metis le_add_diff_inverse segment_def take_add)

lemma set_segment_subset: "set (segment h t xs) \<subseteq> set xs"
  unfolding segment_def by (meson set_drop_subset set_take_subset subset_trans)

lemma segment_update: "k < h \<or> t \<le> k \<Longrightarrow> segment h t (xs[k := x]) = segment h t xs"
  by (cases "k < h") (simp_all add: segment_def drop_take [symmetric])

lemma segment_whole [simp]: "segment 0 (length xs) xs = xs"
  by (simp add: segment_def)

text \<open>\<open>std::swap\<close> of two elements of an array.\<close>

definition swap_elems :: "nat \<Rightarrow> nat \<Rightarrow> 'a list \<Rightarrow> 'a list" where
  "swap_elems i j xs = xs[i := xs ! j, j := xs ! i]"

lemma length_swap_elems [simp]: "length (swap_elems i j xs) = length xs"
  by (simp add: swap_elems_def)

lemma nth_swap_elems:
  "i < length xs \<Longrightarrow> j < length xs \<Longrightarrow>
     swap_elems i j xs ! k = (if k = j then xs ! i else if k = i then xs ! j else xs ! k)"
  by (simp add: swap_elems_def nth_list_update)

lemma mset_zip_swap_elems:
  assumes "length xs = length ys" "i < length xs" "j < length xs"
  shows "mset (zip (swap_elems i j xs) (swap_elems i j ys)) = mset (zip xs ys)"
proof -
  have "zip (swap_elems i j xs) (swap_elems i j ys) =
      (zip xs ys)[i := zip xs ys ! j, j := zip xs ys ! i]"
    using assms by (simp add: swap_elems_def zip_update)
  moreover have "mset ((zip xs ys)[i := zip xs ys ! j, j := zip xs ys ! i]) = mset (zip xs ys)"
    by (rule mset_swap) (use assms in simp_all)
  ultimately show ?thesis by simp
qed

subsection \<open>Loops over an index range\<close>

text \<open>\<open>for (i = 0; i < n; ++i) body\<close> is \<open>fold body [0..<n]\<close>; its invariant rule.\<close>

lemma fold_upt_invariant:
  assumes "P 0 s"
    and "\<And>i s. i < n \<Longrightarrow> P i s \<Longrightarrow> P (Suc i) (f i s)"
  shows "P n (fold f [0..<n] s)"
  using assms(2)
proof (induction n)
  case 0
  then show ?case using assms(1) by simp
next
  case (Suc n)
  then have "P n (fold f [0..<n] s)" by simp
  with Suc.prems show ?case by simp
qed

lemma sum_list_map_upt_Suc: "sum_list (map f [0..<Suc n]) = sum_list (map f [0..<n]) + (f n :: nat)"
  by simp

end
