(* ===== verification/Memory.thy ===== *)
theory Memory
  imports Prelude "HOL-Library.Monad_Syntax"
begin

text \<open>
  src/memory/memory_object.*, memory_reference.* and memory_manager.*: reference-counted buffers
  with a lock count. \<open>mem_state\<close> is one MemoryManager with the MemoryObjects it handed out and the
  LockedMemoryReference and MemoryReference variables of the program, which are slots of two
  lists; a slot that is not constructed, moved from or destroyed holds no object. A
  \<open>std::shared_ptr\<close> is a share of \<open>use_count\<close>: the object is destroyed with its last share.

  \<open>nd\<close> is the NDEBUG switch of the build: an assertion that fails is \<open>None\<close>, and with \<open>nd\<close> no
  assertion is evaluated. What \<open>Topology::allocate_membind\<close> returns is an argument of the
  allocation. Logging calls have no effect on this state and are left out.
\<close>

datatype AffinityMode = AffinityNONE | AffinityCOMPACT | AffinitySCATTER

record memory_object =
  lock_count :: size_type
  self_identifier :: identifier_type
  buffer_size :: size_type
  object_locality :: identifier_type
  object_pointer :: addr
  use_count :: nat

record memory_reference =
  mr_object :: "identifier_type option"
  mr_identifier :: identifier_type

record mem_state =
  affinity_mode :: AffinityMode
  managed_objects :: "identifier_type set"
  next_identifier :: identifier_type
  total_memory_usage :: size_type
  assert_on_release :: bool
  objects :: "identifier_type \<rightharpoonup> memory_object"
  locked :: "identifier_type option list"
  mrefs :: "memory_reference list"

definition check :: "bool \<Rightarrow> bool \<Rightarrow> unit option" where
  "check nd c = (if nd \<or> c then Some () else None)"

definition null_reference :: memory_reference where
  "null_reference = \<lparr>mr_object = None, mr_identifier = invalid_id\<rparr>"

definition new_memory_manager :: "AffinityMode \<Rightarrow> nat \<Rightarrow> nat \<Rightarrow> mem_state" where
  "new_memory_manager mode nl nr =
     \<lparr>affinity_mode = mode, managed_objects = {}, next_identifier = 0, total_memory_usage = 0,
      assert_on_release = False, objects = Map.empty,
      locked = replicate nl None, mrefs = replicate nr null_reference\<rparr>"

subsection \<open>MemoryObject\<close>

definition update_object :: "identifier_type \<Rightarrow> (memory_object \<Rightarrow> memory_object) \<Rightarrow> mem_state \<Rightarrow> mem_state" where
  "update_object i f s = s\<lparr>objects := (objects s)(i := map_option f (objects s i))\<rparr>"

definition object_lock :: "identifier_type \<Rightarrow> mem_state \<Rightarrow> mem_state" where
  "object_lock i s = update_object i (\<lambda>ob. ob\<lparr>lock_count := lock_count ob + 1\<rparr>) s"

text \<open>
  \<open>assert(m_lock_count-- > 0)\<close>: the decrement is inside the assertion, so with NDEBUG it is not
  executed.
\<close>

definition object_unlock :: "bool \<Rightarrow> identifier_type \<Rightarrow> mem_state \<Rightarrow> mem_state option" where
  "object_unlock nd i s =
     (if nd then Some s
      else case objects s i of
        None \<Rightarrow> None
      | Some ob \<Rightarrow> (if 0 < lock_count ob
                    then Some (update_object i (\<lambda>ob. ob\<lparr>lock_count := lock_count ob - 1\<rparr>) s) else None))"

definition notify_release :: "bool \<Rightarrow> identifier_type \<Rightarrow> size_type \<Rightarrow> mem_state \<Rightarrow> mem_state option" where
  "notify_release nd i sz s = do {
     check nd (i \<in> managed_objects s);
     let s' = s\<lparr>managed_objects := managed_objects s - {i},
                total_memory_usage := sz_sub (total_memory_usage s) sz\<rparr>;
     check nd (\<not> assert_on_release s');
     Some s'
   }"

text \<open>The destructor, run when the last share goes; then the object is gone.\<close>

definition destroy_object :: "bool \<Rightarrow> identifier_type \<Rightarrow> memory_object \<Rightarrow> mem_state \<Rightarrow> mem_state option" where
  "destroy_object nd i ob s = do {
     check nd (lock_count ob = 0);
     s' \<leftarrow> (if self_identifier ob \<noteq> invalid_id then notify_release nd (self_identifier ob) (buffer_size ob) s
            else Some s);
     Some (s'\<lparr>objects := (objects s')(i := None)\<rparr>)
   }"

definition share :: "identifier_type \<Rightarrow> mem_state \<Rightarrow> mem_state" where
  "share i s = update_object i (\<lambda>ob. ob\<lparr>use_count := use_count ob + 1\<rparr>) s"

definition drop_share :: "bool \<Rightarrow> identifier_type \<Rightarrow> mem_state \<Rightarrow> mem_state option" where
  "drop_share nd i s =
     (case objects s i of
        None \<Rightarrow> None
      | Some ob \<Rightarrow> (if use_count ob = 1 then destroy_object nd i ob s
                    else Some (update_object i (\<lambda>ob. ob\<lparr>use_count := use_count ob - 1\<rparr>) s)))"

text \<open>The same on a pointer that may be null.\<close>

definition lock_opt :: "identifier_type option \<Rightarrow> mem_state \<Rightarrow> mem_state" where
  "lock_opt v s = (case v of None \<Rightarrow> s | Some i \<Rightarrow> object_lock i s)"

definition unlock_opt :: "bool \<Rightarrow> identifier_type option \<Rightarrow> mem_state \<Rightarrow> mem_state option" where
  "unlock_opt nd v s = (case v of None \<Rightarrow> Some s | Some i \<Rightarrow> object_unlock nd i s)"

definition share_opt :: "identifier_type option \<Rightarrow> mem_state \<Rightarrow> mem_state" where
  "share_opt v s = (case v of None \<Rightarrow> s | Some i \<Rightarrow> share i s)"

definition drop_opt :: "bool \<Rightarrow> identifier_type option \<Rightarrow> mem_state \<Rightarrow> mem_state option" where
  "drop_opt nd v s = (case v of None \<Rightarrow> Some s | Some i \<Rightarrow> drop_share nd i s)"

subsection \<open>LockedMemoryReference\<close>

abbreviation set_locked :: "nat \<Rightarrow> identifier_type option \<Rightarrow> mem_state \<Rightarrow> mem_state" where
  "set_locked i v s \<equiv> s\<lparr>locked := (locked s)[i := v]\<rparr>"

text \<open>Construction from a \<open>shared_ptr\<close> (whose share it takes over) and by copy.\<close>

definition lmr_from_object :: "nat \<Rightarrow> identifier_type option \<Rightarrow> mem_state \<Rightarrow> mem_state" where
  "lmr_from_object i v s = set_locked i v (lock_opt v s)"

definition lmr_copy :: "nat \<Rightarrow> nat \<Rightarrow> mem_state \<Rightarrow> mem_state" where
  "lmr_copy i j s = (let v = locked s ! j in set_locked i v (lock_opt v (share_opt v s)))"

definition lmr_move :: "nat \<Rightarrow> nat \<Rightarrow> mem_state \<Rightarrow> mem_state" where
  "lmr_move i j s = s\<lparr>locked := (locked s)[j := None, i := locked s ! j]\<rparr>"

definition lmr_destroy :: "bool \<Rightarrow> nat \<Rightarrow> mem_state \<Rightarrow> mem_state option" where
  "lmr_destroy nd i s = do {
     let old = locked s ! i;
     s \<leftarrow> unlock_opt nd old (set_locked i None s);
     drop_opt nd old s
   }"

definition lmr_assign_copy :: "bool \<Rightarrow> nat \<Rightarrow> nat \<Rightarrow> mem_state \<Rightarrow> mem_state option" where
  "lmr_assign_copy nd i j s = do {
     let old = locked s ! i;
     let v = locked s ! j;
     s \<leftarrow> unlock_opt nd old (set_locked i None s);
     s \<leftarrow> drop_opt nd old (share_opt v s);
     Some (set_locked i v (lock_opt v s))
   }"

definition lmr_assign_move :: "bool \<Rightarrow> nat \<Rightarrow> nat \<Rightarrow> mem_state \<Rightarrow> mem_state option" where
  "lmr_assign_move nd i j s = do {
     let old = locked s ! i;
     s \<leftarrow> unlock_opt nd old (set_locked i None s);
     drop_opt nd old (lmr_move i j s)
   }"

definition lmr_valid :: "nat \<Rightarrow> mem_state \<Rightarrow> bool" where
  "lmr_valid i s \<longleftrightarrow> locked s ! i \<noteq> None"

definition lmr_object :: "nat \<Rightarrow> mem_state \<Rightarrow> memory_object option" where
  "lmr_object i s = Option.bind (locked s ! i) (objects s)"

definition lmr_identifier :: "nat \<Rightarrow> mem_state \<Rightarrow> identifier_type option" where
  "lmr_identifier i s = map_option self_identifier (lmr_object i s)"

definition lmr_locality :: "nat \<Rightarrow> mem_state \<Rightarrow> identifier_type option" where
  "lmr_locality i s = map_option object_locality (lmr_object i s)"

definition lmr_pointer :: "bool \<Rightarrow> nat \<Rightarrow> mem_state \<Rightarrow> addr option" where
  "lmr_pointer nd i s = do {
     ob \<leftarrow> lmr_object i s;
     check nd (0 < lock_count ob);
     Some (object_pointer ob)
   }"

subsection \<open>MemoryReference\<close>

abbreviation set_mref :: "nat \<Rightarrow> memory_reference \<Rightarrow> mem_state \<Rightarrow> mem_state" where
  "set_mref i v s \<equiv> s\<lparr>mrefs := (mrefs s)[i := v]\<rparr>"

definition mr_from_object :: "nat \<Rightarrow> identifier_type option \<Rightarrow> mem_state \<Rightarrow> mem_state" where
  "mr_from_object i v s =
     set_mref i \<lparr>mr_object = v, mr_identifier = (case Option.bind v (objects s) of
        None \<Rightarrow> invalid_id | Some ob \<Rightarrow> self_identifier ob)\<rparr> s"

definition mr_from_locked :: "nat \<Rightarrow> nat \<Rightarrow> mem_state \<Rightarrow> mem_state option" where
  "mr_from_locked i j s = do {
     ident \<leftarrow> lmr_identifier j s;
     let v = locked s ! j;
     Some (set_mref i \<lparr>mr_object = v, mr_identifier = ident\<rparr> (share_opt v s))
   }"

definition mr_from_locked_move :: "bool \<Rightarrow> nat \<Rightarrow> nat \<Rightarrow> mem_state \<Rightarrow> mem_state option" where
  "mr_from_locked_move nd i j s =
     (let v = locked s ! j in unlock_opt nd v (mr_from_object i v (set_locked j None s)))"

definition mr_copy :: "nat \<Rightarrow> nat \<Rightarrow> mem_state \<Rightarrow> mem_state" where
  "mr_copy i j s = (let r = mrefs s ! j in set_mref i r (share_opt (mr_object r) s))"

definition mr_move :: "nat \<Rightarrow> nat \<Rightarrow> mem_state \<Rightarrow> mem_state" where
  "mr_move i j s = s\<lparr>mrefs := (mrefs s)[j := null_reference, i := mrefs s ! j]\<rparr>"

definition mr_destroy :: "bool \<Rightarrow> nat \<Rightarrow> mem_state \<Rightarrow> mem_state option" where
  "mr_destroy nd i s = drop_opt nd (mr_object (mrefs s ! i)) (set_mref i null_reference s)"

definition mr_assign_copy :: "bool \<Rightarrow> nat \<Rightarrow> nat \<Rightarrow> mem_state \<Rightarrow> mem_state option" where
  "mr_assign_copy nd i j s =
     (let r = mrefs s ! j in
      drop_opt nd (mr_object (mrefs s ! i)) (set_mref i r (share_opt (mr_object r) s)))"

definition mr_assign_move :: "bool \<Rightarrow> nat \<Rightarrow> nat \<Rightarrow> mem_state \<Rightarrow> mem_state option" where
  "mr_assign_move nd i j s = drop_opt nd (mr_object (mrefs s ! i)) (mr_move i j s)"

definition mr_valid :: "nat \<Rightarrow> mem_state \<Rightarrow> bool" where
  "mr_valid i s \<longleftrightarrow> mr_identifier (mrefs s ! i) \<noteq> invalid_id"

definition mr_size :: "nat \<Rightarrow> mem_state \<Rightarrow> size_type option" where
  "mr_size i s = map_option buffer_size (Option.bind (mr_object (mrefs s ! i)) (objects s))"

definition mr_locality :: "nat \<Rightarrow> mem_state \<Rightarrow> identifier_type option" where
  "mr_locality i s = map_option object_locality (Option.bind (mr_object (mrefs s ! i)) (objects s))"

text \<open>\<open>lock()\<close> of the MemoryReference in slot \<open>j\<close>, into the locked slot \<open>i\<close>.\<close>

definition mr_lock :: "nat \<Rightarrow> nat \<Rightarrow> mem_state \<Rightarrow> mem_state" where
  "mr_lock i j s = (let v = mr_object (mrefs s ! j) in lmr_from_object i v (share_opt v s))"

subsection \<open>MemoryManager\<close>

text \<open>
  Both \<open>allocate\<close> functions put the new reference into slot \<open>i\<close>; \<open>p\<close> is the memory that
  \<open>allocate_membind\<close> returned.
\<close>

definition allocate_object :: "nat \<Rightarrow> addr \<Rightarrow> size_type \<Rightarrow> identifier_type \<Rightarrow> mem_state \<Rightarrow> mem_state" where
  "allocate_object i p sz node s =
     (let new_id = next_identifier s;
          ob = \<lparr>lock_count = 0, self_identifier = new_id, buffer_size = sz, object_locality = node,
                object_pointer = p, use_count = 1\<rparr>
      in mr_from_object i (Some new_id)
           (s\<lparr>next_identifier := new_id + 1, objects := (objects s)(new_id \<mapsto> ob),
              managed_objects := insert new_id (managed_objects s),
              total_memory_usage := sz_add (total_memory_usage s) sz\<rparr>))"

definition allocate :: "nat \<Rightarrow> addr \<Rightarrow> size_type \<Rightarrow> mem_state \<Rightarrow> mem_state" where
  "allocate i p sz s = allocate_object i p sz 0 s"

definition allocate_on_node :: "nat \<Rightarrow> addr \<Rightarrow> size_type \<Rightarrow> identifier_type \<Rightarrow> mem_state \<Rightarrow> mem_state" where
  "allocate_on_node i p sz numa_node s =
     (if affinity_mode s = AffinityNONE then allocate i p sz s else allocate_object i p sz numa_node s)"

definition log_memory_leaks :: "mem_state \<Rightarrow> mem_state" where
  "log_memory_leaks s = s\<lparr>assert_on_release := True\<rparr>"

subsection \<open>The invariant of shares and locks\<close>

text \<open>
  \<open>U\<close> and \<open>L\<close> are the shares and locks that an operation in progress holds outside the slots:
  the \<open>shared_ptr\<close> temporaries, and locks of references whose slot is already taken over.
\<close>

definition opt_mset :: "'a option \<Rightarrow> 'a multiset" where
  "opt_mset v = (case v of None \<Rightarrow> {#} | Some x \<Rightarrow> {#x#})"

definition locked_ids :: "mem_state \<Rightarrow> identifier_type multiset" where
  "locked_ids s = \<Sum>\<^sub># (image_mset opt_mset (mset (locked s)))"

definition mref_ids :: "mem_state \<Rightarrow> identifier_type multiset" where
  "mref_ids s = \<Sum>\<^sub># (image_mset (opt_mset \<circ> mr_object) (mset (mrefs s)))"

definition total_size :: "(identifier_type \<rightharpoonup> memory_object) \<Rightarrow> nat" where
  "total_size obs = (\<Sum>i\<in>dom obs. buffer_size (the (obs i)))"

definition objects_ok :: "identifier_type multiset \<Rightarrow> identifier_type multiset \<Rightarrow> (identifier_type \<rightharpoonup> memory_object) \<Rightarrow> bool" where
  "objects_ok U L obs \<longleftrightarrow>
     dom obs = set_mset U \<and>
     (\<forall>i ob. obs i = Some ob \<longrightarrow>
        use_count ob = count U i \<and> lock_count ob = count L i \<and>
        self_identifier ob = i \<and> i \<noteq> invalid_id \<and> buffer_size ob < size_modulus)"

definition mem_ok :: "identifier_type multiset \<Rightarrow> identifier_type multiset \<Rightarrow> mem_state \<Rightarrow> bool" where
  "mem_ok U L s \<longleftrightarrow>
     L \<subseteq># U \<and> objects_ok (locked_ids s + mref_ids s + U) (locked_ids s + L) (objects s) \<and>
     managed_objects s = dom (objects s) \<and> (\<forall>i\<in>dom (objects s). i < next_identifier s) \<and>
     total_memory_usage s = total_size (objects s) mod size_modulus \<and> \<not> assert_on_release s \<and>
     (\<forall>r\<in>set (mrefs s). mr_identifier r = (case mr_object r of None \<Rightarrow> invalid_id | Some i \<Rightarrow> i))"

lemma opt_mset_simps [simp]: "opt_mset None = {#}" "opt_mset (Some x) = {#x#}"
  by (simp_all add: opt_mset_def)

lemma sum_mset_update:
  "i < length xs \<Longrightarrow>
     \<Sum>\<^sub># (image_mset f (mset (xs[i := v]))) + f (xs ! i) = \<Sum>\<^sub># (image_mset f (mset xs)) + f v"
proof (induction xs arbitrary: i)
  case (Cons x xs)
  then show ?case by (cases i) (auto simp: ac_simps)
qed simp

lemma locked_ids_update:
  "i < length (locked s) \<Longrightarrow> locked_ids (set_locked i v s) + opt_mset (locked s ! i) = locked_ids s + opt_mset v"
  by (simp add: locked_ids_def sum_mset_update)

lemma mref_ids_update:
  "i < length (mrefs s) \<Longrightarrow>
     mref_ids (set_mref i v s) + opt_mset (mr_object (mrefs s ! i)) = mref_ids s + opt_mset (mr_object v)"
  using sum_mset_update [of i "mrefs s" "opt_mset \<circ> mr_object" v] by (simp add: mref_ids_def)

lemma ids_frame [simp]:
  "locked_ids (update_object i f s) = locked_ids s" "mref_ids (update_object i f s) = mref_ids s"
  "locked_ids (set_mref k r s) = locked_ids s" "mref_ids (set_locked k v s) = mref_ids s"
  "locked (update_object i f s) = locked s" "mrefs (update_object i f s) = mrefs s"
  by (simp_all add: locked_ids_def mref_ids_def update_object_def)

text \<open>Exchanging the content of a slot moves shares and locks between the slot and the operation.\<close>

lemma mem_ok_set_locked:
  assumes ok: "mem_ok (U + opt_mset v) (L + opt_mset v) s" and i: "i < length (locked s)"
  shows "mem_ok (U + opt_mset (locked s ! i)) (L + opt_mset (locked s ! i)) (set_locked i v s)"
proof -
  note upd = locked_ids_update [OF i, of v]
  have e: "locked_ids (set_locked i v s) + mref_ids s + (U + opt_mset (locked s ! i)) =
      locked_ids s + mref_ids s + (U + opt_mset v)"
    "locked_ids (set_locked i v s) + (L + opt_mset (locked s ! i)) = locked_ids s + (L + opt_mset v)"
    using upd by (metis (no_types, lifting) add.assoc add.commute)+
  have o: "objects_ok (locked_ids (set_locked i v s) + mref_ids s + (U + opt_mset (locked s ! i)))
      (locked_ids (set_locked i v s) + (L + opt_mset (locked s ! i))) (objects s)"
    unfolding e using ok unfolding mem_ok_def by blast
  have "L \<subseteq># U" using ok by (simp add: mem_ok_def)
  then show ?thesis using ok o unfolding mem_ok_def ids_frame by simp
qed

lemma mem_ok_set_mref:
  assumes ok: "mem_ok (U + opt_mset (mr_object v)) L s" and i: "i < length (mrefs s)" and L: "L \<subseteq># U"
    and v: "mr_identifier v = (case mr_object v of None \<Rightarrow> invalid_id | Some i \<Rightarrow> i)"
  shows "mem_ok (U + opt_mset (mr_object (mrefs s ! i))) L (set_mref i v s)"
proof -
  have e: "locked_ids s + mref_ids (set_mref i v s) + (U + opt_mset (mr_object (mrefs s ! i))) =
      locked_ids s + mref_ids s + (U + opt_mset (mr_object v))"
    using mref_ids_update [OF i, of v] by (metis (no_types, lifting) add.assoc add.commute)
  have o: "objects_ok (locked_ids s + mref_ids (set_mref i v s) + (U + opt_mset (mr_object (mrefs s ! i))))
      (locked_ids s + L) (objects s)"
    unfolding e using ok unfolding mem_ok_def by blast
  have "\<forall>r\<in>set ((mrefs s)[i := v]). mr_identifier r = (case mr_object r of None \<Rightarrow> invalid_id | Some i \<Rightarrow> i)"
    using ok v set_update_subset_insert [of "mrefs s" i v] unfolding mem_ok_def by blast
  moreover have "L \<subseteq># U + opt_mset (mr_object (mrefs s ! i))"
    using L by (rule subset_mset.order_trans) simp
  ultimately show ?thesis using ok o unfolding mem_ok_def by simp
qed

lemma objects_ok_update:
  assumes "objects_ok U L obs" "objects_ok U' L' (obs(i := map_option f (obs i)))" "\<And>ob. buffer_size (f ob) = buffer_size ob"
  shows "dom (obs(i := map_option f (obs i))) = dom obs" "total_size (obs(i := map_option f (obs i))) = total_size obs"
proof -
  show d: "dom (obs(i := map_option f (obs i))) = dom obs" by auto
  show "total_size (obs(i := map_option f (obs i))) = total_size obs"
    unfolding total_size_def d by (rule sum.cong) (use assms(3) in auto)
qed

lemma mem_ok_update_object:
  assumes ok: "mem_ok U L s" and "L' \<subseteq># U'"
    and "objects_ok (locked_ids s + mref_ids s + U') (locked_ids s + L') ((objects s)(i := map_option f (objects s i)))"
    and f: "\<And>ob. buffer_size (f ob) = buffer_size ob"
  shows "mem_ok U' L' (update_object i f s)"
proof -
  have "locked_ids (update_object i f s) = locked_ids s" "mref_ids (update_object i f s) = mref_ids s" by simp_all
  moreover have o: "objects (update_object i f s) = (objects s)(i := map_option f (objects s i))"
    by (simp add: update_object_def)
  moreover note upd = objects_ok_update [OF _ assms(3) f, of "locked_ids s + mref_ids s + U" "locked_ids s + L"]
  moreover have "objects_ok (locked_ids s + mref_ids s + U) (locked_ids s + L) (objects s)"
    using ok by (simp add: mem_ok_def)
  ultimately show ?thesis using assms unfolding mem_ok_def o
    by (simp add: update_object_def)
qed

lemma mem_ok_pending:
  assumes "mem_ok U L s" "i \<in># U"
  shows "\<exists>ob. objects s i = Some ob \<and> lock_count ob = count (locked_ids s + L) i \<and>
    use_count ob = count (locked_ids s + mref_ids s + U) i"
proof -
  have "i \<in> dom (objects s)" using assms unfolding mem_ok_def objects_ok_def by auto
  then obtain ob where "objects s i = Some ob" by blast
  with assms show ?thesis unfolding mem_ok_def objects_ok_def by auto
qed

lemma mem_ok_lock:
  assumes "mem_ok U L s" "L + {#i#} \<subseteq># U"
  shows "mem_ok U (L + {#i#}) (object_lock i s)"
  unfolding object_lock_def
  by (rule mem_ok_update_object [OF assms]) (use assms in \<open>auto simp: mem_ok_def objects_ok_def\<close>)

lemma mem_ok_unlock:
  assumes ok: "mem_ok U (L + {#i#}) s"
  shows "\<exists>s'. object_unlock False i s = Some s' \<and> mem_ok U L s' \<and> locked s' = locked s \<and> mrefs s' = mrefs s"
proof -
  have sub: "L + {#i#} \<subseteq># U" using ok by (simp add: mem_ok_def)
  then have iU: "i \<in># U" and L: "L \<subseteq># U"
    by (metis mset_subset_eqD add_mset_add_single union_single_eq_member,
        metis mset_subset_eq_add_left subset_mset.order_trans)
  obtain ob where ob: "objects s i = Some ob" "lock_count ob = count (locked_ids s + (L + {#i#})) i"
    using mem_ok_pending [OF ok iU] by blast
  have "mem_ok U L (update_object i (\<lambda>ob. ob\<lparr>lock_count := lock_count ob - 1\<rparr>) s)"
    by (rule mem_ok_update_object [OF ok L]) (use ok in \<open>auto simp: mem_ok_def objects_ok_def\<close>)
  with ob show ?thesis by (simp add: object_unlock_def)
qed

lemma mem_ok_share:
  assumes "mem_ok U L s" "i \<in> dom (objects s)"
  shows "mem_ok (U + {#i#}) L (share i s)"
  unfolding share_def
  by (rule mem_ok_update_object [OF assms(1)])
    (use assms in \<open>auto simp: mem_ok_def objects_ok_def intro: subset_mset.order_trans\<close>)

lemma total_size_remove:
  assumes "obs i = Some ob" "finite (dom obs)"
  shows "total_size obs = total_size (obs(i := None)) + buffer_size ob"
proof -
  have "total_size obs = buffer_size (the (obs i)) + (\<Sum>j\<in>dom obs - {i}. buffer_size (the (obs j)))"
    unfolding total_size_def using assms by (intro sum.remove) auto
  also have "(\<Sum>j\<in>dom obs - {i}. buffer_size (the (obs j))) = total_size (obs(i := None))"
    unfolding total_size_def by (rule sum.cong) auto
  finally show ?thesis using assms(1) by simp
qed

lemma sz_sub_mod_add: "b < size_modulus \<Longrightarrow> sz_sub ((a + b) mod size_modulus) b = a mod size_modulus"
proof -
  assume b: "b < size_modulus"
  have "int (sz_sub ((a + b) mod size_modulus) b) = (int ((a + b) mod size_modulus) - int b) mod int size_modulus"
  proof (cases "b \<le> (a + b) mod size_modulus")
    case True
    then show ?thesis by (simp add: sz_sub_def of_nat_diff zmod_int)
  next
    case False
    then have "int ((a + b) mod size_modulus + size_modulus - b) = int ((a + b) mod size_modulus) - int b + int size_modulus"
      using b by simp
    then show ?thesis using False by (simp add: sz_sub_def zmod_int)
  qed
  also have "\<dots> = int (a mod size_modulus)" by (simp add: zmod_int mod_diff_left_eq)
  finally show ?thesis by simp
qed

lemma mem_ok_drop:
  assumes ok: "mem_ok (U + {#i#}) L s" and L: "L \<subseteq># U"
  shows "\<exists>s'. drop_share False i s = Some s' \<and> mem_ok U L s' \<and> locked s' = locked s \<and> mrefs s' = mrefs s"
proof -
  obtain ob where ob: "objects s i = Some ob" "lock_count ob = count (locked_ids s + L) i"
    "use_count ob = count (locked_ids s + mref_ids s + (U + {#i#})) i"
    using mem_ok_pending [OF ok, of i] by auto
  note ok' = ok[unfolded mem_ok_def objects_ok_def]
  show ?thesis
  proof (cases "use_count ob = 1")
    case False
    have "mem_ok U L (update_object i (\<lambda>ob. ob\<lparr>use_count := use_count ob - 1\<rparr>) s)"
      by (rule mem_ok_update_object [OF ok L]) (use ok False ob in \<open>auto simp: mem_ok_def objects_ok_def\<close>)
    moreover have "drop_share False i s = Some (update_object i (\<lambda>ob. ob\<lparr>use_count := use_count ob - 1\<rparr>) s)"
      using ob(1) False by (simp add: drop_share_def)
    ultimately show ?thesis by simp
  next
    case True
    then have zero: "count (locked_ids s) i = 0" "count (mref_ids s) i = 0" "count U i = 0"
      using ob(3) by simp_all
    then have Li: "count L i = 0" using L by (metis bot_nat_0.extremum_uniqueI mset_subset_eq_count)
    have self: "self_identifier ob = i" "i \<noteq> invalid_id" "buffer_size ob < size_modulus"
      using ok' ob(1) by auto
    let ?s = "s\<lparr>managed_objects := managed_objects s - {i},
      total_memory_usage := sz_sub (total_memory_usage s) (buffer_size ob),
      objects := (objects s)(i := None)\<rparr>"
    have drop: "drop_share False i s = Some ?s"
      using ok' ob zero Li self True
      by (simp add: drop_share_def destroy_object_def notify_release_def check_def insert_absorb)
    have ids: "locked_ids ?s = locked_ids s" "mref_ids ?s = mref_ids s"
      by (simp_all add: locked_ids_def mref_ids_def)
    have "total_memory_usage s = (total_size ((objects s)(i := None)) + buffer_size ob) mod size_modulus"
      using ok' total_size_remove [of "objects s", OF ob(1)] by simp
    then have tot: "sz_sub (total_memory_usage s) (buffer_size ob) = total_size ((objects s)(i := None)) mod size_modulus"
      using sz_sub_mod_add [OF self(3)] by simp
    have "dom ((objects s)(i := None)) = set_mset (locked_ids s + mref_ids s + U)"
      using ok' zero by (auto simp: count_eq_zero_iff)
    moreover have "use_count b = count (locked_ids s + mref_ids s + U) j \<and>
        lock_count b = count (locked_ids s + L) j \<and> self_identifier b = j \<and> j \<noteq> invalid_id \<and> buffer_size b < size_modulus"
      if b: "((objects s)(i := None)) j = Some b" for j b
      using ok' b by (auto split: if_splits)
    ultimately have "objects_ok (locked_ids s + mref_ids s + U) (locked_ids s + L) ((objects s)(i := None))"
      unfolding objects_ok_def by blast
    then have "mem_ok U L ?s"
      unfolding mem_ok_def ids using ok' L tot by auto
    with drop show ?thesis by simp
  qed
qed

lemmas mem_frame = locked_ids_def mref_ids_def mem_ok_def

lemma mem_ok_lock_opt: "mem_ok U L s \<Longrightarrow> L + opt_mset v \<subseteq># U \<Longrightarrow> mem_ok U (L + opt_mset v) (lock_opt v s)"
  by (cases v) (use mem_ok_lock in \<open>auto simp: lock_opt_def\<close>)

lemma mem_ok_unlock_opt:
  "mem_ok U (L + opt_mset v) s \<Longrightarrow>
     \<exists>s'. unlock_opt False v s = Some s' \<and> mem_ok U L s' \<and> locked s' = locked s \<and> mrefs s' = mrefs s"
  by (cases v) (use mem_ok_unlock in \<open>auto simp: unlock_opt_def\<close>)

lemma mem_ok_share_opt:
  "mem_ok U L s \<Longrightarrow> set_option v \<subseteq> dom (objects s) \<Longrightarrow> mem_ok (U + opt_mset v) L (share_opt v s)"
  by (cases v) (use mem_ok_share in \<open>auto simp: share_opt_def\<close>)

lemma mem_ok_drop_opt:
  "mem_ok (U + opt_mset v) L s \<Longrightarrow> L \<subseteq># U \<Longrightarrow>
     \<exists>s'. drop_opt False v s = Some s' \<and> mem_ok U L s' \<and> locked s' = locked s \<and> mrefs s' = mrefs s"
  by (cases v) (use mem_ok_drop in \<open>auto simp: drop_opt_def\<close>)

lemma slots_frame [simp]:
  "locked (lock_opt v s) = locked s" "mrefs (lock_opt v s) = mrefs s"
  "locked (share_opt v s) = locked s" "mrefs (share_opt v s) = mrefs s"
  by (cases v; simp add: lock_opt_def share_opt_def object_lock_def share_def)+

lemma slot_live:
  assumes "mem_ok U L s"
  shows "i < length (locked s) \<Longrightarrow> set_option (locked s ! i) \<subseteq> dom (objects s)"
    "i < length (mrefs s) \<Longrightarrow> set_option (mr_object (mrefs s ! i)) \<subseteq> dom (objects s)"
proof -
  have d: "dom (objects s) = set_mset (locked_ids s + mref_ids s + U)"
    using assms unfolding mem_ok_def objects_ok_def by blast
  have o: "set_option v = set_mset (opt_mset v)" for v :: "identifier_type option" by (cases v) auto
  show "set_option (locked s ! i) \<subseteq> dom (objects s)" if "i < length (locked s)"
    unfolding o d locked_ids_def using nth_mem [OF that] by auto
  show "set_option (mr_object (mrefs s ! i)) \<subseteq> dom (objects s)" if "i < length (mrefs s)"
    unfolding o d mref_ids_def using nth_mem [OF that] by fastforce
qed

lemma objects_share_opt [simp]: "dom (objects (share_opt v s)) = dom (objects s)"
  by (cases v) (auto simp: share_opt_def share_def update_object_def split: if_splits)

text \<open>The operations, each from a state without pending shares or locks to such a state.\<close>

abbreviation mem_inv :: "mem_state \<Rightarrow> bool" where
  "mem_inv s \<equiv> mem_ok {#} {#} s"

lemma lmr_copy_ok:
  assumes "mem_inv s" "i < length (locked s)" "j < length (locked s)" "locked s ! i = None"
  shows "mem_inv (lmr_copy i j s)"
proof -
  let ?v = "locked s ! j"
  have "mem_ok (opt_mset ?v) {#} (share_opt ?v s)"
    using mem_ok_share_opt [OF assms(1) slot_live(1) [OF assms(1,3)]] by simp
  then have "mem_ok (opt_mset ?v) (opt_mset ?v) (lock_opt ?v (share_opt ?v s))"
    using mem_ok_lock_opt [of "opt_mset ?v" "{#}"] by simp
  then show ?thesis
    using mem_ok_set_locked [of "{#}" ?v "{#}" "lock_opt ?v (share_opt ?v s)" i] assms
    by (simp add: lmr_copy_def Let_def)
qed

lemma take_locked:
  assumes "mem_inv s" "i < length (locked s)"
  shows "mem_ok (opt_mset (locked s ! i)) (opt_mset (locked s ! i)) (set_locked i None s)"
  using mem_ok_set_locked [of "{#}" None "{#}" s i] assms by simp

lemma take_unlock:
  assumes "mem_inv s" "i < length (locked s)"
  shows "\<exists>s'. unlock_opt False (locked s ! i) (set_locked i None s) = Some s' \<and>
    mem_ok (opt_mset (locked s ! i)) {#} s' \<and> locked s' = (locked s)[i := None] \<and> mrefs s' = mrefs s"
  using mem_ok_unlock_opt [of _ "{#}" "locked s ! i" "set_locked i None s"] take_locked [OF assms] by simp

lemma lmr_destroy_ok:
  assumes "mem_inv s" "i < length (locked s)"
  shows "\<exists>s'. lmr_destroy False i s = Some s' \<and> mem_inv s'"
proof -
  obtain s1 where s1: "unlock_opt False (locked s ! i) (set_locked i None s) = Some s1"
    "mem_ok (opt_mset (locked s ! i)) {#} s1"
    using take_unlock [OF assms] by blast
  from mem_ok_drop_opt [of "{#}" "locked s ! i" "{#}" s1] s1 show ?thesis
    by (auto simp: lmr_destroy_def Let_def)
qed

lemma lmr_move_ok:
  assumes ok: "mem_ok U {#} s" and i: "i < length (locked s)" "j < length (locked s)" "locked s ! i = None"
  shows "mem_ok U {#} (lmr_move i j s)"
proof (cases "i = j")
  case True
  moreover have "(locked s)[j := None] = locked s" using True i by (metis list_update_id)
  ultimately show ?thesis using ok i by (simp add: lmr_move_def)
next
  case False
  let ?v = "locked s ! j" and ?s = "set_locked j None s"
  have "mem_ok (U + opt_mset ?v) (opt_mset ?v) ?s"
    using mem_ok_set_locked [of U None "{#}" s j] assms by simp
  then have "mem_ok (U + opt_mset (locked ?s ! i)) (opt_mset (locked ?s ! i)) (set_locked i ?v ?s)"
    using mem_ok_set_locked [of U ?v "{#}" ?s i] i by simp
  then show ?thesis using False i by (simp add: lmr_move_def)
qed

lemma lmr_assign_copy_ok:
  assumes "mem_inv s" "i < length (locked s)" "j < length (locked s)"
  shows "\<exists>s'. lmr_assign_copy False i j s = Some s' \<and> mem_inv s'"
proof -
  let ?o = "locked s ! i" and ?v = "locked s ! j"
  obtain s1 where s1: "unlock_opt False ?o (set_locked i None s) = Some s1"
    "mem_ok (opt_mset ?o) {#} s1" "locked s1 = (locked s)[i := None]"
    using take_unlock [OF assms(1,2)] by blast
  have "set_option ?v \<subseteq> dom (objects s1)"
  proof (cases "i = j")
    case True
    then show ?thesis using s1(2) mem_ok_pending [OF s1(2)] by (cases ?o) auto
  next
    case False
    then show ?thesis using slot_live(1) [OF s1(2), of j] s1(3) assms by simp
  qed
  then have "mem_ok (opt_mset ?o + opt_mset ?v) {#} (share_opt ?v s1)"
    by (rule mem_ok_share_opt [OF s1(2)])
  then obtain s2 where s2: "drop_opt False ?o (share_opt ?v s1) = Some s2" "mem_ok (opt_mset ?v) {#} s2"
    "locked s2 = locked s1"
    using mem_ok_drop_opt [of "opt_mset ?v" ?o "{#}" "share_opt ?v s1"] by (auto simp: ac_simps)
  then have "mem_ok (opt_mset ?v) (opt_mset ?v) (lock_opt ?v s2)"
    using mem_ok_lock_opt [of "opt_mset ?v" "{#}" s2 ?v] by simp
  then have "mem_inv (set_locked i ?v (lock_opt ?v s2))"
    using mem_ok_set_locked [of "{#}" ?v "{#}" "lock_opt ?v s2" i] s1(3) s2(3) assms by simp
  with s1 s2 show ?thesis by (auto simp: lmr_assign_copy_def Let_def)
qed

lemma lmr_assign_move_ok:
  assumes "mem_inv s" "i < length (locked s)" "j < length (locked s)" "i \<noteq> j"
  shows "\<exists>s'. lmr_assign_move False i j s = Some s' \<and> mem_inv s'"
proof -
  let ?o = "locked s ! i"
  obtain s1 where s1: "unlock_opt False ?o (set_locked i None s) = Some s1"
    "mem_ok (opt_mset ?o) {#} s1" "locked s1 = (locked s)[i := None]"
    using take_unlock [OF assms(1,2)] by blast
  then have "mem_ok (opt_mset ?o) {#} (lmr_move i j s1)"
    using lmr_move_ok [OF s1(2)] assms by simp
  from mem_ok_drop_opt [of "{#}" ?o "{#}" "lmr_move i j s1"] this s1 show ?thesis
    by (auto simp: lmr_assign_move_def Let_def)
qed

lemma mr_consistent:
  assumes "mem_ok U L s" "j < length (mrefs s)"
  shows "mr_identifier (mrefs s ! j) = (case mr_object (mrefs s ! j) of None \<Rightarrow> invalid_id | Some i \<Rightarrow> i)"
  using assms nth_mem unfolding mem_ok_def by blast

lemma mr_from_object_ok:
  assumes "mem_ok (U + opt_mset v) {#} s" "i < length (mrefs s)" "mr_object (mrefs s ! i) = None"
  shows "mem_ok U {#} (mr_from_object i v s)"
proof -
  have "(case Option.bind v (objects s) of None \<Rightarrow> invalid_id | Some ob \<Rightarrow> self_identifier ob) =
      (case v of None \<Rightarrow> invalid_id | Some i \<Rightarrow> i)"
  proof (cases v)
    case (Some x)
    then obtain ob where ob: "objects s x = Some ob" using mem_ok_pending [OF assms(1), of x] by auto
    then have "self_identifier ob = x" using assms(1) unfolding mem_ok_def objects_ok_def by blast
    with Some ob show ?thesis by simp
  qed simp
  then show ?thesis
    using mem_ok_set_mref [of U "\<lparr>mr_object = v, mr_identifier = (case v of None \<Rightarrow> invalid_id | Some i \<Rightarrow> i)\<rparr>" "{#}" s i]
      assms by (simp add: mr_from_object_def)
qed

lemma mr_from_locked_ok:
  assumes "mem_inv s" "i < length (mrefs s)" "j < length (locked s)" "mr_object (mrefs s ! i) = None"
    "locked s ! j \<noteq> None"
  shows "\<exists>s'. mr_from_locked i j s = Some s' \<and> mem_inv s'"
proof -
  obtain x where x: "locked s ! j = Some x" using assms(5) by blast
  then obtain ob where ob: "objects s x = Some ob" using slot_live(1) [OF assms(1,3)] by auto
  then have self: "self_identifier ob = x" using assms(1) unfolding mem_ok_def objects_ok_def by blast
  have "mem_ok {#x#} {#} (share_opt (Some x) s)"
    using mem_ok_share_opt [OF assms(1), of "Some x"] ob by auto
  then have "mem_inv (set_mref i \<lparr>mr_object = Some x, mr_identifier = x\<rparr> (share_opt (Some x) s))"
    using mem_ok_set_mref [of "{#}" "\<lparr>mr_object = Some x, mr_identifier = x\<rparr>" "{#}" "share_opt (Some x) s" i]
      assms by simp
  with x ob self show ?thesis
    by (simp add: mr_from_locked_def lmr_identifier_def lmr_object_def Let_def)
qed

lemma mr_from_locked_move_ok:
  assumes "mem_inv s" "i < length (mrefs s)" "j < length (locked s)" "mr_object (mrefs s ! i) = None"
  shows "\<exists>s'. mr_from_locked_move False i j s = Some s' \<and> mem_inv s'"
proof -
  let ?v = "locked s ! j" and ?s = "set_locked j None s"
  let ?r = "mr_from_object i ?v ?s"
  have "mem_ok (opt_mset ?v) (opt_mset ?v) ?s" by (rule take_locked [OF assms(1,3)])
  then obtain s1 where s1: "unlock_opt False ?v ?s = Some s1" "mem_ok (opt_mset ?v) {#} s1" "mrefs s1 = mrefs s"
    using mem_ok_unlock_opt [of "opt_mset ?v" "{#}" ?v ?s] by auto
  have obs: "map_option self_identifier (objects s1 x) = map_option self_identifier (objects ?s x)" for x
    using s1(1) by (cases ?v) (auto simp: unlock_opt_def object_unlock_def update_object_def split: if_splits option.splits)
  have comm: "unlock_opt False ?v (mr_from_object i ?v ?s) = Some (mr_from_object i ?v s1)"
  proof (cases ?v)
    case None
    with s1(1) show ?thesis by (simp add: unlock_opt_def)
  next
    case (Some x)
    have "(case objects s1 x of None \<Rightarrow> invalid_id | Some ob \<Rightarrow> self_identifier ob) =
        (case objects s x of None \<Rightarrow> invalid_id | Some ob \<Rightarrow> self_identifier ob)"
      using obs [of x] by (auto split: option.splits)
    then show ?thesis using Some s1(1)
      by (auto simp: unlock_opt_def object_unlock_def mr_from_object_def update_object_def split: option.splits if_splits)
  qed
  have "mem_inv (mr_from_object i ?v s1)"
    using mr_from_object_ok [of "{#}" ?v s1 i] s1 assms by simp
  with comm show ?thesis by (simp add: mr_from_locked_move_def Let_def)
qed

lemma mr_copy_ok:
  assumes "mem_inv s" "i < length (mrefs s)" "j < length (mrefs s)" "mr_object (mrefs s ! i) = None"
  shows "mem_inv (mr_copy i j s)"
proof -
  let ?r = "mrefs s ! j"
  have "mem_ok (opt_mset (mr_object ?r)) {#} (share_opt (mr_object ?r) s)"
    using mem_ok_share_opt [OF assms(1) slot_live(2) [OF assms(1,3)]] by simp
  then show ?thesis
    using mem_ok_set_mref [of "{#}" ?r "{#}" "share_opt (mr_object ?r) s" i] assms mr_consistent [OF assms(1,3)]
    by (simp add: mr_copy_def Let_def)
qed

lemma mr_move_ok:
  assumes ok: "mem_inv s" and i: "i < length (mrefs s)" "j < length (mrefs s)" and neq: "i \<noteq> j"
  shows "mem_ok (opt_mset (mr_object (mrefs s ! i))) {#} (mr_move i j s)"
proof -
  let ?v = "mrefs s ! j" and ?s = "set_mref j null_reference s"
  have null: "mr_object null_reference = None" "mr_identifier null_reference = invalid_id"
    by (simp_all add: null_reference_def)
  have "mem_ok (opt_mset (mr_object ?v)) {#} ?s"
    using mem_ok_set_mref [of "{#}" null_reference "{#}" s j] ok i null by simp
  then have "mem_ok (opt_mset (mr_object (mrefs ?s ! i))) {#} (set_mref i ?v ?s)"
    using mem_ok_set_mref [of "{#}" ?v "{#}" ?s i] i mr_consistent [OF ok i(2)] by simp
  then show ?thesis using neq i by (simp add: mr_move_def)
qed

lemma mr_destroy_ok:
  assumes "mem_inv s" "i < length (mrefs s)"
  shows "\<exists>s'. mr_destroy False i s = Some s' \<and> mem_inv s'"
proof -
  have "mem_ok (opt_mset (mr_object (mrefs s ! i))) {#} (set_mref i null_reference s)"
    using mem_ok_set_mref [of "{#}" null_reference "{#}" s i] assms by (simp add: null_reference_def)
  from mem_ok_drop_opt [of "{#}" "mr_object (mrefs s ! i)" "{#}", OF _ ] this show ?thesis
    by (auto simp: mr_destroy_def)
qed

lemma mr_assign_copy_ok:
  assumes "mem_inv s" "i < length (mrefs s)" "j < length (mrefs s)"
  shows "\<exists>s'. mr_assign_copy False i j s = Some s' \<and> mem_inv s'"
proof -
  let ?r = "mrefs s ! j"
  have "mem_ok (opt_mset (mr_object ?r)) {#} (share_opt (mr_object ?r) s)"
    using mem_ok_share_opt [OF assms(1) slot_live(2) [OF assms(1,3)]] by simp
  then have "mem_ok (opt_mset (mr_object (mrefs s ! i))) {#} (set_mref i ?r (share_opt (mr_object ?r) s))"
    using mem_ok_set_mref [of "{#}" ?r "{#}" "share_opt (mr_object ?r) s" i] assms mr_consistent [OF assms(1,3)]
    by simp
  from mem_ok_drop_opt [of "{#}" "mr_object (mrefs s ! i)" "{#}", OF _ ] this show ?thesis
    by (auto simp: mr_assign_copy_def Let_def)
qed

lemma mr_assign_move_ok:
  assumes "mem_inv s" "i < length (mrefs s)" "j < length (mrefs s)" "i \<noteq> j"
  shows "\<exists>s'. mr_assign_move False i j s = Some s' \<and> mem_inv s'"
  using mem_ok_drop_opt [of "{#}" "mr_object (mrefs s ! i)" "{#}" "mr_move i j s"] mr_move_ok [OF assms]
  by (auto simp: mr_assign_move_def)

lemma mr_lock_ok:
  assumes "mem_inv s" "i < length (locked s)" "j < length (mrefs s)" "locked s ! i = None"
  shows "mem_inv (mr_lock i j s)"
proof -
  let ?v = "mr_object (mrefs s ! j)"
  have "mem_ok (opt_mset ?v) {#} (share_opt ?v s)"
    using mem_ok_share_opt [OF assms(1) slot_live(2) [OF assms(1,3)]] by simp
  then have "mem_ok (opt_mset ?v) (opt_mset ?v) (lock_opt ?v (share_opt ?v s))"
    using mem_ok_lock_opt [of "opt_mset ?v" "{#}"] by simp
  then show ?thesis
    using mem_ok_set_locked [of "{#}" ?v "{#}" "lock_opt ?v (share_opt ?v s)" i] assms
    by (simp add: mr_lock_def lmr_from_object_def Let_def)
qed

lemma allocate_object_ok:
  assumes ok: "mem_inv s" and i: "i < length (mrefs s)" "mr_object (mrefs s ! i) = None"
    and n: "next_identifier s < invalid_id" and sz: "sz < size_modulus"
  shows "mem_inv (allocate_object i p sz node s)"
proof -
  let ?n = "next_identifier s"
  let ?ob = "\<lparr>lock_count = 0, self_identifier = ?n, buffer_size = sz, object_locality = node,
    object_pointer = p, use_count = 1\<rparr>"
  let ?s = "s\<lparr>next_identifier := ?n + 1, objects := (objects s)(?n \<mapsto> ?ob),
    managed_objects := insert ?n (managed_objects s), total_memory_usage := sz_add (total_memory_usage s) sz\<rparr>"
  note ok' = ok[unfolded mem_ok_def objects_ok_def]
  have new: "objects s ?n = None" using ok' by (meson domIff less_irrefl)
  have ids: "locked_ids ?s = locked_ids s" "mref_ids ?s = mref_ids s"
    by (simp_all add: locked_ids_def mref_ids_def)
  have zero: "?n \<notin># locked_ids s + mref_ids s" using ok' new by auto
  have "dom ((objects s)(?n \<mapsto> ?ob)) = set_mset (locked_ids s + mref_ids s + {#?n#})"
    using ok' by auto
  moreover have "use_count b = count (locked_ids s + mref_ids s + {#?n#}) j \<and>
      lock_count b = count (locked_ids s + {#}) j \<and> self_identifier b = j \<and> j \<noteq> invalid_id \<and> buffer_size b < size_modulus"
    if "((objects s)(?n \<mapsto> ?ob)) j = Some b" for j b
    using that ok' zero n sz by (auto simp: count_eq_zero_iff split: if_splits)
  ultimately have "objects_ok (locked_ids s + mref_ids s + {#?n#}) (locked_ids s + {#}) ((objects s)(?n \<mapsto> ?ob))"
    unfolding objects_ok_def by blast
  moreover have "total_size ((objects s)(?n \<mapsto> ?ob)) = total_size (objects s) + sz"
    using total_size_remove [of "(objects s)(?n \<mapsto> ?ob)" ?n ?ob] ok' new by (simp add: fun_upd_idem)
  then have "sz_add (total_memory_usage s) sz = total_size ((objects s)(?n \<mapsto> ?ob)) mod size_modulus"
    using ok' by (simp add: sz_add_def mod_add_left_eq)
  ultimately have "mem_ok ({#} + opt_mset (Some ?n)) {#} ?s"
    unfolding mem_ok_def ids using ok' by (auto simp: less_Suc_eq)
  from mr_from_object_ok [OF this] i show ?thesis
    by (simp add: allocate_object_def Let_def)
qed

subsection \<open>Programs over the references\<close>

text \<open>
  One operation on the slots, and when a program may issue it: a constructor writes a slot that
  holds nothing, the slots exist, and an object is not move-assigned to itself.
\<close>

datatype mem_op =
    Allocate nat addr size_type
  | AllocateOnNode nat addr size_type identifier_type
  | LmrCopy nat nat | LmrMove nat nat | LmrDestroy nat | LmrAssignCopy nat nat | LmrAssignMove nat nat
  | MrFromLocked nat nat | MrFromLockedMove nat nat
  | MrCopy nat nat | MrMove nat nat | MrDestroy nat | MrAssignCopy nat nat | MrAssignMove nat nat
  | MrLock nat nat

fun mem_step :: "bool \<Rightarrow> mem_op \<Rightarrow> mem_state \<Rightarrow> mem_state option" where
  "mem_step nd (Allocate i p sz) s = Some (allocate i p sz s)"
| "mem_step nd (AllocateOnNode i p sz node) s = Some (allocate_on_node i p sz node s)"
| "mem_step nd (LmrCopy i j) s = Some (lmr_copy i j s)"
| "mem_step nd (LmrMove i j) s = Some (lmr_move i j s)"
| "mem_step nd (LmrDestroy i) s = lmr_destroy nd i s"
| "mem_step nd (LmrAssignCopy i j) s = lmr_assign_copy nd i j s"
| "mem_step nd (LmrAssignMove i j) s = lmr_assign_move nd i j s"
| "mem_step nd (MrFromLocked i j) s = mr_from_locked i j s"
| "mem_step nd (MrFromLockedMove i j) s = mr_from_locked_move nd i j s"
| "mem_step nd (MrCopy i j) s = Some (mr_copy i j s)"
| "mem_step nd (MrMove i j) s = Some (mr_move i j s)"
| "mem_step nd (MrDestroy i) s = mr_destroy nd i s"
| "mem_step nd (MrAssignCopy i j) s = mr_assign_copy nd i j s"
| "mem_step nd (MrAssignMove i j) s = mr_assign_move nd i j s"
| "mem_step nd (MrLock i j) s = Some (mr_lock i j s)"

definition fresh_locked :: "nat \<Rightarrow> mem_state \<Rightarrow> bool" where
  "fresh_locked i s \<longleftrightarrow> i < length (locked s) \<and> locked s ! i = None"

definition fresh_mref :: "nat \<Rightarrow> mem_state \<Rightarrow> bool" where
  "fresh_mref i s \<longleftrightarrow> i < length (mrefs s) \<and> mr_object (mrefs s ! i) = None"

fun admissible :: "mem_op \<Rightarrow> mem_state \<Rightarrow> bool" where
  "admissible (Allocate i p sz) s \<longleftrightarrow> fresh_mref i s \<and> next_identifier s < invalid_id \<and> sz < size_modulus"
| "admissible (AllocateOnNode i p sz node) s \<longleftrightarrow>
     fresh_mref i s \<and> next_identifier s < invalid_id \<and> sz < size_modulus"
| "admissible (LmrCopy i j) s \<longleftrightarrow> fresh_locked i s \<and> j < length (locked s)"
| "admissible (LmrMove i j) s \<longleftrightarrow> fresh_locked i s \<and> j < length (locked s)"
| "admissible (LmrDestroy i) s \<longleftrightarrow> i < length (locked s)"
| "admissible (LmrAssignCopy i j) s \<longleftrightarrow> i < length (locked s) \<and> j < length (locked s)"
| "admissible (LmrAssignMove i j) s \<longleftrightarrow> i < length (locked s) \<and> j < length (locked s) \<and> i \<noteq> j"
| "admissible (MrFromLocked i j) s \<longleftrightarrow> fresh_mref i s \<and> j < length (locked s) \<and> locked s ! j \<noteq> None"
| "admissible (MrFromLockedMove i j) s \<longleftrightarrow> fresh_mref i s \<and> j < length (locked s)"
| "admissible (MrCopy i j) s \<longleftrightarrow> fresh_mref i s \<and> j < length (mrefs s)"
| "admissible (MrMove i j) s \<longleftrightarrow> fresh_mref i s \<and> j < length (mrefs s) \<and> i \<noteq> j"
| "admissible (MrDestroy i) s \<longleftrightarrow> i < length (mrefs s)"
| "admissible (MrAssignCopy i j) s \<longleftrightarrow> i < length (mrefs s) \<and> j < length (mrefs s)"
| "admissible (MrAssignMove i j) s \<longleftrightarrow> i < length (mrefs s) \<and> j < length (mrefs s) \<and> i \<noteq> j"
| "admissible (MrLock i j) s \<longleftrightarrow> fresh_locked i s \<and> j < length (mrefs s)"

inductive mem_reachable :: "AffinityMode \<Rightarrow> nat \<Rightarrow> nat \<Rightarrow> mem_state \<Rightarrow> bool" for mode nl nr where
  start: "mem_reachable mode nl nr (new_memory_manager mode nl nr)"
| step: "mem_reachable mode nl nr s \<Longrightarrow> admissible op s \<Longrightarrow> mem_step False op s = Some s' \<Longrightarrow>
    mem_reachable mode nl nr s'"

lemma new_memory_manager_ok: "mem_inv (new_memory_manager mode nl nr)"
proof -
  have "\<Sum>\<^sub># (image_mset opt_mset (mset (replicate n None))) = {#}" for n :: nat by (induction n) auto
  moreover have "\<Sum>\<^sub># (image_mset (opt_mset \<circ> mr_object) (mset (replicate n null_reference))) = {#}" for n :: nat
    by (induction n) (auto simp: null_reference_def)
  ultimately show ?thesis
    by (auto simp: mem_ok_def objects_ok_def new_memory_manager_def locked_ids_def mref_ids_def total_size_def
        null_reference_def)
qed

lemma mem_step_ok: "mem_inv s \<Longrightarrow> admissible op s \<Longrightarrow> \<exists>s'. mem_step False op s = Some s' \<and> mem_inv s'"
proof (cases op)
  case (MrMove i j)
  moreover assume "mem_inv s" "admissible op s"
  ultimately show ?thesis using mr_move_ok [of s i j] by (simp add: fresh_mref_def)
qed (auto simp: fresh_mref_def fresh_locked_def allocate_def allocate_on_node_def
    intro: allocate_object_ok lmr_copy_ok lmr_move_ok lmr_destroy_ok lmr_assign_copy_ok lmr_assign_move_ok
      mr_from_locked_ok mr_from_locked_move_ok mr_copy_ok mr_destroy_ok mr_assign_copy_ok mr_assign_move_ok mr_lock_ok)

lemma mem_reachable_inv: "mem_reachable mode nl nr s \<Longrightarrow> mem_inv s"
proof (induction rule: mem_reachable.induct)
  case (step s op s')
  then show ?case using mem_step_ok [of s op] by auto
qed (rule new_memory_manager_ok)

lemma count_opt_mset_sum: "count (\<Sum>\<^sub># (image_mset opt_mset (mset xs))) i = count_list xs (Some i)"
  by (induction xs) (auto split: option.splits simp: opt_mset_def)

lemma count_mref_ids: "count (mref_ids s) i = count_list (map mr_object (mrefs s)) (Some i)"
proof -
  have "mref_ids s = \<Sum>\<^sub># (image_mset opt_mset (mset (map mr_object (mrefs s))))"
    by (simp add: mref_ids_def multiset.map_comp)
  then show ?thesis by (simp only: count_opt_mset_sum)
qed

subsection \<open>The two builds side by side\<close>

text \<open>
  A run of a program in either build. \<open>relock f s\<close> is the state \<open>s\<close> with other lock counts: a run with
  NDEBUG stays in such a state of the run with assertions, where \<open>f\<close> counts the locks ever taken.
\<close>

fun mem_run :: "bool \<Rightarrow> mem_op list \<Rightarrow> mem_state \<Rightarrow> mem_state option" where
  "mem_run nd [] s = Some s"
| "mem_run nd (op # ops) s = Option.bind (mem_step nd op s) (mem_run nd ops)"

fun admissible_run :: "mem_op list \<Rightarrow> mem_state \<Rightarrow> bool" where
  "admissible_run [] s = True"
| "admissible_run (op # ops) s \<longleftrightarrow>
     admissible op s \<and> (case mem_step False op s of None \<Rightarrow> True | Some s' \<Rightarrow> admissible_run ops s')"

text \<open>The objects an operation calls \<open>lock\<close> of, and those a run does.\<close>

fun locks_of :: "mem_op \<Rightarrow> mem_state \<Rightarrow> identifier_type multiset" where
  "locks_of (LmrCopy i j) s = opt_mset (locked s ! j)"
| "locks_of (LmrAssignCopy i j) s = opt_mset (locked s ! j)"
| "locks_of (MrLock i j) s = opt_mset (mr_object (mrefs s ! j))"
| "locks_of op s = {#}"

fun locks_taken :: "mem_op list \<Rightarrow> mem_state \<Rightarrow> identifier_type multiset" where
  "locks_taken [] s = {#}"
| "locks_taken (op # ops) s = locks_of op s + (case mem_step False op s of None \<Rightarrow> {#} | Some s' \<Rightarrow> locks_taken ops s')"

definition relock :: "(identifier_type \<Rightarrow> size_type) \<Rightarrow> mem_state \<Rightarrow> mem_state" where
  "relock f s = s\<lparr>objects := \<lambda>i. map_option (lock_count_update (\<lambda>_. f i)) (objects s i)\<rparr>"

lemma relock_fields [simp]:
  "locked (relock f s) = locked s" "mrefs (relock f s) = mrefs s" "managed_objects (relock f s) = managed_objects s"
  "total_memory_usage (relock f s) = total_memory_usage s" "assert_on_release (relock f s) = assert_on_release s"
  "next_identifier (relock f s) = next_identifier s" "affinity_mode (relock f s) = affinity_mode s"
  "objects (relock f s) i = map_option (lock_count_update (\<lambda>_. f i)) (objects s i)"
  "(relock f s)\<lparr>locked := ls\<rparr> = relock f (s\<lparr>locked := ls\<rparr>)" "(relock f s)\<lparr>mrefs := rs\<rparr> = relock f (s\<lparr>mrefs := rs\<rparr>)"
  by (simp_all add: relock_def)

lemma relock_empty: "objects s = Map.empty \<Longrightarrow> relock f s = s"
  by (simp add: relock_def)

text \<open>What the primitive operations do to such a pair of states.\<close>

lemma relock_update_object:
  assumes "\<And>ob. lock_count_update (\<lambda>_. g i) (h' ob) = h (lock_count_update (\<lambda>_. f i) ob)" "\<And>j. j \<noteq> i \<Longrightarrow> g j = f j"
  shows "relock g (update_object i h' s) = update_object i h (relock f s)"
  by (cases s) (auto simp: relock_def update_object_def fun_eq_iff assms option.map_comp comp_def intro!: option.map_cong0)

lemma relock_lock: "lock_opt v (relock f s) = relock (\<lambda>i. f i + count (opt_mset v) i) (lock_opt v s)"
  by (cases v) (auto simp: lock_opt_def object_lock_def intro!: relock_update_object [symmetric])

lemma relock_share [simp]: "share_opt v (relock f s) = relock f (share_opt v s)"
  by (cases v) (auto simp: share_opt_def share_def intro!: relock_update_object [symmetric])

lemma relock_unlock:
  assumes "unlock_opt False v s = Some s'"
  shows "unlock_opt True v (relock f s) = Some (relock f s')"
proof (cases v)
  case (Some i)
  have "relock f (update_object i (\<lambda>ob. ob\<lparr>lock_count := lock_count ob - 1\<rparr>) s) = update_object i (\<lambda>ob. ob) (relock f s)"
    by (rule relock_update_object) simp_all
  also have "\<dots> = relock f s" by (simp add: update_object_def relock_def option.map_ident fun_upd_idem)
  finally show ?thesis using assms Some by (auto simp: unlock_opt_def object_unlock_def split: option.splits if_splits)
qed (use assms in \<open>simp add: unlock_opt_def\<close>)

lemma relock_destroy:
  "destroy_object False i ob s = Some s' \<Longrightarrow> destroy_object True i (ob\<lparr>lock_count := n\<rparr>) (relock f s) = Some (relock f s')"
  by (auto simp: destroy_object_def notify_release_def check_def Let_def relock_def fun_eq_iff bind_eq_Some_conv split: if_splits)

lemma relock_drop:
  assumes "drop_opt False v s = Some s'"
  shows "drop_opt True v (relock f s) = Some (relock f s')"
proof (cases v)
  case (Some i)
  have "relock f (update_object i (\<lambda>ob. ob\<lparr>use_count := use_count ob - 1\<rparr>) s) =
      update_object i (\<lambda>ob. ob\<lparr>use_count := use_count ob - 1\<rparr>) (relock f s)"
    by (rule relock_update_object) simp_all
  with assms Some show ?thesis
    by (auto simp: drop_opt_def drop_share_def intro!: relock_destroy split: option.splits if_splits)
qed (use assms in \<open>simp add: drop_opt_def\<close>)

text \<open>One operation: the build with NDEBUG adds the locks of it to the counts and changes nothing else.\<close>

lemma relock_from_object: "mr_from_object i v (relock f s) = relock f (mr_from_object i v s)"
  by (cases v) (auto simp: mr_from_object_def split: option.splits)

lemma relock_new_object:
  "f n = 0 \<Longrightarrow> lock_count ob = 0 \<Longrightarrow>
     (relock f s)\<lparr>next_identifier := k, objects := (objects (relock f s))(n \<mapsto> ob), managed_objects := M, total_memory_usage := t\<rparr> =
     relock f (s\<lparr>next_identifier := k, objects := (objects s)(n \<mapsto> ob), managed_objects := M, total_memory_usage := t\<rparr>)"
  by (cases s; cases ob) (auto simp: relock_def fun_eq_iff)

lemma relock_allocate: "f (next_identifier s) = 0 \<Longrightarrow> allocate_object i p sz node (relock f s) = relock f (allocate_object i p sz node s)"
  by (simp add: allocate_object_def Let_def relock_new_object relock_from_object)

lemma relock_move: "lmr_move i j (relock f s) = relock f (lmr_move i j s)" "mr_move i j (relock f s) = relock f (mr_move i j s)"
  by (simp_all add: lmr_move_def mr_move_def relock_def)

lemma mem_step_relock:
  assumes "mem_step False op s = Some s'" "f (next_identifier s) = 0"
  shows "mem_step True op (relock f s) = Some (relock (\<lambda>i. f i + count (locks_of op s) i) s')"
  using assms
  by (cases op) (auto simp: allocate_def allocate_on_node_def relock_allocate lmr_copy_def Let_def relock_lock relock_move
      lmr_destroy_def lmr_assign_copy_def lmr_assign_move_def mr_from_locked_def lmr_identifier_def lmr_object_def
      mr_from_locked_move_def relock_from_object mr_copy_def mr_destroy_def mr_assign_copy_def mr_assign_move_def mr_lock_def
      lmr_from_object_def bind_eq_Some_conv relock_unlock relock_drop dest!: relock_unlock [of _ _ _ f] relock_drop [of _ _ _ f])

lemma drop_next_identifier: "drop_opt nd v s = Some s' \<Longrightarrow> next_identifier s' = next_identifier s"
  by (cases v) (auto simp: drop_opt_def drop_share_def destroy_object_def notify_release_def check_def update_object_def Let_def
      bind_eq_Some_conv split: option.splits if_splits)

lemma unlock_next_identifier: "unlock_opt nd v s = Some s' \<Longrightarrow> next_identifier s' = next_identifier s"
  by (cases v) (auto simp: unlock_opt_def object_unlock_def update_object_def split: option.splits if_splits)

lemma lock_next_identifier [simp]:
  "next_identifier (lock_opt v s) = next_identifier s" "next_identifier (share_opt v s) = next_identifier s"
  by (cases v; simp add: lock_opt_def share_opt_def object_lock_def share_def update_object_def)+

lemma mem_step_next_identifier: "mem_step nd op s = Some s' \<Longrightarrow> next_identifier s \<le> next_identifier s'"
  by (cases op) (auto simp: allocate_def allocate_on_node_def allocate_object_def mr_from_object_def lmr_copy_def Let_def
      lmr_move_def mr_move_def lmr_destroy_def lmr_assign_copy_def lmr_assign_move_def mr_from_locked_def mr_from_locked_move_def
      mr_copy_def mr_destroy_def mr_assign_copy_def mr_assign_move_def mr_lock_def lmr_from_object_def bind_eq_Some_conv
      dest!: drop_next_identifier unlock_next_identifier)

lemma locks_of_live:
  assumes "mem_inv s" "admissible op s" "i \<in># locks_of op s"
  shows "i < next_identifier s"
proof -
  have "j < length (locked s) \<Longrightarrow> locked s ! j = Some i \<Longrightarrow> i \<in> dom (objects s)"
    "j < length (mrefs s) \<Longrightarrow> mr_object (mrefs s ! j) = Some i \<Longrightarrow> i \<in> dom (objects s)" for j
    using slot_live [OF assms(1), of j] by simp_all
  then have "i \<in> dom (objects s)"
    using assms(2,3) by (cases op) (simp_all add: opt_mset_def split: option.splits)
  then show ?thesis using assms(1) by (auto simp: mem_ok_def)
qed

lemma mem_run_relock:
  assumes "mem_inv s" "admissible_run ops s" "\<And>i. next_identifier s \<le> i \<Longrightarrow> f i = 0"
  shows "\<exists>s'. mem_run False ops s = Some s' \<and> mem_inv s' \<and>
     mem_run True ops (relock f s) = Some (relock (\<lambda>i. f i + count (locks_taken ops s) i) s')"
  using assms
proof (induction ops arbitrary: s f)
  case (Cons op ops)
  let ?g = "\<lambda>i. f i + count (locks_of op s) i"
  have adm: "admissible op s" using Cons.prems(2) by simp
  obtain s' where s': "mem_step False op s = Some s'" "mem_inv s'"
    using mem_step_ok [OF Cons.prems(1) adm] by blast
  have g: "?g i = 0" if "next_identifier s' \<le> i" for i
    using that mem_step_next_identifier [OF s'(1)] Cons.prems(3) [of i] locks_of_live [OF Cons.prems(1) adm, of i]
    by (auto simp: not_in_iff [symmetric])
  have "admissible_run ops s'" using Cons.prems(2) s'(1) by simp
  from Cons.IH [of s' ?g, OF s'(2) this g] obtain t where t: "mem_run False ops s' = Some t" "mem_inv t"
    "mem_run True ops (relock ?g s') = Some (relock (\<lambda>i. ?g i + count (locks_taken ops s') i) t)" by blast
  have step: "mem_step True op (relock f s) = Some (relock ?g s')"
    by (rule mem_step_relock [OF s'(1)]) (simp add: Cons.prems(3))
  have sum: "(\<lambda>i. ?g i + count (locks_taken ops s') i) = (\<lambda>i. f i + count (locks_taken (op # ops) s) i)"
    by (simp add: s'(1) add.assoc)
  have "mem_run True (op # ops) (relock f s) = Some (relock (\<lambda>i. f i + count (locks_taken (op # ops) s) i) t)"
    unfolding mem_run.simps step bind.simps t(3) sum ..
  moreover have "mem_run False (op # ops) s = Some t" using s'(1) t(1) by simp
  ultimately show ?case using t(2) by blast
qed simp

subsection \<open>Properties\<close>

text \<open>
  C5: with assertions enabled, no program of constructions, copies, moves, assignments, locks and
  destructions fails one of them, and after it every live object is locked by exactly the
  LockedMemoryReferences that refer to it and owned by exactly the references that refer to it; an
  object lives exactly as long as some reference does; the manager knows exactly the live objects
  and counts their bytes (modulo the width of the counter).
\<close>
theorem memory_reference_counts:
  assumes "mem_reachable mode nl nr s"
  shows "(\<forall>op. admissible op s \<longrightarrow> mem_step False op s \<noteq> None) \<and>
    managed_objects s = dom (objects s) \<and> total_memory_usage s = total_size (objects s) mod size_modulus \<and>
    (\<forall>i. i \<in> dom (objects s) \<longleftrightarrow> Some i \<in> set (locked s) \<or> Some i \<in> set (map mr_object (mrefs s))) \<and>
    (\<forall>i ob. objects s i = Some ob \<longrightarrow>
       lock_count ob = count_list (locked s) (Some i) \<and>
       use_count ob = count_list (locked s) (Some i) + count_list (map mr_object (mrefs s)) (Some i))"
proof -
  have inv: "mem_inv s" by (rule mem_reachable_inv [OF assms])
  then have o: "objects_ok (locked_ids s + mref_ids s) (locked_ids s) (objects s)"
    by (simp add: mem_ok_def)
  have cl: "count (locked_ids s) i = count_list (locked s) (Some i)" for i
    by (simp add: locked_ids_def count_opt_mset_sum)
  have cnt: "Some i \<in> set xs \<longleftrightarrow> 0 < count_list xs (Some i)" for i and xs :: "identifier_type option list"
    by (metis count_list_0_iff neq0_conv)
  have "i \<in> dom (objects s) \<longleftrightarrow> Some i \<in> set (locked s) \<or> Some i \<in> set (map mr_object (mrefs s))" for i
  proof -
    have "i \<in> dom (objects s) \<longleftrightarrow> 0 < count (locked_ids s) i \<or> 0 < count (mref_ids s) i"
      using o by (auto simp: objects_ok_def count_greater_zero_iff)
    then show ?thesis unfolding cl count_mref_ids cnt .
  qed
  moreover have "lock_count ob = count_list (locked s) (Some i) \<and>
      use_count ob = count_list (locked s) (Some i) + count_list (map mr_object (mrefs s)) (Some i)"
    if "objects s i = Some ob" for i ob
    using o that by (simp add: objects_ok_def cl count_mref_ids)
  moreover have "mem_step False op s \<noteq> None" if "admissible op s" for op
    using mem_step_ok [OF inv that] by auto
  ultimately show ?thesis using inv unfolding mem_ok_def by blast
qed

text \<open>One allocation, a lock of it and a copy of the lock.\<close>

definition sample_memory :: mem_state where
  "sample_memory = lmr_copy 1 0 (mr_lock 0 0 (allocate 0 4096 100 (new_memory_manager AffinityNONE 2 1)))"

lemma sample_memory_reachable: "mem_reachable AffinityNONE 2 1 sample_memory"
proof -
  have "mem_reachable AffinityNONE 2 1 (allocate 0 4096 100 (new_memory_manager AffinityNONE 2 1))"
    by (rule mem_reachable.step [OF mem_reachable.start, of "Allocate 0 4096 100"])
      (simp_all add: fresh_mref_def new_memory_manager_def null_reference_def size_modulus_def invalid_id_def)
  then have "mem_reachable AffinityNONE 2 1 (mr_lock 0 0 (allocate 0 4096 100 (new_memory_manager AffinityNONE 2 1)))"
    by (rule mem_reachable.step [of _ _ _ _ "MrLock 0 0"])
      (simp_all add: fresh_locked_def new_memory_manager_def allocate_def allocate_object_def mr_from_object_def)
  then show ?thesis unfolding sample_memory_def
    by (rule mem_reachable.step [of _ _ _ _ "LmrCopy 1 0"])
      (simp_all add: fresh_locked_def new_memory_manager_def allocate_def allocate_object_def mr_from_object_def
        mr_lock_def lmr_from_object_def Let_def numeral_2_eq_2)
qed

theorem memory_reference_counts_witness:
  "\<exists>ob. objects sample_memory 0 = Some ob \<and> lock_count ob = 2 \<and> use_count ob = 3 \<and>
     total_memory_usage sample_memory = total_size (objects sample_memory) mod size_modulus"
proof -
  have l: "locked sample_memory = [Some 0, Some 0]" "map mr_object (mrefs sample_memory) = [Some 0]"
    by (simp_all add: sample_memory_def new_memory_manager_def allocate_def allocate_object_def mr_from_object_def
        mr_lock_def lmr_from_object_def lmr_copy_def Let_def numeral_2_eq_2 lock_opt_def share_opt_def object_lock_def share_def)
  from memory_reference_counts [OF sample_memory_reachable, unfolded l]
  have "0 \<in> dom (objects sample_memory)" "total_memory_usage sample_memory = total_size (objects sample_memory) mod size_modulus"
    "\<And>ob. objects sample_memory 0 = Some ob \<Longrightarrow> lock_count ob = 2 \<and> use_count ob = 3"
    by simp_all
  then show ?thesis by blast
qed

text \<open>
  C6: the decrement of \<open>unlock\<close> is inside an assertion, so with NDEBUG it is not executed. For every program
  of reference operations that may be issued: the build with NDEBUG runs through the same states as the one
  with assertions (same references, live objects, sizes, owners and counters of the manager) except for the
  lock counts, and there the count of an object is the number of times it was ever locked, while with
  assertions it is the number of LockedMemoryReferences that refer to it now. (A lock count here has no
  width: the statement is about programs of fewer than \<open>2 ^ 64\<close> locks.)
\<close>
theorem unlock_lost_with_ndebug:
  assumes "admissible_run ops (new_memory_manager mode nl nr)"
  shows "\<exists>s. mem_run False ops (new_memory_manager mode nl nr) = Some s \<and>
    mem_run True ops (new_memory_manager mode nl nr) = Some (relock (count (locks_taken ops (new_memory_manager mode nl nr))) s) \<and>
    (\<forall>i ob. objects s i = Some ob \<longrightarrow> lock_count ob = count_list (locked s) (Some i))"
proof -
  let ?s = "new_memory_manager mode nl nr"
  have e: "relock (\<lambda>i. 0) ?s = ?s" by (rule relock_empty) (simp add: new_memory_manager_def)
  obtain s where s: "mem_run False ops ?s = Some s" "mem_inv s"
    "mem_run True ops (relock (\<lambda>i. 0) ?s) = Some (relock (\<lambda>i. 0 + count (locks_taken ops ?s) i) s)"
    using mem_run_relock [OF new_memory_manager_ok assms, of "\<lambda>i. 0"] by blast
  have "lock_count ob = count_list (locked s) (Some i)" if "objects s i = Some ob" for i ob
    using s(2) that by (simp add: mem_ok_def objects_ok_def locked_ids_def count_opt_mset_sum)
  then show ?thesis using s(1,3) unfolding e by auto
qed

text \<open>An allocation that is locked and released twice.\<close>

theorem unlock_lost_with_ndebug_witness:
  "\<exists>s ob. mem_run True [Allocate 0 4096 100, MrLock 0 0, LmrDestroy 0, MrLock 0 0, LmrDestroy 0]
       (new_memory_manager AffinityNONE 1 1) = Some s \<and>
     locked s = [None] \<and> objects s 0 = Some ob \<and> lock_count ob = 2"
proof -
  let ?ops = "[Allocate 0 4096 100, MrLock 0 0, LmrDestroy 0, MrLock 0 0, LmrDestroy 0]"
  let ?s = "new_memory_manager AffinityNONE 1 1"
  note ops = new_memory_manager_def allocate_def allocate_object_def mr_from_object_def mr_lock_def lmr_from_object_def
    lmr_destroy_def Let_def lock_opt_def share_opt_def unlock_opt_def drop_opt_def object_lock_def share_def object_unlock_def
    drop_share_def update_object_def fresh_mref_def fresh_locked_def null_reference_def size_modulus_def invalid_id_def
  have "admissible_run ?ops ?s" by (simp add: ops)
  then obtain s where s: "mem_run False ?ops ?s = Some s" "mem_run True ?ops ?s = Some (relock (count (locks_taken ?ops ?s)) s)"
    using unlock_lost_with_ndebug [of ?ops AffinityNONE 1 1] by blast
  have "locks_taken ?ops ?s = {#0, 0#}" by (simp add: ops)
  moreover have "locked s = [None]" "\<exists>ob. objects s 0 = Some ob" using s(1) by (auto simp: ops)
  ultimately show ?thesis using s(2) by auto
qed

end
