(* ===== verification/Configuration.thy ===== *)
theory Configuration
  imports Memory
begin

text \<open>
  The machine and the user's settings: \<open>Topology\<close> (system/topology.hpp and .cpp) as the processing
  units and NUMA nodes it found, and \<open>Configuration\<close> (api/configuration.cpp). What hwloc answers is a
  parameter: \<open>pus\<close> and \<open>nodes\<close> are the units and nodes a thread can be bound to, \<open>parent\<close> the logical
  index of the NUMA node above a unit.
\<close>

subsection \<open>Topology\<close>

record topology =
  available_processing_units :: "identifier_type list"
  available_numa_nodes :: "identifier_type list"
  processing_units_per_node :: "size_type list"

text \<open>Position of the first occurrence, the length when there is none: \<open>std::find\<close>.\<close>

fun find_index :: "'a \<Rightarrow> 'a list \<Rightarrow> nat" where
  "find_index x [] = 0"
| "find_index x (y # ys) = (if y = x then 0 else Suc (find_index x ys))"

definition increment_at :: "nat \<Rightarrow> size_type list \<Rightarrow> size_type list option" where
  "increment_at i xs = (if i < length xs then Some (xs[i := xs ! i + 1]) else None)"

definition count_unit :: "identifier_type list \<Rightarrow> (identifier_type \<Rightarrow> identifier_type option) \<Rightarrow> identifier_type \<Rightarrow>
    size_type list \<Rightarrow> size_type list option" where
  "count_unit nodes parent pu per_node =
     (if length nodes = 1 then increment_at 0 per_node
      else case parent pu of
             Some i \<Rightarrow> increment_at (find_index i nodes) per_node
           | None \<Rightarrow> increment_at 0 per_node)"

text \<open>The constructor with hwloc; \<open>None\<close> is a write behind the end of the counter vector.\<close>

definition hwloc_topology :: "identifier_type list \<Rightarrow> identifier_type list \<Rightarrow> (identifier_type \<Rightarrow> identifier_type option) \<Rightarrow>
    topology option" where
  "hwloc_topology pus nodes parent =
     map_option (\<lambda>per_node. \<lparr>available_processing_units = pus, available_numa_nodes = nodes,
                  processing_units_per_node = per_node\<rparr>)
       (fold (\<lambda>pu per_node. Option.bind per_node (count_unit nodes parent pu)) pus (Some (replicate (length nodes) 0)))"

text \<open>The constructor without hwloc; \<open>n\<close> is \<open>std::thread::hardware_concurrency()\<close>, which may be 0.\<close>

definition plain_topology :: "nat \<Rightarrow> topology" where
  "plain_topology n = \<lparr>available_processing_units = [0..<n], available_numa_nodes = [0], processing_units_per_node = [n]\<rparr>"

definition total_processing_unit_count :: "topology \<Rightarrow> size_type" where
  "total_processing_unit_count t = length (available_processing_units t)"

definition numa_node_count :: "topology \<Rightarrow> size_type" where
  "numa_node_count t = length (available_numa_nodes t)"

definition processing_unit_per_node :: "topology \<Rightarrow> identifier_type \<Rightarrow> size_type" where
  "processing_unit_per_node t i = processing_units_per_node t ! i"

text \<open>What the rest of the program relies on: one counter per node, which sum to the units.\<close>

definition topology_ok :: "topology \<Rightarrow> bool" where
  "topology_ok t \<longleftrightarrow> length (processing_units_per_node t) = numa_node_count t \<and> 0 < numa_node_count t \<and>
     sum_list (processing_units_per_node t) = total_processing_unit_count t"

lemma find_index_less [simp]: "find_index x ys < length ys \<longleftrightarrow> x \<in> set ys"
  by (induction ys) auto

lemma find_index_nth: "x \<in> set ys \<Longrightarrow> ys ! find_index x ys = x"
  by (induction ys) auto

lemma find_index_le: "find_index x ys \<le> length ys"
  by (induction ys) auto

lemma increment_at_sum: "increment_at i xs = Some ys \<Longrightarrow> length ys = length xs \<and> sum_list ys = sum_list xs + 1"
  by (auto simp: increment_at_def sum_list_update split: if_splits)

lemma plain_topology_ok: "topology_ok (plain_topology n)"
  by (simp add: topology_ok_def plain_topology_def numa_node_count_def total_processing_unit_count_def)

lemma hwloc_topology_fold:
  assumes "0 < length nodes" "length nodes \<noteq> 1 \<longrightarrow> (\<forall>pu\<in>set pus. \<forall>i. parent pu = Some i \<longrightarrow> i \<in> set nodes)"
    "length per_node = length nodes"
  shows "\<exists>per'. fold (\<lambda>pu per_node. Option.bind per_node (count_unit nodes parent pu)) pus (Some per_node) = Some per' \<and>
    length per' = length nodes \<and> sum_list per' = sum_list per_node + length pus"
  using assms
proof (induction pus arbitrary: per_node)
  case (Cons pu pus)
  have "\<exists>per'. count_unit nodes parent pu per_node = Some per'"
    using Cons.prems find_index_less [of _ nodes] by (auto simp: count_unit_def increment_at_def split: option.split)
  then obtain per' where p: "count_unit nodes parent pu per_node = Some per'" by blast
  then have "length per' = length per_node \<and> sum_list per' = sum_list per_node + 1"
    by (auto simp: count_unit_def split: if_splits option.splits dest: increment_at_sum)
  with Cons.IH [of per'] Cons.prems p show ?case by auto
qed simp

subsection \<open>Configuration\<close>

record configuration =
  max_concurrency :: nat
  partition_count :: size_type
  default_output_buffer_size :: size_type
  default_records_per_buffer :: size_type
  affinity :: AffinityMode
  profile_log :: string

text \<open>The number of units is stored in an \<open>unsigned int\<close>, and multiplied by 8 at that width.\<close>

definition default_configuration :: "topology \<Rightarrow> configuration" where
  "default_configuration t =
     (let n = total_processing_unit_count t mod 2 ^ 32; size = push_bit 20 4 in
      \<lparr>max_concurrency = n, partition_count = (n * 8) mod 2 ^ 32, default_output_buffer_size = size,
       default_records_per_buffer = size div 8, affinity = AffinityNONE, profile_log = []\<rparr>)"

definition config_set_max_concurrency :: "nat \<Rightarrow> configuration \<Rightarrow> configuration" where
  "config_set_max_concurrency n c = c\<lparr>max_concurrency := n\<rparr>"

definition config_set_partition_count :: "size_type \<Rightarrow> configuration \<Rightarrow> configuration" where
  "config_set_partition_count n c = c\<lparr>partition_count := n\<rparr>"

definition config_set_output_buffer_size :: "size_type \<Rightarrow> configuration \<Rightarrow> configuration" where
  "config_set_output_buffer_size n c = c\<lparr>default_output_buffer_size := n\<rparr>"

definition config_set_records_per_buffer :: "size_type \<Rightarrow> configuration \<Rightarrow> configuration" where
  "config_set_records_per_buffer n c = c\<lparr>default_records_per_buffer := n\<rparr>"

definition config_set_affinity :: "AffinityMode \<Rightarrow> configuration \<Rightarrow> configuration" where
  "config_set_affinity a c = c\<lparr>affinity := a\<rparr>"

definition config_set_profile_log :: "string \<Rightarrow> configuration \<Rightarrow> configuration" where
  "config_set_profile_log f c = c\<lparr>profile_log := f\<rparr>"

text \<open>
  The public class holds its settings through a \<open>unique_ptr\<close>: a moved-from configuration has none, and
  every member of it dereferences a null pointer (\<open>None\<close> for a getter or setter).
\<close>

type_synonym configuration_handle = "configuration option"

definition Configuration_new :: "topology \<Rightarrow> configuration_handle" where
  "Configuration_new t = Some (default_configuration t)"

definition Configuration_copy :: "configuration_handle \<Rightarrow> configuration_handle option" where
  "Configuration_copy h = map_option Some h"

definition Configuration_move :: "configuration_handle \<Rightarrow> configuration_handle \<times> configuration_handle" where
  "Configuration_move h = (h, None)"

definition Configuration_assign :: "configuration_handle \<Rightarrow> configuration_handle \<Rightarrow> configuration_handle option" where
  "Configuration_assign this h = map_option Some h"

definition Configuration_max_concurrency :: "configuration_handle \<Rightarrow> nat option" where
  "Configuration_max_concurrency h = map_option max_concurrency h"

definition Configuration_set_max_concurrency :: "nat \<Rightarrow> configuration_handle \<Rightarrow> configuration_handle option" where
  "Configuration_set_max_concurrency v h = map_option (\<lambda>c. Some (config_set_max_concurrency v c)) h"

definition Configuration_partition_count :: "configuration_handle \<Rightarrow> size_type option" where
  "Configuration_partition_count h = map_option partition_count h"

definition Configuration_set_partition_count :: "size_type \<Rightarrow> configuration_handle \<Rightarrow> configuration_handle option" where
  "Configuration_set_partition_count v h = map_option (\<lambda>c. Some (config_set_partition_count v c)) h"

definition Configuration_default_output_buffer_size :: "configuration_handle \<Rightarrow> size_type option" where
  "Configuration_default_output_buffer_size h = map_option default_output_buffer_size h"

definition Configuration_set_default_output_buffer_size :: "size_type \<Rightarrow> configuration_handle \<Rightarrow> configuration_handle option" where
  "Configuration_set_default_output_buffer_size v h = map_option (\<lambda>c. Some (config_set_output_buffer_size v c)) h"

definition Configuration_default_records_per_buffer :: "configuration_handle \<Rightarrow> size_type option" where
  "Configuration_default_records_per_buffer h = map_option default_records_per_buffer h"

definition Configuration_set_default_records_per_buffer :: "size_type \<Rightarrow> configuration_handle \<Rightarrow> configuration_handle option" where
  "Configuration_set_default_records_per_buffer v h = map_option (\<lambda>c. Some (config_set_records_per_buffer v c)) h"

definition Configuration_affinity :: "configuration_handle \<Rightarrow> AffinityMode option" where
  "Configuration_affinity h = map_option affinity h"

definition Configuration_set_affinity :: "AffinityMode \<Rightarrow> configuration_handle \<Rightarrow> configuration_handle option" where
  "Configuration_set_affinity v h = map_option (\<lambda>c. Some (config_set_affinity v c)) h"

definition Configuration_profile_log :: "configuration_handle \<Rightarrow> string option" where
  "Configuration_profile_log h = map_option profile_log h"

definition Configuration_set_profile_log :: "string \<Rightarrow> configuration_handle \<Rightarrow> configuration_handle option" where
  "Configuration_set_profile_log v h = map_option (\<lambda>c. Some (config_set_profile_log v c)) h"

subsection \<open>Properties\<close>

text \<open>
  C14: the topology built from hwloc's answers has one counter per available NUMA node and its
  counters sum to the number of available units, as long as the node above every unit is available;
  with several nodes, one unit below an unavailable node makes the constructor write behind the end
  of its counter vector.
\<close>
theorem hwloc_topology_counts:
  assumes "0 < length nodes"
  shows "((length nodes \<noteq> 1 \<longrightarrow> (\<forall>pu\<in>set pus. \<forall>i. parent pu = Some i \<longrightarrow> i \<in> set nodes)) \<longrightarrow>
      (\<exists>t. hwloc_topology pus nodes parent = Some t \<and> topology_ok t \<and> available_processing_units t = pus)) \<and>
    (length nodes \<noteq> 1 \<longrightarrow> (\<exists>pu\<in>set pus. \<exists>i. parent pu = Some i \<and> i \<notin> set nodes) \<longrightarrow>
      hwloc_topology pus nodes parent = None)"
proof (intro conjI impI)
  assume "length nodes \<noteq> 1 \<longrightarrow> (\<forall>pu\<in>set pus. \<forall>i. parent pu = Some i \<longrightarrow> i \<in> set nodes)"
  from hwloc_topology_fold [OF assms this, of "replicate (length nodes) 0"] assms
  show "\<exists>t. hwloc_topology pus nodes parent = Some t \<and> topology_ok t \<and> available_processing_units t = pus"
    by (auto simp: hwloc_topology_def topology_ok_def numa_node_count_def total_processing_unit_count_def)
next
  assume "length nodes \<noteq> 1" and "\<exists>pu\<in>set pus. \<exists>i. parent pu = Some i \<and> i \<notin> set nodes"
  then obtain pu i where pu: "pu \<in> set pus" "parent pu = Some i" "i \<notin> set nodes" "length nodes \<noteq> 1" by blast
  from pu(1) obtain xs ys where xs: "pus = xs @ pu # ys" by (meson split_list)
  let ?f = "\<lambda>pu per_node. Option.bind per_node (count_unit nodes parent pu)"
  have len: "length per' = length per_node" if "count_unit nodes parent u per_node = Some per'" for u per_node per'
    using that by (auto simp: count_unit_def increment_at_def split: if_splits option.splits)
  have "length per' = length per_node" if "fold ?f us (Some per_node) = Some per'" for us per_node per'
    using that
  proof (induction us arbitrary: per_node)
    case (Cons u us)
    show ?case
    proof (cases "count_unit nodes parent u per_node")
      case None
      have "fold ?f us None = None" by (induction us) auto
      with Cons.prems None show ?thesis by simp
    next
      case (Some p)
      with Cons len show ?thesis by simp
    qed
  qed simp
  then have "fold ?f (xs @ [pu]) (Some (replicate (length nodes) 0)) = None"
    using pu find_index_le [of i nodes] find_index_less [of i nodes]
    by (cases "fold ?f xs (Some (replicate (length nodes) 0))") (auto simp: count_unit_def increment_at_def)
  moreover have "fold ?f ys None = None" by (induction ys) auto
  ultimately show "hwloc_topology pus nodes parent = None" by (simp add: hwloc_topology_def xs)
qed

theorem hwloc_topology_counts_witness:
  "(\<exists>t. hwloc_topology [0, 1, 2] [0, 1] (\<lambda>pu. Some (pu div 2)) = Some t \<and> topology_ok t) \<and>
   hwloc_topology [0, 1, 2] [0, 2] (\<lambda>pu. Some (pu div 2)) = None"
  using hwloc_topology_counts [of "[0, 1]" "[0, 1, 2]" "\<lambda>pu. Some (pu div 2)"]
    hwloc_topology_counts [of "[0, 2]" "[0, 1, 2]" "\<lambda>pu. Some (pu div 2)"] by auto

end
