(* ===== verification/Locality.thy ===== *)
theory Locality
  imports Configuration
begin

text \<open>
  Where work runs: \<open>Locality\<close>, \<open>LocalityOption\<close> and \<open>LocalityManager\<close> (scheduler/locality.hpp,
  locality_option.hpp, locality_manager.hpp and .cpp). The placement loops skip nodes without free
  processing units; they do not end on a machine that has none, so they are partial.
\<close>

subsection \<open>Locality and LocalityOption\<close>

record locality =
  self_thread_id :: identifier_type
  self_node_id :: identifier_type

definition default_locality :: locality where
  "default_locality = \<lparr>self_thread_id = 0, self_node_id = 0\<rparr>"

record locality_option =
  recommended_worker :: identifier_type
  is_stealable :: bool

definition no_locality_option :: locality_option where
  "no_locality_option = \<lparr>recommended_worker = invalid_id, is_stealable = True\<rparr>"

definition make_locality_option :: "identifier_type \<Rightarrow> bool \<Rightarrow> locality_option" where
  "make_locality_option w stealable = \<lparr>recommended_worker = w, is_stealable = stealable\<rparr>"

definition has_recommendation :: "locality_option \<Rightarrow> bool" where
  "has_recommendation lo \<longleftrightarrow> recommended_worker lo \<noteq> invalid_id"

subsection \<open>Placement of threads\<close>

record locality_manager =
  lm_max_concurrency :: size_type
  lm_node_count :: size_type
  lm_thread_mapping :: "identifier_type list"
  lm_partition_mapping :: "identifier_type list"
  lm_node_to_worker :: "identifier_type list list"

definition default_locality_manager :: locality_manager where
  "default_locality_manager =
     \<lparr>lm_max_concurrency = 1, lm_node_count = 1, lm_thread_mapping = [], lm_partition_mapping = [], lm_node_to_worker = []\<rparr>"

text \<open>The two skipping loops; a node index outside the vector is \<open>None\<close> as well.\<close>

partial_function (option) skip_full :: "size_type list \<Rightarrow> nat \<Rightarrow> nat \<Rightarrow> (nat \<times> nat) option" where
  "skip_full pu node j =
     (if length pu \<le> node then None
      else if j = pu ! node then skip_full pu ((node + 1) mod length pu) 0
      else Some (node, j))"

partial_function (option) skip_empty :: "size_type list \<Rightarrow> nat \<Rightarrow> nat option" where
  "skip_empty remains node =
     (if length remains \<le> node then None
      else if remains ! node = 0 then skip_empty remains ((node + 1) mod length remains)
      else Some node)"

declare skip_full.simps [code] skip_empty.simps [code]

definition compact_step :: "size_type list \<Rightarrow> nat \<Rightarrow> nat \<times> nat \<times> nat list \<times> nat list list \<Rightarrow> (nat \<times> nat \<times> nat list \<times> nat list list) option" where
  "compact_step pu i st = (case st of (node, j, tm, n2w) \<Rightarrow>
     map_option (\<lambda>(node, j). (node, j + 1, tm @ [node], n2w[node := n2w ! node @ [i]])) (skip_full pu node j))"

definition compact_mapping :: "size_type list \<Rightarrow> nat \<Rightarrow> (nat list \<times> nat list list) option" where
  "compact_mapping pu n =
     map_option (\<lambda>(_, _, tm, n2w). (tm, n2w))
       (fold (\<lambda>i st. Option.bind st (compact_step pu i)) [0..<n] (Some (0, 0, [], replicate (length pu) [])))"

text \<open>\<open>total_pu_count\<close> is 0 on a machine without processing units, and \<open>i % 0\<close> is undefined.\<close>

definition scatter_step :: "size_type list \<Rightarrow> nat \<Rightarrow> nat \<times> size_type list \<times> nat list \<times> nat list list \<Rightarrow>
    (nat \<times> size_type list \<times> nat list \<times> nat list list) option" where
  "scatter_step pu i st = (case st of (node, remains, tm, n2w) \<Rightarrow>
     if sum_list pu = 0 then None
     else (let (remains, node) = (if i mod sum_list pu = 0 then (pu, 0) else (remains, node))
           in map_option (\<lambda>node. ((node + 1) mod length pu, remains[node := remains ! node - 1],
                            tm @ [node], n2w[node := n2w ! node @ [i]])) (skip_empty remains node)))"

definition scatter_mapping :: "size_type list \<Rightarrow> nat \<Rightarrow> (nat list \<times> nat list list) option" where
  "scatter_mapping pu n =
     map_option (\<lambda>(_, _, tm, n2w). (tm, n2w))
       (fold (\<lambda>i st. Option.bind st (scatter_step pu i)) [0..<n] (Some (0, pu, [], replicate (length pu) [])))"

definition make_locality_manager :: "configuration \<Rightarrow> topology \<Rightarrow> locality_manager option" where
  "make_locality_manager c t =
     (if affinity c = AffinityNONE
      then Some (default_locality_manager\<lparr>lm_max_concurrency := max_concurrency c\<rparr>)
      else do {
        let pu = map (processing_unit_per_node t) [0..<numa_node_count t];
        (tm, n2w) \<leftarrow> (if affinity c = AffinityCOMPACT then compact_mapping pu (max_concurrency c)
                       else scatter_mapping pu (max_concurrency c));
        pm \<leftarrow> (if partition_count c = 0 then Some []
                else if max_concurrency c = 0 then None
                else Some (map (\<lambda>i. tm ! (i mod max_concurrency c)) [0..<partition_count c]));
        Some \<lparr>lm_max_concurrency = max_concurrency c, lm_node_count = numa_node_count t, lm_thread_mapping = tm,
              lm_partition_mapping = pm, lm_node_to_worker = n2w\<rparr>
      })"

definition thread_mapping :: "locality_manager \<Rightarrow> identifier_type \<Rightarrow> identifier_type" where
  "thread_mapping lm w = (if lm_thread_mapping lm = [] then 0 else lm_thread_mapping lm ! w)"

definition partition_mapping :: "locality_manager \<Rightarrow> identifier_type \<Rightarrow> identifier_type" where
  "partition_mapping lm q = (if lm_partition_mapping lm = [] then 0 else lm_partition_mapping lm ! q)"

text \<open>
  \<open>draw lo hi\<close> is \<open>uniform_random_integer\<close>, which promises a value between its bounds; a bound of
  \<open>size() - 1\<close> for an empty vector wraps around. \<open>None\<close> is a read outside the vector.
\<close>

definition uniform_draw :: "(nat \<Rightarrow> nat \<Rightarrow> nat) \<Rightarrow> bool" where
  "uniform_draw draw \<longleftrightarrow> (\<forall>lo hi. lo \<le> hi \<longrightarrow> lo \<le> draw lo hi \<and> draw lo hi \<le> hi)"

definition random_worker_from_node :: "(nat \<Rightarrow> nat \<Rightarrow> nat) \<Rightarrow> locality_manager \<Rightarrow> identifier_type \<Rightarrow> identifier_type option" where
  "random_worker_from_node draw lm node =
     (if lm_node_to_worker lm = [] then Some (draw 0 (sz_sub (lm_max_concurrency lm) 1))
      else if length (lm_node_to_worker lm) \<le> node then None
      else (let ws = lm_node_to_worker lm ! node; i = draw 0 (sz_sub (length ws) 1)
            in if i < length ws then Some (ws ! i) else None))"

text \<open>\<open>set_thread_cpubind\<close>: the node the calling worker is bound to, if any.\<close>

definition thread_cpubind :: "locality_manager \<Rightarrow> identifier_type \<Rightarrow> identifier_type option" where
  "thread_cpubind lm w = (if lm_thread_mapping lm = [] then None else Some (thread_mapping lm w))"

subsection \<open>The skipping loops end when there is a unit\<close>

text \<open>Number of units on the nodes before \<open>node\<close>.\<close>

definition units_before :: "size_type list \<Rightarrow> nat \<Rightarrow> nat" where
  "units_before pu node = sum_list (take node pu)"

lemma units_before_simps [simp]:
  "units_before pu 0 = 0" "units_before pu (length pu) = sum_list pu"
  "node < length pu \<Longrightarrow> units_before pu (Suc node) = units_before pu node + pu ! node"
  by (simp_all add: units_before_def take_Suc_conv_app_nth)

lemma units_before_next:
  assumes "node < length pu"
  shows "units_before pu ((node + 1) mod length pu) mod sum_list pu = (units_before pu node + pu ! node) mod sum_list pu"
proof (cases "node + 1 = length pu")
  case True
  then have "units_before pu node + pu ! node = sum_list pu" using assms units_before_simps(3) [of node pu] by (metis Suc_eq_plus1 units_before_simps(2))
  with True show ?thesis by simp
qed (use assms in simp)

lemma units_before_less: "node < length pu \<Longrightarrow> units_before pu node + pu ! node \<le> sum_list pu"
proof -
  assume n: "node < length pu"
  then have "sum_list pu = units_before pu (Suc node) + sum_list (drop (Suc node) pu)"
    by (metis append_take_drop_id sum_list_append units_before_def)
  with n show ?thesis by simp
qed

lemma skip_full_start:
  assumes "node < length pu" "pu ! ((node + k) mod length pu) \<noteq> 0"
  shows "\<exists>node'. skip_full pu node 0 = Some (node', 0) \<and> node' < length pu \<and> 0 < pu ! node' \<and>
    units_before pu node' mod sum_list pu = units_before pu node mod sum_list pu"
  using assms
proof (induction k arbitrary: node)
  case 0
  then show ?case by (subst skip_full.simps) auto
next
  case (Suc k)
  show ?case
  proof (cases "pu ! node = 0")
    case False
    with Suc.prems show ?thesis by (subst skip_full.simps) auto
  next
    case True
    let ?n = "(node + 1) mod length pu"
    have "0 < length pu" using Suc.prems(1) by linarith
    then have "?n < length pu" by simp
    moreover have "pu ! ((?n + k) mod length pu) \<noteq> 0" using Suc.prems(2) by (simp add: mod_add_left_eq)
    ultimately obtain node' where "skip_full pu ?n 0 = Some (node', 0)" "node' < length pu" "0 < pu ! node'"
      "units_before pu node' mod sum_list pu = units_before pu ?n mod sum_list pu"
      using Suc.IH by blast
    moreover have "skip_full pu node 0 = skip_full pu ?n 0" using True Suc.prems(1) by (subst skip_full.simps) simp
    ultimately show ?thesis using units_before_next [OF Suc.prems(1)] True by auto
  qed
qed

lemma some_unit:
  assumes "0 < sum_list (pu :: nat list)" "node < length pu"
  shows "\<exists>k. pu ! ((node + k) mod length pu) \<noteq> 0"
proof -
  obtain i where i: "i < length pu" "pu ! i \<noteq> 0"
    using assms(1) by (metis bot_nat_0.not_eq_extremum in_set_conv_nth sum_list_eq_0_iff)
  have "(node + (length pu - node + i)) mod length pu = i"
    using i assms(2) by simp
  with i(2) show ?thesis by metis
qed

lemma skip_full_ends:
  assumes "0 < sum_list pu" "node < length pu" "j \<le> pu ! node"
  shows "\<exists>node' j'. skip_full pu node j = Some (node', j') \<and> node' < length pu \<and> j' < pu ! node' \<and>
    (units_before pu node' + j') mod sum_list pu = (units_before pu node + j) mod sum_list pu"
proof (cases "j = pu ! node")
  case False
  with assms show ?thesis by (subst skip_full.simps) auto
next
  case True
  let ?n = "(node + 1) mod length pu"
  have n: "?n < length pu" using assms(2) by (metis gr_implies_not0 mod_less_divisor neq0_conv)
  obtain k where "pu ! ((?n + k) mod length pu) \<noteq> 0" using some_unit [OF assms(1) n] by blast
  then obtain node' where "skip_full pu ?n 0 = Some (node', 0)" "node' < length pu" "0 < pu ! node'"
    "units_before pu node' mod sum_list pu = units_before pu ?n mod sum_list pu"
    using skip_full_start [OF n] by blast
  moreover have "skip_full pu node j = skip_full pu ?n 0" using True assms(2) by (subst skip_full.simps) simp
  ultimately show ?thesis using units_before_next [OF assms(2)] True by auto
qed

lemma skip_empty_ends:
  assumes "0 < sum_list remains" "node < length remains"
  shows "\<exists>node'. skip_empty remains node = Some node' \<and> node' < length remains \<and> 0 < remains ! node'"
proof -
  have "\<exists>node'. skip_empty remains node = Some node' \<and> node' < length remains \<and> 0 < remains ! node'"
    if "node < length remains" "remains ! ((node + k) mod length remains) \<noteq> 0" for node k
    using that
  proof (induction k arbitrary: node)
    case 0
    then show ?case by (subst skip_empty.simps) auto
  next
    case (Suc k)
    let ?n = "(node + 1) mod length remains"
    have "0 < length remains" using Suc.prems(1) by linarith
    then have "?n < length remains" by simp
    moreover have "remains ! ((?n + k) mod length remains) \<noteq> 0" using Suc.prems(2) by (simp add: mod_add_left_eq)
    ultimately show ?case using Suc.IH [of ?n] Suc.prems(1) by (subst skip_empty.simps) auto
  qed
  then show ?thesis using some_unit [OF assms] assms(2) by blast
qed

subsection \<open>COMPACT placement\<close>

text \<open>The node of each processing unit, in the order of the nodes.\<close>

definition unit_nodes :: "size_type list \<Rightarrow> nat list" where
  "unit_nodes pu = concat (map (\<lambda>k. replicate (pu ! k) k) [0..<length pu])"

lemma unit_nodes_prefix:
  "n \<le> length pu \<Longrightarrow> length (concat (map (\<lambda>k. replicate (pu ! k) k) [0..<n])) = units_before pu n"
  by (induction n) (auto simp: units_before_def take_Suc_conv_app_nth)

lemma length_unit_nodes [simp]: "length (unit_nodes pu) = sum_list pu"
  using unit_nodes_prefix [of "length pu" pu] by (simp add: unit_nodes_def)

lemma unit_nodes_nth:
  assumes "node < length pu" "j < pu ! node"
  shows "unit_nodes pu ! (units_before pu node + j) = node"
proof -
  let ?f = "\<lambda>k. replicate (pu ! k) k"
  have "[0..<length pu] = [0..<node] @ node # [Suc node..<length pu]"
    using assms(1) by (metis less_imp_le_nat upt_conv_Cons upt_add_eq_append le_add_diff_inverse zero_le)
  then have "unit_nodes pu = concat (map ?f [0..<node]) @ ?f node @ concat (map ?f [Suc node..<length pu])"
    by (simp add: unit_nodes_def)
  then show ?thesis using unit_nodes_prefix [of node pu] assms by (simp add: nth_append)
qed

text \<open>The workers of each node, in order.\<close>

definition workers_of :: "nat list \<Rightarrow> nat \<Rightarrow> nat list" where
  "workers_of tm k = filter (\<lambda>i. tm ! i = k) [0..<length tm]"

lemma workers_of_append:
  "workers_of (tm @ [node]) k = (if k = node then workers_of tm k @ [length tm] else workers_of tm k)"
proof -
  have "filter (\<lambda>i. (tm @ [node]) ! i = k) [0..<length tm] = filter (\<lambda>i. tm ! i = k) [0..<length tm]"
    by (rule filter_cong) (auto simp: nth_append)
  then show ?thesis by (auto simp: workers_of_def)
qed

lemma workers_table_append:
  "node < N \<Longrightarrow> (map (workers_of tm) [0..<N])[node := map (workers_of tm) [0..<N] ! node @ [length tm]] =
     map (workers_of (tm @ [node])) [0..<N]"
  by (rule nth_equalityI) (auto simp: nth_list_update workers_of_append)

lemma compact_mapping_closed:
  assumes "0 < sum_list pu"
  defines "place \<equiv> \<lambda>i. unit_nodes pu ! (i mod sum_list pu)"
  shows "compact_mapping pu n = Some (map place [0..<n], map (workers_of (map place [0..<n])) [0..<length pu])"
proof -
  have N: "0 < length pu" using assms(1) by (cases pu) auto
  let ?P = "\<lambda>n st. \<exists>node j. st = Some (node, j, map place [0..<n], map (workers_of (map place [0..<n])) [0..<length pu]) \<and>
      node < length pu \<and> j \<le> pu ! node \<and> (units_before pu node + j) mod sum_list pu = n mod sum_list pu"
  have "?P n (fold (\<lambda>i st. Option.bind st (compact_step pu i)) [0..<n] (Some (0, 0, [], replicate (length pu) [])))"
  proof (rule fold_upt_invariant [where P = ?P])
    have "map (workers_of []) [0..<length pu] = replicate (length pu) []"
      by (rule nth_equalityI) (auto simp: workers_of_def)
    then show "?P 0 (Some (0, 0, [], replicate (length pu) []))" using N by simp
  next
    fix i st assume P: "?P i st"
    let ?tm = "map place [0..<i]"
    obtain node j where st: "st = Some (node, j, ?tm, map (workers_of ?tm) [0..<length pu])"
      and node: "node < length pu" "j \<le> pu ! node" "(units_before pu node + j) mod sum_list pu = i mod sum_list pu"
      using P by blast
    obtain node' j' where s: "skip_full pu node j = Some (node', j')" "node' < length pu" "j' < pu ! node'"
      "(units_before pu node' + j') mod sum_list pu = i mod sum_list pu"
      using skip_full_ends [OF assms(1) node(1,2)] node(3) by metis
    have "units_before pu node' + j' < sum_list pu" using units_before_less [OF s(2)] s(3) by linarith
    then have "units_before pu node' + j' = i mod sum_list pu" using s(4) by simp
    then have pl: "place i = node'" using unit_nodes_nth [OF s(2,3)] by (simp add: place_def)
    have nxt: "Option.bind st (compact_step pu i) =
        Some (node', j' + 1, map place [0..<Suc i], map (workers_of (map place [0..<Suc i])) [0..<length pu])"
      using workers_table_append [OF s(2), of ?tm] s(1) pl unfolding st by (simp add: compact_step_def)
    have "(units_before pu node' + (j' + 1)) mod sum_list pu = Suc i mod sum_list pu"
      using s(4) by (metis Suc_eq_plus1 add.assoc mod_add_left_eq)
    then show "?P (Suc i) (Option.bind st (compact_step pu i))" unfolding nxt using s by auto
  qed
  then show ?thesis by (auto simp: compact_mapping_def)
qed

subsection \<open>SCATTER placement\<close>

text \<open>No node gets more threads than it has units in any round over all units.\<close>

definition balanced :: "size_type list \<Rightarrow> nat list \<Rightarrow> bool" where
  "balanced pu tm \<longleftrightarrow> (\<forall>b. \<forall>k<length pu. count_list (take (sum_list pu) (drop (b * sum_list pu) tm)) k \<le> pu ! k)"

lemma balanced_append:
  assumes bal: "balanced pu tm" and T: "0 < sum_list pu"
    and last: "\<forall>k<length pu. count_list (drop (length tm div sum_list pu * sum_list pu) tm @ [node]) k \<le> pu ! k"
  shows "balanced pu (tm @ [node])"
  unfolding balanced_def
proof (intro allI impI)
  fix b k assume k: "k < length pu"
  let ?T = "sum_list pu" and ?c = "length tm div sum_list pu"
  let ?block = "take ?T (drop (b * ?T) (tm @ [node]))"
  consider "b < ?c" | "b = ?c" | "?c < b" by linarith
  then show "count_list ?block k \<le> pu ! k"
  proof cases
    case 1
    then have "(b + 1) * ?T \<le> ?c * ?T" by (intro mult_right_mono) simp_all
    also have "\<dots> \<le> length tm" by (rule div_times_less_eq_dividend)
    finally have "b * ?T + ?T \<le> length tm" by simp
    then have block: "?block = take ?T (drop (b * ?T) tm)" by simp
    show ?thesis using bal k unfolding block balanced_def by blast
  next
    case 2
    then have "?block = take ?T (drop (?c * ?T) tm @ [node])" using div_times_less_eq_dividend [of "length tm" ?T] by simp
    moreover have "count_list (take ?T xs) k \<le> count_list xs k" for xs :: "nat list"
      by (metis append_take_drop_id count_list_append le_add1)
    ultimately show ?thesis using last k le_trans by metis
  next
    case 3
    have "length tm < (?c + 1) * ?T" using T by (metis add.commute add_mult_distrib dividend_less_div_times mult_1)
    also have "\<dots> \<le> b * ?T" using 3 by (intro mult_right_mono) simp_all
    finally show ?thesis by simp
  qed
qed

definition scatter_inv :: "size_type list \<Rightarrow> nat \<Rightarrow> (nat \<times> size_type list \<times> nat list \<times> nat list list) option \<Rightarrow> bool" where
  "scatter_inv pu i st \<longleftrightarrow> (\<exists>node remains tm. st = Some (node, remains, tm, map (workers_of tm) [0..<length pu]) \<and>
     node < length pu \<and> length remains = length pu \<and> length tm = i \<and> (\<forall>k\<in>set tm. k < length pu) \<and> balanced pu tm \<and>
     (i mod sum_list pu \<noteq> 0 \<longrightarrow> sum_list remains + i mod sum_list pu = sum_list pu \<and>
        (\<forall>k<length pu. count_list (drop (i div sum_list pu * sum_list pu) tm) k + remains ! k = pu ! k)))"

lemma scatter_step_inv:
  assumes T: "0 < sum_list pu" and inv: "scatter_inv pu i st"
  shows "scatter_inv pu (Suc i) (Option.bind st (scatter_step pu i))"
proof -
  let ?T = "sum_list pu" and ?c = "i div sum_list pu"
  obtain node remains tm where st: "st = Some (node, remains, tm, map (workers_of tm) [0..<length pu])"
    and h: "node < length pu" "length remains = length pu" "length tm = i" "\<forall>k\<in>set tm. k < length pu" "balanced pu tm"
    and part: "i mod ?T \<noteq> 0 \<longrightarrow> sum_list remains + i mod ?T = ?T \<and>
        (\<forall>k<length pu. count_list (drop (?c * ?T) tm) k + remains ! k = pu ! k)"
    using inv unfolding scatter_inv_def by blast
  define rem where "rem = (if i mod ?T = 0 then pu else remains)"
  define start where "start = (if i mod ?T = 0 then 0 else node)"
  have rl: "length rem = length pu" "start < length rem" using h T by (auto simp: rem_def start_def)
  have cT: "i mod ?T = 0 \<Longrightarrow> ?c * ?T = i" by auto
  have rc: "\<forall>k<length pu. count_list (drop (?c * ?T) tm) k + rem ! k = pu ! k"
    using part h(3) cT by (auto simp: rem_def)
  have rs: "sum_list rem + i mod ?T = ?T" using part by (auto simp: rem_def)
  moreover have "i mod ?T < ?T" using T by simp
  ultimately have "0 < sum_list rem" by linarith
  then obtain n where n: "skip_empty rem start = Some n" "n < length pu" "0 < rem ! n"
    using skip_empty_ends [OF _ rl(2)] rl(1) by auto
  let ?tm = "tm @ [n]" and ?rem = "rem[n := rem ! n - 1]"
  have nxt: "Option.bind st (scatter_step pu i) =
      Some ((n + 1) mod length pu, ?rem, ?tm, map (workers_of ?tm) [0..<length pu])"
  proof -
    have "sum_list pu \<noteq> 0" using T by (rule neq0_conv [THEN iffD2])
    then show ?thesis using n(1) workers_table_append [OF n(2), of tm] h(3) unfolding st
      by (cases "i mod sum_list pu = 0") (simp_all add: scatter_step_def rem_def start_def del: sum_list_eq_0_iff)
  qed
  have ci: "?c * ?T \<le> length tm" using h(3) by simp
  have cnt: "\<forall>k<length pu. count_list (drop (?c * ?T) tm @ [n]) k + ?rem ! k = pu ! k"
  proof (intro allI impI)
    fix k assume "k < length pu"
    with rc n(2,3) rl(1) show "count_list (drop (?c * ?T) tm @ [n]) k + ?rem ! k = pu ! k"
      by (cases "k = n") (auto simp: nth_list_update)
  qed
  have "balanced pu ?tm"
    by (rule balanced_append [OF h(5) T]) (use cnt h(3) in \<open>metis le_add1\<close>)
  moreover have "(n + 1) mod length pu < length pu" using n(2) by (metis gr_implies_not0 mod_less_divisor neq0_conv)
  moreover have "Suc i mod ?T \<noteq> 0 \<longrightarrow> sum_list ?rem + Suc i mod ?T = ?T \<and>
      (\<forall>k<length pu. count_list (drop (Suc i div ?T * ?T) ?tm) k + ?rem ! k = pu ! k)"
  proof (intro impI conjI)
    assume "Suc i mod ?T \<noteq> 0"
    then have m: "Suc i mod ?T = Suc (i mod ?T)" "Suc i div ?T = ?c"
      by (simp add: mod_Suc split: if_splits) (simp add: div_Suc \<open>Suc i mod ?T \<noteq> 0\<close>)
    have "rem ! n \<le> sum_list rem" using n rl(1) by (simp add: elem_le_sum_list)
    then show "sum_list ?rem + Suc i mod ?T = ?T"
      using n rl(1) rs unfolding m by (simp add: sum_list_update)
    show "\<forall>k<length pu. count_list (drop (Suc i div ?T * ?T) ?tm) k + ?rem ! k = pu ! k"
      using cnt ci unfolding m by simp
  qed
  ultimately show ?thesis unfolding scatter_inv_def nxt using h n(2) rl(1) by auto
qed

lemma scatter_mapping_ends:
  assumes T: "0 < sum_list pu"
  shows "\<exists>tm. scatter_mapping pu n = Some (tm, map (workers_of tm) [0..<length pu]) \<and> length tm = n \<and>
    (\<forall>k\<in>set tm. k < length pu) \<and> balanced pu tm"
proof -
  have N: "0 < length pu" using T by (cases pu) auto
  have "scatter_inv pu n (fold (\<lambda>i st. Option.bind st (scatter_step pu i)) [0..<n] (Some (0, pu, [], replicate (length pu) [])))"
  proof (rule fold_upt_invariant [where P = "scatter_inv pu"])
    have "replicate (length pu) [] = map (workers_of []) [0..<length pu]"
      by (rule nth_equalityI) (auto simp: workers_of_def)
    then show "scatter_inv pu 0 (Some (0, pu, [], replicate (length pu) []))"
      using N by (simp add: scatter_inv_def balanced_def)
  qed (rule scatter_step_inv [OF T])
  then show ?thesis by (auto simp: scatter_inv_def scatter_mapping_def)
qed

lemma compact_balanced:
  assumes T: "0 < sum_list pu"
  shows "balanced pu (map (\<lambda>i. unit_nodes pu ! (i mod sum_list pu)) [0..<n])"
proof (induction n)
  case 0
  then show ?case by (simp add: balanced_def)
next
  case (Suc n)
  let ?T = "sum_list pu" and ?pl = "\<lambda>i. unit_nodes pu ! (i mod sum_list pu)"
  have "drop (n div ?T * ?T) (map ?pl [0..<n]) @ [?pl n] = take (Suc (n mod ?T)) (unit_nodes pu)"
  proof (rule nth_equalityI)
    have r: "n mod ?T < ?T" using T by simp
    show "length (drop (n div ?T * ?T) (map ?pl [0..<n]) @ [?pl n]) = length (take (Suc (n mod ?T)) (unit_nodes pu))"
      using r by (simp add: minus_div_mult_eq_mod)
    fix i assume "i < length (drop (n div ?T * ?T) (map ?pl [0..<n]) @ [?pl n])"
    then have i: "i \<le> n mod ?T" by (simp add: minus_div_mult_eq_mod)
    then have i': "i < ?T" using r by linarith
    show "(drop (n div ?T * ?T) (map ?pl [0..<n]) @ [?pl n]) ! i = take (Suc (n mod ?T)) (unit_nodes pu) ! i"
    proof (cases "i = n mod ?T")
      case True
      then show ?thesis by (simp add: nth_append minus_div_mult_eq_mod)
    next
      case False
      with i have l: "i < n - n div ?T * ?T" by (simp add: minus_div_mult_eq_mod)
      then have "[0..<n] ! (n div ?T * ?T + i) = n div ?T * ?T + i" by simp
      moreover have "(n div ?T * ?T + i) mod ?T = i" using i' by simp
      ultimately show ?thesis using i i' l by (simp add: nth_append)
    qed
  qed
  moreover have "count_list (take m (unit_nodes pu)) k \<le> pu ! k" if k: "k < length pu" for m k
  proof -
    have "count_list (concat (map (\<lambda>k. replicate (pu ! k) k) [0..<l])) k = (if k < l then pu ! k else 0)" for l
    proof (induction l)
      case (Suc l)
      have "count_list (replicate a b) c = (if b = c then a else 0)" for a and b c :: nat by (induction a) auto
      with Suc show ?case by (auto simp: less_Suc_eq)
    qed simp
    then have "count_list (unit_nodes pu) k = pu ! k" using k by (simp add: unit_nodes_def)
    then show ?thesis by (metis append_take_drop_id count_list_append le_add1)
  qed
  ultimately have "balanced pu (map ?pl [0..<n] @ [?pl n])"
    by (intro balanced_append [OF Suc T]) simp
  then show ?case by simp
qed

subsection \<open>The manager\<close>

definition locality_ok :: "configuration \<Rightarrow> topology \<Rightarrow> locality_manager \<Rightarrow> bool" where
  "locality_ok c t lm \<longleftrightarrow>
     lm_max_concurrency lm = max_concurrency c \<and> lm_node_count lm = numa_node_count t \<and>
     length (lm_thread_mapping lm) = max_concurrency c \<and> (\<forall>k\<in>set (lm_thread_mapping lm). k < numa_node_count t) \<and>
     balanced (processing_units_per_node t) (lm_thread_mapping lm) \<and>
     lm_node_to_worker lm = map (workers_of (lm_thread_mapping lm)) [0..<numa_node_count t] \<and>
     (\<forall>q<partition_count c. partition_mapping lm q = thread_mapping lm (q mod max_concurrency c))"

lemma units_of_topology: "topology_ok t \<Longrightarrow> map (processing_unit_per_node t) [0..<numa_node_count t] = processing_units_per_node t"
  by (rule nth_equalityI) (simp_all add: topology_ok_def processing_unit_per_node_def)

lemma placement_ends:
  assumes "0 < sum_list pu"
  shows "\<exists>tm. (if compact then compact_mapping pu n else scatter_mapping pu n) =
      Some (tm, map (workers_of tm) [0..<length pu]) \<and> length tm = n \<and> (\<forall>k\<in>set tm. k < length pu) \<and> balanced pu tm \<and>
      (compact \<longrightarrow> (\<forall>i<n. tm ! i = unit_nodes pu ! (i mod sum_list pu)))"
proof (cases compact)
  case True
  let ?tm = "map (\<lambda>i. unit_nodes pu ! (i mod sum_list pu)) [0..<n]"
  have "set (unit_nodes pu) \<subseteq> {..<length pu}" by (auto simp: unit_nodes_def)
  moreover have "set ?tm \<subseteq> set (unit_nodes pu)"
  proof
    fix k assume "k \<in> set ?tm"
    then obtain i where "k = unit_nodes pu ! (i mod sum_list pu)" by auto
    moreover have "i mod sum_list pu < length (unit_nodes pu)" using assms by (simp del: sum_list_eq_0_iff)
    ultimately show "k \<in> set (unit_nodes pu)" by (metis nth_mem)
  qed
  ultimately have "\<forall>k\<in>set ?tm. k < length pu" by blast
  then show ?thesis using compact_mapping_closed [OF assms, of n] compact_balanced [OF assms, of n] True
    by (intro exI [of _ ?tm]) simp
next
  case False
  then show ?thesis using scatter_mapping_ends [OF assms, of n] by simp
qed

lemma make_locality_manager_ok:
  assumes t: "topology_ok t" "0 < total_processing_unit_count t" and c: "affinity c \<noteq> AffinityNONE" "0 < max_concurrency c"
  shows "\<exists>lm. make_locality_manager c t = Some lm \<and> locality_ok c t lm \<and>
    (affinity c = AffinityCOMPACT \<longrightarrow> (\<forall>i<max_concurrency c.
       thread_mapping lm i = unit_nodes (processing_units_per_node t) ! (i mod total_processing_unit_count t)))"
proof -
  let ?pu = "processing_units_per_node t" and ?n = "max_concurrency c"
  have T: "0 < sum_list ?pu" "sum_list ?pu = total_processing_unit_count t" "length ?pu = numa_node_count t"
    using t by (simp_all add: topology_ok_def)
  obtain tm where tm: "(if affinity c = AffinityCOMPACT then compact_mapping ?pu ?n else scatter_mapping ?pu ?n) =
      Some (tm, map (workers_of tm) [0..<length ?pu])" "length tm = ?n" "\<forall>k\<in>set tm. k < length ?pu" "balanced ?pu tm"
    "affinity c = AffinityCOMPACT \<longrightarrow> (\<forall>i<?n. tm ! i = unit_nodes ?pu ! (i mod sum_list ?pu))"
    using placement_ends [OF T(1), of "affinity c = AffinityCOMPACT" ?n] by blast
  let ?lm = "\<lparr>lm_max_concurrency = ?n, lm_node_count = numa_node_count t, lm_thread_mapping = tm,
      lm_partition_mapping = map (\<lambda>i. tm ! (i mod ?n)) [0..<partition_count c],
      lm_node_to_worker = map (workers_of tm) [0..<length ?pu]\<rparr>"
  have "make_locality_manager c t = Some ?lm"
    using c tm(1) unfolding make_locality_manager_def units_of_topology [OF t(1)] by simp
  moreover have "tm \<noteq> []" using tm(2) c(2) by auto
  then have "locality_ok c t ?lm"
    using tm T by (auto simp: locality_ok_def thread_mapping_def partition_mapping_def)
  moreover have "affinity c = AffinityCOMPACT \<longrightarrow> (\<forall>i<?n. thread_mapping ?lm i = unit_nodes ?pu ! (i mod total_processing_unit_count t))"
    using tm(5) T(2) \<open>tm \<noteq> []\<close> by (simp add: thread_mapping_def)
  ultimately show ?thesis by blast
qed

lemma skip_full_no_units:
  assumes "skip_full pu node j = Some y"
  shows "(\<forall>k<length pu. pu ! k = 0) \<longrightarrow> j = 0 \<longrightarrow> False"
  using assms by (rule skip_full.raw_induct [rotated]) (auto split: if_splits, force)

lemma fold_bind_None: "fold (\<lambda>i st. Option.bind st (f i)) xs None = None"
  by (induction xs) auto

lemma no_units_no_mapping:
  assumes "sum_list pu = 0" "0 < n"
  shows "compact_mapping pu n = None" "scatter_mapping pu n = None"
proof -
  have up: "[0..<n] = 0 # [1..<n]" using assms(2) by (simp add: upt_conv_Cons)
  have z: "\<forall>k<length pu. pu ! k = 0" using assms(1) by simp
  have "skip_full pu 0 0 = None" using skip_full_no_units [of pu 0 0] z by (metis not_None_eq)
  then show "compact_mapping pu n = None"
    by (simp add: compact_mapping_def up compact_step_def fold_bind_None)
  show "scatter_mapping pu n = None"
    using assms(1) by (simp add: scatter_mapping_def up scatter_step_def fold_bind_None)
qed

lemma random_worker_local:
  assumes ok: "locality_ok c t lm" and draw: "uniform_draw draw" and w: "w < max_concurrency c" and m: "max_concurrency c < size_modulus"
  shows "\<exists>w'. random_worker_from_node draw lm (thread_mapping lm w) = Some w' \<and> w' < max_concurrency c \<and>
    thread_mapping lm w' = thread_mapping lm w"
proof -
  let ?tm = "lm_thread_mapping lm" and ?k = "thread_mapping lm w"
  have tm: "length ?tm = max_concurrency c" "?tm \<noteq> []" using ok w by (auto simp: locality_ok_def)
  then have k: "?k = ?tm ! w" by (simp add: thread_mapping_def)
  then have kn: "?k < numa_node_count t" using ok w tm by (simp add: locality_ok_def)
  have tab: "lm_node_to_worker lm ! ?k = workers_of ?tm ?k" "\<not> length (lm_node_to_worker lm) \<le> ?k" "lm_node_to_worker lm \<noteq> []"
    using ok kn by (auto simp: locality_ok_def)
  let ?ws = "workers_of ?tm ?k"
  have "w \<in> set ?ws" using w tm k by (simp add: workers_of_def)
  then have ne: "0 < length ?ws" by (metis length_pos_if_in_set)
  have "length ?ws \<le> max_concurrency c" using tm(1) length_filter_le [of _ "[0..<length ?tm]"] by (simp add: workers_of_def)
  then have "sz_sub (length ?ws) 1 = length ?ws - 1" using ne m by (intro sz_sub_exact) linarith+
  moreover have "draw 0 (length ?ws - 1) \<le> length ?ws - 1" using draw by (simp add: uniform_draw_def)
  ultimately have i: "draw 0 (sz_sub (length ?ws) 1) < length ?ws" using ne by (metis One_nat_def Suc_pred le_imp_less_Suc)
  let ?w = "?ws ! draw 0 (sz_sub (length ?ws) 1)"
  have "?w \<in> set ?ws" using i by (rule nth_mem)
  then have "?w < max_concurrency c" "?tm ! ?w = ?k" using tm(1) by (auto simp: workers_of_def)
  moreover have "random_worker_from_node draw lm ?k = Some ?w"
    using tab i by (simp add: random_worker_from_node_def Let_def)
  ultimately show ?thesis using tm by (auto simp: thread_mapping_def)
qed

subsection \<open>Properties\<close>

text \<open>
  C12: on a machine with processing units the manager is built (the placement loops end), every
  thread is placed on an existing node, no node gets more threads than units in any round over all
  units, the workers of a node are exactly those placed on it, partitions follow the workers, and
  COMPACT placement is the order of the units; without a unit no placement with a thread returns.
\<close>
theorem thread_placement:
  assumes t: "topology_ok t" and c: "affinity c \<noteq> AffinityNONE" "0 < max_concurrency c"
  shows "(0 < total_processing_unit_count t \<longrightarrow> (\<exists>lm. make_locality_manager c t = Some lm \<and> locality_ok c t lm \<and>
      (affinity c = AffinityCOMPACT \<longrightarrow> (\<forall>i<max_concurrency c.
         thread_mapping lm i = unit_nodes (processing_units_per_node t) ! (i mod total_processing_unit_count t))))) \<and>
    (total_processing_unit_count t = 0 \<longrightarrow> make_locality_manager c t = None)"
proof (intro conjI impI)
  assume "total_processing_unit_count t = 0"
  then have "sum_list (processing_units_per_node t) = 0" using t by (simp add: topology_ok_def)
  from no_units_no_mapping [OF this c(2)] show "make_locality_manager c t = None"
    using c(1) unfolding make_locality_manager_def units_of_topology [OF t] Let_def by simp
qed (rule make_locality_manager_ok [OF t _ c])

definition sample_topology :: topology where
  "sample_topology = \<lparr>available_processing_units = [0, 1, 2], available_numa_nodes = [0, 1], processing_units_per_node = [2, 1]\<rparr>"

definition sample_configuration :: configuration where
  "sample_configuration = (default_configuration sample_topology)\<lparr>max_concurrency := 4, affinity := AffinityCOMPACT\<rparr>"

lemma sample_topology_ok: "topology_ok sample_topology" "0 < total_processing_unit_count sample_topology"
  by (simp_all add: topology_ok_def sample_topology_def numa_node_count_def total_processing_unit_count_def)

theorem thread_placement_witness:
  "\<exists>lm. make_locality_manager sample_configuration sample_topology = Some lm \<and>
     map (thread_mapping lm) [0..<4] = [0, 0, 1, 0]"
proof -
  have "affinity sample_configuration \<noteq> AffinityNONE" "0 < max_concurrency sample_configuration"
    by (simp_all add: sample_configuration_def)
  from thread_placement [OF sample_topology_ok(1) this] sample_topology_ok(2)
  obtain lm where lm: "make_locality_manager sample_configuration sample_topology = Some lm"
    "\<forall>i<4. thread_mapping lm i = unit_nodes [2, 1] ! (i mod 3)"
    by (auto simp: sample_configuration_def sample_topology_def total_processing_unit_count_def)
  have "unit_nodes [2, 1] = [0, 0, 1]" by code_simp
  then have "thread_mapping lm 0 = 0" "thread_mapping lm 1 = 0" "thread_mapping lm 2 = 1" "thread_mapping lm 3 = 0"
    using lm(2) by simp_all
  moreover have "[0..<4] = [0, 1, 2, 3 :: nat]" by code_simp
  ultimately show ?thesis using lm(1) by (metis (no_types, lifting) list.simps(8,9))
qed

text \<open>
  C13: asked for a random worker of a node that some thread is placed on, the manager answers a
  worker of that node, whatever the generator draws; a node without a thread is read behind the end
  of its empty worker list, because \<open>size() - 1\<close> wraps around.
\<close>
theorem random_worker_from_node_local:
  assumes ok: "locality_ok c t lm" and draw: "uniform_draw draw" and m: "max_concurrency c < size_modulus"
  shows "(\<forall>w<max_concurrency c. \<exists>w'. random_worker_from_node draw lm (thread_mapping lm w) = Some w' \<and>
      w' < max_concurrency c \<and> thread_mapping lm w' = thread_mapping lm w) \<and>
    (\<forall>k<numa_node_count t. k \<notin> set (lm_thread_mapping lm) \<longrightarrow>
      sz_sub (length (lm_node_to_worker lm ! k)) 1 = size_modulus - 1 \<and> random_worker_from_node draw lm k = None)"
proof (intro conjI allI impI)
  fix w assume "w < max_concurrency c"
  then show "\<exists>w'. random_worker_from_node draw lm (thread_mapping lm w) = Some w' \<and> w' < max_concurrency c \<and>
      thread_mapping lm w' = thread_mapping lm w"
    by (rule random_worker_local [OF ok draw _ m])
next
  fix k assume k: "k < numa_node_count t" "k \<notin> set (lm_thread_mapping lm)"
  have tab: "lm_node_to_worker lm = map (workers_of (lm_thread_mapping lm)) [0..<numa_node_count t]"
    using ok by (simp add: locality_ok_def)
  have "workers_of (lm_thread_mapping lm) k = []"
    using k(2) by (auto simp: workers_of_def filter_empty_conv)
  then have e: "lm_node_to_worker lm ! k = []" using tab k(1) by simp
  then show "sz_sub (length (lm_node_to_worker lm ! k)) 1 = size_modulus - 1"
    using sz_sub_wraps [of 0 1] by (simp add: size_modulus_def)
  show "random_worker_from_node draw lm k = None"
    using e tab k(1) by (simp add: random_worker_from_node_def)
qed

theorem random_worker_from_node_local_witness:
  "\<exists>lm w. make_locality_manager sample_configuration sample_topology = Some lm \<and>
     random_worker_from_node (\<lambda>lo hi. hi) lm (thread_mapping lm 0) = Some w \<and> w < 4"
proof -
  have c: "affinity sample_configuration \<noteq> AffinityNONE" "0 < max_concurrency sample_configuration"
    by (simp_all add: sample_configuration_def)
  obtain lm where lm: "make_locality_manager sample_configuration sample_topology = Some lm"
    "locality_ok sample_configuration sample_topology lm"
    using make_locality_manager_ok [OF sample_topology_ok c] by blast
  have "uniform_draw (\<lambda>lo hi. hi)" by (simp add: uniform_draw_def)
  moreover have "max_concurrency sample_configuration < size_modulus"
    by (simp add: sample_configuration_def size_modulus_def)
  ultimately show ?thesis
    using random_worker_from_node_local [OF lm(2), of "\<lambda>lo hi. hi"] lm(1) by (force simp: sample_configuration_def)
qed

end
