(* ===== verification/Containers.thy ===== *)
theory Containers
  imports Prelude "HOL-Library.Monad_Syntax"
begin

text \<open>
  The exceptions of the program (include/m3bp/exception.hpp and the standard ones it throws) and
  the containers of src/common: \<open>ArrayRef\<close>, a pair of pointers into an array of size_type values,
  \<open>NoncopyableVector\<close>, an owned array with its size, and \<open>ThreadSpecific\<close>. Access through a null
  or out-of-range pointer is undefined in the program and \<open>Undefined\<close> here.
\<close>

datatype exn =
    Out_of_range | Invalid_argument | Runtime_error | Bad_alloc
  | ProcessorDefinitionError | RoutingError | InvalidBuffer
  | System_error | User_exception nat | Undefined

type_synonym 'a result = "exn + 'a"

definition throw :: "exn \<Rightarrow> 'a result" where
  "throw e = Inl e"

definition ok :: "'a \<Rightarrow> 'a result" where
  "ok x = Inr x"

definition andThen :: "'a result \<Rightarrow> ('a \<Rightarrow> 'b result) \<Rightarrow> 'b result" where
  "andThen r f = (case r of Inl e \<Rightarrow> Inl e | Inr x \<Rightarrow> f x)"

lemma andThen_simps [simp]:
  "andThen (Inl e) f = Inl e" "andThen (Inr x) f = f x" "andThen (throw e) f = throw e" "andThen (ok x) f = f x"
  by (simp_all add: andThen_def throw_def ok_def)

lemma ok_throw_simps [simp]: "ok x = ok y \<longleftrightarrow> x = y" "throw e = throw e' \<longleftrightarrow> e = e'"
  "ok x \<noteq> throw e" "throw e \<noteq> ok x"
  by (simp_all add: ok_def throw_def)

subsection \<open>ArrayRef\<close>

record array_ref =
  m_first :: addr
  m_last :: addr

definition make_array_ref :: "addr \<Rightarrow> addr \<Rightarrow> array_ref" where
  "make_array_ref f l = \<lparr>m_first = f, m_last = l\<rparr>"

text \<open>\<open>ArrayRef(base, base + len)\<close> over size_type elements.\<close>

definition array_of :: "addr \<Rightarrow> size_type \<Rightarrow> array_ref" where
  "array_of base len = make_array_ref base (base + 8 * len)"

definition ar_size :: "array_ref \<Rightarrow> size_type" where
  "ar_size r = (m_last r - m_first r) div 8"

definition ar_empty :: "array_ref \<Rightarrow> bool" where
  "ar_empty r \<longleftrightarrow> m_first r = m_last r"

definition ar_index :: "array_ref \<Rightarrow> size_type \<Rightarrow> addr" where
  "ar_index r pos = m_first r + 8 * pos"

definition ar_at :: "array_ref \<Rightarrow> size_type \<Rightarrow> addr result" where
  "ar_at r pos = (if ar_size r \<le> pos then throw Out_of_range else ok (ar_index r pos))"

definition ar_front :: "array_ref \<Rightarrow> addr" where
  "ar_front r = m_first r"

definition ar_back :: "array_ref \<Rightarrow> addr" where
  "ar_back r = m_last r - 8"

definition ar_get :: "mem \<Rightarrow> array_ref \<Rightarrow> size_type \<Rightarrow> size_type" where
  "ar_get m r pos = load_size m (ar_index r pos)"

lemma array_of_simps [simp]:
  "m_first (array_of b n) = b" "m_last (array_of b n) = b + 8 * n" "ar_size (array_of b n) = n"
  "ar_index (array_of b n) i = b + 8 * i" "ar_empty (array_of b n) \<longleftrightarrow> n = 0"
  by (simp_all add: array_of_def make_array_ref_def ar_size_def ar_index_def ar_empty_def)

lemma ar_get_array_of [simp]: "ar_get m (array_of b n) i = load_size m (b + 8 * i)"
  by (simp add: ar_get_def)

lemma ar_at_array_of: "ar_at (array_of b n) i = (if i < n then ok (b + 8 * i) else throw Out_of_range)"
  by (simp add: ar_at_def)

lemma ar_back_array_of: "0 < n \<Longrightarrow> ar_back (array_of b n) = b + 8 * (n - 1)"
  by (simp add: ar_back_def algebra_simps)

subsection \<open>NoncopyableVector\<close>

record 'a ncv =
  m_size :: size_type
  m_data :: "'a list option"

definition ncv_empty :: "'a ncv" where
  "ncv_empty = \<lparr>m_size = 0, m_data = None\<rparr>"

definition ncv_new :: "size_type \<Rightarrow> 'a \<Rightarrow> 'a ncv" where
  "ncv_new n x = \<lparr>m_size = n, m_data = Some (replicate n x)\<rparr>"

text \<open>
  The defaulted move: the size is copied, the unique_ptr is moved. The result is the new vector
  and the one moved from.
\<close>

definition ncv_move :: "'a ncv \<Rightarrow> 'a ncv \<times> 'a ncv" where
  "ncv_move v = (v, v\<lparr>m_data := None\<rparr>)"

definition ncv_index :: "'a ncv \<Rightarrow> size_type \<Rightarrow> 'a result" where
  "ncv_index v pos =
     (case m_data v of None \<Rightarrow> throw Undefined
      | Some d \<Rightarrow> (if pos < length d then ok (d ! pos) else throw Undefined))"

definition ncv_at :: "'a ncv \<Rightarrow> size_type \<Rightarrow> 'a result" where
  "ncv_at v pos = (if m_size v \<le> pos then throw Out_of_range else ncv_index v pos)"

definition ncv_set :: "'a ncv \<Rightarrow> size_type \<Rightarrow> 'a \<Rightarrow> 'a ncv" where
  "ncv_set v pos x = v\<lparr>m_data := map_option (\<lambda>d. d[pos := x]) (m_data v)\<rparr>"

definition ncv_front :: "'a ncv \<Rightarrow> 'a result" where
  "ncv_front v = ncv_index v 0"

definition ncv_back :: "'a ncv \<Rightarrow> 'a result" where
  "ncv_back v = ncv_index v (sz_sub (m_size v) 1)"

definition ncv_is_empty :: "'a ncv \<Rightarrow> bool" where
  "ncv_is_empty v \<longleftrightarrow> m_size v = 0"

definition ncv_ok :: "'a ncv \<Rightarrow> bool" where
  "ncv_ok v \<longleftrightarrow> (case m_data v of None \<Rightarrow> m_size v = 0 | Some d \<Rightarrow> length d = m_size v)"

lemma ncv_ok_new [simp]: "ncv_ok ncv_empty" "ncv_ok (ncv_new n x)"
  by (simp_all add: ncv_ok_def ncv_empty_def ncv_new_def)

lemma ncv_ok_set: "ncv_ok v \<Longrightarrow> ncv_ok (ncv_set v i x)"
  by (auto simp: ncv_ok_def ncv_set_def split: option.splits)

lemma ncv_at_set:
  "ncv_ok v \<Longrightarrow> i < m_size v \<Longrightarrow> ncv_at (ncv_set v i x) j = (if i = j then ok x else ncv_at v j)"
  by (auto simp: ncv_ok_def ncv_at_def ncv_set_def ncv_index_def split: option.splits)

subsection \<open>ThreadSpecific\<close>

text \<open>
  One value per thread, created at the first \<open>get\<close> of the thread. \<open>key_ok\<close> and \<open>set_ok\<close> are the
  results of \<open>pthread_key_create\<close> and \<open>pthread_setspecific\<close>.
\<close>

type_synonym ('t, 'a) thread_specific = "'t \<rightharpoonup> 'a"

definition ts_new :: "bool \<Rightarrow> ('t, 'a) thread_specific result" where
  "ts_new key_ok = (if key_ok then ok Map.empty else throw Runtime_error)"

definition ts_get :: "bool \<Rightarrow> 't \<Rightarrow> 'a \<Rightarrow> ('t, 'a) thread_specific \<Rightarrow> ('a \<times> ('t, 'a) thread_specific) result" where
  "ts_get set_ok t fresh s =
     (case s t of Some x \<Rightarrow> ok (x, s)
      | None \<Rightarrow> (if set_ok then ok (fresh, s(t \<mapsto> fresh)) else throw Runtime_error))"

lemma ts_get_stable:
  assumes "ts_get b t x s = ok (y, s')"
  shows "ts_get b' t x' s' = ok (y, s')" "u \<noteq> t \<Longrightarrow> s' u = s u"
  using assms by (auto simp: ts_get_def split: option.splits if_splits)

subsection \<open>Properties\<close>

text \<open>
  C7: a \<open>NoncopyableVector\<close> that was moved from keeps its size but has no storage: the bounds check
  of \<open>at\<close> still passes for every position of the old vector and the access goes through the null
  pointer, while on the vector moved to \<open>at\<close> returns the element or throws.
\<close>
theorem moved_from_vector_at:
  assumes "ncv_ok v" "ncv_move v = (new, old)"
  shows "(\<forall>i. i < m_size v \<longrightarrow> ncv_at old i = throw Undefined) \<and>
    (\<forall>i. ncv_at new i = (if i < m_size v then ok (the (m_data v) ! i) else throw Out_of_range)) \<and>
    (ncv_is_empty old \<longleftrightarrow> m_size v = 0)"
  using assms
  by (auto simp: ncv_move_def ncv_at_def ncv_index_def ncv_ok_def ncv_is_empty_def split: option.splits)

theorem moved_from_vector_at_witness:
  "ncv_at (snd (ncv_move (ncv_new 3 True))) 1 = throw Undefined"
proof -
  have "m_size (ncv_new 3 True) = 3" by (simp add: ncv_new_def)
  then show ?thesis
    using moved_from_vector_at [OF ncv_ok_new(2) surjective_pairing, of 3 True] by simp
qed

end
