(* ===== verification/SystemTopology.thy ===== *)
theory SystemTopology
  imports Locality Containers
begin

text \<open>
  The calls of \<open>Topology\<close> into hwloc and the allocator (system/topology.cpp) and the binding of worker threads
  (scheduler/locality_manager.cpp). What hwloc and malloc answer is a parameter; a call that fails
  throws \<open>std::runtime_error\<close> or \<open>std::bad_alloc\<close>, a failed assertion is \<open>Undefined\<close>.
\<close>

text \<open>
  The results of initialisation and loading, the numbers of objects (-1 is an error) and the depth of NUMA
  nodes, which units and nodes a thread can be bound to, the node above a unit, and which objects exist.
\<close>

record hwloc =
  hw_init :: bool
  hw_load :: bool
  hw_unit_count :: int
  hw_node_depth :: int
  hw_node_count :: int
  hw_bind_unit :: "nat \<Rightarrow> bool"
  hw_bind_node :: "nat \<Rightarrow> bool"
  hw_bind_machine :: bool
  hw_node_above :: "nat \<Rightarrow> nat option"
  hw_has_node :: "nat \<Rightarrow> bool"
  hw_has_machine :: bool

definition initialize_topology :: "hwloc \<Rightarrow> unit result" where
  "initialize_topology hw = (if \<not> hw_init hw then throw Runtime_error else if \<not> hw_load hw then throw Runtime_error else ok ())"

definition enumerate_processing_units :: "hwloc \<Rightarrow> identifier_type list result" where
  "enumerate_processing_units hw =
     (if hw_unit_count hw = -1 then throw Runtime_error
      else ok (fold (\<lambda>i units. if hw_bind_unit hw i then units @ [i] else units) [0..<nat (hw_unit_count hw)] []))"

definition enumerate_numa_nodes :: "hwloc \<Rightarrow> identifier_type list result" where
  "enumerate_numa_nodes hw =
     (if hw_node_depth hw \<le> 0 then ok [0]
      else if hw_node_count hw = -1 then throw Runtime_error
      else ok (fold (\<lambda>i nodes. if hw_bind_node hw i then nodes @ [i] else nodes) [0..<nat (hw_node_count hw)] []))"

text \<open>The constructor; \<open>Undefined\<close> is a write behind the end of the counters.\<close>

definition make_topology :: "hwloc \<Rightarrow> topology result" where
  "make_topology hw =
     andThen (initialize_topology hw) (\<lambda>_.
     andThen (enumerate_processing_units hw) (\<lambda>units.
     andThen (enumerate_numa_nodes hw) (\<lambda>nodes.
       (case hwloc_topology units nodes (hw_node_above hw) of None \<Rightarrow> throw Undefined | Some t \<Rightarrow> ok t))))"

text \<open>The result is the node the thread is bound to, \<open>g_binded_node\<close>.\<close>

definition set_thread_cpubind :: "hwloc \<Rightarrow> topology \<Rightarrow> identifier_type \<Rightarrow> identifier_type result" where
  "set_thread_cpubind hw t numa_node =
     (if \<not> numa_node < numa_node_count t then throw Undefined
      else if numa_node_count t = 1
      then (if \<not> hw_has_machine hw then throw Runtime_error else if \<not> hw_bind_machine hw then throw Runtime_error else ok numa_node)
      else (let i = available_numa_nodes t ! numa_node
            in if \<not> hw_has_node hw i then throw Runtime_error else if \<not> hw_bind_node hw i then throw Runtime_error else ok numa_node))"

text \<open>\<open>p\<close> is what \<open>malloc\<close> returned.\<close>

definition allocate_membind_on :: "topology \<Rightarrow> identifier_type \<Rightarrow> addr option \<Rightarrow> addr result" where
  "allocate_membind_on t numa_node p =
     (if \<not> numa_node < length (processing_units_per_node t) then throw Undefined
      else case p of None \<Rightarrow> throw Bad_alloc | Some p \<Rightarrow> ok p)"

definition allocate_membind :: "topology \<Rightarrow> identifier_type \<Rightarrow> addr option \<Rightarrow> addr result" where
  "allocate_membind t binded_node p = allocate_membind_on t binded_node p"

text \<open>\<open>LocalityManager::set_thread_cpubind\<close>, the first thing a worker thread does.\<close>

definition bind_worker :: "hwloc \<Rightarrow> topology \<Rightarrow> locality_manager \<Rightarrow> identifier_type \<Rightarrow> identifier_type option result" where
  "bind_worker hw t lm w =
     (case thread_cpubind lm w of None \<Rightarrow> ok None | Some n \<Rightarrow> andThen (set_thread_cpubind hw t n) (\<lambda>n. ok (Some n)))"

subsection \<open>What the constructor yields\<close>

lemma enumerated: "fold (\<lambda>i xs. if c i then xs @ [i] else xs) is ys = ys @ filter c is"
  by (induction "is" arbitrary: ys) simp_all

lemma counted_units:
  assumes "fold (\<lambda>pu per_node. Option.bind per_node (count_unit nodes parent pu)) pus (Some xs) = Some ys"
  shows "length ys = length xs \<and> sum_list ys = sum_list xs + length pus"
  using assms
proof (induction pus arbitrary: xs)
  case (Cons pu pus)
  have "fold (\<lambda>pu per_node. Option.bind per_node (count_unit nodes parent pu)) us None = None" for us
    by (induction us) simp_all
  then obtain zs where zs: "count_unit nodes parent pu xs = Some zs" using Cons.prems by (cases "count_unit nodes parent pu xs") auto
  then have "length zs = length xs \<and> sum_list zs = sum_list xs + 1"
    using increment_at_sum by (auto simp: count_unit_def split: if_splits option.splits)
  then show ?case using Cons zs by auto
qed simp

lemma make_topology_ok:
  assumes "make_topology hw = ok t" "0 < numa_node_count t"
  shows "topology_ok t" "set (available_processing_units t) = {i. i < nat (hw_unit_count hw) \<and> hw_bind_unit hw i}"
proof -
  obtain units nodes where un: "enumerate_processing_units hw = ok units" "enumerate_numa_nodes hw = ok nodes"
      "hwloc_topology units nodes (hw_node_above hw) = Some t"
    using assms(1) by (auto simp: make_topology_def andThen_def ok_def throw_def split: sum.splits option.splits)
  then have t: "available_processing_units t = units" "available_numa_nodes t = nodes" by (auto simp: hwloc_topology_def)
  obtain counts where c: "t = \<lparr>available_processing_units = units, available_numa_nodes = nodes, processing_units_per_node = counts\<rparr>"
      "fold (\<lambda>pu per_node. Option.bind per_node (count_unit nodes (hw_node_above hw) pu)) units (Some (replicate (length nodes) 0)) = Some counts"
    using un(3) by (auto simp: hwloc_topology_def)
  then have "length counts = length nodes" "sum_list counts = length units"
    using counted_units [OF c(2)] by (simp_all add: sum_list_replicate)
  then show "topology_ok t"
    using assms(2) by (simp add: c(1) topology_ok_def numa_node_count_def total_processing_unit_count_def)
  show "set (available_processing_units t) = {i. i < nat (hw_unit_count hw) \<and> hw_bind_unit hw i}"
  proof -
    have "units = filter (hw_bind_unit hw) [0..<nat (hw_unit_count hw)]"
      using un(1) by (simp add: enumerate_processing_units_def enumerated split: if_splits)
    then show ?thesis by (auto simp: t)
  qed
qed

text \<open>With a placement made for this machine, binding a worker fails no assertion.\<close>

lemma bind_worker_ok:
  assumes t: "topology_ok t" "0 < total_processing_unit_count t" and c: "affinity c \<noteq> AffinityNONE" "0 < Configuration.max_concurrency c"
    and lm: "make_locality_manager c t = Some lm" and w: "w < Configuration.max_concurrency c"
    and hw: "hw_has_machine hw" "hw_bind_machine hw" "\<forall>i\<in>set (available_numa_nodes t). hw_has_node hw i \<and> hw_bind_node hw i"
  shows "bind_worker hw t lm w = ok (Some (thread_mapping lm w))"
proof -
  have lok: "locality_ok c t lm" using make_locality_manager_ok [OF t c] lm by auto
  then have m: "lm_thread_mapping lm \<noteq> []" "thread_mapping lm w < numa_node_count t"
    using w by (auto simp: locality_ok_def thread_mapping_def)
  then have "available_numa_nodes t ! thread_mapping lm w \<in> set (available_numa_nodes t)" by (simp add: numa_node_count_def)
  then show ?thesis using m hw by (simp add: bind_worker_def thread_cpubind_def set_thread_cpubind_def Let_def)
qed

end
