(* ===== verification/SerializedBuffer.thy ===== *)
theory SerializedBuffer
  imports Containers Memory
begin

text \<open>
  src/memory/serialized_buffer.*: a buffer holds a header, optionally a keys section, and a values
  section in one memory object. The allocation functions compute the layout and write the
  headers; the constructor finds the sections again from the headers alone. The lemmas show that
  it finds exactly the layout the allocation chose, that the sections are aligned, disjoint and
  inside the buffer, and what the accessors return. Sizes are size_type with wrap-around.

  On the 64-bit platform the library is built for, \<open>alignof(max_align_t)\<close> is 16 and
  \<open>sizeof(size_type)\<close> and its alignment are 8.
\<close>

subsection \<open>Layout\<close>

definition align_ceil :: "size_type \<Rightarrow> size_type \<Rightarrow> size_type" where
  "align_ceil x a = unat ((of_nat x + of_nat a - 1 :: u64) AND NOT (of_nat a - 1))"

record value_layout =
  values_header_pos :: size_type
  values_data_pos :: size_type
  values_offsets_pos :: size_type
  layout_size :: size_type

definition values_layout :: "size_type \<Rightarrow> size_type \<Rightarrow> size_type \<Rightarrow> value_layout" where
  "values_layout start maximum_record_count total_record_size =
     (let data_pos = align_ceil (sz_add start 24) 16;
          offsets_pos = sz_add data_pos (align_ceil total_record_size 8)
      in \<lparr>values_header_pos = start, values_data_pos = data_pos, values_offsets_pos = offsets_pos,
          layout_size = sz_add offsets_pos (sz_mul (sz_add maximum_record_count 1) 8)\<rparr>)"

definition value_only_layout :: "size_type \<Rightarrow> size_type \<Rightarrow> value_layout" where
  "value_only_layout maximum_record_count total_record_size =
     values_layout 16 maximum_record_count total_record_size"

definition key_value_layout :: "size_type \<Rightarrow> size_type \<Rightarrow> value_layout" where
  "key_value_layout maximum_record_count total_record_size =
     (let l = values_layout 16 maximum_record_count total_record_size
      in l\<lparr>layout_size := sz_add (layout_size l) (sz_mul maximum_record_count 8)\<rparr>)"

record grouped_layout = value_layout +
  keys_header_pos :: size_type
  keys_data_pos :: size_type
  keys_offsets_pos :: size_type

definition grouped_layout :: "size_type \<Rightarrow> size_type \<Rightarrow> size_type \<Rightarrow> size_type \<Rightarrow> grouped_layout" where
  "grouped_layout maximum_record_count maximum_group_count total_key_size total_value_size =
     (let keys_data = align_ceil (sz_add 16 16) 16;
          keys_offsets = sz_add keys_data (align_ceil total_key_size 8);
          values_header = sz_add keys_offsets (sz_mul (sz_add maximum_group_count 1) 8);
          l = values_layout values_header maximum_record_count total_value_size
      in \<lparr>values_header_pos = values_header, values_data_pos = values_data_pos l,
          values_offsets_pos = values_offsets_pos l,
          layout_size = sz_add (layout_size l) (sz_mul (sz_add maximum_group_count 1) 8),
          keys_header_pos = 16, keys_data_pos = keys_data, keys_offsets_pos = keys_offsets\<rparr>)"

subsection \<open>Headers\<close>

text \<open>
  SerializedBufferHeader is (key_buffer_size, value_buffer_size), SerializedKeysHeader is
  (data_buffer_size, record_count) and SerializedValuesHeader is (data_buffer_size,
  maximum_record_count, actual_record_count), each a sequence of size_type fields.
\<close>

definition write_common_header :: "addr \<Rightarrow> size_type \<Rightarrow> size_type \<Rightarrow> mem \<Rightarrow> mem" where
  "write_common_header base key_size value_size m = store_size (store_size m base key_size) (base + 8) value_size"

definition write_keys_header :: "addr \<Rightarrow> size_type \<Rightarrow> size_type \<Rightarrow> mem \<Rightarrow> mem" where
  "write_keys_header p data_size n m = store_size (store_size m p data_size) (p + 8) n"

definition write_values_header :: "addr \<Rightarrow> size_type \<Rightarrow> size_type \<Rightarrow> mem \<Rightarrow> mem" where
  "write_values_header p data_size maximum m =
     store_size (store_size (store_size m p data_size) (p + 8) maximum) (p + 16) 0"

definition init_values :: "addr \<Rightarrow> value_layout \<Rightarrow> size_type \<Rightarrow> mem \<Rightarrow> mem" where
  "init_values base l maximum_record_count m =
     write_values_header (base + values_header_pos l)
       (sz_sub (values_offsets_pos l) (values_data_pos l)) maximum_record_count
       (write_common_header base 0 (sz_sub (layout_size l) (values_header_pos l)) m)"

definition init_grouped :: "addr \<Rightarrow> grouped_layout \<Rightarrow> size_type \<Rightarrow> size_type \<Rightarrow> mem \<Rightarrow> mem" where
  "init_grouped base l maximum_record_count maximum_group_count m =
     write_values_header (base + values_header_pos l)
       (sz_sub (values_offsets_pos l) (values_data_pos l)) maximum_record_count
       (write_keys_header (base + keys_header_pos l)
          (sz_sub (keys_offsets_pos l) (keys_data_pos l)) maximum_group_count
          (write_common_header base (sz_sub (values_header_pos l) (keys_header_pos l))
             (sz_sub (layout_size l) (values_header_pos l)) m))"

subsection \<open>The buffer object and its constructor\<close>

text \<open>The memory object is the slot of the LockedMemoryReference the buffer keeps.\<close>

record serialized_buffer =
  sb_slot :: "nat option"
  common_header :: "addr option"
  keys_header :: "addr option"
  values_header :: "addr option"
  keys_data_ptr :: "addr option"
  keys_offsets_ptr :: "addr option"
  values_data_ptr :: "addr option"
  values_offsets_ptr :: "addr option"
  values_key_lengths :: "addr option"
  values_group_offsets :: "addr option"

definition null_buffer :: serialized_buffer where
  "null_buffer = \<lparr>sb_slot = None, common_header = None, keys_header = None, values_header = None,
     keys_data_ptr = None, keys_offsets_ptr = None, values_data_ptr = None, values_offsets_ptr = None,
     values_key_lengths = None, values_group_offsets = None\<rparr>"

definition parse_keys :: "mem \<Rightarrow> addr \<Rightarrow> serialized_buffer \<times> size_type \<Rightarrow> serialized_buffer \<times> size_type" where
  "parse_keys m base bc =
     (let (b, cur) = bc;
          kh = base + cur;
          data = align_ceil (sz_add cur 16) 16;
          offsets = sz_add data (load_size m kh)
      in (b\<lparr>keys_header := Some kh, keys_data_ptr := Some (base + data), keys_offsets_ptr := Some (base + offsets)\<rparr>,
          sz_add offsets (sz_mul 8 (sz_add (load_size m (kh + 8)) 1))))"

definition parse_values :: "mem \<Rightarrow> addr \<Rightarrow> size_type \<Rightarrow> serialized_buffer \<times> size_type \<Rightarrow> serialized_buffer" where
  "parse_values m base tail bc =
     (let (b, cur) = bc;
          vh = base + cur;
          data = align_ceil (sz_add cur 24) 16;
          offsets = sz_add data (load_size m vh);
          next = sz_add offsets (sz_mul 8 (sz_add (load_size m (vh + 8)) 1));
          b1 = b\<lparr>values_header := Some vh, values_data_ptr := Some (base + data),
                 values_offsets_ptr := Some (base + offsets)\<rparr>
      in if next = tail then b1
         else if load_size m base = 0 then b1\<lparr>values_key_lengths := Some (base + next)\<rparr>
         else b1\<lparr>values_group_offsets := Some (base + next)\<rparr>)"

definition make_serialized_buffer :: "mem \<Rightarrow> nat option \<Rightarrow> addr option \<Rightarrow> serialized_buffer" where
  "make_serialized_buffer m slot p =
     (case p of
        None \<Rightarrow> null_buffer\<lparr>sb_slot := slot\<rparr>
      | Some base \<Rightarrow>
          (let b0 = null_buffer\<lparr>sb_slot := slot, common_header := Some base\<rparr>;
               tail = sz_add (sz_add 16 (load_size m base)) (load_size m (base + 8));
               bc = (if 0 < load_size m base then parse_keys m base (b0, 16) else (b0, 16))
           in if 0 < load_size m (base + 8) then parse_values m base tail bc else fst bc))"

subsection \<open>Allocation\<close>

text \<open>
  The memory object is allocated through the manager and locked into slot \<open>slot\<close>; \<open>tmp\<close> is the
  slot of the temporary MemoryReference and \<open>p\<close> the memory the allocation returned.
  \<open>TARGET_NODE_UNSPECIFIED\<close> is \<open>invalid_id\<close>.
\<close>

definition allocate_locked ::
  "bool \<Rightarrow> nat \<Rightarrow> nat \<Rightarrow> addr \<Rightarrow> size_type \<Rightarrow> identifier_type \<Rightarrow> mem_state \<Rightarrow> mem_state option" where
  "allocate_locked nd tmp slot p sz target_node ms =
     mr_destroy nd tmp (mr_lock slot tmp
       (if target_node = invalid_id then allocate tmp p sz ms else allocate_on_node tmp p sz target_node ms))"

definition allocate_value_only_buffer ::
  "bool \<Rightarrow> nat \<Rightarrow> nat \<Rightarrow> addr \<Rightarrow> size_type \<Rightarrow> size_type \<Rightarrow> identifier_type \<Rightarrow> mem_state \<times> mem \<Rightarrow>
   (serialized_buffer \<times> mem_state \<times> mem) option" where
  "allocate_value_only_buffer nd tmp slot p maximum_record_count total_record_size target_node st =
     (let l = value_only_layout maximum_record_count total_record_size in
      map_option (\<lambda>ms. let m = init_values p l maximum_record_count (snd st)
                        in (make_serialized_buffer m (Some slot) (Some p), ms, m))
        (allocate_locked nd tmp slot p (layout_size l) target_node (fst st)))"

definition allocate_key_value_buffer ::
  "bool \<Rightarrow> nat \<Rightarrow> nat \<Rightarrow> addr \<Rightarrow> size_type \<Rightarrow> size_type \<Rightarrow> identifier_type \<Rightarrow> mem_state \<times> mem \<Rightarrow>
   (serialized_buffer \<times> mem_state \<times> mem) option" where
  "allocate_key_value_buffer nd tmp slot p maximum_record_count total_record_size target_node st =
     (let l = key_value_layout maximum_record_count total_record_size in
      map_option (\<lambda>ms. let m = init_values p l maximum_record_count (snd st)
                        in (make_serialized_buffer m (Some slot) (Some p), ms, m))
        (allocate_locked nd tmp slot p (layout_size l) target_node (fst st)))"

definition allocate_grouped_buffer ::
  "bool \<Rightarrow> nat \<Rightarrow> nat \<Rightarrow> addr \<Rightarrow> size_type \<Rightarrow> size_type \<Rightarrow> size_type \<Rightarrow> size_type \<Rightarrow> identifier_type \<Rightarrow>
   mem_state \<times> mem \<Rightarrow> (serialized_buffer \<times> mem_state \<times> mem) option" where
  "allocate_grouped_buffer nd tmp slot p maximum_record_count maximum_group_count total_key_size
      total_value_size target_node st =
     (let l = grouped_layout maximum_record_count maximum_group_count total_key_size total_value_size in
      map_option (\<lambda>ms. let m = init_grouped p l maximum_record_count maximum_group_count (snd st)
                        in (make_serialized_buffer m (Some slot) (Some p), ms, m))
        (allocate_locked nd tmp slot p (layout_size l) target_node (fst st)))"

subsection \<open>Accessors\<close>

definition is_grouped :: "serialized_buffer \<Rightarrow> bool" where
  "is_grouped b \<longleftrightarrow> keys_header b \<noteq> None"

definition buffer_valid :: "serialized_buffer \<Rightarrow> bool" where
  "buffer_valid b \<longleftrightarrow> common_header b \<noteq> None"

definition record_count :: "mem \<Rightarrow> serialized_buffer \<Rightarrow> size_type" where
  "record_count m b = load_size m (the (values_header b) + 16)"

definition set_record_count :: "serialized_buffer \<Rightarrow> size_type \<Rightarrow> mem \<Rightarrow> mem" where
  "set_record_count b n m = store_size m (the (values_header b) + 16) n"

definition maximum_record_count :: "mem \<Rightarrow> serialized_buffer \<Rightarrow> size_type" where
  "maximum_record_count m b = load_size m (the (values_header b) + 8)"

definition group_count :: "mem \<Rightarrow> serialized_buffer \<Rightarrow> size_type" where
  "group_count m b = load_size m (the (keys_header b) + 8)"

definition keys_data :: "serialized_buffer \<Rightarrow> addr" where
  "keys_data b = the (keys_data_ptr b)"

definition keys_data_size :: "mem \<Rightarrow> serialized_buffer \<Rightarrow> size_type" where
  "keys_data_size m b = load_size m (the (keys_header b))"

definition keys_offsets :: "mem \<Rightarrow> serialized_buffer \<Rightarrow> array_ref" where
  "keys_offsets m b = array_of (the (keys_offsets_ptr b)) (group_count m b + 1)"

definition values_data :: "serialized_buffer \<Rightarrow> addr" where
  "values_data b = the (values_data_ptr b)"

definition values_data_size :: "mem \<Rightarrow> serialized_buffer \<Rightarrow> size_type" where
  "values_data_size m b = load_size m (the (values_header b))"

definition values_offsets :: "mem \<Rightarrow> serialized_buffer \<Rightarrow> array_ref" where
  "values_offsets m b = array_of (the (values_offsets_ptr b)) (maximum_record_count m b + 1)"

definition key_lengths :: "mem \<Rightarrow> serialized_buffer \<Rightarrow> array_ref" where
  "key_lengths m b = array_of (the (values_key_lengths b)) (maximum_record_count m b)"

definition value_group_offsets :: "mem \<Rightarrow> serialized_buffer \<Rightarrow> array_ref" where
  "value_group_offsets m b = array_of (the (values_group_offsets b)) (group_count m b + 1)"

subsection \<open>Content hash\<close>

definition compute_partial_hash :: "mem \<Rightarrow> addr \<Rightarrow> size_type \<Rightarrow> u64" where
  "compute_partial_hash m ptr len = fold (\<lambda>i h. h * 1000000009 + ucast (m (ptr + i))) [0..<len] 0"

text \<open>
  The loop over the values of one group; it advances while the value offset is below the end of
  the group. The offset table has no sentinel for the loop, so it is bounded by fuel; the lemmas
  show when it stops.
\<close>

fun group_values_hash :: "nat \<Rightarrow> mem \<Rightarrow> addr \<Rightarrow> addr \<Rightarrow> size_type \<Rightarrow> nat \<Rightarrow> u64 \<Rightarrow> (u64 \<times> nat) option" where
  "group_values_hash 0 m vd vo bound vi h = None"
| "group_values_hash (Suc fuel) m vd vo bound vi h =
     (let lo = load_size m (vo + 8 * vi); hi = load_size m (vo + 8 * (vi + 1)) in
      if lo < bound
      then group_values_hash fuel m vd vo bound (vi + 1) (h XOR compute_partial_hash m (vd + lo) (sz_sub hi lo))
      else Some (h, vi))"

definition grouped_hash :: "nat \<Rightarrow> mem \<Rightarrow> serialized_buffer \<Rightarrow> u64 option" where
  "grouped_hash fuel m b =
     (let kd = keys_data b; ko = the (keys_offsets_ptr b); vd = values_data b;
          vo = the (values_offsets_ptr b); vgo = the (values_group_offsets b)
      in map_option fst
        (fold (\<lambda>gi st. case st of None \<Rightarrow> None | Some (h, vi) \<Rightarrow>
             let klo = load_size m (ko + 8 * gi); khi = load_size m (ko + 8 * (gi + 1));
                 ghash = compute_partial_hash m (kd + klo) (sz_sub khi klo)
             in map_option (\<lambda>(g, vi). (h * 1000000007 + g, vi))
                  (group_values_hash fuel m vd vo (load_size m (vgo + 8 * (gi + 1))) vi ghash))
          [0..<group_count m b] (Some (0, 0))))"

definition value_hash :: "mem \<Rightarrow> serialized_buffer \<Rightarrow> nat \<Rightarrow> u64" where
  "value_hash m b i =
     (let vo = the (values_offsets_ptr b); lo = load_size m (vo + 8 * i); hi = load_size m (vo + 8 * (i + 1))
      in compute_partial_hash m (values_data b + lo) (sz_sub hi lo))"

definition compute_hash :: "nat \<Rightarrow> mem \<Rightarrow> serialized_buffer \<Rightarrow> u64 option" where
  "compute_hash fuel m b =
     (if is_grouped b then grouped_hash fuel m b
      else case values_key_lengths b of
        Some kl \<Rightarrow> Some (fold (\<lambda>i h. h XOR (value_hash m b i * 1000000007 + of_nat (load_size m (kl + 8 * i))))
                          [0..<record_count m b] 0)
      | None \<Rightarrow> Some (fold (\<lambda>i h. h XOR value_hash m b i) [0..<record_count m b] 0))"

subsection \<open>Alignment\<close>

lemma and_not_mask: "(w :: u64) AND NOT (mask n) = push_bit n (drop_bit n w)"
  by (rule bit_eqI) (auto simp: bit_simps dest: bit_imp_le_length)

lemma unat_push_drop: "unat (push_bit n (drop_bit n w) :: u64) = unat w div 2 ^ n * 2 ^ n"
proof -
  have w: "unat w < 2 ^ 64" using unsigned_less [of w, where 'a = nat] by simp
  have "unat (push_bit n (drop_bit n w)) = take_bit 64 (push_bit n (drop_bit n (take_bit 64 (unat w))))"
    unfolding unsigned_push_bit_eq unsigned_drop_bit_eq by simp
  also have "take_bit 64 (unat w) = unat w" using w by (simp only: take_bit_eq_mod mod_less)
  also have "push_bit n (drop_bit n (unat w)) = unat w div 2 ^ n * 2 ^ n"
    by (simp only: push_bit_eq_mult drop_bit_eq_div)
  also have "unat w div 2 ^ n * 2 ^ n < 2 ^ 64"
    using w by (meson div_times_less_eq_dividend le_less_trans)
  then have "take_bit 64 (unat w div 2 ^ n * 2 ^ n) = unat w div 2 ^ n * 2 ^ n"
    by (simp only: take_bit_eq_mod mod_less)
  finally show ?thesis .
qed

lemma align_ceil_exact:
  assumes "x + a \<le> size_modulus" "a = 2 ^ k" "0 < x + a"
  shows "align_ceil x a = (x + a - 1) div a * a"
proof -
  have ge: "1 \<le> x + a" using assms(3) by linarith
  have w: "of_nat x + of_nat a - 1 = (of_nat (x + a - 1) :: u64)" using ge by (simp add: of_nat_diff)
  have k: "of_nat a - 1 = (mask k :: u64)" by (simp add: mask_eq_exp_minus_1 assms(2))
  have "x + a - 1 < 2 ^ 64" using assms(1) ge unfolding size_modulus_def by linarith
  then have "unat (of_nat (x + a - 1) :: u64) = x + a - 1" by (simp only: unat_of_nat take_bit_eq_mod) simp
  then have "align_ceil x a = (x + a - 1) div 2 ^ k * 2 ^ k"
    unfolding align_ceil_def w k and_not_mask unat_push_drop by (simp only:)
  then show ?thesis by (simp only: assms(2))
qed

lemma align_8: "x + 8 \<le> size_modulus \<Longrightarrow> align_ceil x 8 = (x + 7) div 8 * 8"
proof -
  assume "x + 8 \<le> size_modulus"
  moreover have "(8 :: nat) = 2 ^ 3" "0 < x + 8" by simp_all
  ultimately have "align_ceil x 8 = (x + 8 - 1) div 8 * 8" by (rule align_ceil_exact)
  moreover have "x + 8 - 1 = x + 7" by simp
  ultimately show ?thesis by (simp only:)
qed

lemma align_16: "x + 16 \<le> size_modulus \<Longrightarrow> align_ceil x 16 = (x + 15) div 16 * 16"
proof -
  assume "x + 16 \<le> size_modulus"
  moreover have "(16 :: nat) = 2 ^ 4" "0 < x + 16" by simp_all
  ultimately have "align_ceil x 16 = (x + 16 - 1) div 16 * 16" by (rule align_ceil_exact)
  moreover have "x + 16 - 1 = x + 15" by simp
  ultimately show ?thesis by (simp only:)
qed

abbreviation ceil8 :: "nat \<Rightarrow> nat" where
  "ceil8 x \<equiv> (x + 7) div 8 * 8"

lemma ceil8_bounds: "x \<le> ceil8 x" "ceil8 x \<le> x + 7" "ceil8 x mod 8 = 0"
  by presburger+

subsection \<open>The layout without overflow\<close>

lemma values_layout_exact:
  assumes "start mod 8 = 0" "start + 64 + tot + 8 * mx < size_modulus"
  shows "values_layout start mx tot =
    \<lparr>values_header_pos = start, values_data_pos = (start + 39) div 16 * 16,
     values_offsets_pos = (start + 39) div 16 * 16 + ceil8 tot,
     layout_size = (start + 39) div 16 * 16 + ceil8 tot + 8 * (mx + 1)\<rparr>"
proof -
  have m: "size_modulus = 18446744073709551616" by (simp add: size_modulus_def)
  have d: "(start + 39) div 16 * 16 \<le> start + 39" by simp
  have a: "sz_add start 24 = start + 24" using assms by (intro sz_add_exact) simp
  have b: "align_ceil (start + 24) 16 = (start + 39) div 16 * 16"
    using align_16 [of "start + 24"] assms by (simp add: add.assoc)
  have c: "align_ceil tot 8 = ceil8 tot" using align_8 [of tot] assms by simp
  have e: "sz_add ((start + 39) div 16 * 16) (ceil8 tot) = (start + 39) div 16 * 16 + ceil8 tot"
    using assms d ceil8_bounds(2) [of tot] by (intro sz_add_exact) linarith
  have f: "sz_mul (sz_add mx 1) 8 = 8 * (mx + 1)"
    using assms by (simp add: sz_add_exact sz_mul_exact mult.commute)
  have big: "(start + 39) div 16 * 16 + ceil8 tot + 8 * (mx + 1) < size_modulus"
    using assms(2) d ceil8_bounds(2) [of tot] unfolding distrib_left by linarith
  have g: "sz_add ((start + 39) div 16 * 16 + ceil8 tot) (8 * (mx + 1)) =
      (start + 39) div 16 * 16 + ceil8 tot + 8 * (mx + 1)"
    using big by (intro sz_add_exact) simp
  show ?thesis unfolding values_layout_def Let_def a b c e f g ..
qed

subsection \<open>The constructor finds the layout\<close>

text \<open>The sizes of a request, small enough that no size computation overflows.\<close>

definition fits :: "size_type \<Rightarrow> size_type \<Rightarrow> bool" where
  "fits tot n \<longleftrightarrow> tot + 16 * n + 256 < size_modulus"

lemma sz_mul_8: "8 * n < size_modulus \<Longrightarrow> sz_mul 8 n = 8 * n" "8 * n < size_modulus \<Longrightarrow> sz_mul n 8 = 8 * n"
  by (simp_all add: sz_mul_exact mult.commute)

lemma value_only_layout_exact:
  "fits tot mx \<Longrightarrow> value_only_layout mx tot =
     \<lparr>values_header_pos = 16, values_data_pos = 48, values_offsets_pos = 48 + ceil8 tot,
      layout_size = 48 + ceil8 tot + 8 * (mx + 1)\<rparr>"
  using values_layout_exact [of 16 tot mx] by (simp add: value_only_layout_def fits_def)

lemma key_value_layout_exact:
  assumes "fits tot mx"
  shows "key_value_layout mx tot =
     \<lparr>values_header_pos = 16, values_data_pos = 48, values_offsets_pos = 48 + ceil8 tot,
      layout_size = 48 + ceil8 tot + 8 * (mx + 1) + 8 * mx\<rparr>"
proof -
  have "48 + ceil8 tot + 8 * (mx + 1) + 8 * mx < size_modulus"
    using assms ceil8_bounds(2) [of tot] unfolding fits_def distrib_left by linarith
  then have "sz_add (48 + ceil8 tot + 8 * (mx + 1)) (sz_mul mx 8) = 48 + ceil8 tot + 8 * (mx + 1) + 8 * mx"
    by (simp add: sz_mul_exact sz_add_exact)
  then show ?thesis
    using value_only_layout_exact [OF assms] by (simp add: key_value_layout_def value_only_layout_def Let_def)
qed

lemma init_values_loads:
  fixes m :: mem and base :: addr
  assumes l: "values_header_pos l = 16" "values_data_pos l = 48" "values_offsets_pos l = 48 + d" "layout_size l = sz"
    and "48 + d < size_modulus" "16 \<le> sz" "sz < size_modulus" "mx < size_modulus"
  defines "m' \<equiv> init_values base l mx m"
  shows "load_size m' base = 0" "load_size m' (base + 8) = sz - 16" "load_size m' (base + 16) = d"
    "load_size m' (base + 24) = mx" "load_size m' (base + 32) = 0"
  using assms by (simp_all add: m'_def init_values_def write_values_header_def write_common_header_def
      mem_simps size_simps add.assoc)

lemma parse_values_only_header:
  assumes "load_size m base = 0" "load_size m (base + 8) = sz - 16" "load_size m (base + 16) = d"
    "load_size m (base + 24) = mx" "16 < sz" "sz < size_modulus" "48 + d + 8 * (mx + 1) \<le> sz"
  shows "make_serialized_buffer m slot (Some base) =
    null_buffer\<lparr>sb_slot := slot, common_header := Some base, values_header := Some (base + 16),
      values_data_ptr := Some (base + 48), values_offsets_ptr := Some (base + (48 + d)),
      values_key_lengths := (if 48 + d + 8 * (mx + 1) = sz then None else Some (base + (48 + d + 8 * (mx + 1))))\<rparr>"
proof -
  have big: "48 + d + 8 * (mx + 1) < size_modulus" using assms(6,7) by simp
  have n: "48 + d < size_modulus" "8 * (mx + 1) < size_modulus" "mx + 1 < size_modulus"
    using big by auto
  have a: "sz_add 16 24 = 40" by (simp add: sz_add_def size_modulus_def)
  have b: "align_ceil 40 16 = 48" using align_16 [of 40] by (simp add: size_modulus_def)
  have c: "sz_add 48 d = 48 + d" "sz_add mx 1 = mx + 1" "sz_mul 8 (mx + 1) = 8 * (mx + 1)"
    "sz_add (48 + d) (8 * (mx + 1)) = 48 + d + 8 * (mx + 1)"
    by (rule sz_add_exact sz_mul_8(1); rule n big)+
  have t: "sz_add (sz_add 16 0) (sz - 16) = sz"
    using assms by (simp add: sz_add_def size_modulus_def)
  have e: "base + 16 + 8 = base + 24" by simp
  show ?thesis
    using assms(1-6) unfolding make_serialized_buffer_def parse_values_def
    by (simp add: Let_def a b c e t null_buffer_def del: One_nat_def add_mult_distrib2 distrib_left_numeral)
qed

text \<open>The grouped layout: \<open>vh\<close> is where its values section starts, \<open>vd\<close> where the data does.\<close>

definition grouped_vh :: "size_type \<Rightarrow> size_type \<Rightarrow> size_type" where
  "grouped_vh tk g = 32 + ceil8 tk + 8 * (g + 1)"

definition grouped_vd :: "size_type \<Rightarrow> size_type \<Rightarrow> size_type" where
  "grouped_vd tk g = (grouped_vh tk g + 39) div 16 * 16"

definition grouped_fits :: "size_type \<Rightarrow> size_type \<Rightarrow> size_type \<Rightarrow> size_type \<Rightarrow> bool" where
  "grouped_fits tk tv mx g \<longleftrightarrow> tk + tv + 8 * mx + 16 * g + 512 < size_modulus"

lemma grouped_positions:
  "grouped_vh tk g mod 8 = 0" "grouped_vh tk g + 24 \<le> grouped_vd tk g" "grouped_vd tk g \<le> grouped_vh tk g + 39"
  "grouped_vh tk g \<le> tk + 8 * g + 47" "40 \<le> grouped_vh tk g" "grouped_vd tk g mod 16 = 0"
  unfolding grouped_vh_def grouped_vd_def by presburger+

lemma grouped_bounds:
  assumes "grouped_fits tk tv mx g"
  shows "grouped_vd tk g + ceil8 tv + 8 * (mx + 1) + 8 * (g + 1) < size_modulus"
    "grouped_vh tk g + 64 + tv + 8 * mx < size_modulus"
    "grouped_vd tk g + ceil8 tv + 8 * (mx + 1) + 8 * (g + 1) \<le> tk + tv + 8 * mx + 16 * g + 512"
proof -
  have sz: "grouped_vd tk g + ceil8 tv + 8 * (mx + 1) + 8 * (g + 1) \<le> tk + 8 * g + 47 + 39 + (tv + 7) + 8 * (mx + 1) + 8 * (g + 1)"
    using grouped_positions(3,4) [of tk g] ceil8_bounds(2) [of tv] by (intro add_mono le_trans [OF grouped_positions(3)]) simp_all
  also have "\<dots> < size_modulus" using assms by (simp add: grouped_fits_def)
  finally show "grouped_vd tk g + ceil8 tv + 8 * (mx + 1) + 8 * (g + 1) < size_modulus" .
  from sz show "grouped_vd tk g + ceil8 tv + 8 * (mx + 1) + 8 * (g + 1) \<le> tk + tv + 8 * mx + 16 * g + 512"
    by (rule le_trans) simp
  show "grouped_vh tk g + 64 + tv + 8 * mx < size_modulus"
    using assms grouped_positions(4) [of tk g] unfolding grouped_fits_def by linarith
qed

lemma grouped_layout_exact:
  assumes f: "grouped_fits tk tv mx g"
  shows "grouped_layout mx g tk tv =
    \<lparr>values_header_pos = grouped_vh tk g, values_data_pos = grouped_vd tk g,
     values_offsets_pos = grouped_vd tk g + ceil8 tv,
     layout_size = grouped_vd tk g + ceil8 tv + 8 * (mx + 1) + 8 * (g + 1),
     keys_header_pos = 16, keys_data_pos = 32, keys_offsets_pos = 32 + ceil8 tk\<rparr>"
proof -
  note b = grouped_bounds [OF f]
  have a: "sz_add 16 16 = 32" "align_ceil 32 16 = 32"
    using align_16 [of 32] by (simp_all add: sz_add_def size_modulus_def)
  have "tk + 8 \<le> size_modulus" using f unfolding grouped_fits_def by linarith
  then have k: "align_ceil tk 8 = ceil8 tk" by (rule align_8)
  have s: "8 * (g + 1) < size_modulus" "32 + ceil8 tk + 8 * (g + 1) < size_modulus"
    using b(2) by (simp_all add: grouped_vh_def)
  have c: "sz_add 32 (ceil8 tk) = 32 + ceil8 tk" "sz_add g 1 = g + 1" "sz_mul (g + 1) 8 = 8 * (g + 1)"
    "sz_add (32 + ceil8 tk) (8 * (g + 1)) = grouped_vh tk g"
    unfolding grouped_vh_def by (rule sz_add_exact sz_mul_8(2); use s in simp)+
  have d: "sz_add (grouped_vd tk g + ceil8 tv + 8 * (mx + 1)) (8 * (g + 1)) =
      grouped_vd tk g + ceil8 tv + 8 * (mx + 1) + 8 * (g + 1)"
    by (rule sz_add_exact [OF b(1)])
  show ?thesis
    unfolding grouped_layout_def Let_def a k c values_layout_exact [OF grouped_positions(1) b(2)]
    by (simp only: value_layout.select_convs d flip: grouped_vd_def)
qed

lemma init_grouped_loads:
  fixes m :: mem and base :: addr
  assumes l: "keys_header_pos l = 16" "keys_data_pos l = 32" "keys_offsets_pos l = 32 + kd"
    "values_header_pos l = vh" "values_data_pos l = vd" "values_offsets_pos l = vd + d" "layout_size l = sz"
    and le: "32 + kd \<le> vh" "vd + d < size_modulus" "vh \<le> sz" "sz < size_modulus" "mx < size_modulus" "g < size_modulus"
      "32 \<le> vh"
  defines "m' \<equiv> init_grouped base l mx g m"
  shows "load_size m' base = vh - 16" "load_size m' (base + 8) = sz - vh" "load_size m' (base + 16) = kd"
    "load_size m' (base + 24) = g" "load_size m' (base + vh) = d" "load_size m' (base + vh + 8) = mx"
    "load_size m' (base + vh + 16) = 0"
  using assms by (simp_all add: m'_def init_grouped_def write_values_header_def write_keys_header_def
      write_common_header_def mem_simps size_simps add.assoc)

lemma parse_grouped_header:
  assumes f: "grouped_fits tk tv mx g"
  defines "vh \<equiv> grouped_vh tk g" and "vd \<equiv> grouped_vd tk g"
  defines "sz \<equiv> grouped_vd tk g + ceil8 tv + 8 * (mx + 1) + 8 * (g + 1)"
  assumes m: "load_size m base = vh - 16" "load_size m (base + 8) = sz - vh" "load_size m (base + 16) = ceil8 tk"
    "load_size m (base + 24) = g" "load_size m (base + vh) = ceil8 tv" "load_size m (base + vh + 8) = mx"
  shows "make_serialized_buffer m slot (Some base) =
    \<lparr>sb_slot = slot, common_header = Some base, keys_header = Some (base + 16),
     values_header = Some (base + vh), keys_data_ptr = Some (base + 32),
     keys_offsets_ptr = Some (base + (32 + ceil8 tk)), values_data_ptr = Some (base + vd),
     values_offsets_ptr = Some (base + (vd + ceil8 tv)), values_key_lengths = None,
     values_group_offsets = Some (base + (vd + ceil8 tv + 8 * (mx + 1)))\<rparr>"
proof -
  note b = grouped_bounds [OF f]
  note pos = grouped_positions [of tk g, folded vh_def vd_def]
  have vhsz: "vh < sz" "16 < vh" using pos unfolding sz_def vd_def by linarith+
  have szb: "sz < size_modulus" using b(1) unfolding sz_def .
  have s: "8 * (g + 1) < size_modulus" "32 + ceil8 tk + 8 * (g + 1) < size_modulus"
    using b(2) by (simp_all add: grouped_vh_def)
  have k: "sz_add 16 16 = 32" "align_ceil 32 16 = 32"
    using align_16 [of 32] by (simp_all add: sz_add_def size_modulus_def)
  have c: "sz_add 32 (ceil8 tk) = 32 + ceil8 tk" "sz_add g 1 = g + 1" "sz_mul 8 (g + 1) = 8 * (g + 1)"
    "sz_add (32 + ceil8 tk) (8 * (g + 1)) = vh"
    unfolding vh_def grouped_vh_def by (rule sz_add_exact sz_mul_8(1); use s in simp)+
  have e: "sz_add vh 24 = vh + 24" using b(2) by (intro sz_add_exact) (simp add: vh_def)
  have "vh + 24 + 16 \<le> size_modulus" using b(2) by (simp add: vh_def)
  then have "align_ceil (vh + 24) 16 = (vh + 24 + 15) div 16 * 16" by (rule align_16)
  then have a: "align_ceil (vh + 24) 16 = vd" unfolding vd_def vh_def grouped_vd_def by (simp only: add.assoc) simp
  have n: "vd + ceil8 tv < size_modulus" "mx + 1 < size_modulus" "8 * (mx + 1) < size_modulus"
    "vd + ceil8 tv + 8 * (mx + 1) < size_modulus"
    using szb unfolding sz_def vd_def by auto
  have h: "sz_add vd (ceil8 tv) = vd + ceil8 tv" "sz_add mx 1 = mx + 1" "sz_mul 8 (mx + 1) = 8 * (mx + 1)"
    "sz_add (vd + ceil8 tv) (8 * (mx + 1)) = vd + ceil8 tv + 8 * (mx + 1)"
    by (rule sz_add_exact sz_mul_8(1); rule n)+
  have "sz_add 16 (vh - 16) = vh" using vhsz szb by (simp add: sz_add_exact)
  moreover have "sz_add vh (sz - vh) = sz" using vhsz szb by (simp add: sz_add_exact)
  ultimately have t: "sz_add (sz_add 16 (vh - 16)) (sz - vh) = sz" by simp
  have ne: "vd + ceil8 tv + 8 * (mx + 1) \<noteq> sz" "0 < vh - 16" "0 < sz - vh" "vh - 16 \<noteq> 0"
    using vhsz unfolding sz_def vd_def by simp_all
  have ad: "base + 16 + 8 = base + 24" by simp
  show ?thesis
    unfolding make_serialized_buffer_def parse_values_def parse_keys_def
    by (simp only: option.case Let_def prod.case m k c e a h t ad if_P [OF ne(2)] if_P [OF ne(3)] if_not_P [OF ne(1)]
        if_not_P [OF ne(4)] fst_conv) (simp add: null_buffer_def)
qed

lemma allocate_locked_ok:
  assumes inv: "mem_inv ms" and slots: "fresh_mref tmp ms" "fresh_locked slot ms"
    and n: "next_identifier ms < invalid_id" and sz: "sz < size_modulus"
  shows "\<exists>ms'. allocate_locked False tmp slot p sz node ms = Some ms' \<and> mem_inv ms' \<and>
    locked ms' = (locked ms)[slot := Some (next_identifier ms)] \<and>
    objects ms' (next_identifier ms) =
      Some \<lparr>lock_count = 1, self_identifier = next_identifier ms, buffer_size = sz,
        object_locality = (if node = invalid_id \<or> affinity_mode ms = AffinityNONE then 0 else node),
        object_pointer = p, use_count = 1\<rparr>"
proof -
  let ?n = "next_identifier ms"
  let ?node = "if node = invalid_id \<or> affinity_mode ms = AffinityNONE then 0 else node"
  let ?a = "allocate_object tmp p sz ?node ms"
  have len: "tmp < length (mrefs ms)" "mr_object (mrefs ms ! tmp) = None" "slot < length (locked ms)"
    "locked ms ! slot = None"
    using slots by (auto simp: fresh_mref_def fresh_locked_def)
  have a: "(if node = invalid_id then allocate tmp p sz ms else allocate_on_node tmp p sz node ms) = ?a"
    by (simp add: allocate_def allocate_on_node_def)
  have ia: "mem_inv ?a" by (rule allocate_object_ok [OF inv len(1,2) n sz])
  have fa: "length (locked ?a) = length (locked ms)" "length (mrefs ?a) = length (mrefs ms)" "locked ?a ! slot = None"
    using len by (simp_all add: allocate_object_def mr_from_object_def Let_def)
  have il: "mem_inv (mr_lock slot tmp ?a)" by (rule mr_lock_ok [OF ia]) (use len fa in simp_all)
  have fl: "tmp < length (mrefs (mr_lock slot tmp ?a))"
    using len by (simp add: mr_lock_def lmr_from_object_def Let_def allocate_object_def mr_from_object_def)
  obtain ms' where d: "mr_destroy False tmp (mr_lock slot tmp ?a) = Some ms'" "mem_inv ms'"
    using mr_destroy_ok [OF il fl] by blast
  moreover have "locked ms' = (locked ms)[slot := Some ?n] \<and>
      objects ms' ?n = Some \<lparr>lock_count = 1, self_identifier = ?n, buffer_size = sz, object_locality = ?node,
        object_pointer = p, use_count = 1\<rparr>"
    using d(1) len by (auto simp: mr_lock_def lmr_from_object_def Let_def allocate_object_def mr_from_object_def
        mr_destroy_def drop_opt_def drop_share_def lock_opt_def share_opt_def object_lock_def share_def update_object_def)
  ultimately show ?thesis by (auto simp: allocate_locked_def a)
qed

lemma init_values_frame:
  "values_header_pos l = 16 \<Longrightarrow> x < base \<or> base + 40 \<le> x \<Longrightarrow> init_values base l mx m x = m x"
  by (auto simp: init_values_def write_values_header_def write_common_header_def store_size_def store_bytes_def)

lemma init_grouped_frame:
  "keys_header_pos l = 16 \<Longrightarrow> values_header_pos l = vh \<Longrightarrow> 32 \<le> vh \<Longrightarrow> x < base \<or> base + vh + 24 \<le> x \<Longrightarrow>
     init_grouped base l mx g m x = m x"
  by (auto simp: init_grouped_def write_values_header_def write_keys_header_def write_common_header_def
      store_size_def store_bytes_def)

lemma allocate_grouped_ok:
  assumes "mem_inv ms" "fresh_mref tmp ms" "fresh_locked slot ms" "next_identifier ms < invalid_id"
    and fits: "grouped_fits tk tv mx g"
  shows "\<exists>b ms' m' vh vd sz.
    allocate_grouped_buffer False tmp slot p mx g tk tv node (ms, m) = Some (b, ms', m') \<and> mem_inv ms' \<and>
    locked ms' ! slot = Some (next_identifier ms) \<and>
    map_option buffer_size (objects ms' (next_identifier ms)) = Some sz \<and>
    is_grouped b \<and> group_count m' b = g \<and> maximum_record_count m' b = mx \<and> record_count m' b = 0 \<and>
    keys_data b = p + 32 \<and> tk \<le> keys_data_size m' b \<and>
    keys_offsets m' b = array_of (p + 32 + keys_data_size m' b) (g + 1) \<and>
    p + 32 + keys_data_size m' b + 8 * (g + 1) = p + vh \<and> values_header b = Some (p + vh) \<and> vh + 24 \<le> vd \<and>
    values_data b = p + vd \<and> tv \<le> values_data_size m' b \<and>
    values_offsets m' b = array_of (p + vd + values_data_size m' b) (mx + 1) \<and>
    value_group_offsets m' b = array_of (p + vd + values_data_size m' b + 8 * (mx + 1)) (g + 1) \<and>
    vd + values_data_size m' b + 8 * (mx + 1) + 8 * (g + 1) = sz \<and>
    vd mod 16 = 0 \<and> keys_data_size m' b mod 8 = 0 \<and> values_data_size m' b mod 8 = 0 \<and>
    values_key_lengths b = None \<and> keys_header b = Some (p + 16) \<and> sz \<le> tk + tv + 8 * mx + 16 * g + 512 \<and>
    (\<forall>x. x < p \<or> p + sz \<le> x \<longrightarrow> m' x = m x)"
proof -
  let ?vh = "grouped_vh tk g" and ?vd = "grouped_vd tk g"
  let ?sz = "?vd + ceil8 tv + 8 * (mx + 1) + 8 * (g + 1)"
  let ?l = "grouped_layout mx g tk tv"
  let ?m = "init_grouped p ?l mx g m"
  note l = grouped_layout_exact [OF fits]
  note pos = grouped_positions [of tk g]
  have sz: "?sz < size_modulus" by (rule grouped_bounds(1) [OF fits])
  obtain ms' where ms': "allocate_locked False tmp slot p ?sz node ms = Some ms'" "mem_inv ms'"
    "locked ms' = (locked ms)[slot := Some (next_identifier ms)]"
    "map_option buffer_size (objects ms' (next_identifier ms)) = Some ?sz"
    using allocate_locked_ok [OF assms(1-4) sz, of p node] by auto
  have slot: "locked ms' ! slot = Some (next_identifier ms)"
    using ms'(3) assms(3) by (simp add: fresh_locked_def)
  have gm: "g < size_modulus" "mx < size_modulus" using fits unfolding grouped_fits_def by linarith+
  have le: "32 + ceil8 tk \<le> ?vh" "32 \<le> ?vh" unfolding grouped_vh_def by simp_all
  have le2: "?vd + ceil8 tv < size_modulus" "?vh \<le> ?sz" using sz pos(2) by simp_all
  have lf: "keys_header_pos ?l = 16" "keys_data_pos ?l = 32" "keys_offsets_pos ?l = 32 + ceil8 tk"
    "values_header_pos ?l = ?vh" "values_data_pos ?l = ?vd" "values_offsets_pos ?l = ?vd + ceil8 tv" "layout_size ?l = ?sz"
    unfolding l by simp_all
  note ld = init_grouped_loads [OF lf le(1) le2 sz gm(2,1) le(2), of p m]
  note b = parse_grouped_header [OF fits ld(1-6), of "Some slot"]
  have alloc: "allocate_grouped_buffer False tmp slot p mx g tk tv node (ms, m) =
      Some (make_serialized_buffer ?m (Some slot) (Some p), ms', ?m)"
    using ms'(1) by (simp add: allocate_grouped_buffer_def Let_def l)
  have frame: "\<forall>x. x < p \<or> p + ?sz \<le> x \<longrightarrow> ?m x = m x"
    using init_grouped_frame [of ?l ?vh _ p mx g m] pos by (auto simp: l)
  have acc: "group_count ?m (make_serialized_buffer ?m (Some slot) (Some p)) = g"
    "maximum_record_count ?m (make_serialized_buffer ?m (Some slot) (Some p)) = mx"
    "record_count ?m (make_serialized_buffer ?m (Some slot) (Some p)) = 0"
    "keys_data_size ?m (make_serialized_buffer ?m (Some slot) (Some p)) = ceil8 tk"
    "values_data_size ?m (make_serialized_buffer ?m (Some slot) (Some p)) = ceil8 tv"
    unfolding b using ld by (simp_all add: group_count_def maximum_record_count_def record_count_def
        keys_data_size_def values_data_size_def add.assoc)
  have ptr: "is_grouped (make_serialized_buffer ?m (Some slot) (Some p))"
    "keys_data (make_serialized_buffer ?m (Some slot) (Some p)) = p + 32"
    "values_header (make_serialized_buffer ?m (Some slot) (Some p)) = Some (p + ?vh)"
    "values_data (make_serialized_buffer ?m (Some slot) (Some p)) = p + ?vd"
    "values_key_lengths (make_serialized_buffer ?m (Some slot) (Some p)) = None"
    "keys_header (make_serialized_buffer ?m (Some slot) (Some p)) = Some (p + 16)"
    unfolding b by (simp_all add: is_grouped_def keys_data_def values_data_def)
  have tab: "keys_offsets ?m (make_serialized_buffer ?m (Some slot) (Some p)) = array_of (p + 32 + ceil8 tk) (g + 1)"
    "values_offsets ?m (make_serialized_buffer ?m (Some slot) (Some p)) = array_of (p + ?vd + ceil8 tv) (mx + 1)"
    "value_group_offsets ?m (make_serialized_buffer ?m (Some slot) (Some p)) =
       array_of (p + ?vd + ceil8 tv + 8 * (mx + 1)) (g + 1)"
    unfolding keys_offsets_def values_offsets_def value_group_offsets_def acc(1,2) unfolding b
    by (simp_all only: serialized_buffer.select_convs option.sel add.assoc)
  have ends: "p + 32 + ceil8 tk + 8 * (g + 1) = p + ?vh" by (simp add: grouped_vh_def)
  note facts = alloc ms'(2,4) slot ptr acc tab ends pos(2,6) ceil8_bounds grouped_bounds(3) [OF fits] frame
  show ?thesis
    by (rule exI [of _ "make_serialized_buffer ?m (Some slot) (Some p)"], rule exI [of _ ms'], rule exI [of _ ?m],
        rule exI [of _ ?vh], rule exI [of _ ?vd], rule exI [of _ ?sz], intro conjI; (rule facts)?;
        simp only: acc tab ends ceil8_bounds)
qed

text \<open>Buffers of values without groups.\<close>

lemma allocate_values_ok:
  assumes "mem_inv ms" "fresh_mref tmp ms" "fresh_locked slot ms" "next_identifier ms < invalid_id"
    and fits: "fits tot mx"
  shows "\<exists>b ms' m' b2 ms2.
    allocate_value_only_buffer False tmp slot p mx tot node (ms, m) = Some (b, ms', m') \<and>
    allocate_key_value_buffer False tmp slot p mx tot node (ms, m) = Some (b2, ms2, init_values p (key_value_layout mx tot) mx m) \<and>
    mem_inv ms' \<and> mem_inv ms2 \<and>
    map_option buffer_size (objects ms' (next_identifier ms)) = Some (48 + ceil8 tot + 8 * (mx + 1)) \<and>
    map_option buffer_size (objects ms2 (next_identifier ms)) = Some (48 + ceil8 tot + 8 * (mx + 1) + 8 * mx) \<and>
    (\<forall>x. x < p \<or> p + 40 \<le> x \<longrightarrow> m' x = m x) \<and>
    values_data b = p + 48 \<and> values_data_size m' b = ceil8 tot \<and> tot \<le> values_data_size m' b \<and>
    values_offsets m' b = array_of (p + 48 + ceil8 tot) (mx + 1) \<and>
    record_count m' b = 0 \<and> maximum_record_count m' b = mx \<and> \<not> is_grouped b \<and> values_group_offsets b = None \<and>
    values_key_lengths b = None \<and>
    b2 = b\<lparr>values_key_lengths := (if mx = 0 then None else Some (p + (48 + ceil8 tot + 8 * (mx + 1))))\<rparr>"
proof -
  let ?sz = "48 + ceil8 tot + 8 * (mx + 1)" and ?sz2 = "48 + ceil8 tot + 8 * (mx + 1) + 8 * mx"
  have sz2: "?sz2 < size_modulus"
    using fits ceil8_bounds(2) [of tot] unfolding fits_def distrib_left by linarith
  then have sz: "?sz < size_modulus" by simp
  note l1 = value_only_layout_exact [OF fits] and l2 = key_value_layout_exact [OF fits]
  obtain ms1 where ms1: "allocate_locked False tmp slot p ?sz node ms = Some ms1" "mem_inv ms1"
    "map_option buffer_size (objects ms1 (next_identifier ms)) = Some ?sz"
    using allocate_locked_ok [OF assms(1-4) sz, of p node] by auto
  obtain ms2 where ms2: "allocate_locked False tmp slot p ?sz2 node ms = Some ms2" "mem_inv ms2"
    "map_option buffer_size (objects ms2 (next_identifier ms)) = Some ?sz2"
    using allocate_locked_ok [OF assms(1-4) sz2, of p node] by auto
  let ?m1 = "init_values p (value_only_layout mx tot) mx m" and ?m2 = "init_values p (key_value_layout mx tot) mx m"
  have ld1: "load_size ?m1 p = 0" "load_size ?m1 (p + 8) = ?sz - 16" "load_size ?m1 (p + 16) = ceil8 tot"
    "load_size ?m1 (p + 24) = mx" "load_size ?m1 (p + 32) = 0"
    by (rule init_values_loads [of "value_only_layout mx tot" "ceil8 tot" ?sz]; use sz in \<open>simp add: l1\<close>)+
  have ld2: "load_size ?m2 p = 0" "load_size ?m2 (p + 8) = ?sz2 - 16" "load_size ?m2 (p + 16) = ceil8 tot"
    "load_size ?m2 (p + 24) = mx"
    by (rule init_values_loads [of "key_value_layout mx tot" "ceil8 tot" ?sz2]; use sz2 in \<open>simp add: l2\<close>)+
  have b1: "make_serialized_buffer ?m1 (Some slot) (Some p) =
      null_buffer\<lparr>sb_slot := Some slot, common_header := Some p, values_header := Some (p + 16),
      values_data_ptr := Some (p + 48), values_offsets_ptr := Some (p + (48 + ceil8 tot)), values_key_lengths := None\<rparr>"
    using parse_values_only_header [OF ld1(1-4)] sz by simp
  have b2: "make_serialized_buffer ?m2 (Some slot) (Some p) =
      null_buffer\<lparr>sb_slot := Some slot, common_header := Some p, values_header := Some (p + 16),
      values_data_ptr := Some (p + 48), values_offsets_ptr := Some (p + (48 + ceil8 tot)),
      values_key_lengths := (if mx = 0 then None else Some (p + (48 + ceil8 tot + 8 * (mx + 1))))\<rparr>"
    using parse_values_only_header [OF ld2(1-4)] sz2 by simp
  have "allocate_value_only_buffer False tmp slot p mx tot node (ms, m) =
      Some (make_serialized_buffer ?m1 (Some slot) (Some p), ms1, ?m1)"
    using ms1(1) by (simp add: allocate_value_only_buffer_def Let_def l1)
  moreover have "allocate_key_value_buffer False tmp slot p mx tot node (ms, m) =
      Some (make_serialized_buffer ?m2 (Some slot) (Some p), ms2, ?m2)"
    using ms2(1) by (simp add: allocate_key_value_buffer_def Let_def l2)
  moreover have "\<forall>x. x < p \<or> p + 40 \<le> x \<longrightarrow> ?m1 x = m x" using init_values_frame by (simp add: l1)
  moreover have "maximum_record_count ?m1 (make_serialized_buffer ?m1 (Some slot) (Some p)) = mx"
    "record_count ?m1 (make_serialized_buffer ?m1 (Some slot) (Some p)) = 0"
    "values_data_size ?m1 (make_serialized_buffer ?m1 (Some slot) (Some p)) = ceil8 tot"
    using ld1 unfolding b1 by (simp_all add: maximum_record_count_def record_count_def values_data_size_def add.assoc)
  ultimately show ?thesis
    using ms1(2,3) ms2(2,3) unfolding b1 b2
    by (auto simp: values_data_def values_offsets_def is_grouped_def null_buffer_def add.assoc ceil8_bounds(1))
qed

subsection \<open>Properties\<close>

text \<open>
  C8: a value-only or key-value buffer of any size that does not overflow is allocated as one locked
  memory object of exactly the size of its layout, and the constructor finds in it an aligned data
  area of at least the requested size, the offset table right behind it, and behind that nothing
  (value-only) or the key length table (key-value); nothing outside the header is written. A
  key-value buffer for zero records cannot be told from a value-only one.
\<close>
theorem value_buffer_allocation:
  assumes "mem_inv ms" "fresh_mref tmp ms" "fresh_locked slot ms" "next_identifier ms < invalid_id"
    and fits: "fits tot mx"
  shows "\<exists>b ms' m' b2 ms2.
    allocate_value_only_buffer False tmp slot p mx tot node (ms, m) = Some (b, ms', m') \<and>
    allocate_key_value_buffer False tmp slot p mx tot node (ms, m) = Some (b2, ms2, init_values p (key_value_layout mx tot) mx m) \<and>
    mem_inv ms' \<and> mem_inv ms2 \<and>
    map_option buffer_size (objects ms' (next_identifier ms)) = Some (48 + ceil8 tot + 8 * (mx + 1)) \<and>
    map_option buffer_size (objects ms2 (next_identifier ms)) = Some (48 + ceil8 tot + 8 * (mx + 1) + 8 * mx) \<and>
    (\<forall>x. x < p \<or> p + 40 \<le> x \<longrightarrow> m' x = m x) \<and>
    values_data b = p + 48 \<and> values_data_size m' b = ceil8 tot \<and> tot \<le> values_data_size m' b \<and>
    values_offsets m' b = array_of (p + 48 + ceil8 tot) (mx + 1) \<and>
    record_count m' b = 0 \<and> maximum_record_count m' b = mx \<and> \<not> is_grouped b \<and> values_group_offsets b = None \<and>
    values_key_lengths b = None \<and>
    b2 = b\<lparr>values_key_lengths := (if mx = 0 then None else Some (p + (48 + ceil8 tot + 8 * (mx + 1))))\<rparr>"
  using assms by (rule allocate_values_ok)

lemma fresh_start: "fresh_mref 0 (new_memory_manager mode 1 1)" "fresh_locked 0 (new_memory_manager mode 1 1)"
  "next_identifier (new_memory_manager mode 1 1) < invalid_id"
  by (simp_all add: fresh_mref_def fresh_locked_def new_memory_manager_def null_reference_def invalid_id_def)

theorem value_buffer_allocation_witness:
  "\<exists>b ms' m'. allocate_value_only_buffer False 0 0 4096 2 20 invalid_id (new_memory_manager AffinityNONE 1 1, \<lambda>_. 0) =
     Some (b, ms', m') \<and> values_data b = 4144 \<and> values_data_size m' b = 24 \<and>
     values_offsets m' b = array_of 4168 3 \<and> maximum_record_count m' b = 2"
proof -
  have "fits 20 2" by (simp add: fits_def size_modulus_def)
  from value_buffer_allocation [OF new_memory_manager_ok [of AffinityNONE 1 1] fresh_start this,
      where p = 4096 and node = invalid_id and m = "\<lambda>_. 0"]
  show ?thesis by fastforce
qed

text \<open>
  C9: a grouped buffer is allocated as one locked object of the size of its layout, and the
  constructor finds the keys section and the values section: key data and value data areas of at
  least the requested sizes, each followed by its offset table, and the group offset table at the
  end of the buffer; every table is 8-aligned and both data areas 16-aligned relative to the
  buffer, and the sections follow each other without overlap.
\<close>
theorem grouped_buffer_allocation:
  assumes "mem_inv ms" "fresh_mref tmp ms" "fresh_locked slot ms" "next_identifier ms < invalid_id"
    and fits: "grouped_fits tk tv mx g"
  shows "\<exists>b ms' m' vh vd sz.
    allocate_grouped_buffer False tmp slot p mx g tk tv node (ms, m) = Some (b, ms', m') \<and> mem_inv ms' \<and>
    locked ms' ! slot = Some (next_identifier ms) \<and>
    map_option buffer_size (objects ms' (next_identifier ms)) = Some sz \<and>
    is_grouped b \<and> group_count m' b = g \<and> maximum_record_count m' b = mx \<and> record_count m' b = 0 \<and>
    keys_data b = p + 32 \<and> tk \<le> keys_data_size m' b \<and>
    keys_offsets m' b = array_of (p + 32 + keys_data_size m' b) (g + 1) \<and>
    p + 32 + keys_data_size m' b + 8 * (g + 1) = p + vh \<and> values_header b = Some (p + vh) \<and> vh + 24 \<le> vd \<and>
    values_data b = p + vd \<and> tv \<le> values_data_size m' b \<and>
    values_offsets m' b = array_of (p + vd + values_data_size m' b) (mx + 1) \<and>
    value_group_offsets m' b = array_of (p + vd + values_data_size m' b + 8 * (mx + 1)) (g + 1) \<and>
    vd + values_data_size m' b + 8 * (mx + 1) + 8 * (g + 1) = sz \<and>
    vd mod 16 = 0 \<and> keys_data_size m' b mod 8 = 0 \<and> values_data_size m' b mod 8 = 0 \<and>
    values_key_lengths b = None \<and> keys_header b = Some (p + 16) \<and> sz \<le> tk + tv + 8 * mx + 16 * g + 512 \<and>
    (\<forall>x. x < p \<or> p + sz \<le> x \<longrightarrow> m' x = m x)"
  using assms by (rule allocate_grouped_ok)

theorem grouped_buffer_allocation_witness:
  "\<exists>b ms' m'. allocate_grouped_buffer False 0 0 4096 3 2 9 30 invalid_id (new_memory_manager AffinityNONE 1 1, \<lambda>_. 0) =
     Some (b, ms', m') \<and> is_grouped b \<and> group_count m' b = 2 \<and> maximum_record_count m' b = 3 \<and>
     9 \<le> keys_data_size m' b \<and> 30 \<le> values_data_size m' b"
proof -
  have "grouped_fits 9 30 3 2" by (simp add: grouped_fits_def size_modulus_def)
  from grouped_buffer_allocation [OF new_memory_manager_ok [of AffinityNONE 1 1] fresh_start this,
      where p = 4096 and node = invalid_id and m = "\<lambda>_. 0"]
  show ?thesis by blast
qed

end
