(* ===== verification/HashFunction.thy ===== *)
theory HashFunction
  imports Prelude
begin

text \<open>
  \<open>hash_byte_sequence\<close> of src/common/hash_function.hpp: MurmurHash3 of a byte range, scaled to
  \<open>[0, modulus)\<close>. Shuffles use it to choose the partition of a record from its key, so the
  properties are that the result is a valid partition number and that it depends on the key
  bytes only. The 32-bit arithmetic wraps as in the code; \<open>>>\<close> on unsigned values is \<open>drop_bit\<close>.
\<close>

definition c1 :: u32 where "c1 = 0xcc9e2d51"

definition c2 :: u32 where "c2 = 0x1b873593"

definition rotate32 :: "nat \<Rightarrow> u32 \<Rightarrow> u32" where
  "rotate32 n x = push_bit n x OR drop_bit (32 - n) x"

definition load_u32 :: "mem \<Rightarrow> addr \<Rightarrow> u32" where
  "load_u32 m a = of_nat (le_val (load_bytes m a 4))"

definition mix_k :: "u32 \<Rightarrow> u32" where
  "mix_k k = rotate32 15 (k * c1) * c2"

definition mix_h :: "u32 \<Rightarrow> u32 \<Rightarrow> u32" where
  "mix_h h k = rotate32 13 (h XOR mix_k k) * 5 + 0xe6546b64"

definition hash_blocks :: "mem \<Rightarrow> addr \<Rightarrow> nat \<Rightarrow> u32" where
  "hash_blocks m ptr num_blocks = fold (\<lambda>i h. mix_h h (load_u32 m (ptr + 4 * i))) [0..<num_blocks] 0x7a2be187"

text \<open>The \<open>switch\<close> on the last one to three bytes falls through from 3 to 2 to 1.\<close>

definition tail_k :: "mem \<Rightarrow> addr \<Rightarrow> nat \<Rightarrow> u32" where
  "tail_k m tail_ptr rest =
     (let k3 = (if rest = 3 then push_bit 16 (ucast (m (tail_ptr + 2))) else 0);
          k2 = (if 2 \<le> rest then k3 XOR push_bit 8 (ucast (m (tail_ptr + 1))) else k3)
      in k2 XOR ucast (m tail_ptr))"

definition finalize_h :: "u32 \<Rightarrow> nat \<Rightarrow> u32" where
  "finalize_h h length0 =
     (let h = h XOR of_nat length0;
          h = h XOR drop_bit 16 h; h = h * 0x85ebca6b;
          h = h XOR drop_bit 13 h; h = h * 0xc2b2ae35
      in h XOR drop_bit 16 h)"

definition hash_byte_sequence :: "mem \<Rightarrow> addr \<Rightarrow> size_type \<Rightarrow> size_type \<Rightarrow> identifier_type" where
  "hash_byte_sequence m ptr length0 modulus =
     (let num_blocks = length0 div 4;
          h = hash_blocks m ptr num_blocks;
          rest = length0 mod 4;
          h = (if rest = 0 then h else h XOR mix_k (tail_k m (ptr + num_blocks * 4) rest));
          h = finalize_h h length0
      in unat (drop_bit 32 ((ucast h :: u64) * of_nat modulus)))"

subsection \<open>The result depends on the bytes of the range only\<close>

definition same_bytes :: "mem \<Rightarrow> addr \<Rightarrow> mem \<Rightarrow> addr \<Rightarrow> nat \<Rightarrow> bool" where
  "same_bytes m a m' a' n \<longleftrightarrow> load_bytes m a n = load_bytes m' a' n"

lemma same_bytes_nth: "same_bytes m a m' a' n \<Longrightarrow> i < n \<Longrightarrow> m (a + i) = m' (a' + i)"
  unfolding same_bytes_def by (metis nth_load_bytes)

lemma same_bytes_load_u32:
  assumes "same_bytes m a m' a' n" "i + 4 \<le> n"
  shows "load_u32 m (a + i) = load_u32 m' (a' + i)"
proof -
  have "load_bytes m (a + i) 4 = load_bytes m' (a' + i) 4"
    by (rule nth_equalityI) (use assms same_bytes_nth [OF assms(1)] in \<open>auto simp: add.assoc\<close>)
  then show ?thesis by (simp add: load_u32_def)
qed

lemma hash_blocks_cong:
  "same_bytes m a m' a' n \<Longrightarrow> 4 * k \<le> n \<Longrightarrow> hash_blocks m a k = hash_blocks m' a' k"
proof (induction k)
  case (Suc k)
  then show ?case using same_bytes_load_u32 [of m a m' a' n "4 * k"] by (simp add: hash_blocks_def)
qed (simp add: hash_blocks_def)

lemma tail_k_cong:
  assumes "same_bytes m a m' a' n" "k + rest \<le> n" "0 < rest"
  shows "tail_k m (a + k) rest = tail_k m' (a' + k) rest"
proof -
  note nth = same_bytes_nth [OF assms(1)]
  have "m (a + k) = m' (a' + k)" using nth [of k] assms by simp
  moreover have "2 \<le> rest \<Longrightarrow> m (a + k + 1) = m' (a' + k + 1)"
    using nth [of "k + 1"] assms by simp
  moreover have "rest = 3 \<Longrightarrow> m (a + k + 2) = m' (a' + k + 2)"
    using nth [of "k + 2"] assms by simp
  ultimately show ?thesis by (simp add: tail_k_def)
qed

lemma hash_byte_sequence_cong:
  assumes "same_bytes m a m' a' n"
  shows "hash_byte_sequence m a n M = hash_byte_sequence m' a' n M"
proof -
  have "n div 4 * 4 + n mod 4 = n" by simp
  then have "0 < n mod 4 \<Longrightarrow> tail_k m (a + n div 4 * 4) (n mod 4) = tail_k m' (a' + n div 4 * 4) (n mod 4)"
    by (intro tail_k_cong [OF assms]) simp_all
  moreover have "hash_blocks m a (n div 4) = hash_blocks m' a' (n div 4)"
    by (rule hash_blocks_cong [OF assms]) simp
  ultimately show ?thesis by (simp add: hash_byte_sequence_def Let_def)
qed

subsection \<open>The result is below the modulus\<close>

lemma scale_less:
  assumes "0 < modulus" "modulus < 2 ^ 32"
  shows "unat (drop_bit 32 ((ucast (h :: u32) :: u64) * of_nat modulus)) < modulus"
proof -
  have h: "unat h < 2 ^ 32" using unsigned_less [of h, where 'a = nat] by simp
  have uh: "unat (ucast h :: u64) = unat h"
    using h by (simp add: unsigned_ucast_eq take_bit_nat_eq_self)
  have um: "unat (of_nat modulus :: u64) = modulus"
    using assms(2) by (simp add: unat_of_nat)
  have lt: "unat h * modulus < 2 ^ 32 * modulus"
    using h assms(1) by simp
  also have "\<dots> \<le> 2 ^ 32 * 2 ^ 32" using assms(2) by simp
  finally have "unat h * modulus < 2 ^ 64" by simp
  then have "unat ((ucast h :: u64) * of_nat modulus) = unat h * modulus"
    using uh um by (simp add: unat_word_ariths)
  then have "unat (drop_bit 32 ((ucast h :: u64) * of_nat modulus)) = unat h * modulus div 2 ^ 32"
    by (simp add: drop_bit_eq_div unat_div)
  also have "\<dots> < modulus" using lt by (simp add: div_less_iff_less_mult mult.commute)
  finally show ?thesis .
qed

lemma hash_byte_sequence_less:
  "0 < modulus \<Longrightarrow> modulus < 2 ^ 32 \<Longrightarrow> hash_byte_sequence m a n modulus < modulus"
  unfolding hash_byte_sequence_def Let_def by (rule scale_less)

subsection \<open>Properties\<close>

text \<open>
  C4: for every modulus the assertion admits (and not zero), \<open>hash_byte_sequence\<close> is a valid
  partition number, and two byte ranges with the same content get the same number, wherever
  they are stored.
\<close>
theorem hash_partition_valid:
  assumes "0 < modulus" "modulus \<le> 0xffffffff"
    and "load_bytes m a n = load_bytes m' a' n"
  shows "hash_byte_sequence m a n modulus < modulus \<and>
    hash_byte_sequence m' a' n modulus = hash_byte_sequence m a n modulus"
  using assms hash_byte_sequence_cong [of m a m' a' n modulus]
  by (auto simp: same_bytes_def intro: hash_byte_sequence_less)

theorem hash_partition_valid_witness:
  "hash_byte_sequence (\<lambda>a. of_nat (a mod 5)) 5 7 16 < 16 \<and>
   hash_byte_sequence (\<lambda>a. of_nat (a mod 5)) 10 7 16 = hash_byte_sequence (\<lambda>a. of_nat (a mod 5)) 5 7 16"
proof -
  have "load_bytes (\<lambda>a. of_nat (a mod 5)) 5 7 = load_bytes (\<lambda>a. of_nat (a mod 5)) 10 7"
  proof (rule nth_equalityI)
    fix i :: nat
    have "(5 + i) mod 5 = (10 + i) mod 5" by presburger
    then show "i < length (load_bytes (\<lambda>a. of_nat (a mod 5)) 5 7) \<Longrightarrow>
        load_bytes (\<lambda>a. of_nat (a mod 5)) 5 7 ! i = load_bytes (\<lambda>a. of_nat (a mod 5)) 10 7 ! i"
      by simp
  qed simp
  then show ?thesis using hash_partition_valid [of 16 "\<lambda>a. of_nat (a mod 5)" 5 7 "\<lambda>a. of_nat (a mod 5)" 10] by simp
qed

end
