(* ===== verification/Buckets.thy ===== *)
theory Buckets
  imports Prelude
begin

text \<open>
  Stable distribution of a list by an index: \<open>bucket f xs i\<close> are the elements of index \<open>i\<close> in their
  order, \<open>buckets f xs n\<close> the first \<open>n\<close> buckets one after the other. The radix sort distributes
  blocks this way and the shuffle distributes records over partitions.
\<close>

definition bucket :: "('a \<Rightarrow> nat) \<Rightarrow> 'a list \<Rightarrow> nat \<Rightarrow> 'a list" where
  "bucket f xs i = filter (\<lambda>x. f x = i) xs"

definition buckets :: "('a \<Rightarrow> nat) \<Rightarrow> 'a list \<Rightarrow> nat \<Rightarrow> 'a list" where
  "buckets f xs n = concat (map (bucket f xs) [0..<n])"

lemma buckets_simps [simp]:
  "buckets f xs 0 = []" "buckets f xs (Suc n) = buckets f xs n @ bucket f xs n"
  by (simp_all add: buckets_def)

lemma mset_buckets: "mset (buckets f xs n) = filter_mset (\<lambda>x. f x < n) (mset xs)"
proof (induction n)
  case (Suc n)
  have "filter_mset (\<lambda>x. f x < Suc n) M = filter_mset (\<lambda>x. f x < n) M + filter_mset (\<lambda>x. f x = n) M" for M
    by (induction M) auto
  with Suc show ?case by (simp add: bucket_def mset_filter)
qed simp

lemma buckets_all: "(\<And>x. x \<in> set xs \<Longrightarrow> f x < n) \<Longrightarrow> mset (buckets f xs n) = mset xs"
  by (simp add: mset_buckets filter_mset_eq_conv)

lemma set_buckets: "set (buckets f xs n) = {x \<in> set xs. f x < n}"
  by (auto simp: buckets_def bucket_def)

lemma length_buckets_mono: "i \<le> j \<Longrightarrow> length (buckets f xs i) \<le> length (buckets f xs j)"
  by (induction j) (auto simp: le_Suc_eq)

lemma bucket_append [simp]: "bucket f (xs @ ys) i = bucket f xs i @ bucket f ys i"
  by (simp add: bucket_def)

lemma bucket_single [simp]: "bucket f [x] i = (if f x = i then [x] else [])"
  by (simp add: bucket_def)

lemma bucket_take_le: "length (bucket f (take k xs) i) \<le> length (bucket f xs i)"
  by (metis append_take_drop_id bucket_append le_add1 length_append)

lemma bucket_take_less:
  assumes "k < length xs" "f (xs ! k) = i"
  shows "length (bucket f (take k xs) i) < length (bucket f xs i)"
proof -
  have "xs = take k xs @ xs ! k # drop (Suc k) xs" using assms by (rule_tac id_take_nth_drop)
  then have "bucket f xs i = bucket f (take k xs) i @ bucket f [xs ! k] i @ bucket f (drop (Suc k) xs) i"
    by (metis bucket_append append_Cons append_Nil)
  with assms(2) show ?thesis by simp
qed

text \<open>Placing the elements one by one at the next free position of their bucket.\<close>

definition placed :: "('a \<Rightarrow> nat) \<Rightarrow> 'a list \<Rightarrow> nat \<Rightarrow> nat \<Rightarrow> nat list \<Rightarrow> 'a list \<Rightarrow> bool" where
  "placed f xs n k bins zs \<longleftrightarrow>
     length zs = length xs \<and> length bins = n \<and>
     (\<forall>i<n. bins ! i = length (buckets f xs i) + length (bucket f (take k xs) i) \<and>
            segment (length (buckets f xs i)) (bins ! i) zs = bucket f (take k xs) i)"

lemma placed_step:
  assumes p: "placed f xs n k bins zs" and k: "k < length xs" and f: "\<And>x. x \<in> set xs \<Longrightarrow> f x < n"
  shows "placed f xs n (Suc k) (bins[f (xs ! k) := bins ! f (xs ! k) + 1]) (zs[bins ! f (xs ! k) := xs ! k])"
proof -
  let ?S = "\<lambda>i. length (buckets f xs i)" and ?z = "xs ! k"
  let ?b = "f ?z" let ?p = "bins ! ?b"
  have b: "?b < n" using f k by simp
  have lenx: "length (buckets f xs n) = length xs"
    using buckets_all [of xs f n] f by (metis size_mset)
  have bins: "bins ! i = ?S i + length (bucket f (take k xs) i)"
    "segment (?S i) (bins ! i) zs = bucket f (take k xs) i" if "i < n" for i
    using p that by (auto simp: placed_def)
  have hi: "bins ! i \<le> ?S (Suc i)" if "i < n" for i
    using bins(1) [OF that] bucket_take_le [of f k xs i] by simp
  have pl: "?p < ?S (Suc ?b)"
    using bins(1) [OF b] bucket_take_less [OF k, of f ?b] by simp
  have pz: "?p < length zs"
    using pl length_buckets_mono [of "Suc ?b" n f xs] b lenx p by (simp add: placed_def)
  have take: "take (Suc k) xs = take k xs @ [?z]" using k by (rule take_Suc_conv_app_nth)
  have "(bins[?b := ?p + 1]) ! i = ?S i + length (bucket f (take (Suc k) xs) i) \<and>
      segment (?S i) ((bins[?b := ?p + 1]) ! i) (zs[?p := ?z]) = bucket f (take (Suc k) xs) i" if i: "i < n" for i
  proof (cases "i = ?b")
    case True
    have "segment (?S i) (?p + 1) (zs[?p := ?z]) = segment (?S i) ?p zs @ [?z]"
      using bins(1) [OF b] pz True
      by (simp add: segment_def Suc_diff_le take_Suc_conv_app_nth drop_update_swap)
    with True bins [OF b] p b take show ?thesis by (simp add: placed_def)
  next
    case False
    have "?p < ?S i \<or> bins ! i \<le> ?p"
    proof (cases "i < ?b")
      case True
      then have "bins ! i \<le> ?S ?b" using hi [OF i] length_buckets_mono [of "Suc i" ?b f xs] by simp
      then show ?thesis using bins(1) [OF b] by simp
    next
      case F: False
      then have "?S (Suc ?b) \<le> ?S i" using False by (intro length_buckets_mono) simp
      then show ?thesis using pl by simp
    qed
    then have "segment (?S i) (bins ! i) (zs[?p := ?z]) = segment (?S i) (bins ! i) zs"
      by (rule segment_update)
    with False bins [OF i] take show ?thesis by simp
  qed
  moreover have "length (zs[?p := ?z]) = length xs" "length (bins[?b := ?p + 1]) = n"
    using p by (simp_all add: placed_def)
  ultimately show ?thesis unfolding placed_def by blast
qed

lemma placed_all:
  assumes p: "placed f xs n (length xs) bins zs" and f: "\<And>x. x \<in> set xs \<Longrightarrow> f x < n"
  shows "zs = buckets f xs n" and "\<And>i. i < n \<Longrightarrow> bins ! i = length (buckets f xs (Suc i))"
proof -
  have bins: "bins ! i = length (buckets f xs (Suc i))"
    "segment (length (buckets f xs i)) (bins ! i) zs = bucket f xs i" if "i < n" for i
    using p that by (auto simp: placed_def)
  show "\<And>i. i < n \<Longrightarrow> bins ! i = length (buckets f xs (Suc i))" by (rule bins)
  have "i \<le> n \<Longrightarrow> take (length (buckets f xs i)) zs = buckets f xs i" for i
  proof (induction i)
    case (Suc i)
    then show ?case
      using bins [of i] take_segment [of "length (buckets f xs i)" "bins ! i" zs]
      by simp
  qed simp
  from this [of n] show "zs = buckets f xs n"
    using buckets_all [of xs f n] f p by (metis placed_def order_refl size_mset take_all_iff)
qed

lemma segment_buckets:
  assumes "i < n"
  shows "segment (length (buckets f xs i)) (length (buckets f xs (Suc i))) (buckets f xs n) = bucket f xs i"
proof -
  have "buckets f xs n = buckets f xs (Suc i) @ concat (map (bucket f xs) [Suc i..<n])"
    unfolding buckets_def using upt_add_eq_append [of 0 "Suc i" "n - Suc i"] assms by simp
  then show ?thesis by (simp add: segment_def)
qed

lemma take_buckets: "i \<le> n \<Longrightarrow> take (length (buckets f xs i)) (buckets f xs n) = buckets f xs i"
  using upt_add_eq_append [of 0 i "n - i"] by (simp add: buckets_def)

lemma length_buckets: "length (buckets f xs n) = sum_list (map (\<lambda>i. length (bucket f xs i)) [0..<n])"
  by (induction n) simp_all

end
