(* ===== verification/ShufflePartition.thy ===== *)
theory ShufflePartition
  imports SerializedBuffer HashFunction Buckets
begin

text \<open>
  The first half of a shuffle: \<open>ShuffleBuffer\<close> (src/tasks/shuffle/shuffle_buffer.hpp) and
  \<open>ShuffleLogicalTask::partition_fragment\<close> (shuffle_logical_task.cpp, lines 159 to 220), which
  distributes the records of one key-value fragment over the partitions of a new buffer. The
  source is read from and the destination written to the same memory. Sums of sizes of data that
  is in memory are plain sums; differences of offsets wrap.
\<close>

subsection \<open>ShuffleBuffer\<close>

record shuffle_buffer =
  sh_partition_count :: size_type
  sh_offsets :: addr
  sh_data :: addr

definition make_shuffle_buffer :: "addr \<Rightarrow> size_type \<Rightarrow> shuffle_buffer" where
  "make_shuffle_buffer base partition_count =
     \<lparr>sh_partition_count = partition_count, sh_offsets = base, sh_data = base + 8 * (partition_count + 1)\<rparr>"

definition shuffle_buffer_size :: "size_type \<Rightarrow> size_type \<Rightarrow> size_type" where
  "shuffle_buffer_size bsize partition_count = sz_add (sz_mul 8 (sz_add partition_count 1)) bsize"

definition allocate_shuffle_buffer ::
  "bool \<Rightarrow> nat \<Rightarrow> nat \<Rightarrow> addr \<Rightarrow> size_type \<Rightarrow> size_type \<Rightarrow> identifier_type \<Rightarrow> mem_state \<Rightarrow> (shuffle_buffer \<times> mem_state) option" where
  "allocate_shuffle_buffer nd tmp slot p bsize partition_count locality ms =
     map_option (Pair (make_shuffle_buffer p partition_count))
       (mr_destroy nd tmp (mr_lock slot tmp
          (allocate_on_node tmp p (shuffle_buffer_size bsize partition_count) locality ms)))"

definition shuffle_offsets :: "shuffle_buffer \<Rightarrow> array_ref" where
  "shuffle_offsets b = array_of (sh_offsets b) (sh_partition_count b + 1)"

subsection \<open>partition_fragment\<close>

text \<open>Length of the record \<open>i\<close> of the source, and the hash partition of its key.\<close>

definition in_offset :: "mem \<Rightarrow> serialized_buffer \<Rightarrow> nat \<Rightarrow> size_type" where
  "in_offset m src i = ar_get m (values_offsets m src) i"

definition in_key_length :: "mem \<Rightarrow> serialized_buffer \<Rightarrow> nat \<Rightarrow> size_type" where
  "in_key_length m src i = ar_get m (key_lengths m src) i"

definition in_length :: "mem \<Rightarrow> serialized_buffer \<Rightarrow> nat \<Rightarrow> size_type" where
  "in_length m src i = sz_sub (in_offset m src (i + 1)) (in_offset m src i)"

definition in_partition :: "mem \<Rightarrow> serialized_buffer \<Rightarrow> size_type \<Rightarrow> nat \<Rightarrow> nat" where
  "in_partition m src partition_count i =
     hash_byte_sequence m (values_data src + in_offset m src i) (in_key_length m src i) partition_count mod 2 ^ 32"

text \<open>The counting loop, the offset loop and the copying loop.\<close>

definition count_partitions ::
  "mem \<Rightarrow> serialized_buffer \<Rightarrow> size_type \<Rightarrow> size_type list \<times> size_type list \<times> nat list" where
  "count_partitions m src partition_count =
     fold (\<lambda>i (record_counts, size_sums, partitions).
         let p = in_partition m src partition_count i
         in (record_counts[p := record_counts ! p + 1], size_sums[p := size_sums ! p + in_length m src i],
             partitions[i := p]))
       [0..<record_count m src]
       (replicate partition_count 0, replicate partition_count 0, replicate (record_count m src) 0)"

definition write_offsets :: "shuffle_buffer \<Rightarrow> size_type list \<Rightarrow> size_type list \<Rightarrow> mem \<Rightarrow> mem \<times> size_type list" where
  "write_offsets dst record_counts size_sums m =
     fold (\<lambda>i (m, cur_offsets).
         let lo = load_size m (ar_index (shuffle_offsets dst) i);
             m = store_size m (ar_index (shuffle_offsets dst) (i + 1)) (lo + size_sums ! i + 2 * 8 * record_counts ! i)
         in (m, cur_offsets[i := load_size m (ar_index (shuffle_offsets dst) i)]))
       [0..<sh_partition_count dst]
       (store_size m (ar_index (shuffle_offsets dst) 0) 0, replicate (sh_partition_count dst) 0)"

definition copy_record :: "serialized_buffer \<Rightarrow> nat \<Rightarrow> addr \<Rightarrow> mem \<Rightarrow> mem" where
  "copy_record src i dst_ptr m =
     (let record_length = in_length m src i; key_length = in_key_length m src i;
          m1 = store_size m dst_ptr record_length;
          m2 = store_size m1 (dst_ptr + 8) key_length
      in memcpy m2 (dst_ptr + 2 * 8) (values_data src + in_offset m2 src i) record_length)"

definition copy_records ::
  "serialized_buffer \<Rightarrow> shuffle_buffer \<Rightarrow> nat list \<Rightarrow> mem \<Rightarrow> size_type list \<Rightarrow> mem \<times> size_type list" where
  "copy_records src dst partitions m cur_offsets =
     fold (\<lambda>i (m, cur_offsets).
         let p = partitions ! i; len = in_length m src i
         in (copy_record src i (sh_data dst + cur_offsets ! p) m, cur_offsets[p := cur_offsets ! p + (len + 2 * 8)]))
       [0..<record_count m src] (m, cur_offsets)"

definition partition_buffer_size :: "mem \<Rightarrow> serialized_buffer \<Rightarrow> size_type" where
  "partition_buffer_size m src =
     sz_sub (in_offset m src (record_count m src)) (in_offset m src 0) + 2 * 8 * record_count m src"

definition partition_fragment :: "serialized_buffer \<Rightarrow> shuffle_buffer \<Rightarrow> mem \<Rightarrow> mem" where
  "partition_fragment src dst m =
     (let (record_counts, size_sums, partitions) = count_partitions m src (sh_partition_count dst);
          (m1, cur_offsets) = write_offsets dst record_counts size_sums m
      in fst (copy_records src dst partitions m1 cur_offsets))"

subsection \<open>What the fragment holds\<close>

text \<open>
  A record of a fragment is its bytes and the length of its key; \<open>encode\<close> is the record format of
  the shuffle buffer.
\<close>

type_synonym kv_record = "u8 list \<times> nat"

definition source_record :: "mem \<Rightarrow> serialized_buffer \<Rightarrow> nat \<Rightarrow> kv_record" where
  "source_record m src i =
     (load_bytes m (values_data src + in_offset m src i) (in_length m src i), in_key_length m src i)"

definition source_records :: "mem \<Rightarrow> serialized_buffer \<Rightarrow> kv_record list" where
  "source_records m src = map (source_record m src) [0..<record_count m src]"

definition record_key :: "kv_record \<Rightarrow> u8 list" where
  "record_key r = take (snd r) (fst r)"

definition record_value :: "kv_record \<Rightarrow> u8 list" where
  "record_value r = drop (snd r) (fst r)"

definition encode :: "kv_record \<Rightarrow> u8 list" where
  "encode r = le_bytes 8 (length (fst r)) @ le_bytes 8 (snd r) @ fst r"

definition key_partition :: "size_type \<Rightarrow> kv_record \<Rightarrow> nat" where
  "key_partition P r = hash_byte_sequence (\<lambda>a. fst r ! a) 0 (snd r) P"

text \<open>A well-formed key-value fragment, and a destination apart from all of it.\<close>

definition fragment_ok :: "mem \<Rightarrow> serialized_buffer \<Rightarrow> bool" where
  "fragment_ok m src \<longleftrightarrow>
     (\<forall>i<record_count m src. in_offset m src i \<le> in_offset m src (i + 1) \<and> in_key_length m src i \<le> in_length m src i)"

definition source_apart :: "mem \<Rightarrow> serialized_buffer \<Rightarrow> addr \<Rightarrow> addr \<Rightarrow> bool" where
  "source_apart m src lo hi \<longleftrightarrow>
     apart (the (values_header src)) 24 lo hi \<and>
     apart (the (values_offsets_ptr src)) (8 * (record_count m src + 1)) lo hi \<and>
     apart (the (values_key_lengths src)) (8 * record_count m src) lo hi \<and>
     (\<forall>i<record_count m src. apart (values_data src + in_offset m src i) (in_length m src i) lo hi)"

lemma in_offset_simp: "in_offset m src i = load_size m (the (values_offsets_ptr src) + 8 * i)"
  by (simp add: in_offset_def values_offsets_def)

lemma in_key_length_simp: "in_key_length m src i = load_size m (the (values_key_lengths src) + 8 * i)"
  by (simp add: in_key_length_def key_lengths_def)

lemma source_same:
  assumes "same_outside lo hi m m'" "source_apart m src lo hi"
  shows "record_count m' src = record_count m src"
    "i \<le> record_count m src \<Longrightarrow> in_offset m' src i = in_offset m src i"
    "i < record_count m src \<Longrightarrow> in_key_length m' src i = in_key_length m src i"
    "i < record_count m src \<Longrightarrow> in_length m' src i = in_length m src i"
    "i < record_count m src \<Longrightarrow> source_record m' src i = source_record m src i"
proof -
  note ap = assms(2)[unfolded source_apart_def]
  show "record_count m' src = record_count m src" unfolding record_count_def
    by (rule load_size_same_outside [OF assms(1)], rule apart_sub) (use ap in auto)
  show off: "in_offset m' src i = in_offset m src i" if "i \<le> record_count m src" for i
    unfolding in_offset_simp
    by (rule load_size_same_outside [OF assms(1)], rule apart_sub [of "the (values_offsets_ptr src)"]) (use ap that in auto)
  show kl: "in_key_length m' src i = in_key_length m src i" if "i < record_count m src" for i
    unfolding in_key_length_simp
    by (rule load_size_same_outside [OF assms(1)], rule apart_sub [of "the (values_key_lengths src)"]) (use ap that in auto)
  show len: "in_length m' src i = in_length m src i" if "i < record_count m src" for i
    using off [of i] off [of "i + 1"] that by (simp add: in_length_def)
  show "source_record m' src i = source_record m src i" if "i < record_count m src" for i
    unfolding source_record_def off [OF less_imp_le [OF that]] len [OF that] kl [OF that]
    using load_bytes_same_outside [OF assms(1)] ap that by auto
qed

lemma length_encode: "length (encode r) = 16 + length (fst r)"
  by (simp add: encode_def)

definition encoded :: "kv_record list \<Rightarrow> u8 list" where
  "encoded rs = concat (map encode rs)"

lemma encoded_simps [simp]: "encoded [] = []" "encoded (rs @ ss) = encoded rs @ encoded ss" "encoded [r] = encode r"
  by (simp_all add: encoded_def)

lemma length_encoded: "length (encoded rs) = sum_list (map (length \<circ> fst) rs) + 16 * length rs"
  by (induction rs) (simp_all add: encoded_def length_encode)

text \<open>The partition chosen for a record is a function of its key.\<close>

lemma length_source_records [simp]: "length (source_records m src) = record_count m src"
  by (simp add: source_records_def)

lemma nth_source_records: "i < record_count m src \<Longrightarrow> source_records m src ! i = source_record m src i"
  by (simp add: source_records_def)

lemma length_source_record: "length (fst (source_record m src i)) = in_length m src i"
  by (simp add: source_record_def)

lemma key_partition_less: "0 < P \<Longrightarrow> P < 2 ^ 32 \<Longrightarrow> key_partition P r < P"
  by (simp add: key_partition_def hash_byte_sequence_less)

lemma in_partition_key:
  assumes "fragment_ok m src" "i < record_count m src" "0 < P" "P < 2 ^ 32"
  shows "in_partition m src P i = key_partition P (source_record m src i)"
proof -
  let ?r = "source_record m src i"
  have kl: "in_key_length m src i \<le> in_length m src i" using assms by (simp add: fragment_ok_def)
  have "same_bytes m (values_data src + in_offset m src i) (\<lambda>a. fst ?r ! a) 0 (in_key_length m src i)"
    unfolding same_bytes_def by (rule nth_equalityI) (use kl in \<open>simp_all add: source_record_def\<close>)
  from hash_byte_sequence_cong [OF this, of P]
  have "hash_byte_sequence m (values_data src + in_offset m src i) (in_key_length m src i) P = key_partition P ?r"
    by (simp add: key_partition_def source_record_def)
  moreover have "key_partition P ?r < 2 ^ 32" using key_partition_less [OF assms(3,4), of ?r] assms(4) by simp
  ultimately show ?thesis by (simp add: in_partition_def)
qed

subsection \<open>The counting loop\<close>

lemma bucket_take_Suc:
  "i < length xs \<Longrightarrow>
     bucket f (take (Suc i) xs) q = bucket f (take i xs) q @ (if f (xs ! i) = q then [xs ! i] else [])"
  by (simp add: take_Suc_conv_app_nth)

lemma count_partitions_correct:
  assumes ok: "fragment_ok m src" and P: "0 < P" "P < 2 ^ 32"
    and c: "count_partitions m src P = (rc, ss, ps)"
  defines "R \<equiv> source_records m src" and "f \<equiv> key_partition P"
  shows "length rc = P" "length ss = P" "ps = map f R"
    "\<And>q. q < P \<Longrightarrow> ss ! q + 2 * 8 * rc ! q = length (encoded (bucket f R q))"
proof -
  let ?n = "record_count m src"
  let ?I = "\<lambda>i (rc, ss, ps). length rc = P \<and> length ss = P \<and> length ps = ?n \<and> take i ps = map f (take i R) \<and>
    (\<forall>q<P. rc ! q = length (bucket f (take i R) q) \<and> ss ! q = sum_list (map (length \<circ> fst) (bucket f (take i R) q)))"
  have "?I ?n (count_partitions m src P)" unfolding count_partitions_def
  proof (rule fold_upt_invariant [where P = ?I])
    show "?I 0 (replicate P 0, replicate P 0, replicate ?n 0)" by (simp add: bucket_def)
  next
    fix i st assume i: "i < ?n" and inv: "?I i st"
    obtain rc ss ps where st: "st = (rc, ss, ps)" by (cases st)
    have r: "R ! i = source_record m src i" "i < length R" using i by (simp_all add: R_def nth_source_records)
    have p: "in_partition m src P i = f (R ! i)" unfolding r f_def by (rule in_partition_key [OF ok i P])
    have l: "in_length m src i = length (fst (R ! i))" by (simp add: r length_source_record)
    have "f (R ! i) < P" unfolding f_def by (rule key_partition_less [OF P])
    with inv i r(2) have "?I (Suc i) (rc[f (R ! i) := rc ! f (R ! i) + 1],
        ss[f (R ! i) := ss ! f (R ! i) + length (fst (R ! i))], ps[i := f (R ! i)])"
      unfolding st by (auto simp: bucket_take_Suc nth_list_update take_Suc_conv_app_nth)
    then show "?I (Suc i) (case st of (record_counts, size_sums, partitions) \<Rightarrow>
        let p = in_partition m src P i
        in (record_counts[p := record_counts ! p + 1], size_sums[p := size_sums ! p + in_length m src i], partitions[i := p]))"
      unfolding st p l by (simp add: Let_def)
  qed
  moreover have "length R = ?n" by (simp add: R_def)
  ultimately show "length rc = P" "length ss = P" "ps = map f R"
    "\<And>q. q < P \<Longrightarrow> ss ! q + 2 * 8 * rc ! q = length (encoded (bucket f R q))"
    unfolding c by (auto simp: length_encoded)
qed

subsection \<open>The offset loop\<close>

definition start_of :: "('a \<Rightarrow> nat) \<Rightarrow> ('a \<Rightarrow> u8 list) \<Rightarrow> 'a list \<Rightarrow> nat \<Rightarrow> nat" where
  "start_of f enc xs q = length (concat (map enc (buckets f xs q)))"

lemma start_of_simps [simp]:
  "start_of f enc xs 0 = 0" "start_of f enc xs (Suc q) = start_of f enc xs q + length (concat (map enc (bucket f xs q)))"
  by (simp_all add: start_of_def)

lemma start_of_mono: "i \<le> j \<Longrightarrow> start_of f enc xs i \<le> start_of f enc xs j"
  by (induction j) (auto simp: le_Suc_eq)

lemma write_offsets_correct:
  assumes w: "write_offsets dst rc ss m = (m1, cur)" and P: "P = sh_partition_count dst"
    and sz: "\<forall>q<P. ss ! q + 2 * 8 * rc ! q = length (concat (map enc (bucket f R q)))"
    and fit: "start_of f enc R P < size_modulus"
  shows "length cur = P" "\<forall>q<P. cur ! q = start_of f enc R q"
    "\<And>q. q \<le> P \<Longrightarrow> load_size m1 (sh_offsets dst + 8 * q) = start_of f enc R q"
    "same_outside (sh_offsets dst) (sh_offsets dst + 8 * (P + 1)) m m1"
proof -
  let ?o = "sh_offsets dst" and ?S = "start_of f enc R"
  let ?I = "\<lambda>i (m', cur). length cur = P \<and> (\<forall>q<i. cur ! q = ?S q) \<and> (\<forall>q\<le>i. load_size m' (?o + 8 * q) = ?S q) \<and>
    same_outside ?o (?o + 8 * (P + 1)) m m'"
  have idx: "ar_index (shuffle_offsets dst) i = ?o + 8 * i" for i by (simp add: shuffle_offsets_def)
  have Sfit: "q \<le> P \<Longrightarrow> ?S q < size_modulus" for q using start_of_mono [of q P f enc R] fit by simp
  have "?I P (write_offsets dst rc ss m)" unfolding write_offsets_def idx P [symmetric]
  proof (rule fold_upt_invariant [where P = ?I])
    show "?I 0 (store_size m (?o + 8 * 0) 0, replicate P 0)"
      using same_outside_store_size [of ?o ?o "?o + 8 * (P + 1)"] by (simp add: mem_simps)
  next
    fix i st assume i: "i < P" and inv: "?I i st"
    obtain m' c where st: "st = (m', c)" by (cases st)
    have lo: "load_size m' (?o + 8 * i) = ?S i" using inv st by simp
    have v: "?S i + ss ! i + 2 * 8 * rc ! i = ?S (Suc i)" using sz i by simp
    let ?m = "store_size m' (?o + 8 * (i + 1)) (?S (Suc i))"
    have "load_size ?m (?o + 8 * q) = ?S q" if "q \<le> Suc i" for q
    proof (cases "q = Suc i")
      case True
      then show ?thesis using Sfit [of "Suc i"] i by (simp add: mem_simps)
    next
      case False
      then have "load_size ?m (?o + 8 * q) = load_size m' (?o + 8 * q)"
        using that by (intro load_size_store_size_disjoint) auto
      then show ?thesis using inv st False that by simp
    qed
    moreover have "same_outside ?o (?o + 8 * (P + 1)) m ?m"
      by (rule same_outside_trans [of _ _ _ m'], use inv st in simp, rule same_outside_store_size) (use i in auto)
    ultimately have "?I (Suc i) (?m, c[i := load_size ?m (?o + 8 * i)])"
      using inv st i by (auto simp: nth_list_update less_Suc_eq)
    then show "?I (Suc i) (case st of (m, cur_offsets) \<Rightarrow>
        let lo = load_size m (?o + 8 * i); m = store_size m (?o + 8 * (i + 1)) (lo + ss ! i + 2 * 8 * rc ! i)
        in (m, cur_offsets[i := load_size m (?o + 8 * i)]))"
      unfolding st prod.case Let_def lo v .
  qed
  then show "length cur = P" "\<forall>q<P. cur ! q = ?S q"
    "\<And>q. q \<le> P \<Longrightarrow> load_size m1 (?o + 8 * q) = ?S q" "same_outside ?o (?o + 8 * (P + 1)) m m1"
    unfolding w by auto
qed

subsection \<open>The copying loop\<close>

lemma copy_record_correct:
  assumes i: "i < record_count m src" and d: "lo \<le> d" "d + 16 + in_length m src i \<le> hi"
    and ap: "source_apart m src lo hi"
  shows "load_bytes (copy_record src i d m) d (16 + in_length m src i) = encode (source_record m src i)"
    "same_outside d (d + 16 + in_length m src i) m (copy_record src i d m)"
proof -
  let ?len = "in_length m src i" and ?kl = "in_key_length m src i"
  let ?m1 = "store_size m d ?len" let ?m2 = "store_size ?m1 (d + 8) ?kl"
  let ?src = "values_data src + in_offset m src i"
  have so: "same_outside lo hi m ?m2"
    by (rule same_outside_trans [OF same_outside_store_size same_outside_store_size]) (use d in auto)
  have off: "in_offset ?m2 src i = in_offset m src i" using source_same(2) [OF so ap] i by simp
  have eq: "copy_record src i d m = memcpy ?m2 (d + 16) ?src ?len"
    unfolding copy_record_def Let_def off by simp
  have bytes: "load_bytes ?m2 ?src ?len = load_bytes m ?src ?len"
    using source_same(5) [OF so ap i] source_same(4) [OF so ap i] off by (simp add: source_record_def)
  have "load_bytes (copy_record src i d m) (d + 16) ?len = load_bytes m ?src ?len"
    unfolding eq by (simp add: mem_simps bytes)
  moreover have "load_bytes (copy_record src i d m) d 8 = le_bytes 8 ?len"
  proof -
    have "load_bytes (copy_record src i d m) d 8 = load_bytes ?m1 d 8"
      unfolding eq by (simp add: mem_simps)
    also have "\<dots> = le_bytes 8 ?len" using store_bytes_same [of m d "le_bytes 8 ?len"] by (simp add: store_size_def)
    finally show ?thesis .
  qed
  moreover have "load_bytes (copy_record src i d m) (d + 8) 8 = le_bytes 8 ?kl"
  proof -
    have "load_bytes (copy_record src i d m) (d + 8) 8 = load_bytes ?m2 (d + 8) 8"
      unfolding eq by (simp add: mem_simps)
    also have "\<dots> = le_bytes 8 ?kl"
      using store_bytes_same [of ?m1 "d + 8" "le_bytes 8 ?kl"] by (simp add: store_size_def)
    finally show ?thesis .
  qed
  moreover have "16 + ?len = 8 + (8 + ?len)" by simp
  ultimately show "load_bytes (copy_record src i d m) d (16 + ?len) = encode (source_record m src i)"
    by (simp only: load_bytes_add encode_def source_record_def fst_conv snd_conv length_load_bytes add.assoc) simp
  show "same_outside d (d + 16 + ?len) m (copy_record src i d m)"
    unfolding eq
    by (rule same_outside_trans [OF same_outside_trans [OF same_outside_store_size same_outside_store_size] same_outside_memcpy]) auto
qed

lemma same_outside_widen: "same_outside lo hi m m' \<Longrightarrow> lo' \<le> lo \<Longrightarrow> hi \<le> hi' \<Longrightarrow> same_outside lo' hi' m m'"
  by (auto simp: same_outside_def)

definition copied :: "mem \<Rightarrow> addr \<Rightarrow> (kv_record \<Rightarrow> nat) \<Rightarrow> kv_record list \<Rightarrow> nat \<Rightarrow> nat \<Rightarrow> size_type list \<Rightarrow> bool" where
  "copied m data f R P i cur \<longleftrightarrow> length cur = P \<and>
     (\<forall>q<P. cur ! q = start_of f encode R q + length (encoded (bucket f (take i R) q)) \<and>
            load_bytes m (data + start_of f encode R q) (length (encoded (bucket f (take i R) q))) =
              encoded (bucket f (take i R) q))"

lemma length_encoded_bucket_take:
  "length (encoded (bucket f (take i R) q)) \<le> length (encoded (bucket f R q))"
  by (metis append_take_drop_id bucket_append encoded_simps(2) le_add1 length_append)

lemma copied_step:
  assumes inv: "copied m data f R P i cur" and i: "i < length R" "f (R ! i) < P"
    and m': "load_bytes m' (data + cur ! f (R ! i)) (length (encode (R ! i))) = encode (R ! i)"
    and so: "same_outside (data + cur ! f (R ! i)) (data + cur ! f (R ! i) + length (encode (R ! i))) m m'"
  shows "copied m' data f R P (Suc i) (cur[f (R ! i) := cur ! f (R ! i) + length (encode (R ! i))])"
    "cur ! f (R ! i) + length (encode (R ! i)) \<le> start_of f encode R P"
proof -
  let ?b = "f (R ! i)" and ?S = "start_of f encode R" and ?e = "length (encode (R ! i))"
  have curq: "cur ! q = ?S q + length (encoded (bucket f (take i R) q))"
    "load_bytes m (data + ?S q) (length (encoded (bucket f (take i R) q))) = encoded (bucket f (take i R) q)" if "q < P" for q
    using inv that by (auto simp: copied_def)
  have top: "?S q + length (encoded (bucket f (take k R) q)) \<le> ?S (Suc q)" for q k
    using length_encoded_bucket_take [of f k R q] by (simp add: encoded_def)
  have b: "cur ! ?b + ?e \<le> ?S (Suc ?b)"
    using curq(1) [OF i(2)] top [of ?b "Suc i"] i by (simp add: bucket_take_Suc)
  also have "?S (Suc ?b) \<le> ?S P" using i(2) by (intro start_of_mono) simp
  finally show "cur ! ?b + ?e \<le> ?S P" .
  have "(cur[?b := cur ! ?b + ?e]) ! q = ?S q + length (encoded (bucket f (take (Suc i) R) q)) \<and>
      load_bytes m' (data + ?S q) (length (encoded (bucket f (take (Suc i) R) q))) = encoded (bucket f (take (Suc i) R) q)"
    if q: "q < P" for q
  proof -
    let ?l = "length (encoded (bucket f (take i R) q))"
    have "cur ! q \<le> cur ! ?b \<or> cur ! ?b + ?e \<le> ?S q"
    proof (cases "q \<le> ?b")
      case True
      then show ?thesis
        using curq(1) [OF q] curq(1) [OF i(2)] top [of q i] start_of_mono [of "Suc q" ?b f encode R] by (cases "q = ?b") auto
    next
      case False
      then have "?S (Suc ?b) \<le> ?S q" by (intro start_of_mono) simp
      then show ?thesis using b by simp
    qed
    then have "apart (data + ?S q) ?l (data + cur ! ?b) (data + cur ! ?b + ?e)"
      using curq(1) [OF q] by (auto simp: apart_def)
    from load_bytes_same_outside [OF so this] curq(2) [OF q]
    have old: "load_bytes m' (data + ?S q) ?l = encoded (bucket f (take i R) q)" by simp
    show ?thesis
    proof (cases "?b = q")
      case True
      have "load_bytes m' (data + ?S q) (?l + ?e) = load_bytes m' (data + ?S q) ?l @ load_bytes m' (data + cur ! q) ?e"
        using curq(1) [OF q] by (simp add: load_bytes_add add.assoc)
      with old m' True curq(1) [OF q] i inv q show ?thesis
        by (simp add: bucket_take_Suc copied_def)
    next
      case False
      with old curq(1) [OF q] i show ?thesis by (simp add: bucket_take_Suc)
    qed
  qed
  then show "copied m' data f R P (Suc i) (cur[?b := cur ! ?b + ?e])"
    using inv unfolding copied_def by simp
qed

lemma load_size_offset_bound: "in_offset m src i < size_modulus"
  by (simp add: in_offset_simp load_size_bound)

lemma in_length_exact:
  "fragment_ok m src \<Longrightarrow> i < record_count m src \<Longrightarrow> in_length m src i = in_offset m src (i + 1) - in_offset m src i"
  by (simp add: in_length_def sz_sub_exact fragment_ok_def load_size_offset_bound)

lemma sum_lengths:
  assumes "fragment_ok m src"
  shows "k \<le> record_count m src \<Longrightarrow>
    sum_list (map (in_length m src) [0..<k]) = in_offset m src k - in_offset m src 0 \<and> in_offset m src 0 \<le> in_offset m src k"
proof (induction k)
  case (Suc k)
  then have "in_offset m src k \<le> in_offset m src (Suc k)" using assms by (simp add: fragment_ok_def)
  with Suc in_length_exact [OF assms, of k] show ?case by simp
qed simp

lemma partition_buffer_size_total:
  assumes ok: "fragment_ok m src" and P: "0 < P" "P < 2 ^ 32"
  shows "start_of (key_partition P) encode (source_records m src) P = partition_buffer_size m src"
proof -
  let ?R = "source_records m src" and ?f = "key_partition P"
  have perm: "mset (buckets ?f ?R P) = mset ?R"
    by (rule buckets_all) (rule key_partition_less [OF P])
  have len: "length (encoded xs) = sum_mset (image_mset (\<lambda>r. 16 + length (fst r)) (mset xs))" for xs
    by (induction xs) (simp_all add: encoded_def length_encode)
  have "start_of ?f encode ?R P = length (encoded ?R)"
    unfolding start_of_def encoded_def [symmetric] len perm ..
  also have "\<dots> = sum_list (map (in_length m src) [0..<record_count m src]) + 16 * record_count m src"
    by (simp add: length_encoded source_records_def comp_def length_source_record)
  also have "\<dots> = partition_buffer_size m src"
    using sum_lengths [OF ok, of "record_count m src"]
    by (simp add: partition_buffer_size_def sz_sub_exact load_size_offset_bound)
  finally show ?thesis .
qed

lemma copy_records_correct:
  assumes ok: "fragment_ok m src" and P: "0 < P" "P < 2 ^ 32"
    and ap: "source_apart m src lo hi" and so: "same_outside lo hi m m1"
  defines "R \<equiv> source_records m src" and "f \<equiv> key_partition P"
  assumes data: "lo \<le> sh_data dst" "sh_data dst + start_of f encode R P \<le> hi"
    and cur: "length cur = P" "\<forall>q<P. cur ! q = start_of f encode R q"
    and c: "copy_records src dst (map f R) m1 cur = (m2, cur')"
  shows "copied m2 (sh_data dst) f R P (length R) cur'"
    "same_outside (sh_data dst) (sh_data dst + start_of f encode R P) m1 m2"
proof -
  let ?S = "start_of f encode R" and ?d = "sh_data dst"
  let ?I = "\<lambda>i (m', cur). copied m' ?d f R P i cur \<and> same_outside ?d (?d + ?S P) m1 m'"
  have n: "record_count m1 src = length R" using source_same(1) [OF so ap] by (simp add: R_def)
  have "?I (length R) (copy_records src dst (map f R) m1 cur)" unfolding copy_records_def n
  proof (rule fold_upt_invariant [where P = ?I])
    show "?I 0 (m1, cur)" using cur by (simp add: copied_def bucket_def encoded_def)
  next
    fix i st assume i: "i < length R" and inv: "?I i st"
    obtain m' c where st: "st = (m', c)" by (cases st)
    have cp: "copied m' ?d f R P i c" and so': "same_outside ?d (?d + ?S P) m1 m'" using inv st by auto
    have so2: "same_outside lo hi m m'"
      by (rule same_outside_trans [OF so same_outside_widen [OF so']]) (use data in simp_all)
    have i': "i < record_count m src" using i by (simp add: R_def)
    note same = source_same [OF so2 ap]
    have ap': "source_apart m' src lo hi"
      using ap i' same by (simp add: source_apart_def)
    have r: "source_record m' src i = R ! i" using same(5) [OF i'] i' by (simp add: R_def nth_source_records)
    have len: "length (encode (R ! i)) = 16 + in_length m' src i"
      using r by (metis length_encode length_source_record)
    have b: "f (R ! i) < P" unfolding f_def by (rule key_partition_less [OF P])
    let ?p = "?d + c ! f (R ! i)"
    have le: "?p + 16 + in_length m' src i \<le> ?d + ?S P" "?d \<le> ?p"
    proof -
      have "c ! f (R ! i) = ?S (f (R ! i)) + length (encoded (bucket f (take i R) (f (R ! i))))"
        using cp b by (simp add: copied_def)
      also have "\<dots> + length (encode (R ! i)) = ?S (f (R ! i)) + length (encoded (bucket f (take (Suc i) R) (f (R ! i))))"
        using i by (simp add: bucket_take_Suc)
      also have "\<dots> \<le> ?S (Suc (f (R ! i)))"
        using length_encoded_bucket_take [of f "Suc i" R "f (R ! i)"] by (simp add: encoded_def)
      also have "\<dots> \<le> ?S P" using b by (intro start_of_mono) simp
      finally show "?p + 16 + in_length m' src i \<le> ?d + ?S P" using len by simp
    qed simp
    have cr: "load_bytes (copy_record src i ?p m') ?p (length (encode (R ! i))) = encode (R ! i)"
      "same_outside ?p (?p + length (encode (R ! i))) m' (copy_record src i ?p m')"
      using copy_record_correct [of i m' src lo ?p hi] i' same(1) le data ap' unfolding r len
      by (simp_all add: add.assoc)
    note step = copied_step [OF cp i b cr]
    have "same_outside ?d (?d + ?S P) m1 (copy_record src i ?p m')"
      by (rule same_outside_trans [OF so' same_outside_widen [OF cr(2)]]) (use le len in simp_all)
    with step(1) have "?I (Suc i) (copy_record src i ?p m', c[f (R ! i) := c ! f (R ! i) + (in_length m' src i + 16)])"
      unfolding len by (simp add: add.commute)
    then show "?I (Suc i) (case st of (m, cur_offsets) \<Rightarrow> let p = map f R ! i; len = in_length m src i
        in (copy_record src i (?d + cur_offsets ! p) m, cur_offsets[p := cur_offsets ! p + (len + 2 * 8)]))"
      unfolding st using i by (simp add: Let_def)
  qed
  then show "copied m2 ?d f R P (length R) cur'" "same_outside ?d (?d + ?S P) m1 m2"
    unfolding c by auto
qed

subsection \<open>Properties\<close>

text \<open>
  C10: \<open>partition_fragment\<close> of a well-formed key-value fragment fills the shuffle buffer exactly:
  partition \<open>q\<close> occupies the bytes between its two entries of the offset table and holds the encoded
  records whose key hashes to \<open>q\<close>, in their order in the fragment; the table starts at 0 and ends at
  the size the buffer was allocated with, and nothing outside the buffer is written.
\<close>
theorem partition_fragment_correct:
  assumes ok: "fragment_ok m src" and P: "P = sh_partition_count dst" "0 < P" "P < 2 ^ 32"
    and dst: "dst = make_shuffle_buffer base P"
    and ap: "source_apart m src base (base + 8 * (P + 1) + partition_buffer_size m src)"
    and fit: "partition_buffer_size m src < size_modulus"
  defines "m' \<equiv> partition_fragment src dst m"
  defines "off \<equiv> \<lambda>q. load_size m' (base + 8 * q)"
  shows "off 0 = 0 \<and> off P = partition_buffer_size m src \<and>
    (\<forall>q<P. off q \<le> off (Suc q) \<and>
       load_bytes m' (sh_data dst + off q) (off (Suc q) - off q) =
         encoded (filter (\<lambda>r. key_partition P r = q) (source_records m src))) \<and>
    same_outside base (base + 8 * (P + 1) + partition_buffer_size m src) m m'"
proof -
  let ?R = "source_records m src" and ?f = "key_partition P"
  let ?S = "start_of ?f encode ?R" and ?hi = "base + 8 * (P + 1) + partition_buffer_size m src"
  have SP: "?S P = partition_buffer_size m src" by (rule partition_buffer_size_total [OF ok P(2,3)])
  have d: "sh_offsets dst = base" "sh_data dst = base + 8 * (P + 1)" using dst by (simp_all add: make_shuffle_buffer_def)
  obtain rc ss ps where c: "count_partitions m src P = (rc, ss, ps)" by (metis prod_cases3)
  note cp = count_partitions_correct [OF ok P(2,3) c]
  obtain m1 cur where w: "write_offsets dst rc ss m = (m1, cur)" by (metis surj_pair)
  have sz: "\<forall>q<P. ss ! q + 2 * 8 * rc ! q = length (concat (map encode (bucket ?f ?R q)))"
    using cp(4) by (simp add: encoded_def)
  note wo = write_offsets_correct [OF w P(1) sz fit [folded SP]]
  obtain m2 cur' where k: "copy_records src dst (map ?f ?R) m1 cur = (m2, cur')" by (metis surj_pair)
  have so1: "same_outside base ?hi m m1" using wo(4) unfolding d by (rule same_outside_widen) simp_all
  have le: "base \<le> sh_data dst" "sh_data dst + ?S P \<le> ?hi" using d SP by simp_all
  note cc = copy_records_correct [OF ok P(2,3) ap so1 le wo(1,2) k]
  have m': "m' = m2" unfolding m'_def partition_fragment_def P(1) [symmetric] c using w k cp(3) by simp
  have off: "off q = ?S q" if "q \<le> P" for q
  proof -
    have "apart (base + 8 * q) 8 (sh_data dst) (sh_data dst + ?S P)" using that d by (simp add: apart_def)
    from load_size_same_outside [OF cc(2) this] wo(3) [OF that] d show ?thesis by (simp add: off_def m')
  qed
  have "load_bytes m' (sh_data dst + off q) (off (Suc q) - off q) = encoded (filter (\<lambda>r. ?f r = q) ?R)" if q: "q < P" for q
  proof -
    have "load_bytes m2 (sh_data dst + ?S q) (length (encoded (bucket ?f ?R q))) = encoded (bucket ?f ?R q)"
      using cc(1) q by (simp add: copied_def)
    moreover have "off (Suc q) - off q = length (encoded (bucket ?f ?R q))"
      using off [of q] off [of "Suc q"] q by (simp add: encoded_def)
    ultimately show ?thesis using off [of q] q by (simp add: m' bucket_def)
  qed
  moreover have "off q \<le> off (Suc q)" if "q < P" for q using off [of q] off [of "Suc q"] that by simp
  moreover have "same_outside base ?hi m m'" unfolding m'
    by (rule same_outside_trans [OF so1 same_outside_widen [OF cc(2) le]])
  ultimately show ?thesis using off [of 0] off [of P] SP by simp
qed

text \<open>A fragment of two records of two and three bytes with keys of one and two bytes.\<close>

definition sample_source :: serialized_buffer where
  "sample_source = null_buffer\<lparr>common_header := Some 0, values_header := Some 16, values_data_ptr := Some 100,
     values_offsets_ptr := Some 200, values_key_lengths := Some 300\<rparr>"

definition sample_fragment :: mem where
  "sample_fragment =
     store_size (store_size (store_size (store_size (store_size (store_size (\<lambda>_. 7) 32 2) 200 0) 208 2) 216 5) 300 1) 308 2"

lemma sample_fragment_reads:
  "record_count sample_fragment sample_source = 2"
  "in_offset sample_fragment sample_source 0 = 0" "in_offset sample_fragment sample_source 1 = 2"
  "in_offset sample_fragment sample_source 2 = 5"
  "in_key_length sample_fragment sample_source 0 = 1" "in_key_length sample_fragment sample_source 1 = 2"
  "in_length sample_fragment sample_source 0 = 2" "in_length sample_fragment sample_source 1 = 3"
  by (simp_all add: record_count_def in_offset_simp in_key_length_simp in_length_def sample_source_def null_buffer_def
      sample_fragment_def mem_simps size_modulus_def sz_sub_def)

theorem partition_fragment_correct_witness:
  "load_size (partition_fragment sample_source (make_shuffle_buffer 1000 4) sample_fragment) 1000 = 0 \<and>
   load_size (partition_fragment sample_source (make_shuffle_buffer 1000 4) sample_fragment) (1000 + 8 * 4) = 37"
proof -
  note r = sample_fragment_reads
  have ok: "fragment_ok sample_fragment sample_source"
    using r by (auto simp: fragment_ok_def less_Suc_eq numeral_2_eq_2)
  have size: "partition_buffer_size sample_fragment sample_source = 37"
    using r by (simp add: partition_buffer_size_def sz_sub_def size_modulus_def)
  have "apart (values_data sample_source + in_offset sample_fragment sample_source i)
      (in_length sample_fragment sample_source i) 1000 (1000 + 8 * (4 + 1) + 37)" if "i < 2" for i
  proof -
    have "i = 0 \<or> i = 1" using that by auto
    then show ?thesis using r by (auto simp: apart_def values_data_def sample_source_def null_buffer_def)
  qed
  then have "source_apart sample_fragment sample_source 1000 (1000 + 8 * (4 + 1) + 37)"
    unfolding source_apart_def r by (auto simp: apart_def sample_source_def null_buffer_def)
  from partition_fragment_correct [OF ok _ _ _ refl, of 4 1000] this size show ?thesis
    by (simp add: make_shuffle_buffer_def size_modulus_def)
qed

end
