(* ===== verification/KeyBlocks.thy ===== *)
theory KeyBlocks
  imports Prelude
begin

text \<open>
  The record accessors of src/tasks/shuffle/msd_radix_sort.hpp (lines 29 to 74) and what
  a block of a key is. A record in a shuffle buffer is \<open>record_length\<close>, \<open>key_length\<close> (two
  size_type values) and then the bytes of key and value; a record is named by its address.
  \<open>get_block\<close> reads 8 bytes of the key, most significant byte first.

  The lemmas relate block values to keys: within the key (\<open>k \<le> key_length\<close>) a block is the
  value of the zero-padded key bytes, and the order of blocks is the order of those bytes.
  \<open>discriminable\<close> says for which keys the sort never asks for a block past the end of a key.
\<close>

subsection \<open>Record accessors\<close>

text \<open>\<open>bswap(uint64_t)\<close>: the bytes of the value in the opposite order.\<close>

definition bswap64 :: "u64 \<Rightarrow> u64" where
  "bswap64 x = of_nat (be_val (le_bytes 8 (unat x)))"

definition load_u64 :: "mem \<Rightarrow> addr \<Rightarrow> u64" where
  "load_u64 m a = of_nat (load_size m a)"

definition get_record_length :: "mem \<Rightarrow> addr \<Rightarrow> size_type" where
  "get_record_length m ptr = load_size m ptr"

definition get_key_length :: "mem \<Rightarrow> addr \<Rightarrow> size_type" where
  "get_key_length m ptr = load_size m (ptr + 8)"

definition get_key_pointer :: "addr \<Rightarrow> addr" where
  "get_key_pointer ptr = ptr + 8 * 2"

definition get_value_pointer :: "mem \<Rightarrow> addr \<Rightarrow> addr" where
  "get_value_pointer m ptr = ptr + 8 * 2 + get_key_length m ptr"

definition get_block :: "mem \<Rightarrow> addr \<Rightarrow> nat \<Rightarrow> u64" where
  "get_block m ptr k =
     (let key_len = get_key_length m ptr;
          key_ptr = get_key_pointer ptr + k
      in if 8 \<le> sz_sub key_len k
         then bswap64 (load_u64 m key_ptr)
         else fold (\<lambda>i block.
                let block = push_bit 8 block
                in if k + i < key_len then block OR ucast (m (key_ptr + i)) else block)
              [0..<8] 0)"

text \<open>The key of a record and its bytes, zero beyond the end.\<close>

definition key_of :: "mem \<Rightarrow> addr \<Rightarrow> u8 list" where
  "key_of m ptr = load_bytes m (get_key_pointer ptr) (get_key_length m ptr)"

definition pad :: "u8 list \<Rightarrow> nat \<Rightarrow> u8" where
  "pad k i = (if i < length k then k ! i else 0)"

definition padded :: "u8 list \<Rightarrow> nat \<Rightarrow> nat \<Rightarrow> u8 list" where
  "padded k d n = map (\<lambda>i. pad k (d + i)) [0..<n]"

lemma length_key_of [simp]: "length (key_of m p) = get_key_length m p"
  by (simp add: key_of_def)

lemma length_padded [simp]: "length (padded k d n) = n"
  by (simp add: padded_def)

lemma nth_padded [simp]: "i < n \<Longrightarrow> padded k d n ! i = pad k (d + i)"
  by (simp add: padded_def)

subsection \<open>Values of byte lists\<close>

lemma be_val_append: "be_val (xs @ ys) = be_val xs * 256 ^ length ys + be_val ys"
  by (induction xs) (simp_all add: algebra_simps power_add)

lemma be_val_less_iff:
  "length xs = length ys \<Longrightarrow> be_val xs < be_val ys \<longleftrightarrow> xs < ys"
proof (induction xs ys rule: list_induct2)
  case (Cons x xs y ys)
  let ?W = "256 ^ length ys :: nat"
  have bx: "be_val xs < ?W" and byy: "be_val ys < ?W"
    using be_val_bound [of xs] be_val_bound [of ys] Cons.hyps by simp_all
  consider "x < y" | "x = y" | "y < x" by fastforce
  then show ?case
  proof cases
    case 1
    then have "(unat x + 1) * ?W \<le> unat y * ?W"
      by (intro mult_le_mono1) (simp add: word_less_nat_alt)
    with bx have "be_val (x # xs) < be_val (y # ys)"
      using Cons.hyps by (simp add: add_mult_distrib)
    with 1 show ?thesis by simp
  next
    case 2
    with Cons show ?thesis by simp
  next
    case 3
    then have "(unat y + 1) * ?W \<le> unat x * ?W"
      by (intro mult_le_mono1) (simp add: word_less_nat_alt)
    with byy have "\<not> be_val (x # xs) < be_val (y # ys)"
      using Cons.hyps by (simp add: add_mult_distrib)
    moreover have "\<not> x # xs < y # ys" using 3 by auto
    ultimately show ?thesis by blast
  qed
qed simp

lemma be_val_inject: "length xs = length ys \<Longrightarrow> be_val xs = be_val ys \<longleftrightarrow> xs = ys"
  by (metis be_val_less_iff linorder_less_linear order_less_irrefl)

lemma le_bytes_le_val: "le_bytes (length bs) (le_val bs) = bs"
proof (induction bs)
  case (Cons b bs)
  have "(unat b + 256 * le_val bs) div 256 = le_val bs"
    using unat_u8_less [of b] by simp
  moreover have "unat (of_nat (unat b + 256 * le_val bs) :: u8) = unat b"
    unfolding unat_of_nat using unat_u8_less [of b] by simp
  then have "(of_nat (unat b + 256 * le_val bs) :: u8) = b"
    by (rule word_unat_eq_iff [THEN iffD2])
  ultimately show ?case using Cons by simp
qed simp

text \<open>The value a block holds, as a 64-bit word.\<close>

definition block_word :: "u8 list \<Rightarrow> u64" where
  "block_word bs = of_nat (be_val bs)"

lemma unat_block_word: "length bs = 8 \<Longrightarrow> unat (block_word bs) = be_val bs"
  using be_val_bound [of bs] by (simp add: block_word_def unat_of_nat)

lemma unat_ucast_u8: "unat (ucast (b :: u8) :: u64) = unat b"
  using unat_u8_less [of b] by (simp add: unsigned_ucast_eq take_bit_eq_mod)

lemma block_word_less_iff:
  "length xs = 8 \<Longrightarrow> length ys = 8 \<Longrightarrow> block_word xs < block_word ys \<longleftrightarrow> xs < ys"
  by (simp add: word_less_nat_alt unat_block_word be_val_less_iff)

lemma block_word_inject:
  "length xs = 8 \<Longrightarrow> length ys = 8 \<Longrightarrow> block_word xs = block_word ys \<longleftrightarrow> xs = ys"
  by (metis unat_block_word be_val_inject)

lemma push_bit_or_byte: "push_bit 8 (w :: u64) OR ucast (b :: u8) = w * 256 + ucast b"
proof -
  have "push_bit 8 w AND ucast b = 0"
    by (rule bit_eqI) (auto simp: bit_simps dest: bit_imp_le_length)
  then have "push_bit 8 w + ucast b = push_bit 8 w OR ucast b"
    by (rule disjunctive_add_eq_or)
  then show ?thesis by (simp add: push_bit_eq_mult)
qed

lemma bswap64_load: "bswap64 (load_u64 m a) = block_word (load_bytes m a 8)"
proof -
  have "unat (load_u64 m a) = load_size m a"
    using load_size_bound [of m a] by (simp add: load_u64_def unat_of_nat size_modulus_def)
  then have "le_bytes 8 (unat (load_u64 m a)) = load_bytes m a 8"
    using le_bytes_le_val [of "load_bytes m a 8"] by (simp add: load_size_def)
  then show ?thesis by (simp add: bswap64_def block_word_def)
qed

lemma get_key_length_bound: "get_key_length m p < size_modulus"
  by (simp add: get_key_length_def load_size_bound)

lemma nth_key_of: "i < get_key_length m p \<Longrightarrow> key_of m p ! i = m (get_key_pointer p + i)"
  by (simp add: key_of_def)

text \<open>Within the key, a block is the value of the zero-padded key bytes.\<close>

lemma get_block_padded:
  assumes "k \<le> get_key_length m p"
  shows "get_block m p k = block_word (padded (key_of m p) k 8)"
proof (cases "8 \<le> get_key_length m p - k")
  case True
  have "load_bytes m (get_key_pointer p + k) 8 = padded (key_of m p) k 8"
    using True assms by (intro nth_equalityI) (auto simp: padded_def pad_def nth_key_of add.assoc)
  with True assms show ?thesis
    by (simp add: get_block_def sz_sub_exact get_key_length_bound bswap64_load)
next
  case False
  let ?f = "\<lambda>i block. let block = push_bit 8 block in
     if k + i < get_key_length m p then block OR ucast (m (get_key_pointer p + k + i)) else block"
  have "fold ?f [0..<8] 0 = block_word (padded (key_of m p) k 8)"
  proof (rule fold_upt_invariant [where P = "\<lambda>i b. b = block_word (padded (key_of m p) k i)"])
    show "0 = block_word (padded (key_of m p) k 0)"
      by (simp add: padded_def block_word_def)
  next
    fix i and b :: u64
    assume "b = block_word (padded (key_of m p) k i)"
    moreover have "padded (key_of m p) k (Suc i) = padded (key_of m p) k i @ [pad (key_of m p) (k + i)]"
      by (simp add: padded_def)
    moreover have "ucast x = (of_nat (unat x) :: u64)" for x :: u8
      by simp
    ultimately show "?f i b = block_word (padded (key_of m p) k (Suc i))"
      unfolding Let_def push_bit_or_byte
      by (simp add: block_word_def be_val_append pad_def nth_key_of add.assoc push_bit_eq_mult)
  qed
  with False assms show ?thesis
    by (simp add: get_block_def sz_sub_exact get_key_length_bound)
qed

text \<open>The byte the bucket pass of the sort distributes by.\<close>

lemma block_word_byte:
  assumes "length bs = 8" "j < 8"
  shows "drop_bit ((7 - j) * 8) (block_word bs) AND 255 = ucast (bs ! j)"
proof -
  let ?k = "(7 - j) * 8"
  have split: "bs = take j bs @ bs ! j # drop (Suc j) bs"
    using assms by (simp add: id_take_nth_drop)
  have len: "length (drop (Suc j) bs) = 7 - j" using assms by simp
  have pow: "(2::nat) ^ ?k = 256 ^ (7 - j)"
    by (simp add: power_mult mult.commute [of _ 8])
  have "be_val bs = (be_val (take j bs) * 256 + unat (bs ! j)) * 256 ^ (7 - j) + be_val (drop (Suc j) bs)"
    by (subst split) (simp add: be_val_append len algebra_simps del: length_drop)
  moreover have "be_val (drop (Suc j) bs) < 256 ^ (7 - j)"
    using be_val_bound [of "drop (Suc j) bs"] len by simp
  ultimately have "be_val bs div 2 ^ ?k = be_val (take j bs) * 256 + unat (bs ! j)"
    unfolding pow by simp
  then have "be_val bs div 2 ^ ?k mod 256 = unat (bs ! j)"
    using unat_u8_less [of "bs ! j"] by simp
  moreover have "unat (drop_bit ?k (block_word bs)) = be_val bs div 2 ^ ?k"
    by (simp add: unat_drop_bit_eq unat_block_word assms(1) drop_bit_eq_div [where 'a = nat])
  moreover have "drop_bit ?k (block_word bs) AND 255 = take_bit 8 (drop_bit ?k (block_word bs))"
    by (simp only: take_bit_eq_mask) (simp add: mask_eq_exp_minus_1)
  moreover have "unat (take_bit 8 w) = unat w mod 256" for w :: u64
    by (simp add: unsigned_take_bit_eq take_bit_eq_mod [where 'a = nat])
  ultimately have "unat (drop_bit ?k (block_word bs) AND 255) = unat (ucast (bs ! j) :: u64)"
    by (simp only: unat_ucast_u8)
  then show ?thesis by (rule word_unat_eq_iff [THEN iffD2])
qed

subsection \<open>Keys the blocks tell apart\<close>

text \<open>
  \<open>agree d\<close>: equal up to position \<open>d\<close> of the zero-padded keys. Two keys are \<open>discriminable\<close>
  when they are equal or their first difference lies in a block that starts within both keys.
\<close>

definition agree :: "nat \<Rightarrow> u8 list \<Rightarrow> u8 list \<Rightarrow> bool" where
  "agree d k1 k2 \<longleftrightarrow> (\<forall>i<d. pad k1 i = pad k2 i)"

definition discriminable :: "u8 list \<Rightarrow> u8 list \<Rightarrow> bool" where
  "discriminable k1 k2 \<longleftrightarrow>
     k1 = k2 \<or>
     (\<exists>i<max (length k1) (length k2).
        agree i k1 k2 \<and> pad k1 i \<noteq> pad k2 i \<and>
        8 * (i div 8) \<le> length k1 \<and> 8 * (i div 8) \<le> length k2)"

lemma agree_0 [simp]: "agree 0 k1 k2"
  by (simp add: agree_def)

lemma agree_sym: "agree d k1 k2 \<Longrightarrow> agree d k2 k1"
  by (simp add: agree_def)

lemma agree_mono: "agree d k1 k2 \<Longrightarrow> e \<le> d \<Longrightarrow> agree e k1 k2"
  by (simp add: agree_def)

lemma agree_extend: "agree d k1 k2 \<Longrightarrow> padded k1 d n = padded k2 d n \<Longrightarrow> agree (d + n) k1 k2"
proof -
  assume a: "agree d k1 k2" "padded k1 d n = padded k2 d n"
  have "pad k1 i = pad k2 i" if "i < d + n" for i
  proof (cases "i < d")
    case False
    with that have "i - d < n" "d + (i - d) = i" by simp_all
    with a show ?thesis by (metis nth_padded)
  qed (use a in \<open>simp add: agree_def\<close>)
  then show ?thesis by (simp add: agree_def)
qed

lemma agree_Suc: "agree (Suc d) k1 k2 \<longleftrightarrow> agree d k1 k2 \<and> pad k1 d = pad k2 d"
  by (auto simp: agree_def less_Suc_eq)

lemma agree_padded: "agree e k1 k2 \<Longrightarrow> d + n \<le> e \<Longrightarrow> padded k1 d n = padded k2 d n"
  by (simp add: agree_def padded_def)

lemma less_lists_first_diff:
  "length xs = length ys \<Longrightarrow> xs < ys \<Longrightarrow>
     \<exists>i<length xs. take i xs = take i ys \<and> xs ! i < (ys ! i :: 'a::order)"
  by (auto simp: list_less_def lexord_take_index_conv)

lemma pad_first_diff_less:
  assumes "agree i k1 k2" "pad k1 i < pad k2 i"
  shows "k1 < k2"
proof -
  have i2: "i < length k2"
    using assms(2) by (auto simp: pad_def split: if_splits)
  have same: "k1 ! j = k2 ! j" if "j < i" "j < length k1" for j
    using assms(1) that i2 by (auto simp: agree_def pad_def split: if_splits)
  show ?thesis
  proof (cases "i < length k1")
    case True
    then have "take i k1 = take i k2"
      using i2 same by (intro nth_equalityI) auto
    with True i2 assms(2) show ?thesis
      by (auto simp: list_less_def lexord_take_index_conv pad_def)
  next
    case False
    then have "take (length k1) k2 = k1"
      using i2 same by (intro nth_equalityI) auto
    with False i2 show ?thesis
      by (auto simp: list_less_def lexord_take_index_conv)
  qed
qed

lemma padded_less_imp_less:
  assumes "agree d k1 k2" "padded k1 d n < padded k2 d n"
  shows "k1 < k2"
proof -
  obtain i where i: "i < n" "take i (padded k1 d n) = take i (padded k2 d n)"
    "padded k1 d n ! i < padded k2 d n ! i"
    using less_lists_first_diff [OF _ assms(2)] by auto
  have "padded k1 d i = padded k2 d i"
    using i(1,2) by (simp add: padded_def take_map)
  with assms(1) have "agree (d + i) k1 k2" by (rule agree_extend)
  moreover have "pad k1 (d + i) < pad k2 (d + i)"
    using i(1,3) by (simp add: padded_def)
  ultimately show ?thesis by (rule pad_first_diff_less)
qed

lemma discriminable_sym: "discriminable k1 k2 \<Longrightarrow> discriminable k2 k1"
  by (metis agree_sym discriminable_def max.commute)

lemma discriminable_block_start:
  assumes "discriminable k1 k2" "k1 \<noteq> k2" "agree (8 * M) k1 k2"
  shows "8 * M \<le> length k1" and "8 * M \<le> length k2"
proof -
  obtain i where i: "agree i k1 k2" "pad k1 i \<noteq> pad k2 i"
    "8 * (i div 8) \<le> length k1" "8 * (i div 8) \<le> length k2"
    using assms(1,2) by (auto simp: discriminable_def)
  have "8 * M \<le> i" using assms(3) i(2) by (meson agree_def not_le)
  then have "8 * M \<le> 8 * (i div 8)" using div_le_mono [of "8 * M" i 8] by simp
  with i show "8 * M \<le> length k1" "8 * M \<le> length k2" by linarith+
qed

lemma discriminable_agree_eq:
  assumes "discriminable k1 k2" "agree d k1 k2" "length k1 \<le> d" "length k2 \<le> d"
  shows "k1 = k2"
  using assms unfolding discriminable_def agree_def by (metis max.bounded_iff less_le_trans)

lemma discriminableI:
  assumes "agree i k1 k2" "pad k1 i \<noteq> pad k2 i" "i \<le> length k1" "i \<le> length k2"
  shows "discriminable k1 k2"
proof -
  have "i < max (length k1) (length k2)"
    using assms(2) by (auto simp: pad_def less_max_iff_disj split: if_splits)
  moreover have "8 * (i div 8) \<le> i" by simp
  then have "8 * (i div 8) \<le> length k1" "8 * (i div 8) \<le> length k2"
    using assms(3,4) by linarith+
  ultimately show ?thesis
    using assms(1,2) unfolding discriminable_def by blast
qed

lemma first_difference:
  assumes "pad k1 j \<noteq> pad k2 j"
  shows "\<exists>i\<le>j. agree i k1 k2 \<and> pad k1 i \<noteq> pad k2 i"
proof -
  let ?P = "\<lambda>i. pad k1 i \<noteq> pad k2 i"
  have "?P (Least ?P)" "Least ?P \<le> j"
    using LeastI [of ?P, OF assms] Least_le [of ?P, OF assms] by blast+
  moreover have "agree (Least ?P) k1 k2"
    unfolding agree_def by (blast dest: not_less_Least)
  ultimately show ?thesis by blast
qed

lemma discriminable_same_length:
  assumes "length k1 = length k2"
  shows "discriminable k1 k2"
proof (cases "k1 = k2")
  case False
  then obtain j where j: "j < length k1" "k1 ! j \<noteq> k2 ! j"
    using assms nth_equalityI by blast
  then have "pad k1 j \<noteq> pad k2 j" using assms by (simp add: pad_def)
  then obtain i where "i \<le> j" "agree i k1 k2" "pad k1 i \<noteq> pad k2 i"
    using first_difference by blast
  with j(1) assms show ?thesis by (intro discriminableI [of i]) simp_all
qed (simp add: discriminable_def)

lemma pad_zero_free: "0 \<notin> set k \<Longrightarrow> pad k i = 0 \<longleftrightarrow> length k \<le> i"
  by (auto simp: pad_def dest: nth_mem)

lemma zero_free_difference_le:
  assumes "0 \<notin> set k2" "agree i k1 k2" "pad k1 i \<noteq> pad k2 i"
  shows "i \<le> length k1"
proof (rule ccontr)
  assume n: "\<not> i \<le> length k1"
  then have "pad k1 (length k1) = pad k2 (length k1)"
    using assms(2) by (simp add: agree_def)
  then have "length k2 \<le> length k1"
    using assms(1) by (metis pad_def less_irrefl pad_zero_free)
  with n assms(3) show False by (simp add: pad_def)
qed

lemma discriminable_zero_free:
  assumes "0 \<notin> set k1" "0 \<notin> set k2"
  shows "discriminable k1 k2"
proof (cases "\<exists>j. pad k1 j \<noteq> pad k2 j")
  case True
  then obtain i where i: "agree i k1 k2" "pad k1 i \<noteq> pad k2 i"
    using first_difference by blast
  have "i \<le> length k1"
    using assms(2) i by (rule zero_free_difference_le)
  moreover have "i \<le> length k2"
    using assms(1) agree_sym [OF i(1)] i(2) [symmetric] by (rule zero_free_difference_le)
  ultimately show ?thesis using i by (intro discriminableI)
next
  case False
  then have "length k1 \<le> i \<longleftrightarrow> length k2 \<le> i" for i
    using pad_zero_free [OF assms(1)] pad_zero_free [OF assms(2)] by metis
  then have "length k1 = length k2" by (meson le_antisym order_refl)
  then show ?thesis by (rule discriminable_same_length)
qed

subsection \<open>Keys without their trailing zero bytes\<close>

text \<open>
  Blocks do not show how many zero bytes a key ends in. \<open>strip_zeros\<close> is what is left of a key without
  them; \<open>block_comparable\<close> says that a key which agrees with another one up to a block start is not over
  before that block when the other one goes on, so that the block is never read behind a key.
\<close>

definition strip_zeros :: "u8 list \<Rightarrow> u8 list" where
  "strip_zeros k = rev (dropWhile (\<lambda>x. x = 0) (rev k))"

definition block_comparable :: "u8 list \<Rightarrow> u8 list \<Rightarrow> bool" where
  "block_comparable k1 k2 \<longleftrightarrow> (\<forall>d<length k1. d mod 8 = 0 \<and> agree d k1 k2 \<longrightarrow> d \<le> length k2)"

lemma pad_snoc_zero: "pad (k @ [0]) i = pad k i"
  by (auto simp: pad_def nth_append)

lemma strip_zeros_snoc: "strip_zeros (k @ [x]) = (if x = 0 then strip_zeros k else k @ [x])"
  by (simp add: strip_zeros_def)

lemma pad_strip_zeros [simp]: "pad (strip_zeros k) i = pad k i"
proof (induction k rule: rev_induct)
  case (snoc x k)
  then show ?case by (simp add: strip_zeros_snoc pad_snoc_zero)
qed (simp add: strip_zeros_def)

lemma agree_strip_zeros [simp]: "agree d (strip_zeros k1) (strip_zeros k2) \<longleftrightarrow> agree d k1 k2"
  by (simp add: agree_def)

lemma padded_strip_zeros [simp]: "padded (strip_zeros k) d n = padded k d n"
  by (simp add: padded_def)

lemma strip_zeros_last: "strip_zeros k \<noteq> [] \<Longrightarrow> last (strip_zeros k) \<noteq> 0"
  by (induction k rule: rev_induct) (auto simp: strip_zeros_snoc strip_zeros_def)

lemma strip_zeros_length:
  assumes "\<And>i. pad k1 i = pad k2 i"
  shows "length (strip_zeros k1) \<le> length (strip_zeros k2)"
proof (rule ccontr)
  let ?a = "strip_zeros k1" and ?b = "strip_zeros k2"
  assume "\<not> length ?a \<le> length ?b"
  then have n: "?a \<noteq> []" "length ?b \<le> length ?a - 1" by auto
  then have "last ?a = pad ?a (length ?a - 1)" by (simp add: pad_def last_conv_nth)
  also have "\<dots> = pad ?b (length ?a - 1)" using assms by simp
  also have "\<dots> = 0" using n(2) by (simp add: pad_def)
  finally show False using strip_zeros_last [OF n(1)] by simp
qed

lemma strip_zeros_eq_iff: "strip_zeros k1 = strip_zeros k2 \<longleftrightarrow> (\<forall>i. pad k1 i = pad k2 i)"
proof
  assume "strip_zeros k1 = strip_zeros k2"
  then show "\<forall>i. pad k1 i = pad k2 i" by (metis pad_strip_zeros)
next
  assume p: "\<forall>i. pad k1 i = pad k2 i"
  then have len: "length (strip_zeros k1) = length (strip_zeros k2)"
    by (intro le_antisym strip_zeros_length) simp_all
  show "strip_zeros k1 = strip_zeros k2"
  proof (rule nth_equalityI [OF len])
    fix i assume i: "i < length (strip_zeros k1)"
    then have "strip_zeros k1 ! i = pad (strip_zeros k1) i" "strip_zeros k2 ! i = pad (strip_zeros k2) i"
      using len by (simp_all add: pad_def)
    then show "strip_zeros k1 ! i = strip_zeros k2 ! i" using p by simp
  qed
qed

lemma agree_strip_zeros_eq:
  assumes "agree d k1 k2" "length k1 \<le> d" "length k2 \<le> d"
  shows "strip_zeros k1 = strip_zeros k2"
  unfolding strip_zeros_eq_iff
proof
  fix i show "pad k1 i = pad k2 i"
    using assms by (cases "i < d") (auto simp: agree_def pad_def)
qed

text \<open>Discriminable keys can be compared by blocks, and stripping changes neither their order nor equality.\<close>

lemma discriminable_block_comparable: "discriminable k1 k2 \<Longrightarrow> block_comparable k1 k2"
  unfolding block_comparable_def
proof (intro allI impI)
  fix d assume k: "discriminable k1 k2" and d: "d < length k1" "d mod 8 = 0 \<and> agree d k1 k2"
  from d(2) have "d mod 8 = 0" by simp
  then have "8 * (d div 8) = d" by presburger
  with k d show "d \<le> length k2"
    using discriminable_block_start(2) [of k1 k2 "d div 8"] by (cases "k1 = k2") auto
qed

lemma strip_zeros_eq_discriminable: "discriminable k1 k2 \<Longrightarrow> strip_zeros k1 = strip_zeros k2 \<longleftrightarrow> k1 = k2"
  unfolding strip_zeros_eq_iff discriminable_def by blast

lemma strip_zeros_le_discriminable:
  assumes "discriminable k1 k2" "strip_zeros k1 \<le> strip_zeros k2"
  shows "k1 \<le> k2"
proof (cases "k1 = k2")
  case False
  with assms(1) obtain i where i: "agree i k1 k2" "pad k1 i \<noteq> pad k2 i" by (auto simp: discriminable_def)
  have "\<not> pad k2 i < pad k1 i"
    using pad_first_diff_less [of i "strip_zeros k2" "strip_zeros k1"] agree_sym [OF i(1)] assms(2) by auto
  with i have "k1 < k2" by (intro pad_first_diff_less [of i]) auto
  then show ?thesis by simp
qed simp

lemma short_keys_block_comparable: "length k1 \<le> 8 \<Longrightarrow> block_comparable k1 k2"
  by (auto simp: block_comparable_def)

lemma first_byte_block_comparable: "pad k1 0 \<noteq> pad k2 0 \<Longrightarrow> block_comparable k1 k2"
  unfolding block_comparable_def agree_def using neq0_conv by blast

end
