(* ===== verification/QuickSort.thy ===== *)
theory QuickSort
  imports Prelude
begin

text \<open>
  \<open>median\<close> and \<open>quick_sort\<close> of src/tasks/shuffle/msd_radix_sort.hpp (lines 70 to 105). The two
  arrays \<open>cache\<close> and \<open>pointers\<close> are lists; a recursive call on a part of them works on that
  segment and its result is written back. A read outside the array, which the two inner scan
  loops of the source do not check for, is \<open>None\<close>; the lemmas show that the pivot is a
  sentinel for both scans, so the function always returns, with the cache sorted and the
  pointers moved along.
\<close>

definition median :: "u64 \<Rightarrow> u64 \<Rightarrow> u64 \<Rightarrow> u64" where
  "median a b c = a + b + c - min (min a b) c - max (max a b) c"

function scan_up :: "u64 list \<Rightarrow> u64 \<Rightarrow> nat \<Rightarrow> nat option" where
  "scan_up cache pivot l =
     (if l < length cache
      then (if cache ! l < pivot then scan_up cache pivot (l + 1) else Some l)
      else None)"
  by pat_completeness auto
termination
  by (relation "measure (\<lambda>(cache, pivot, l). length cache - l)") auto

fun scan_down :: "u64 list \<Rightarrow> u64 \<Rightarrow> nat \<Rightarrow> nat option" where
  "scan_down cache pivot r =
     (if r < length cache
      then (if pivot < cache ! r
            then (if r = 0 then None else scan_down cache pivot (r - 1))
            else Some r)
      else None)"

declare scan_up.simps [simp del] scan_down.simps [simp del]

lemma scan_up_Some:
  "scan_up c v l = Some l' \<Longrightarrow>
     l \<le> l' \<and> l' < length c \<and> v \<le> c ! l' \<and> (\<forall>i. l \<le> i \<and> i < l' \<longrightarrow> c ! i < v)"
proof (induction c v l rule: scan_up.induct)
  case (1 c v l)
  then show ?case
    by (subst (asm) (2) scan_up.simps)
      (auto split: if_splits simp: not_less, metis le_neq_implies_less less_eq_Suc_le)
qed

lemma scan_up_stops: "l \<le> i \<Longrightarrow> i < length c \<Longrightarrow> v \<le> c ! i \<Longrightarrow> \<exists>l'. scan_up c v l = Some l'"
proof (induction c v l rule: scan_up.induct)
  case (1 c v l)
  show ?case
  proof (cases "c ! l < v")
    case True
    with "1.prems" have "l \<noteq> i" by auto
    with "1.prems" "1.IH" True have "\<exists>l'. scan_up c v (l + 1) = Some l'" by simp
    with "1.prems" True show ?thesis by (subst scan_up.simps) simp
  next
    case False
    with "1.prems" show ?thesis by (subst scan_up.simps) simp
  qed
qed

lemma scan_down_Some:
  "scan_down c v r = Some r' \<Longrightarrow>
     r' \<le> r \<and> r < length c \<and> c ! r' \<le> v \<and> (\<forall>i. r' < i \<and> i \<le> r \<longrightarrow> v < c ! i)"
proof (induction c v r rule: scan_down.induct)
  case (1 c v r)
  show ?case
  proof (cases "v < c ! r")
    case True
    with "1.prems" have r: "r < length c" "0 < r" "scan_down c v (r - 1) = Some r'"
      by (subst (asm) scan_down.simps, auto split: if_splits)+
    with "1.IH" True have IH: "r' \<le> r - 1" "c ! r' \<le> v" "\<forall>i. r' < i \<and> i \<le> r - 1 \<longrightarrow> v < c ! i"
      by auto
    have "v < c ! i" if "r' < i" "i \<le> r" for i
      using IH(3) True that by (cases "i = r") auto
    with IH r show ?thesis by auto
  next
    case False
    with "1.prems" show ?thesis
      by (subst (asm) scan_down.simps) (auto split: if_splits)
  qed
qed

lemma scan_down_stops: "i \<le> r \<Longrightarrow> r < length c \<Longrightarrow> c ! i \<le> v \<Longrightarrow> \<exists>r'. scan_down c v r = Some r'"
proof (induction c v r rule: scan_down.induct)
  case (1 c v r)
  show ?case
  proof (cases "v < c ! r")
    case True
    with "1.prems" have "i \<noteq> r" by auto
    with "1.prems" "1.IH" True have "\<exists>r'. scan_down c v (r - 1) = Some r'" "r \<noteq> 0" by auto
    with "1.prems" True show ?thesis by (subst scan_down.simps) simp
  next
    case False
    with "1.prems" show ?thesis by (subst scan_down.simps) simp
  qed
qed

text \<open>The \<open>while(true)\<close> loop: the final \<open>l\<close>, \<open>r\<close> and the arrays.\<close>

function partition_loop ::
  "u64 list \<Rightarrow> addr list \<Rightarrow> u64 \<Rightarrow> nat \<Rightarrow> nat \<Rightarrow> (nat \<times> nat \<times> u64 list \<times> addr list) option" where
  "partition_loop cache pointers pivot l r =
     (case scan_up cache pivot l of
        None \<Rightarrow> None
      | Some l' \<Rightarrow>
          (case scan_down cache pivot r of
             None \<Rightarrow> None
           | Some r' \<Rightarrow>
               (if r' \<le> l' then Some (l', r', cache, pointers)
                else partition_loop (swap_elems l' r' cache) (swap_elems l' r' pointers) pivot
                       (l' + 1) (r' - 1))))"
  by pat_completeness auto
termination
  by (relation "measure (\<lambda>(cache, pointers, pivot, l, r). length cache - l)")
    (auto dest!: scan_up_Some)

declare partition_loop.simps [simp del]

lemma partition_loop_shape:
  "partition_loop c p v l r = Some (l', r', c', p') \<Longrightarrow>
     l' < length c \<and> length c' = length c \<and> length p' = length p"
proof (induction c p v l r rule: partition_loop.induct)
  case (1 c p v l r)
  from "1.prems" obtain la ra where up: "scan_up c v l = Some la" and down: "scan_down c v r = Some ra"
    by (subst (asm) partition_loop.simps) (auto split: option.splits)
  show ?case
  proof (cases "ra \<le> la")
    case True
    with "1.prems" up down scan_up_Some [OF up] show ?thesis
      by (subst (asm) partition_loop.simps) simp
  next
    case False
    with "1.prems" up down
    have "partition_loop (swap_elems la ra c) (swap_elems la ra p) v (la + 1) (ra - 1) = Some (l', r', c', p')"
      by (subst (asm) partition_loop.simps) simp
    with "1.IH" [OF up down False] show ?thesis by simp
  qed
qed

function quick_sort :: "u64 list \<Rightarrow> addr list \<Rightarrow> (u64 list \<times> addr list) option" where
  "quick_sort cache pointers =
     (let n = length cache in
      if n \<le> 1 then Some (cache, pointers)
      else if n = 2 then
        Some (if cache ! 1 < cache ! 0
              then (swap_elems 0 1 cache, swap_elems 0 1 pointers)
              else (cache, pointers))
      else
        (case partition_loop cache pointers
                (median (cache ! 0) (cache ! (n div 2)) (cache ! (n - 1))) 0 (n - 1) of
           None \<Rightarrow> None
         | Some (l, r, cache1, pointers1) \<Rightarrow>
             (case quick_sort (take l cache1) (take l pointers1) of
                None \<Rightarrow> None
              | Some (cl, pl) \<Rightarrow>
                  let cache2 = splice_at 0 cl cache1; pointers2 = splice_at 0 pl pointers1 in
                  (case quick_sort (drop (r + 1) cache2) (drop (r + 1) pointers2) of
                     None \<Rightarrow> None
                   | Some (cr, pr) \<Rightarrow>
                       Some (splice_at (r + 1) cr cache2, splice_at (r + 1) pr pointers2)))))"
  by pat_completeness auto
termination
  by (relation "measure (\<lambda>(cache, pointers). length cache)")
    (auto dest!: partition_loop_shape)

declare quick_sort.simps [simp del]

text \<open>
  What the partition loop keeps: everything left of \<open>l\<close> is at most the pivot, everything right
  of \<open>r\<close> at least, and each scan still has an element to stop at.
\<close>

definition partition_inv :: "u64 list \<Rightarrow> u64 \<Rightarrow> nat \<Rightarrow> nat \<Rightarrow> bool" where
  "partition_inv c v l r \<longleftrightarrow>
     l \<le> r + 1 \<and> r < length c \<and>
     (\<forall>i<l. c ! i \<le> v) \<and> (\<forall>i. r < i \<and> i < length c \<longrightarrow> v \<le> c ! i) \<and>
     (\<exists>i\<ge>l. i < length c \<and> v \<le> c ! i) \<and> (\<exists>i\<le>r. c ! i \<le> v)"

lemma partition_loop_correct:
  assumes "partition_inv c v l r" "length p = length c"
  shows "\<exists>l' r' c' p'. partition_loop c p v l r = Some (l', r', c', p') \<and>
     mset (zip c' p') = mset (zip c p) \<and>
     l' \<le> r' + 1 \<and> r' \<le> l' \<and> r' < length c \<and>
     (\<forall>i<l'. c' ! i \<le> v) \<and> (\<forall>i. r' < i \<and> i < length c \<longrightarrow> v \<le> c' ! i) \<and>
     (l' = r' \<longrightarrow> c' ! l' = v)"
  using assms
proof (induction c p v l r rule: partition_loop.induct)
  case (1 c p v l r)
  from "1.prems"(1) obtain l' where l': "scan_up c v l = Some l'"
    unfolding partition_inv_def using scan_up_stops by blast
  from "1.prems"(1) obtain r' where r': "scan_down c v r = Some r'"
    unfolding partition_inv_def using scan_down_stops by blast
  have L: "l \<le> l'" "l' < length c" "v \<le> c ! l'" "\<forall>i. l \<le> i \<and> i < l' \<longrightarrow> c ! i < v"
    using scan_up_Some [OF l'] by auto
  have R: "r' \<le> r" "r < length c" "c ! r' \<le> v" "\<forall>i. r' < i \<and> i \<le> r \<longrightarrow> v < c ! i"
    using scan_down_Some [OF r'] by auto
  have low: "\<forall>i<l'. c ! i \<le> v"
    using "1.prems"(1) L(4) by (metis partition_inv_def not_less order_less_imp_le)
  have high: "\<forall>i. r' < i \<and> i < length c \<longrightarrow> v \<le> c ! i"
    using "1.prems"(1) R(4) by (metis partition_inv_def not_less order_less_imp_le)
  have close: "l' \<le> r' + 1"
  proof (rule ccontr)
    assume far: "\<not> l' \<le> r' + 1"
    then have "r' < l' - 1" "l' - 1 < l'" by simp_all
    show False
    proof (cases "l' - 1 \<le> r")
      case True
      with far R(4) have "v < c ! (l' - 1)" by simp
      with low far show False by (simp add: leD)
    next
      case False
      with "1.prems"(1) far have "l \<le> l' - 1" "v \<le> c ! (l' - 1)" "l' - 1 < l'"
        using L(2) by (auto simp: partition_inv_def)
      with L(4) have "c ! (l' - 1) < v" by blast
      with \<open>v \<le> c ! (l' - 1)\<close> show False by simp
    qed
  qed
  show ?case
  proof (cases "r' \<le> l'")
    case True
    have "partition_loop c p v l r = Some (l', r', c, p)"
      using l' r' True by (subst partition_loop.simps) simp
    moreover have "l' = r' \<longrightarrow> c ! l' = v" using L(3) R(3) by auto
    moreover have "r' < length c" using R by simp
    ultimately show ?thesis using low high close True by blast
  next
    case False
    let ?c = "swap_elems l' r' c" and ?p = "swap_elems l' r' p"
    have lr: "l' < r'" "r' < length c" using False R by simp_all
    have nth: "?c ! k = (if k = r' then c ! l' else if k = l' then c ! r' else c ! k)" for k
      using lr by (simp add: nth_swap_elems)
    have inv: "partition_inv ?c v (l' + 1) (r' - 1)"
      unfolding partition_inv_def
    proof (intro conjI)
      show "\<exists>i\<ge>l' + 1. i < length ?c \<and> v \<le> ?c ! i"
        using lr L(3) by (intro exI [of _ r']) (simp add: nth)
      show "\<exists>i\<le>r' - 1. ?c ! i \<le> v"
        using lr R(3) by (intro exI [of _ l']) (simp add: nth)
      show "\<forall>i<l' + 1. ?c ! i \<le> v"
        using low R(3) lr by (auto simp: nth less_Suc_eq)
      show "\<forall>i. r' - 1 < i \<and> i < length ?c \<longrightarrow> v \<le> ?c ! i"
        using high L(3) lr by (auto simp: nth)
    qed (use lr in auto)
    have loop: "partition_loop c p v l r = partition_loop ?c ?p v (l' + 1) (r' - 1)"
      using l' r' False by (subst partition_loop.simps) simp
    have perm: "mset (zip ?c ?p) = mset (zip c p)"
      using lr "1.prems"(2) by (simp add: mset_zip_swap_elems)
    have "\<exists>l2 r2 c' p'. partition_loop ?c ?p v (l' + 1) (r' - 1) = Some (l2, r2, c', p') \<and>
        mset (zip c' p') = mset (zip ?c ?p) \<and> l2 \<le> r2 + 1 \<and> r2 \<le> l2 \<and> r2 < length ?c \<and>
        (\<forall>i<l2. c' ! i \<le> v) \<and> (\<forall>i. r2 < i \<and> i < length ?c \<longrightarrow> v \<le> c' ! i) \<and>
        (l2 = r2 \<longrightarrow> c' ! l2 = v)"
      using "1.prems"(2) by (intro "1.IH" [OF l' r' False inv]) simp
    then show ?thesis unfolding loop perm by simp
  qed
qed

lemma median_cases: "median a b c \<in> {a, b, c}"
  by (auto simp: median_def min_def max_def algebra_simps)

lemma partition_inv_start:
  assumes "3 \<le> length c"
  shows "partition_inv c (median (c ! 0) (c ! (length c div 2)) (c ! (length c - 1))) 0 (length c - 1)"
proof -
  obtain i where "i < length c" "c ! i = median (c ! 0) (c ! (length c div 2)) (c ! (length c - 1))"
  proof -
    have "0 < length c" "length c div 2 < length c" "length c - 1 < length c"
      using assms by auto
    with that show ?thesis
      using median_cases [of "c ! 0" "c ! (length c div 2)" "c ! (length c - 1)"]
      by (metis insertE singletonD)
  qed
  then have "\<exists>i\<ge>0. i < length c \<and> median (c ! 0) (c ! (length c div 2)) (c ! (length c - 1)) \<le> c ! i"
    "\<exists>i\<le>length c - 1. c ! i \<le> median (c ! 0) (c ! (length c div 2)) (c ! (length c - 1))"
    by (metis le0 order_refl, metis One_nat_def Suc_pred' less_Suc_eq_le order_refl gr_implies_not0
        neq0_conv)
  with assms show ?thesis by (auto simp: partition_inv_def)
qed

text \<open>
  What \<open>quick_sort\<close> leaves: sorted cache, and (cache, pointer) pairs that are a permutation of
  the given ones.
\<close>

definition sorts :: "u64 list \<Rightarrow> addr list \<Rightarrow> u64 list \<Rightarrow> addr list \<Rightarrow> bool" where
  "sorts c p c' p' \<longleftrightarrow>
     length c' = length c \<and> length p' = length p \<and> sorted c' \<and> mset (zip c' p') = mset (zip c p)"

lemma mset_of_zip: "length xs = length ys \<Longrightarrow> mset xs = image_mset fst (mset (zip xs ys))"
  by (metis map_fst_zip mset_map)

lemma mset_zip_fst:
  assumes "mset (zip c p) = mset (zip c' p')" "length c = length p" "length c' = length p'"
  shows "mset c = mset c'"
  using assms by (metis mset_of_zip)

lemma sorts_two: "length c = 2 \<Longrightarrow> length p = 2 \<Longrightarrow>
    sorts c p (if c ! 1 < c ! 0 then swap_elems 0 1 c else c) (if c ! 1 < c ! 0 then swap_elems 0 1 p else p)"
  by (auto simp: sorts_def swap_elems_def length_Suc_conv numeral_2_eq_2)

lemma sorts_combine:
  assumes len: "length p = length c" "length p1 = length c" "length c1 = length c"
    and perm: "mset (zip c1 p1) = mset (zip c p)"
    and lr: "l \<le> r + 1" "r \<le> l" "r < length c"
    and low: "\<forall>i<l. c1 ! i \<le> v" and high: "\<forall>i. r < i \<and> i < length c \<longrightarrow> v \<le> c1 ! i"
    and mid: "l = r \<longrightarrow> c1 ! l = v"
    and left: "sorts (take l c1) (take l p1) cl pl"
    and right: "sorts (drop (r + 1) c1) (drop (r + 1) p1) cr pr"
  shows "sorts c p (cl @ segment l (r + 1) c1 @ cr) (pl @ segment l (r + 1) p1 @ pr)"
proof -
  have ll: "length cl = l" "length pl = l" using left len lr by (auto simp: sorts_def)
  have lc: "length cr = length c - (r + 1)" "length pr = length c - (r + 1)"
    using right len by (auto simp: sorts_def)
  have "mset cl = mset (take l c1)"
    using left ll len lr by (intro mset_zip_fst [of cl pl]) (auto simp: sorts_def)
  then have "set cl = set (take l c1)" by (rule mset_eq_setD)
  then have cl: "\<forall>x\<in>set cl. x \<le> v"
    using low by (auto simp: in_set_conv_nth)
  have "mset cr = mset (drop (r + 1) c1)"
    using right lc len by (intro mset_zip_fst [of cr pr]) (auto simp: sorts_def)
  then have "set cr = set (drop (r + 1) c1)" by (rule mset_eq_setD)
  then have cr: "\<forall>x\<in>set cr. v \<le> x"
    using high len by (auto simp: in_set_conv_nth)
  have "l = r \<or> l = r + 1" using lr by linarith
  then have midl: "segment l (r + 1) c1 = (if l = r then [v] else [])"
    using lr len mid by (auto simp: segment_def take_Suc hd_drop_conv_nth)
  have "sorted (cl @ segment l (r + 1) c1 @ cr)"
    using left right cl cr unfolding midl sorts_def by (auto simp: sorted_append intro: order_trans)
  moreover have "mset (zip (cl @ segment l (r + 1) c1 @ cr) (pl @ segment l (r + 1) p1 @ pr)) = mset (zip c p)"
  proof -
    have "zip c1 p1 = take l (zip c1 p1) @ segment l (r + 1) (zip c1 p1) @ drop (r + 1) (zip c1 p1)"
      using lr(1) by (metis append_assoc append_take_drop_id take_segment)
    then have "mset (zip c1 p1) =
        mset (take l (zip c1 p1)) + (mset (segment l (r + 1) (zip c1 p1)) + mset (drop (r + 1) (zip c1 p1)))"
      by (metis mset_append)
    moreover have "mset (take l (zip c1 p1)) = mset (zip cl pl)"
      "mset (drop (r + 1) (zip c1 p1)) = mset (zip cr pr)"
      using left right by (simp_all add: sorts_def take_zip drop_zip)
    ultimately have "mset (zip c1 p1) = mset (zip cl pl) + mset (segment l (r + 1) (zip c1 p1)) + mset (zip cr pr)"
      by simp
    moreover have "segment l (r + 1) (zip c1 p1) = zip (segment l (r + 1) c1) (segment l (r + 1) p1)"
      by (simp add: segment_def drop_zip take_zip)
    moreover have "length (segment l (r + 1) c1) = length (segment l (r + 1) p1)"
      using len by (simp add: segment_def)
    ultimately show ?thesis using perm ll by simp
  qed
  ultimately show ?thesis
    using ll lc len lr by (simp add: sorts_def)
qed

lemma quick_sort_sorts:
  "length p = length c \<Longrightarrow> \<exists>c' p'. quick_sort c p = Some (c', p') \<and> sorts c p c' p'"
proof (induction c p rule: quick_sort.induct)
  case (1 c p)
  let ?n = "length c"
  let ?v = "median (c ! 0) (c ! (?n div 2)) (c ! (?n - 1))"
  consider "?n \<le> 1" | "?n = 2" | "3 \<le> ?n" by linarith
  then show ?case
  proof cases
    case 1
    then have "quick_sort c p = Some (c, p)" by (subst quick_sort.simps) simp
    moreover have "sorted c" using 1 by (simp add: sorted01)
    ultimately show ?thesis by (simp add: sorts_def)
  next
    case 2
    with sorts_two [of c p] "1.prems" show ?thesis by (subst quick_sort.simps) auto
  next
    case 3
    then obtain l r c1 p1 where loop: "partition_loop c p ?v 0 (?n - 1) = Some (l, r, c1, p1)"
      and perm: "mset (zip c1 p1) = mset (zip c p)"
      and lr: "l \<le> r + 1" "r \<le> l" "r < ?n"
      and low: "\<forall>i<l. c1 ! i \<le> ?v" and high: "\<forall>i. r < i \<and> i < ?n \<longrightarrow> ?v \<le> c1 ! i"
      and mid: "l = r \<longrightarrow> c1 ! l = ?v"
      using partition_loop_correct [OF partition_inv_start "1.prems"] by blast
    have len: "l < ?n" "length c1 = ?n" "length p1 = ?n"
      using partition_loop_shape [OF loop] "1.prems" by auto
    note split = refl [of ?n] _ _ loop refl refl refl
    obtain cl pl where left: "quick_sort (take l c1) (take l p1) = Some (cl, pl)"
      "sorts (take l c1) (take l p1) cl pl"
      using "1.IH"(1) [OF split] 3 len by auto
    have ll: "length cl = l" "length pl = l" using left len by (auto simp: sorts_def)
    have c2: "splice_at 0 cl c1 = cl @ drop l c1" "splice_at 0 pl p1 = pl @ drop l p1"
      using ll len by (simp_all add: splice_at_eq)
    have d2: "drop (r + 1) (cl @ drop l c1) = drop (r + 1) c1" "drop (r + 1) (pl @ drop l p1) = drop (r + 1) p1"
      using ll lr(1) by simp_all
    have "\<exists>c' p'. quick_sort (drop (r + 1) (splice_at 0 cl c1)) (drop (r + 1) (splice_at 0 pl p1)) = Some (c', p') \<and>
        sorts (drop (r + 1) (splice_at 0 cl c1)) (drop (r + 1) (splice_at 0 pl p1)) c' p'"
      using 3 len by (intro "1.IH"(2) [OF split left(1) refl refl refl]) auto
    then obtain cr pr where right: "quick_sort (drop (r + 1) c1) (drop (r + 1) p1) = Some (cr, pr)"
      "sorts (drop (r + 1) c1) (drop (r + 1) p1) cr pr"
      unfolding c2 d2 by blast
    have lc: "length cr = ?n - (r + 1)" "length pr = ?n - (r + 1)"
      using right len by (auto simp: sorts_def)
    have fin: "splice_at (r + 1) cr (cl @ drop l c1) = cl @ segment l (r + 1) c1 @ cr"
      "splice_at (r + 1) pr (pl @ drop l p1) = pl @ segment l (r + 1) p1 @ pr"
      using ll lc len lr by (simp_all add: splice_at_eq segment_def)
    have "quick_sort c p = Some (cl @ segment l (r + 1) c1 @ cr, pl @ segment l (r + 1) p1 @ pr)"
    proof -
      have "\<not> ?n \<le> 1" "?n \<noteq> 2" using 3 by simp_all
      then show ?thesis
        by (simp only: quick_sort.simps [of c p] Let_def loop left(1) c2 d2 right(1) fin
            if_False option.case prod.case)
    qed
    moreover have "sorts c p (cl @ segment l (r + 1) c1 @ cr) (pl @ segment l (r + 1) p1 @ pr)"
      using "1.prems" len perm lr low high mid left(2) right(2)
      by (intro sorts_combine [where v = ?v]) simp_all
    ultimately show ?thesis by blast
  qed
qed

end
