(* ===== verification/MsdRadixSort.thy ===== *)
theory MsdRadixSort
  imports KeyBlocks QuickSort Buckets
begin

text \<open>
  \<open>msd_radix_sort\<close> of src/tasks/shuffle/msd_radix_sort.hpp (lines 107 to 218). The five arrays
  the function works on are one record; a recursive call on \<open>array + head\<close> gets the segments
  \<open>[head, tail)\<close> (\<open>sub_arrays\<close>) and its result is put back (\<open>put_arrays\<close>); exchanging the arrays
  with the work arrays is \<open>swap_arrays\<close>. The recursion is bounded by fuel, spent by one in each
  call; \<open>msd_radix_sort_correct\<close> says how much is enough, so that for keys that are pairwise
  \<open>discriminable\<close> the function returns, sorts the records by key and marks exactly the
  records whose key equals the key of the record before. The contract of a call is stated for keys
  without their trailing zero bytes (\<open>zero_key\<close>), which is all that blocks show of a key; it asks
  only for \<open>block_comparable\<close> keys.
\<close>

record radix_arrays =
  equals_to_left :: "bool list"
  cache :: "u64 list"
  pointers :: "addr list"
  cache_work :: "u64 list"
  pointers_work :: "addr list"

definition swap_arrays :: "radix_arrays \<Rightarrow> radix_arrays" where
  "swap_arrays r = r\<lparr>cache := cache_work r, pointers := pointers_work r,
                     cache_work := cache r, pointers_work := pointers r\<rparr>"

definition sub_arrays :: "nat \<Rightarrow> nat \<Rightarrow> radix_arrays \<Rightarrow> radix_arrays" where
  "sub_arrays h t r =
     \<lparr>equals_to_left = segment h t (equals_to_left r),
      cache = segment h t (cache r), pointers = segment h t (pointers r),
      cache_work = segment h t (cache_work r), pointers_work = segment h t (pointers_work r)\<rparr>"

definition put_arrays :: "nat \<Rightarrow> radix_arrays \<Rightarrow> radix_arrays \<Rightarrow> radix_arrays" where
  "put_arrays h s r =
     \<lparr>equals_to_left = splice_at h (equals_to_left s) (equals_to_left r),
      cache = splice_at h (cache s) (cache r), pointers = splice_at h (pointers s) (pointers r),
      cache_work = splice_at h (cache_work s) (cache_work r),
      pointers_work = splice_at h (pointers_work s) (pointers_work r)\<rparr>"

text \<open>The block refresh at every eighth byte, and the marks of the finished case.\<close>

definition refresh_blocks :: "mem \<Rightarrow> nat \<Rightarrow> radix_arrays \<Rightarrow> radix_arrays" where
  "refresh_blocks m depth r = r\<lparr>cache_work := map (\<lambda>p. get_block m p depth) (pointers r)\<rparr>"

definition all_keys_finished :: "mem \<Rightarrow> nat \<Rightarrow> radix_arrays \<Rightarrow> bool" where
  "all_keys_finished m depth r \<longleftrightarrow> list_all (\<lambda>p. \<not> depth < get_key_length m p) (pointers r)"

definition mark_equal_caches :: "radix_arrays \<Rightarrow> radix_arrays" where
  "mark_equal_caches r =
     r\<lparr>equals_to_left :=
         fold (\<lambda>i e. if cache r ! i = cache r ! (i - 1) then e[i := True] else e)
           [1..<length (pointers r)] (equals_to_left r)\<rparr>"

text \<open>The groups of equal blocks that \<open>quick_sort\<close> leaves, each sorted by the next block.\<close>

function group_end :: "u64 list \<Rightarrow> nat \<Rightarrow> nat \<Rightarrow> nat" where
  "group_end c i j = (if j < length c \<and> c ! i = c ! j then group_end c i (j + 1) else j)"
  by pat_completeness auto
termination
  by (relation "measure (\<lambda>(c, i, j). length c - j)") auto

declare group_end.simps [simp del]

lemma group_end_ge: "j \<le> group_end c i j"
  by (induction c i j rule: group_end.induct) (subst group_end.simps, auto)

function sort_groups ::
  "(radix_arrays \<Rightarrow> radix_arrays option) \<Rightarrow> nat \<Rightarrow> radix_arrays \<Rightarrow> nat \<Rightarrow> radix_arrays option" where
  "sort_groups rec n r i =
     (if i < n then
        let j = group_end (cache r) i (i + 1) in
        if 2 \<le> j - i then
          (case rec (sub_arrays i j r) of
             None \<Rightarrow> None
           | Some s \<Rightarrow> sort_groups rec n (put_arrays i s r) j)
        else sort_groups rec n r j
      else Some r)"
  by pat_completeness auto
termination
proof (relation "measure (\<lambda>(rec, n, r, i). n - i)", goal_cases)
  case (2 rec n r i j s)
  then show ?case using group_end_ge [of "i + 1" "cache r" i] by auto
next
  case (3 rec n r i j)
  then show ?case using group_end_ge [of "i + 1" "cache r" i] by auto
qed auto

declare sort_groups.simps [simp del]

text \<open>The bucket pass: count, prefix sums, stable distribution, one call per bucket.\<close>

definition bucket_of :: "nat \<Rightarrow> u64 \<Rightarrow> nat" where
  "bucket_of shift c = unat (drop_bit shift c AND 255)"

definition count_buckets :: "nat \<Rightarrow> u64 list \<Rightarrow> nat list" where
  "count_buckets shift cs =
     fold (\<lambda>c bins. bins[bucket_of shift c := bins ! bucket_of shift c + 1]) cs (replicate 256 0)"

definition bucket_starts :: "nat list \<Rightarrow> nat list" where
  "bucket_starts bins =
     fst (fold (\<lambda>i (bins, s). (bins[i := s], s + bins ! i)) [0..<256] (bins, 0))"

definition distribute :: "nat \<Rightarrow> radix_arrays \<Rightarrow> nat list \<Rightarrow> nat list \<times> u64 list \<times> addr list" where
  "distribute shift r bins =
     fold (\<lambda>i (bins, cw, pw).
         let b = bucket_of shift (cache r ! i); p = bins ! b
         in (bins[b := p + 1], cw[p := cache r ! i], pw[p := pointers r ! i]))
       [0..<length (pointers r)] (bins, cache_work r, pointers_work r)"

definition sort_buckets ::
  "(radix_arrays \<Rightarrow> radix_arrays option) \<Rightarrow> nat list \<Rightarrow> radix_arrays \<Rightarrow> (nat \<times> radix_arrays) option" where
  "sort_buckets rec bins r =
     fold (\<lambda>i st. case st of None \<Rightarrow> None | Some (head, r) \<Rightarrow>
         let tail = bins ! i in
         (case rec (swap_arrays (sub_arrays head tail r)) of
            None \<Rightarrow> None
          | Some s \<Rightarrow> Some (tail, put_arrays head (swap_arrays s) r)))
       [0..<256] (Some (0, r))"

fun msd_radix_sort :: "nat \<Rightarrow> mem \<Rightarrow> radix_arrays \<Rightarrow> nat \<Rightarrow> bool \<Rightarrow> radix_arrays option" where
  "msd_radix_sort 0 m r depth swapped = None"
| "msd_radix_sort (Suc fuel) m r depth swapped =
     (let n = length (pointers r) in
      if n = 0 then Some r
      else
        let r1 = (if depth mod 8 = 0 then refresh_blocks m depth r else r) in
        if depth mod 8 = 0 \<and> all_keys_finished m depth r then Some (mark_equal_caches r1)
        else
          let r2 = (if depth mod 8 = 0 then r1\<lparr>cache := cache_work r1\<rparr> else r1) in
          if n < 256 then
            let r3 = (if swapped
                      then swap_arrays (r2\<lparr>cache_work := cache r2, pointers_work := pointers r2\<rparr>)
                      else r2) in
            (case quick_sort (cache r3) (pointers r3) of
               None \<Rightarrow> None
             | Some (c, p) \<Rightarrow>
                 map_option (\<lambda>r4. if swapped then swap_arrays r4 else r4)
                   (sort_groups (\<lambda>s. msd_radix_sort fuel m s ((depth + 8) div 8 * 8) False) n
                      (r3\<lparr>cache := c, pointers := p\<rparr>) 0))
          else
            let shift = (7 - depth mod 8) * 8;
                (bins, cw, pw) = distribute shift r2 (bucket_starts (count_buckets shift (cache r2)))
            in map_option snd
                 (sort_buckets (\<lambda>s. msd_radix_sort fuel m s (depth + 1) (\<not> swapped)) bins
                    (r2\<lparr>cache_work := cw, pointers_work := pw\<rparr>)))"

subsection \<open>Keys and blocks\<close>

text \<open>What the blocks show of a key: its bytes without the trailing zero bytes.\<close>

definition zero_key :: "mem \<Rightarrow> addr \<Rightarrow> u8 list" where
  "zero_key m p = strip_zeros (key_of m p)"

lemma pad_zero_key [simp]: "pad (zero_key m p) i = pad (key_of m p) i"
  by (simp add: zero_key_def)

lemma agree_zero_key [simp]: "agree d (zero_key m p) (zero_key m q) \<longleftrightarrow> agree d (key_of m p) (key_of m q)"
  by (simp add: agree_def)

lemma block_less_imp_key_less:
  assumes "agree d (key_of m p) (key_of m q)" "d \<le> get_key_length m p" "d \<le> get_key_length m q"
    and "get_block m p d < get_block m q d"
  shows "zero_key m p < zero_key m q"
  using assms padded_less_imp_less [of d "zero_key m p" "zero_key m q" 8]
  by (simp add: get_block_padded block_word_less_iff zero_key_def)

lemma block_eq_imp_agree:
  assumes "agree d (key_of m p) (key_of m q)" "d \<le> get_key_length m p" "d \<le> get_key_length m q"
    and "get_block m p d = get_block m q d"
  shows "agree (d + 8) (key_of m p) (key_of m q)"
  using assms by (auto simp: get_block_padded block_word_inject intro: agree_extend)

lemma agree_imp_block_eq:
  assumes "agree e (key_of m p) (key_of m q)" "d + 8 \<le> e" "d \<le> get_key_length m p" "d \<le> get_key_length m q"
  shows "get_block m p d = get_block m q d"
  using assms agree_padded [of e "key_of m p" "key_of m q" d 8] by (simp add: get_block_padded)

lemma bucket_of_block:
  assumes "depth div 8 * 8 \<le> get_key_length m p"
  shows "bucket_of ((7 - depth mod 8) * 8) (get_block m p (depth div 8 * 8)) = unat (pad (key_of m p) depth)"
proof -
  have j: "depth mod 8 < 8" by simp
  have "depth div 8 * 8 + depth mod 8 = depth" by (rule div_mult_mod_eq)
  then have "padded (key_of m p) (depth div 8 * 8) 8 ! (depth mod 8) = pad (key_of m p) depth"
    using j by simp
  with block_word_byte [OF length_padded j] assms show ?thesis
    by (simp add: bucket_of_def get_block_padded unat_ucast_u8)
qed

lemma bucket_of_less: "bucket_of s c < 256"
proof -
  have "unat (drop_bit s c AND (255 :: u64)) = unat (drop_bit s c) AND 255"
    by (simp add: unsigned_and_eq)
  also have "\<dots> = unat (drop_bit s c) mod 256"
    using take_bit_eq_mask [of 8 "unat (drop_bit s c)"] by (simp add: take_bit_eq_mod mask_eq_exp_minus_1)
  also have "\<dots> < 256" by simp
  finally show ?thesis by (simp add: bucket_of_def)
qed

subsection \<open>The contract of one call\<close>

text \<open>
  \<open>sort_input m L depth swapped r\<close> is what a call may rely on: \<open>L\<close> bounds the key lengths, the
  keys agree up to \<open>depth\<close>, and the cache holds the blocks that contain position \<open>depth\<close> (or, at
  a block boundary, equal entries). The result is left in \<open>out_of swapped\<close>.
\<close>

definition wf_arrays :: "nat \<Rightarrow> radix_arrays \<Rightarrow> bool" where
  "wf_arrays n r \<longleftrightarrow>
     length (equals_to_left r) = n \<and> length (cache r) = n \<and> length (pointers r) = n \<and>
     length (cache_work r) = n \<and> length (pointers_work r) = n"

definition out_of :: "bool \<Rightarrow> radix_arrays \<Rightarrow> addr list" where
  "out_of swapped r = (if swapped then pointers_work r else pointers r)"

definition keys_ok :: "mem \<Rightarrow> nat \<Rightarrow> nat \<Rightarrow> addr set \<Rightarrow> bool" where
  "keys_ok m L d P \<longleftrightarrow>
     (\<forall>p\<in>P. get_key_length m p \<le> L \<and>
        (\<forall>q\<in>P. block_comparable (key_of m p) (key_of m q) \<and> agree d (key_of m p) (key_of m q)))"

definition cache_ok :: "mem \<Rightarrow> nat \<Rightarrow> nat \<Rightarrow> radix_arrays \<Rightarrow> bool" where
  "cache_ok m L d r \<longleftrightarrow>
     d < L \<and> cache r = map (\<lambda>p. get_block m p d) (pointers r) \<and>
     (\<forall>p\<in>set (pointers r). d \<le> get_key_length m p)"

definition sort_input :: "mem \<Rightarrow> nat \<Rightarrow> nat \<Rightarrow> bool \<Rightarrow> radix_arrays \<Rightarrow> bool" where
  "sort_input m L depth swapped r \<longleftrightarrow>
     wf_arrays (length (pointers r)) r \<and> (swapped \<longleftrightarrow> odd depth) \<and> depth \<le> L + 7 \<and>
     keys_ok m L depth (set (pointers r)) \<and>
     (if depth mod 8 = 0 then \<forall>c\<in>set (cache r). \<forall>c'\<in>set (cache r). c = c'
      else cache_ok m L (depth div 8 * 8) r)"

definition marks :: "('a \<Rightarrow> 'k) \<Rightarrow> bool list \<Rightarrow> 'a list \<Rightarrow> bool list \<Rightarrow> bool" where
  "marks K eq0 out eq \<longleftrightarrow>
     length eq0 = length out \<and> length eq = length out \<and>
     (\<forall>i<length out. eq ! i \<longleftrightarrow> eq0 ! i \<or> (0 < i \<and> K (out ! i) = K (out ! (i - 1))))"

definition sort_output :: "mem \<Rightarrow> bool \<Rightarrow> radix_arrays \<Rightarrow> radix_arrays \<Rightarrow> bool" where
  "sort_output m swapped r r' \<longleftrightarrow>
     wf_arrays (length (pointers r)) r' \<and> mset (out_of swapped r') = mset (pointers r) \<and>
     sorted (map (zero_key m) (out_of swapped r')) \<and>
     marks (zero_key m) (equals_to_left r) (out_of swapped r') (equals_to_left r')"

definition sorting_call :: "mem \<Rightarrow> nat \<Rightarrow> nat \<Rightarrow> bool \<Rightarrow> (radix_arrays \<Rightarrow> radix_arrays option) \<Rightarrow> bool" where
  "sorting_call m L depth swapped rec \<longleftrightarrow>
     (\<forall>r. sort_input m L depth swapped r \<longrightarrow> (\<exists>r'. rec r = Some r' \<and> sort_output m swapped r r'))"

lemma wf_arrays_simps [simp]:
  "wf_arrays n (swap_arrays r) = wf_arrays n r"
  "h \<le> t \<Longrightarrow> t \<le> n \<Longrightarrow> wf_arrays n r \<Longrightarrow> wf_arrays (t - h) (sub_arrays h t r)"
  "wf_arrays n (put_arrays h s r) = wf_arrays n r"
  by (auto simp: wf_arrays_def swap_arrays_def sub_arrays_def put_arrays_def)

lemma keys_ok_subset: "keys_ok m L d P \<Longrightarrow> Q \<subseteq> P \<Longrightarrow> keys_ok m L d Q"
  by (auto simp: keys_ok_def)

subsection \<open>Extending a sorted prefix by a segment\<close>

definition done_upto :: "('a \<Rightarrow> 'k::linorder) \<Rightarrow> nat \<Rightarrow> 'a list \<Rightarrow> bool list \<Rightarrow> 'a list \<Rightarrow> bool list \<Rightarrow> bool" where
  "done_upto K h src eq0 out eq \<longleftrightarrow>
     h \<le> length src \<and> length out = length src \<and> length eq0 = length src \<and> length eq = length src \<and>
     mset (take h out) = mset (take h src) \<and> sorted (map K (take h out)) \<and>
     marks K (take h eq0) (take h out) (take h eq) \<and> drop h eq = drop h eq0"

lemma done_upto_0 [simp]: "length eq0 = length src \<Longrightarrow> length out = length src \<Longrightarrow> done_upto K 0 src eq0 out eq0"
  by (simp add: done_upto_def marks_def)

lemma marks_append:
  assumes "marks K e1 o1 m1" "marks K e2 o2 m2" "\<And>x y. x \<in> set o1 \<Longrightarrow> y \<in> set o2 \<Longrightarrow> K x \<noteq> K y"
  shows "marks K (e1 @ e2) (o1 @ o2) (m1 @ m2)"
proof -
  have len: "length e1 = length o1" "length m1 = length o1" "length e2 = length o2" "length m2 = length o2"
    using assms by (auto simp: marks_def)
  have "(m1 @ m2) ! i \<longleftrightarrow> (e1 @ e2) ! i \<or> (0 < i \<and> K ((o1 @ o2) ! i) = K ((o1 @ o2) ! (i - 1)))"
    if i: "i < length (o1 @ o2)" for i
  proof (cases "i < length o1")
    case True
    then show ?thesis using assms(1) len by (auto simp: marks_def nth_append)
  next
    case False
    let ?j = "i - length o1"
    have j: "?j < length o2" using i False by auto
    then have m: "m2 ! ?j \<longleftrightarrow> e2 ! ?j \<or> (0 < ?j \<and> K (o2 ! ?j) = K (o2 ! (?j - 1)))"
      using assms(2) by (simp add: marks_def)
    show ?thesis
    proof (cases "?j = 0")
      case True
      then have "0 < i \<Longrightarrow> K (o2 ! 0) \<noteq> K (o1 ! (i - 1))"
        using assms(3) [of "o1 ! (i - 1)" "o2 ! 0"] False j by fastforce
      with True False m len show ?thesis by (auto simp: nth_append)
    next
      case nz: False
      then have "\<not> i - 1 < length o1" "i - 1 - length o1 = ?j - 1" by auto
      with nz False m len show ?thesis by (auto simp: nth_append)
    qed
  qed
  with len show ?thesis by (simp add: marks_def)
qed

lemma done_upto_extend:
  assumes d: "done_upto K h src eq0 out eq" and ht: "h \<le> t" "t \<le> length src"
    and ys: "mset ys = mset (segment h t src)" "sorted (map K ys)"
    and es: "marks K (segment h t eq) ys es"
    and less: "\<And>x y. x \<in> set (take h src) \<Longrightarrow> y \<in> set (segment h t src) \<Longrightarrow> K x < K y"
  shows "done_upto K t src eq0 (splice_at h ys out) (splice_at h es eq)"
proof -
  have leny: "length ys = t - h"
    using ys(1) ht by (metis size_mset length_segment)
  then have lene: "length es = t - h" using es by (simp add: marks_def)
  note d' = d[unfolded done_upto_def]
  have o: "take t (splice_at h ys out) = take h out @ ys"
    using take_splice_at_end [of h ys out] leny ht d' by simp
  have e: "take t (splice_at h es eq) = take h eq @ es" "drop t (splice_at h es eq) = drop t eq"
    using take_splice_at_end [of h es eq] lene ht d' by simp_all
  have seg: "segment h t eq = segment h t eq0"
    using d' by (simp add: segment_def)
  have "drop t eq = drop t eq0"
    using d' ht by (metis drop_drop le_add_diff_inverse2)
  moreover have sets: "set (take h out) = set (take h src)" "set ys = set (segment h t src)"
    using d' ys by (metis set_mset_mset)+
  have "sorted (map K (take h out @ ys))"
    using d' ys sets less by (force simp: sorted_append)
  moreover have "mset (take h out @ ys) = mset (take t src)"
    using d' ys ht by (simp add: take_segment [of h t src])
  moreover have "marks K (take t eq0) (take h out @ ys) (take h eq @ es)"
    unfolding take_segment [OF ht(1), of eq0]
    by (rule marks_append) (use d' es seg sets less in \<open>auto dest: less\<close>)
  ultimately show ?thesis
    using d' ht o e by (simp add: done_upto_def)
qed

lemma done_upto_whole:
  assumes "done_upto K (length src) src eq0 out eq"
  shows "mset out = mset src" "sorted (map K out)" "marks K eq0 out eq"
  using assms by (auto simp: done_upto_def)

subsection \<open>The groups of equal blocks\<close>

lemma group_end_spec:
  "j \<le> length c \<Longrightarrow> i < j \<Longrightarrow>
     group_end c i j \<le> length c \<and>
     (\<forall>k. j \<le> k \<and> k < group_end c i j \<longrightarrow> c ! k = c ! i) \<and>
     (group_end c i j < length c \<longrightarrow> c ! (group_end c i j) \<noteq> c ! i)"
proof (induction c i j rule: group_end.induct)
  case (1 c i j)
  show ?case
  proof (cases "j < length c \<and> c ! i = c ! j")
    case True
    then have "group_end c i j = group_end c i (j + 1)" by (simp add: group_end.simps [of c i j])
    moreover have IH: "group_end c i (j + 1) \<le> length c"
      "\<And>k. j + 1 \<le> k \<Longrightarrow> k < group_end c i (j + 1) \<Longrightarrow> c ! k = c ! i"
      "group_end c i (j + 1) < length c \<Longrightarrow> c ! (group_end c i (j + 1)) \<noteq> c ! i"
      using "1.IH" [OF True] True "1.prems" by simp_all
    moreover have "c ! k = c ! i" if "j \<le> k" "k < group_end c i (j + 1)" for k
      using IH(2) [of k] True that by (cases "k = j") simp_all
    ultimately show ?thesis by simp
  next
    case False
    then have "group_end c i j = j" by (subst group_end.simps) auto
    with False "1.prems" show ?thesis by auto
  qed
qed

lemma drop_segment_cong: "drop i xs = drop i ys \<Longrightarrow> segment i j xs = segment i j ys"
  by (simp add: segment_def)

lemma drop_nth_cong:
  assumes "drop i xs = drop i ys" "length xs = length ys" "i \<le> k" "k < length xs"
  shows "xs ! k = ys ! k"
  using assms nth_drop [of i xs "k - i"] nth_drop [of i ys "k - i"] by simp

lemma group_end_cong:
  "drop i c = drop i c' \<Longrightarrow> length c = length c' \<Longrightarrow> i < length c \<Longrightarrow> i \<le> j \<Longrightarrow>
     group_end c i j = group_end c' i j"
proof (induction c i j rule: group_end.induct)
  case (1 c i j)
  have i: "c ! i = c' ! i"
    using drop_nth_cong [OF "1.prems"(1,2), of i] "1.prems"(3) by simp
  have j: "j < length c \<Longrightarrow> c ! j = c' ! j"
    using drop_nth_cong [OF "1.prems"(1,2), of j] "1.prems"(4) by simp
  show ?case
  proof (cases "j < length c \<and> c ! i = c ! j")
    case True
    then have "group_end c i (j + 1) = group_end c' i (j + 1)"
      using 1 by simp
    with True i j "1.prems"(2) show ?thesis
      by (simp add: group_end.simps [of c i j] group_end.simps [of c' i j])
  next
    case False
    then show ?thesis using i j "1.prems"(2)
      by (auto simp: group_end.simps [of c i j] group_end.simps [of c' i j])
  qed
qed

text \<open>
  The loop over the groups, over the sorted blocks \<open>c\<close> of \<open>p\<close> at depth \<open>d\<close>: the part before \<open>i\<close> is
  finished and the part from \<open>i\<close> on is as \<open>quick_sort\<close> left it.
\<close>

definition groups_inv :: "mem \<Rightarrow> u64 list \<Rightarrow> addr list \<Rightarrow> bool list \<Rightarrow> nat \<Rightarrow> radix_arrays \<Rightarrow> bool" where
  "groups_inv m c p eq0 i r \<longleftrightarrow>
     i \<le> length p \<and> wf_arrays (length p) r \<and> drop i (cache r) = drop i c \<and> drop i (pointers r) = drop i p \<and>
     (\<forall>x<i. \<forall>y. i \<le> y \<and> y < length c \<longrightarrow> c ! x < c ! y) \<and>
     done_upto (zero_key m) i p eq0 (pointers r) (equals_to_left r)"

lemma set_segment_nth: "x \<in> set (segment h t xs) \<Longrightarrow> h \<le> t \<Longrightarrow> t \<le> length xs \<Longrightarrow> \<exists>k. h \<le> k \<and> k < t \<and> x = xs ! k"
  by (auto simp: in_set_conv_nth) (metis le_add1 less_diff_conv add.commute)

lemma set_take_nth: "x \<in> set (take h xs) \<Longrightarrow> \<exists>k<h. k < length xs \<and> x = xs ! k"
  by (auto simp: in_set_conv_nth)

lemma sort_groups_step_done:
  assumes inv: "groups_inv m c p eq0 i r" and i: "i < j" "j \<le> length p"
    and keys: "keys_ok m L d (set p)" and cache: "c = map (\<lambda>q. get_block m q d) p"
      "\<forall>q\<in>set p. d \<le> get_key_length m q"
    and strict: "\<forall>x<j. \<forall>y. j \<le> y \<and> y < length c \<longrightarrow> c ! x < c ! y"
    and s: "mset (pointers s) = mset (segment i j p)" "sorted (map (zero_key m) (pointers s))"
      "marks (zero_key m) (segment i j (equals_to_left r)) (pointers s) (equals_to_left s)"
      "wf_arrays (j - i) s"
  shows "groups_inv m c p eq0 j (put_arrays i s r)"
proof -
  have len: "length c = length p" using cache by simp
  have wf: "wf_arrays (length p) r" using inv by (simp add: groups_inv_def)
  have less: "zero_key m x < zero_key m y" if xy: "x \<in> set (take i p)" "y \<in> set (segment i j p)" for x y
  proof -
    obtain k l where "k < i" "x = p ! k" "k < length p" "i \<le> l" "l < j" "y = p ! l"
      using set_take_nth [OF xy(1)] set_segment_nth [OF xy(2)] i by auto
    then show ?thesis
      using inv i keys cache(2) len
      by (intro block_less_imp_key_less [of d]) (auto simp: groups_inv_def cache(1) keys_ok_def)
  qed
  have "done_upto (zero_key m) j p eq0 (splice_at i (pointers s) (pointers r))
      (splice_at i (equals_to_left s) (equals_to_left r))"
    by (rule done_upto_extend) (use inv i s less in \<open>auto simp: groups_inv_def\<close>)
  moreover have "drop j (cache r) = drop j c" "drop j (pointers r) = drop j p"
    using inv i(1) by (auto simp: groups_inv_def) (metis drop_drop le_add_diff_inverse2 less_imp_le)+
  ultimately show ?thesis
    using wf i s(4) strict by (simp add: groups_inv_def) (simp add: put_arrays_def wf_arrays_def)
qed

lemma splice_segment_id: "h \<le> t \<Longrightarrow> t \<le> length xs \<Longrightarrow> splice_at h (segment h t xs) xs = xs"
  by (simp add: splice_at_eq segment_def) (metis append_take_drop_id drop_drop le_add_diff_inverse2)

lemma put_sub_arrays: "wf_arrays n r \<Longrightarrow> h \<le> t \<Longrightarrow> t \<le> n \<Longrightarrow> put_arrays h (sub_arrays h t r) r = r"
  by (simp add: put_arrays_def sub_arrays_def splice_segment_id wf_arrays_def)

lemma marks_singleton: "length out = 1 \<Longrightarrow> length eq = 1 \<Longrightarrow> marks K eq out eq"
  by (auto simp: marks_def)

lemma even_block_start: "d mod 8 = 0 \<Longrightarrow> \<not> odd (d + 8 :: nat)"
  by presburger

lemma group_sort_input:
  assumes inv: "groups_inv m c p eq0 i r" and i: "i < j" "j \<le> length p"
    and keys: "keys_ok m L d (set p)" and cache: "c = map (\<lambda>q. get_block m q d) p"
      "\<forall>q\<in>set p. d \<le> get_key_length m q"
    and group: "\<forall>k. i \<le> k \<and> k < j \<longrightarrow> c ! k = c ! i" and d: "d mod 8 = 0" "d < L"
  shows "sort_input m L (d + 8) False (sub_arrays i j r)"
proof -
  have wf: "wf_arrays (length p) r" using inv by (simp add: groups_inv_def)
  have seg: "pointers (sub_arrays i j r) = segment i j p" "cache (sub_arrays i j r) = segment i j c"
    using inv by (auto simp: groups_inv_def sub_arrays_def intro: drop_segment_cong)
  have len: "length (segment i j p) = j - i" "length c = length p" using i cache by simp_all
  have blk: "x \<in> set p \<and> get_block m x d = c ! i" if x: "x \<in> set (segment i j p)" for x
  proof -
    obtain k where k: "i \<le> k" "k < j" "x = p ! k" using set_segment_nth [OF x] i by auto
    moreover from k have "c ! k = c ! i" using group by blast
    moreover have "c ! k = get_block m (p ! k) d" using k i by (simp add: cache(1))
    ultimately show ?thesis using i by simp
  qed
  have "keys_ok m L (d + 8) (set (segment i j p))"
    unfolding keys_ok_def
    using blk keys cache(2) by (auto simp: keys_ok_def intro!: block_eq_imp_agree)
  moreover have "x = c ! i" if "x \<in> set (segment i j c)" for x
    using set_segment_nth [OF that] i group len by (metis less_imp_le)
  moreover have "wf_arrays (j - i) (sub_arrays i j r)" using wf i by simp
  ultimately show ?thesis
    using seg len d even_block_start [OF d(1)] by (auto simp: sort_input_def)
qed

lemma sort_groups_correct:
  assumes rec: "sorting_call m L (d + 8) False rec"
    and keys: "keys_ok m L d (set p)" and cache: "c = map (\<lambda>q. get_block m q d) p"
      "\<forall>q\<in>set p. d \<le> get_key_length m q"
    and sorted: "sorted c" and d: "d mod 8 = 0" "d < L"
  shows "groups_inv m c p eq0 i r \<Longrightarrow>
    \<exists>r'. sort_groups rec (length p) r i = Some r' \<and> groups_inv m c p eq0 (length p) r'"
proof (induction "length p - i" arbitrary: i r rule: less_induct)
  case less
  note inv = less.prems
  show ?case
  proof (cases "i < length p")
    case False
    then have "i = length p" using inv by (simp add: groups_inv_def)
    then show ?thesis using inv by (subst sort_groups.simps) simp
  next
    case i: True
    have len: "length c = length p" using cache by simp
    define j where "j = group_end (cache r) i (i + 1)"
    have "j = group_end c i (i + 1)"
      using inv i len unfolding j_def groups_inv_def wf_arrays_def by (intro group_end_cong) auto
    then have ge: "i + 1 \<le> j" "j \<le> length c" "\<forall>k. i + 1 \<le> k \<and> k < j \<longrightarrow> c ! k = c ! i"
      "j < length c \<longrightarrow> c ! j \<noteq> c ! i"
      using group_end_spec [of "i + 1" c i] group_end_ge [of "i + 1" c i] i len by simp_all
    have same: "c ! k = c ! i" if "i \<le> k" "k < j" for k
    proof (cases "k = i")
      case False
      with that have "i + 1 \<le> k \<and> k < j" by simp
      with ge(3) show ?thesis by blast
    qed simp
    have group: "\<forall>k. i \<le> k \<and> k < j \<longrightarrow> c ! k = c ! i" using same by blast
    have j: "i < j" "j \<le> length p" "j < length p \<Longrightarrow> c ! j \<noteq> c ! i"
      using ge(1,2,4) len by simp_all
    have strict: "\<forall>x<j. \<forall>y. j \<le> y \<and> y < length c \<longrightarrow> c ! x < c ! y"
    proof (intro allI impI)
      fix x y assume x: "x < j" and y: "j \<le> y \<and> y < length c"
      show "c ! x < c ! y"
      proof (cases "x < i")
        case True
        with inv x y j show ?thesis by (auto simp: groups_inv_def)
      next
        case False
        have "c ! i \<le> c ! j" "c ! j \<le> c ! y" using sorted j y len by (auto intro: sorted_nth_mono)
        moreover have "c ! x = c ! i" by (rule same) (use False x in simp_all)
        moreover have "c ! j \<noteq> c ! i" using j(3) y len by simp
        ultimately show ?thesis by simp
      qed
    qed
    have wf: "wf_arrays (length p) r" using inv by (simp add: groups_inv_def)
    have seg: "pointers (sub_arrays i j r) = segment i j p"
      using inv by (auto simp: groups_inv_def sub_arrays_def intro: drop_segment_cong)
    have eqs: "equals_to_left (sub_arrays i j r) = segment i j (equals_to_left r)"
      by (simp add: sub_arrays_def)
    have "\<exists>s. (if 2 \<le> j - i then rec (sub_arrays i j r) else Some (sub_arrays i j r)) = Some s \<and>
        groups_inv m c p eq0 j (put_arrays i s r)"
    proof (cases "2 \<le> j - i")
      case True
      have "sort_input m L (d + 8) False (sub_arrays i j r)"
        by (rule group_sort_input [OF inv j(1,2) keys cache group d])
      then obtain s where s: "rec (sub_arrays i j r) = Some s" "sort_output m False (sub_arrays i j r) s"
        using rec by (auto simp: sorting_call_def)
      have "groups_inv m c p eq0 j (put_arrays i s r)"
        by (rule sort_groups_step_done [OF inv j(1,2) keys cache strict])
          (use s(2) j seg eqs in \<open>simp_all add: sort_output_def out_of_def\<close>)
      with s True show ?thesis by simp
    next
      case False
      then have one: "j - i = 1" using j by simp
      have "groups_inv m c p eq0 j (put_arrays i (sub_arrays i j r) r)"
        by (rule sort_groups_step_done [OF inv j(1,2) keys cache strict])
          (use wf j one seg eqs in \<open>auto simp: wf_arrays_def sub_arrays_def sorted01 intro!: marks_singleton\<close>)
      with False show ?thesis by simp
    qed
    then obtain s where s: "(if 2 \<le> j - i then rec (sub_arrays i j r) else Some (sub_arrays i j r)) = Some s"
      "groups_inv m c p eq0 j (put_arrays i s r)" by blast
    have "\<exists>r'. sort_groups rec (length p) (put_arrays i s r) j = Some r' \<and> groups_inv m c p eq0 (length p) r'"
      by (rule less.hyps) (use i j s in auto)
    moreover have "sort_groups rec (length p) r i = sort_groups rec (length p) (put_arrays i s r) j"
      using i s(1) put_sub_arrays [OF wf, of i j] j j_def
      by (subst sort_groups.simps) (auto simp: Let_def split: if_splits)
    ultimately show ?thesis by simp
  qed
qed

subsection \<open>The bucket pass is a stable distribution\<close>

text \<open>The counting passes of the code compute the bucket starts and place the records.\<close>

lemma count_buckets_spec:
  "length (count_buckets s cs) = 256 \<and>
   (\<forall>i<256. count_buckets s cs ! i = length (filter (\<lambda>c. bucket_of s c = i) cs))"
proof (induction cs rule: rev_induct)
  case (snoc c cs)
  then show ?case using bucket_of_less [of s c]
    by (auto simp: count_buckets_def nth_list_update)
qed (simp add: count_buckets_def)

lemma bucket_starts_fold:
  assumes "length bins = 256" "n \<le> 256"
  shows "\<exists>bs. fold (\<lambda>i (bins, s). (bins[i := s], s + bins ! i)) [0..<n] (bins, 0) = (bs, sum_list (map ((!) bins) [0..<n])) \<and>
    length bs = 256 \<and> (\<forall>i<256. bs ! i = (if i < n then sum_list (map ((!) bins) [0..<i]) else bins ! i))"
  using assms(2)
proof (induction n)
  case (Suc n)
  then show ?case using assms(1) by (auto simp: nth_list_update less_Suc_eq)
qed (use assms in simp)

lemma length_bucket_zip:
  "length cs = length ps \<Longrightarrow> length (bucket (\<lambda>z. g (fst z)) (zip cs ps) i) = length (filter (\<lambda>c. g c = i) cs)"
  by (induction cs ps rule: list_induct2) (auto simp: bucket_def)

lemma bucket_starts_count:
  assumes "length cs = length ps" "i < 256"
  shows "bucket_starts (count_buckets s cs) ! i = length (buckets (\<lambda>z. bucket_of s (fst z)) (zip cs ps) i)"
proof -
  have "map ((!) (count_buckets s cs)) [0..<i] =
      map (\<lambda>j. length (bucket (\<lambda>z. bucket_of s (fst z)) (zip cs ps) j)) [0..<i]"
    using count_buckets_spec [of s cs] assms by (simp add: length_bucket_zip)
  then have "sum_list (map ((!) (count_buckets s cs)) [0..<i]) =
      length (buckets (\<lambda>z. bucket_of s (fst z)) (zip cs ps) i)"
    by (simp only: length_buckets)
  then show ?thesis
    using bucket_starts_fold [of "count_buckets s cs" 256] count_buckets_spec [of s cs] assms(2)
    by (auto simp: bucket_starts_def)
qed

lemma length_bucket_starts: "length (bucket_starts (count_buckets s cs)) = 256"
  using bucket_starts_fold [of "count_buckets s cs" 256] count_buckets_spec [of s cs]
  by (auto simp: bucket_starts_def)

lemma distribute_buckets:
  assumes wf: "wf_arrays (length (pointers r)) r"
    and d: "distribute s r (bucket_starts (count_buckets s (cache r))) = (bins, cw, pw)"
  defines "f \<equiv> \<lambda>z :: u64 \<times> addr. bucket_of s (fst z)"
  defines "xs \<equiv> zip (cache r) (pointers r)"
  shows "length cw = length (pointers r)" "length pw = length (pointers r)" "zip cw pw = buckets f xs 256"
    "\<And>i. i < 256 \<Longrightarrow> bins ! i = length (buckets f xs (Suc i))"
proof -
  let ?P = "\<lambda>k (bins, cw, pw). placed f xs 256 k bins (zip cw pw) \<and>
      length cw = length (pointers r) \<and> length pw = length (pointers r)"
  have lenx: "length xs = length (pointers r)" using wf by (simp add: wf_arrays_def xs_def)
  have f: "f x < 256" for x by (simp add: f_def bucket_of_less)
  have "?P (length (pointers r)) (distribute s r (bucket_starts (count_buckets s (cache r))))"
    unfolding distribute_def
  proof (rule fold_upt_invariant [where P = ?P])
    have "bucket_starts (count_buckets s (cache r)) ! i = length (buckets f xs i)" if "i < 256" for i
      using bucket_starts_count [OF _ that, of "cache r" "pointers r"] wf
      by (simp add: wf_arrays_def f_def xs_def)
    then show "?P 0 (bucket_starts (count_buckets s (cache r)), cache_work r, pointers_work r)"
      using wf lenx by (simp add: placed_def length_bucket_starts wf_arrays_def segment_def bucket_def)
  next
    fix i st assume i: "i < length (pointers r)" and P: "?P i st"
    obtain b c p where st: "st = (b, c, p)" by (cases st)
    have z: "xs ! i = (cache r ! i, pointers r ! i)" using i wf by (simp add: xs_def wf_arrays_def)
    have "placed f xs 256 (Suc i) (b[f (xs ! i) := b ! f (xs ! i) + 1]) ((zip c p)[b ! f (xs ! i) := xs ! i])"
      by (rule placed_step) (use P i lenx f st in auto)
    then have "?P (Suc i) (b[f (xs ! i) := b ! f (xs ! i) + 1], c[b ! f (xs ! i) := cache r ! i],
        p[b ! f (xs ! i) := pointers r ! i])"
      using P st z by (simp add: zip_update)
    then show "?P (Suc i) (case st of (bins, cw, pw) \<Rightarrow> let b = bucket_of s (cache r ! i); p = bins ! b
        in (bins[b := p + 1], cw[p := cache r ! i], pw[p := pointers r ! i]))"
      unfolding st using z by (simp add: Let_def f_def)
  qed
  then have P: "placed f xs 256 (length xs) bins (zip cw pw)" "length cw = length (pointers r)" "length pw = length (pointers r)"
    using d lenx by auto
  then show "length cw = length (pointers r)" "length pw = length (pointers r)" "zip cw pw = buckets f xs 256"
    "\<And>i. i < 256 \<Longrightarrow> bins ! i = length (buckets f xs (Suc i))"
    using placed_all [OF P(1)] f by auto
qed

text \<open>
  The loop over the buckets, over the distributed blocks \<open>cw\<close> and records \<open>pw\<close>: the first \<open>i\<close>
  buckets are finished in the output array, the work arrays still hold the later ones.
\<close>

definition bucket_key :: "nat \<Rightarrow> u64 \<times> addr \<Rightarrow> nat" where
  "bucket_key depth z = bucket_of ((7 - depth mod 8) * 8) (fst z)"

definition buckets_inv ::
  "mem \<Rightarrow> nat \<Rightarrow> bool \<Rightarrow> (u64 \<times> addr) list \<Rightarrow> bool list \<Rightarrow> u64 list \<Rightarrow> addr list \<Rightarrow> nat \<Rightarrow> nat \<Rightarrow> radix_arrays \<Rightarrow> bool" where
  "buckets_inv m depth swapped xs eq0 cw pw i h r \<longleftrightarrow>
     h = length (buckets (bucket_key depth) xs i) \<and> wf_arrays (length pw) r \<and>
     drop h (cache_work r) = drop h cw \<and> drop h (pointers_work r) = drop h pw \<and>
     done_upto (zero_key m) h pw eq0 (out_of swapped r) (equals_to_left r)"

definition blocks_of :: "mem \<Rightarrow> nat \<Rightarrow> addr list \<Rightarrow> (u64 \<times> addr) list" where
  "blocks_of m d ps = zip (map (\<lambda>p. get_block m p d) ps) ps"

lemma set_blocks_of: "(c, p) \<in> set (blocks_of m d ps) \<Longrightarrow> p \<in> set ps \<and> c = get_block m p d"
  by (auto simp: blocks_of_def in_set_zip)

lemma bucket_key_block:
  assumes "(c, p) \<in> set (blocks_of m (depth div 8 * 8) ps)" "\<forall>p\<in>set ps. depth div 8 * 8 \<le> get_key_length m p"
  shows "bucket_key depth (c, p) = unat (pad (zero_key m p) depth)"
  using set_blocks_of [OF assms(1)] assms(2) bucket_of_block [of depth m p] by (simp add: bucket_key_def)

lemma segment_zip: "segment h t (zip xs ys) = zip (segment h t xs) (segment h t ys)"
  by (simp add: segment_def drop_zip take_zip)

lemma div8_less: "d < 8 * (d div 8) + (8 :: nat)"
  by presburger

lemma next_depth_cases:
  "(depth + 1) mod 8 = 0 \<Longrightarrow> depth + 1 = depth div 8 * 8 + (8 :: nat)"
  "(depth + 1) mod 8 \<noteq> 0 \<Longrightarrow> (depth + 1) div 8 * 8 = depth div 8 * (8 :: nat)"
  by presburger+

lemma bucket_sort_input:
  assumes inv: "buckets_inv m depth swapped xs eq0 cw pw i h r" and i: "i < 256"
    and xs: "xs = blocks_of m (depth div 8 * 8) ps" and z: "zip cw pw = buckets (bucket_key depth) xs 256"
    and len: "length cw = length pw"
    and t: "t = length (buckets (bucket_key depth) xs (Suc i))"
    and keys: "keys_ok m L depth (set ps)" and D: "depth div 8 * 8 < L" "\<forall>p\<in>set ps. depth div 8 * 8 \<le> get_key_length m p"
    and sw: "swapped \<longleftrightarrow> odd depth"
  shows "sort_input m L (depth + 1) (\<not> swapped) (swap_arrays (sub_arrays h t r))"
    and "pointers (swap_arrays (sub_arrays h t r)) = segment h t pw"
    and "\<And>p. p \<in> set (segment h t pw) \<Longrightarrow> p \<in> set ps \<and> unat (pad (zero_key m p) depth) = i"
proof -
  let ?s = "swap_arrays (sub_arrays h t r)" and ?D = "depth div 8 * 8"
  have wf: "wf_arrays (length pw) r" and h: "h = length (buckets (bucket_key depth) xs i)"
    using inv by (auto simp: buckets_inv_def)
  have lenz: "length pw = length (buckets (bucket_key depth) xs 256)"
    using arg_cong [OF z, of length] len by simp
  have ht: "h \<le> t" "t \<le> length pw"
    using length_buckets_mono [of "Suc i" 256 "bucket_key depth" xs] i h t lenz by simp_all
  show p: "pointers ?s = segment h t pw"
    using inv by (auto simp: swap_arrays_def sub_arrays_def buckets_inv_def intro: drop_segment_cong)
  have c: "cache ?s = segment h t cw"
    using inv by (auto simp: swap_arrays_def sub_arrays_def buckets_inv_def intro: drop_segment_cong)
  have seg: "zip (segment h t cw) (segment h t pw) = bucket (bucket_key depth) xs i"
    unfolding segment_zip [symmetric] z h t by (rule segment_buckets [OF i])
  have lens: "length (segment h t cw) = t - h" "length (segment h t pw) = t - h" using ht len by simp_all
  have elem: "p \<in> set ps \<and> c = get_block m p ?D \<and> unat (pad (zero_key m p) depth) = i"
    if "(c, p) \<in> set (zip (segment h t cw) (segment h t pw))" for c p
    using that set_blocks_of [of c p m ?D ps] bucket_key_block [of c p m depth ps] D(2)
    by (auto simp: seg bucket_def xs)
  show mem: "p \<in> set ps \<and> unat (pad (zero_key m p) depth) = i" if "p \<in> set (segment h t pw)" for p
  proof -
    obtain k where "k < t - h" "p = segment h t pw ! k" using \<open>p \<in> set _\<close> lens by (metis in_set_conv_nth)
    then have "(segment h t cw ! k, p) \<in> set (zip (segment h t cw) (segment h t pw))"
      using lens by (auto simp: in_set_zip)
    then show ?thesis using elem by blast
  qed
  have cmap: "segment h t cw = map (\<lambda>p. get_block m p ?D) (segment h t pw)"
  proof (rule nth_equalityI)
    fix k assume k: "k < length (segment h t cw)"
    then have "(segment h t cw ! k, segment h t pw ! k) \<in> set (zip (segment h t cw) (segment h t pw))"
      using lens by (auto simp: in_set_zip)
    from elem [OF this] k lens show "segment h t cw ! k = map (\<lambda>p. get_block m p ?D) (segment h t pw) ! k"
      by simp
  qed (use lens in simp)
  have keys': "keys_ok m L (depth + 1) (set (segment h t pw))"
    using keys mem by (auto simp: keys_ok_def agree_Suc) (metis word_unat_eq_iff)
  have Dmem: "\<forall>p\<in>set (segment h t pw). ?D \<le> get_key_length m p" using mem D(2) by blast
  have eq: "get_block m p ?D = get_block m q ?D"
    if "(depth + 1) mod 8 = 0" "p \<in> set (segment h t pw)" "q \<in> set (segment h t pw)" for p q
    using that keys' Dmem next_depth_cases(1) [OF that(1)]
    by (intro agree_imp_block_eq [of "depth + 1"]) (auto simp: keys_ok_def)
  have "if (depth + 1) mod 8 = 0 then \<forall>c\<in>set (cache ?s). \<forall>c'\<in>set (cache ?s). c = c'
      else cache_ok m L ((depth + 1) div 8 * 8) ?s"
  proof (cases "(depth + 1) mod 8 = 0")
    case True
    have "x = y" if x: "x \<in> set (cache ?s)" and y: "y \<in> set (cache ?s)" for x y
    proof -
      obtain p q where "p \<in> set (segment h t pw)" "x = get_block m p ?D"
        "q \<in> set (segment h t pw)" "y = get_block m q ?D"
        using x y unfolding c cmap by auto
      with eq [OF True] show ?thesis by blast
    qed
    then show ?thesis unfolding if_P [OF True] by blast
  next
    case False
    then show ?thesis unfolding cache_ok_def next_depth_cases(2) [OF False] c p
      using cmap D(1) Dmem by (simp del: One_nat_def)
  qed
  moreover have "wf_arrays (t - h) ?s" using wf ht by simp
  moreover have "depth + 1 \<le> L + 7" using D(1) div8_less [of depth] by simp
  moreover have "\<not> swapped \<longleftrightarrow> odd (depth + 1)" using sw by simp
  ultimately show "sort_input m L (depth + 1) (\<not> swapped) ?s"
    unfolding sort_input_def p lens(2) using keys' by blast
qed

lemma out_of_put [simp]:
  "out_of swapped (put_arrays h (swap_arrays s) r) = splice_at h (out_of (\<not> swapped) s) (out_of swapped r)"
  by (simp add: out_of_def put_arrays_def swap_arrays_def)

lemma drop_cong_mono: "drop h xs = drop h ys \<Longrightarrow> h \<le> t \<Longrightarrow> drop t xs = drop t ys"
  by (metis drop_drop le_add_diff_inverse2)

lemma buckets_step:
  assumes inv: "buckets_inv m depth swapped xs eq0 cw pw i h r" and i: "i < 256"
    and xs: "xs = blocks_of m (depth div 8 * 8) ps" and z: "zip cw pw = buckets (bucket_key depth) xs 256"
    and len: "length cw = length pw"
    and t: "t = length (buckets (bucket_key depth) xs (Suc i))"
    and keys: "keys_ok m L depth (set ps)" and D: "depth div 8 * 8 < L" "\<forall>p\<in>set ps. depth div 8 * 8 \<le> get_key_length m p"
    and sw: "swapped \<longleftrightarrow> odd depth"
    and rec: "sorting_call m L (depth + 1) (\<not> swapped) rec"
  shows "\<exists>s. rec (swap_arrays (sub_arrays h t r)) = Some s \<and>
     buckets_inv m depth swapped xs eq0 cw pw (Suc i) t (put_arrays h (swap_arrays s) r)"
proof -
  let ?s = "swap_arrays (sub_arrays h t r)"
  note sub = bucket_sort_input [OF inv i xs z len t keys D sw]
  obtain s where s: "rec ?s = Some s" "sort_output m (\<not> swapped) ?s s"
    using rec sub(1) by (auto simp: sorting_call_def)
  have h: "h = length (buckets (bucket_key depth) xs i)" and wf: "wf_arrays (length pw) r"
    using inv by (auto simp: buckets_inv_def)
  have lenz: "length pw = length (buckets (bucket_key depth) xs 256)"
    using arg_cong [OF z, of length] len by simp
  have ht: "h \<le> t" "t \<le> length pw"
    using length_buckets_mono [of "Suc i" 256 "bucket_key depth" xs] i h t lenz by simp_all
  have before: "p \<in> set ps \<and> unat (pad (zero_key m p) depth) < i" if p: "p \<in> set (take h pw)" for p
  proof -
    have "zip (take h cw) (take h pw) = buckets (bucket_key depth) xs i"
      using take_buckets [of i 256 "bucket_key depth" xs] i unfolding take_zip [symmetric] z h by simp
    moreover have "p \<in> set (map snd (zip (take h cw) (take h pw)))"
      using p len ht by (auto simp: map_snd_zip_take min_def dest: in_set_takeD)
    ultimately obtain c where "(c, p) \<in> set (buckets (bucket_key depth) xs i)" by auto
    then have "(c, p) \<in> set xs" "bucket_key depth (c, p) < i" by (simp_all add: set_buckets)
    then show ?thesis
      using set_blocks_of [of c p m "depth div 8 * 8" ps] bucket_key_block [of c p m depth ps] D(2) xs by simp
  qed
  have less: "zero_key m p < zero_key m q" if p: "p \<in> set (take h pw)" and q: "q \<in> set (segment h t pw)" for p q
  proof -
    have "pad (zero_key m p) depth < pad (zero_key m q) depth"
      using before [OF p] sub(3) [OF q] by (simp add: word_less_nat_alt)
    moreover have "agree depth (zero_key m p) (zero_key m q)"
      using before [OF p] sub(3) [OF q] keys by (simp add: keys_ok_def)
    ultimately show ?thesis by (rule_tac pad_first_diff_less)
  qed
  have lens: "wf_arrays (t - h) s" using s(2) sub(2) ht by (simp add: sort_output_def)
  have "done_upto (zero_key m) t pw eq0 (splice_at h (out_of (\<not> swapped) s) (out_of swapped r))
      (splice_at h (equals_to_left s) (equals_to_left r))"
  proof (rule done_upto_extend)
    show "done_upto (zero_key m) h pw eq0 (out_of swapped r) (equals_to_left r)"
      using inv unfolding buckets_inv_def by blast
    show "mset (out_of (\<not> swapped) s) = mset (segment h t pw)"
      "sorted (map (zero_key m) (out_of (\<not> swapped) s))"
      using s(2) sub(2) by (simp_all add: sort_output_def)
    show "marks (zero_key m) (segment h t (equals_to_left r)) (out_of (\<not> swapped) s) (equals_to_left s)"
      using s(2) by (simp add: sort_output_def swap_arrays_def sub_arrays_def)
  qed (use ht less in auto)
  moreover have "drop t (cache_work r) = drop t cw" "drop t (pointers_work r) = drop t pw"
    using inv ht(1) unfolding buckets_inv_def by (blast intro: drop_cong_mono)+
  then have "drop t (cache_work (put_arrays h (swap_arrays s) r)) = drop t cw"
    "drop t (pointers_work (put_arrays h (swap_arrays s) r)) = drop t pw"
    using ht lens wf by (simp_all add: put_arrays_def swap_arrays_def wf_arrays_def)
  ultimately have "buckets_inv m depth swapped xs eq0 cw pw (Suc i) t (put_arrays h (swap_arrays s) r)"
    using wf t unfolding buckets_inv_def out_of_put wf_arrays_simps
    by (simp add: put_arrays_def swap_arrays_def)
  with s(1) show ?thesis by blast
qed

lemma sort_buckets_correct:
  assumes xs: "xs = blocks_of m (depth div 8 * 8) ps" and z: "zip cw pw = buckets (bucket_key depth) xs 256"
    and len: "length cw = length pw"
    and bins: "\<And>i. i < 256 \<Longrightarrow> bins ! i = length (buckets (bucket_key depth) xs (Suc i))"
    and keys: "keys_ok m L depth (set ps)" and D: "depth div 8 * 8 < L" "\<forall>p\<in>set ps. depth div 8 * 8 \<le> get_key_length m p"
    and sw: "swapped \<longleftrightarrow> odd depth"
    and rec: "sorting_call m L (depth + 1) (\<not> swapped) rec"
    and r: "wf_arrays (length pw) r" "cache_work r = cw" "pointers_work r = pw"
  shows "\<exists>h r'. sort_buckets rec bins r = Some (h, r') \<and>
    buckets_inv m depth swapped xs (equals_to_left r) cw pw 256 h r'"
proof -
  let ?P = "\<lambda>i st. \<exists>h r'. st = Some (h, r') \<and> buckets_inv m depth swapped xs (equals_to_left r) cw pw i h r'"
  show ?thesis unfolding sort_buckets_def
  proof (rule fold_upt_invariant [where P = ?P])
    have "length (out_of swapped r) = length pw" "length (equals_to_left r) = length pw"
      using r by (auto simp: out_of_def wf_arrays_def)
    then show "?P 0 (Some (0, r))" using r by (simp add: buckets_inv_def)
  next
    fix i st assume i: "i < 256" and P: "?P i st"
    then obtain h r' where st: "st = Some (h, r')"
      and inv: "buckets_inv m depth swapped xs (equals_to_left r) cw pw i h r'" by blast
    from buckets_step [OF inv i xs z len bins [OF i] keys D sw rec]
    show "?P (Suc i) (case st of None \<Rightarrow> None | Some (head, r) \<Rightarrow> let tail = bins ! i in
         (case rec (swap_arrays (sub_arrays head tail r)) of None \<Rightarrow> None
          | Some s \<Rightarrow> Some (tail, put_arrays head (swap_arrays s) r)))"
      unfolding st by auto
  qed
qed

subsection \<open>Correctness of the sort\<close>

lemma all_finished_keys_equal:
  assumes "keys_ok m L depth P" "\<And>p. p \<in> P \<Longrightarrow> get_key_length m p \<le> depth" "p \<in> P" "q \<in> P"
  shows "zero_key m p = zero_key m q"
  using assms by (auto simp: keys_ok_def zero_key_def intro!: agree_strip_zeros_eq [of depth])

lemma unfinished_block_start:
  assumes "keys_ok m L depth P" "depth mod 8 = 0" "p \<in> P" "depth < get_key_length m p" "q \<in> P"
  shows "depth \<le> get_key_length m q"
  using assms by (auto simp: keys_ok_def block_comparable_def)

lemma length_mark_fold [simp]:
  "length (fold (\<lambda>i e. if c ! i = c ! (i - Suc 0) then e[i := True] else e) is e) = length e"
  by (induction "is" arbitrary: e) auto

lemma mark_fold:
  "k < length e \<Longrightarrow> fold (\<lambda>i e. if c ! i = c ! (i - 1) then e[i := True] else e) [1..<n] e ! k =
     (if 1 \<le> k \<and> k < n \<and> c ! k = c ! (k - 1) then True else e ! k)"
proof (induction n)
  case (Suc n)
  show ?case
  proof (cases "1 \<le> n")
    case True
    then show ?thesis using Suc length_mark_fold [of c "[1..<n]" e]
      by (auto simp: nth_list_update less_Suc_eq)
  next
    case False
    then have "n = 0" by simp
    then show ?thesis by auto
  qed
qed simp

lemma finished_output:
  assumes inp: "sort_input m L depth swapped r" and d: "depth mod 8 = 0" and fin: "all_keys_finished m depth r"
  shows "sort_output m swapped r (mark_equal_caches (refresh_blocks m depth r))"
proof -
  let ?n = "length (pointers r)"
  have wf: "wf_arrays ?n r" and sw: "\<not> swapped"
    using inp d by (auto simp: sort_input_def)
  have same: "zero_key m p = zero_key m q" if "p \<in> set (pointers r)" "q \<in> set (pointers r)" for p q
    using inp fin that
    by (intro all_finished_keys_equal [of m L depth "set (pointers r)"])
      (auto simp: sort_input_def all_keys_finished_def list_all_iff not_less)
  have caches: "cache r ! i = cache r ! j" if "i < ?n" "j < ?n" for i j
    using inp d that wf by (auto simp: sort_input_def wf_arrays_def)
  have "sorted (map (zero_key m) (pointers r))"
    unfolding sorted_iff_nth_mono
    by (auto intro!: eq_refl same)
  moreover have "marks (zero_key m) (equals_to_left r) (pointers r) (equals_to_left (mark_equal_caches (refresh_blocks m depth r)))"
    unfolding marks_def
  proof (intro conjI allI impI)
    fix i assume i: "i < ?n"
    have "0 < i \<Longrightarrow> zero_key m (pointers r ! i) = zero_key m (pointers r ! (i - 1))"
      "0 < i \<Longrightarrow> cache r ! i = cache r ! (i - 1)"
      using i by (auto intro!: same caches)
    then show "equals_to_left (mark_equal_caches (refresh_blocks m depth r)) ! i \<longleftrightarrow>
        equals_to_left r ! i \<or> 0 < i \<and> zero_key m (pointers r ! i) = zero_key m (pointers r ! (i - 1))"
      using i wf mark_fold [of i "equals_to_left r" "cache r" ?n]
      by (auto simp: mark_equal_caches_def refresh_blocks_def wf_arrays_def)
  qed (use wf in \<open>auto simp: mark_equal_caches_def refresh_blocks_def wf_arrays_def\<close>)
  ultimately show ?thesis
    using wf sw
    by (simp add: sort_output_def out_of_def)
      (simp add: mark_equal_caches_def refresh_blocks_def wf_arrays_def)
qed

text \<open>The state the two sorting branches start from: the blocks at the current block start.\<close>

definition refreshed :: "mem \<Rightarrow> nat \<Rightarrow> radix_arrays \<Rightarrow> radix_arrays" where
  "refreshed m depth r =
     (if depth mod 8 = 0 then (refresh_blocks m depth r)\<lparr>cache := cache_work (refresh_blocks m depth r)\<rparr> else r)"

lemma refreshed_simps [simp]:
  "pointers (refreshed m depth r) = pointers r" "equals_to_left (refreshed m depth r) = equals_to_left r"
  by (simp_all add: refreshed_def refresh_blocks_def)

lemma refreshed_cache_ok:
  assumes inp: "sort_input m L depth swapped r" and n: "0 < length (pointers r)"
    and nf: "depth mod 8 = 0 \<Longrightarrow> \<not> all_keys_finished m depth r"
  shows "cache_ok m L (depth div 8 * 8) (refreshed m depth r)" "wf_arrays (length (pointers r)) (refreshed m depth r)"
proof -
  show "wf_arrays (length (pointers r)) (refreshed m depth r)"
    using inp by (auto simp: sort_input_def wf_arrays_def refreshed_def refresh_blocks_def)
  show "cache_ok m L (depth div 8 * 8) (refreshed m depth r)"
  proof (cases "depth mod 8 = 0")
    case True
    then have d: "depth div 8 * 8 = depth" by presburger
    obtain p where p: "p \<in> set (pointers r)" "depth < get_key_length m p"
      using nf [OF True] by (auto simp: all_keys_finished_def list_all_iff)
    then have "\<forall>q\<in>set (pointers r). depth \<le> get_key_length m q"
      using inp True unfinished_block_start [of m L depth "set (pointers r)" p] by (auto simp: sort_input_def)
    moreover have "depth < L" using p inp by (fastforce simp: sort_input_def keys_ok_def)
    ultimately show ?thesis
      using True d by (simp add: cache_ok_def refreshed_def refresh_blocks_def)
  next
    case False
    then show ?thesis using inp by (simp add: sort_input_def refreshed_def)
  qed
qed

lemma sorts_blocks:
  assumes c: "c = map f p" and s: "sorts c p c' p'"
  shows "c' = map f p'" "mset p' = mset p" "length p' = length p" "sorted c'"
proof -
  have len: "length c' = length c" "length p' = length p" and perm: "mset (zip c' p') = mset (zip c p)"
    and so: "sorted c'" using s by (auto simp: sorts_def)
  then show "length p' = length p" "sorted c'" by simp_all
  show "mset p' = mset p"
    using perm len c by (metis length_map map_snd_zip mset_map)
  show "c' = map f p'"
  proof (rule nth_equalityI)
    fix i assume i: "i < length c'"
    then have "(c' ! i, p' ! i) \<in> set (zip c' p')" using len c by (auto simp: in_set_zip)
    then have "(c' ! i, p' ! i) \<in> set (zip c p)" using perm by (metis set_mset_mset)
    then show "c' ! i = map f p' ! i" using i len c by (auto simp: in_set_zip)
  qed (use len c in simp)
qed

definition small_start :: "bool \<Rightarrow> radix_arrays \<Rightarrow> radix_arrays" where
  "small_start swapped r =
     (if swapped then swap_arrays (r\<lparr>cache_work := cache r, pointers_work := pointers r\<rparr>) else r)"

lemma small_start_simps [simp]:
  "cache (small_start swapped r) = cache r" "pointers (small_start swapped r) = pointers r"
  "equals_to_left (small_start swapped r) = equals_to_left r"
  "wf_arrays n r \<Longrightarrow> wf_arrays n (small_start swapped r)"
  by (auto simp: small_start_def swap_arrays_def wf_arrays_def)

lemma small_branch:
  assumes keys: "keys_ok m L depth (set (pointers r))" and ck: "cache_ok m L (depth div 8 * 8) r"
    and wf: "wf_arrays (length (pointers r)) r"
    and rec: "sorting_call m L (depth div 8 * 8 + 8) False rec"
  shows "\<exists>c p r'. quick_sort (cache (small_start swapped r)) (pointers (small_start swapped r)) = Some (c, p) \<and>
     sort_groups rec (length (pointers r)) ((small_start swapped r)\<lparr>cache := c, pointers := p\<rparr>) 0 = Some r' \<and>
     sort_output m swapped r (if swapped then swap_arrays r' else r')"
proof -
  let ?D = "depth div 8 * 8" and ?n = "length (pointers r)"
  have D: "?D mod 8 = 0" "?D < L" using ck by (simp_all add: cache_ok_def)
  have cache: "cache r = map (\<lambda>p. get_block m p ?D) (pointers r)" using ck by (simp add: cache_ok_def)
  obtain c p where q: "quick_sort (cache r) (pointers r) = Some (c, p)" "sorts (cache r) (pointers r) c p"
    using quick_sort_sorts [of "pointers r" "cache r"] wf by (auto simp: wf_arrays_def)
  note s = sorts_blocks [OF cache q(2)]
  have P: "set p = set (pointers r)" using s(2) by (metis set_mset_mset)
  have keysD: "keys_ok m L ?D (set p)"
    using keys unfolding P keys_ok_def by (meson agree_mono div_times_less_eq_dividend)
  have Dlen: "\<forall>q\<in>set p. ?D \<le> get_key_length m q"
    using ck unfolding P cache_ok_def by blast
  let ?r0 = "(small_start swapped r)\<lparr>cache := c, pointers := p\<rparr>"
  have len: "length p = ?n" by (rule s(3))
  have "wf_arrays ?n (small_start swapped r)" using wf by simp
  then have wf0: "wf_arrays (length p) ?r0" using len s(1) by (simp add: wf_arrays_def)
  have "groups_inv m c p (equals_to_left r) 0 ?r0"
    using wf0 len wf by (simp add: groups_inv_def wf_arrays_def)
  then obtain r' where r': "sort_groups rec (length p) ?r0 0 = Some r'"
    "groups_inv m c p (equals_to_left r) (length p) r'"
    using sort_groups_correct [OF rec keysD s(1) Dlen s(4) D] by blast
  have d: "done_upto (zero_key m) (length p) p (equals_to_left r) (pointers r') (equals_to_left r')"
    and wf': "wf_arrays (length p) r'"
    using r'(2) by (simp_all add: groups_inv_def)
  have out: "out_of swapped (if swapped then swap_arrays r' else r') = pointers r'"
    "equals_to_left (if swapped then swap_arrays r' else r') = equals_to_left r'"
    by (simp_all add: out_of_def swap_arrays_def)
  have "sort_output m swapped r (if swapped then swap_arrays r' else r')"
    unfolding sort_output_def out using done_upto_whole [OF d] wf' s(2) len by simp
  with q(1) r'(1) len show ?thesis by auto
qed

lemma big_branch:
  assumes keys: "keys_ok m L depth (set (pointers r))" and ck: "cache_ok m L (depth div 8 * 8) r"
    and wf: "wf_arrays (length (pointers r)) r" and sw: "swapped \<longleftrightarrow> odd depth"
    and rec: "sorting_call m L (depth + 1) (\<not> swapped) rec"
    and d: "distribute ((7 - depth mod 8) * 8) r (bucket_starts (count_buckets ((7 - depth mod 8) * 8) (cache r))) = (bins, cw, pw)"
  shows "\<exists>h r'. sort_buckets rec bins (r\<lparr>cache_work := cw, pointers_work := pw\<rparr>) = Some (h, r') \<and>
     sort_output m swapped r r'"
proof -
  let ?D = "depth div 8 * 8" and ?n = "length (pointers r)"
  define xs where "xs = blocks_of m ?D (pointers r)"
  have D: "?D < L" "\<forall>p\<in>set (pointers r). ?D \<le> get_key_length m p"
    and cache: "cache r = map (\<lambda>p. get_block m p ?D) (pointers r)"
    using ck by (simp_all add: cache_ok_def)
  have key: "bucket_key depth = (\<lambda>z. bucket_of ((7 - depth mod 8) * 8) (fst z))"
    by (simp add: bucket_key_def fun_eq_iff)
  have zip: "zip (cache r) (pointers r) = xs" by (simp add: xs_def blocks_of_def cache)
  note dist = distribute_buckets [OF wf d, folded key, unfolded zip]
  have len: "length cw = length pw" "length pw = ?n" using dist(1,2) by simp_all
  let ?r = "r\<lparr>cache_work := cw, pointers_work := pw\<rparr>"
  have "wf_arrays (length pw) ?r" using wf len by (simp add: wf_arrays_def)
  from sort_buckets_correct [OF xs_def dist(3) len(1) dist(4) keys D sw rec this]
  obtain h r' where r': "sort_buckets rec bins ?r = Some (h, r')"
    "buckets_inv m depth swapped xs (equals_to_left r) cw pw 256 h r'" by auto
  have "mset (zip cw pw) = mset xs"
    unfolding dist(3) by (rule buckets_all) (simp add: bucket_key_def bucket_of_less)
  then have perm: "mset pw = mset (pointers r)"
    using len(1) by (metis map_snd_zip mset_map xs_def blocks_of_def length_map)
  have "h = length (zip cw pw)" using r'(2) unfolding dist(3) buckets_inv_def by blast
  then have h: "h = length pw" using len by simp
  have du: "done_upto (zero_key m) (length pw) pw (equals_to_left r) (out_of swapped r') (equals_to_left r')"
    and wf': "wf_arrays ?n r'"
    using r'(2) unfolding h buckets_inv_def len(2) by blast+
  have "sort_output m swapped r r'"
    unfolding sort_output_def using done_upto_whole [OF du] wf' perm by simp
  with r'(1) show ?thesis by blast
qed

lemma msd_radix_sort_contract:
  "L + 8 \<le> depth + fuel \<Longrightarrow> sorting_call m L depth swapped (\<lambda>r. msd_radix_sort fuel m r depth swapped)"
proof (induction fuel arbitrary: depth swapped)
  case 0
  then show ?case by (simp add: sorting_call_def sort_input_def)
next
  case (Suc fuel)
  have "\<exists>r'. msd_radix_sort (Suc fuel) m r depth swapped = Some r' \<and> sort_output m swapped r r'"
    if inp: "sort_input m L depth swapped r" for r
  proof -
    let ?n = "length (pointers r)" and ?D = "depth div 8 * 8"
    have keys: "keys_ok m L depth (set (pointers r))" and sw: "swapped \<longleftrightarrow> odd depth"
      using inp by (simp_all add: sort_input_def)
    consider "?n = 0" | "0 < ?n" "depth mod 8 = 0" "all_keys_finished m depth r"
      | "0 < ?n" "depth mod 8 = 0 \<longrightarrow> \<not> all_keys_finished m depth r" by (metis neq0_conv)
    then show ?thesis
    proof cases
      case 1
      with inp have "sort_output m swapped r r"
        by (auto simp: sort_input_def sort_output_def wf_arrays_def out_of_def marks_def)
      with 1 show ?thesis by simp
    next
      case 2
      with finished_output [OF inp 2(2,3)] show ?thesis by (auto simp: Let_def)
    next
      case 3
      let ?r = "refreshed m depth r"
      note ok = refreshed_cache_ok [OF inp 3(1) 3(2) [rule_format]]
      have out: "sort_output m swapped ?r r' = sort_output m swapped r r'" for r'
        by (simp add: sort_output_def)
      show ?thesis
      proof (cases "?n < 256")
        case True
        have "sorting_call m L (?D + 8) False (\<lambda>s. msd_radix_sort fuel m s (?D + 8) False)"
          by (rule Suc.IH) (use Suc.prems div8_less [of depth] in simp)
        from small_branch [of m L depth ?r, OF _ ok(1) _ this, of swapped] keys ok(2)
        obtain c p r' where q: "quick_sort (cache (small_start swapped ?r)) (pointers (small_start swapped ?r)) = Some (c, p)"
          "sort_groups (\<lambda>s. msd_radix_sort fuel m s (?D + 8) False) ?n
             ((small_start swapped ?r)\<lparr>cache := c, pointers := p\<rparr>) 0 = Some r'"
          "sort_output m swapped ?r (if swapped then swap_arrays r' else r')" by auto
        have nd: "(depth + 8) div 8 * 8 = ?D + 8" by presburger
        have "msd_radix_sort (Suc fuel) m r depth swapped = Some (if swapped then swap_arrays r' else r')"
          using 3 True q(1,2) by (simp add: Let_def nd refreshed_def small_start_def split: if_splits)
        with q(3) out show ?thesis by auto
      next
        case False
        let ?s = "(7 - depth mod 8) * 8"
        obtain bins cw pw where d: "distribute ?s ?r (bucket_starts (count_buckets ?s (cache ?r))) = (bins, cw, pw)"
          by (metis prod_cases3)
        have "sorting_call m L (depth + 1) (\<not> swapped) (\<lambda>s. msd_radix_sort fuel m s (depth + 1) (\<not> swapped))"
          by (rule Suc.IH) (use Suc.prems in simp)
        from big_branch [of m L depth ?r, OF _ ok(1) _ sw this d] keys ok(2)
        obtain h r' where b: "sort_buckets (\<lambda>s. msd_radix_sort fuel m s (depth + 1) (\<not> swapped)) bins
            (?r\<lparr>cache_work := cw, pointers_work := pw\<rparr>) = Some (h, r')" "sort_output m swapped ?r r'" by auto
        have "msd_radix_sort (Suc fuel) m r depth swapped = Some r'"
          using 3 False b(1) d by (simp add: Let_def refreshed_def split: if_splits)
        with b(2) out show ?thesis by auto
      qed
    qed
  qed
  then show ?case by (simp add: sorting_call_def)
qed

lemma msd_radix_sort_blocks:
  assumes "wf_arrays (length (pointers r)) r"
    and "\<forall>p\<in>set (pointers r). \<forall>q\<in>set (pointers r). block_comparable (key_of m p) (key_of m q)"
    and "\<forall>p\<in>set (pointers r). get_key_length m p \<le> L"
    and "cache r = replicate (length (pointers r)) 0" and "L + 8 \<le> fuel"
  shows "\<exists>r'. msd_radix_sort fuel m r 0 False = Some r' \<and>
    mset (pointers r') = mset (pointers r) \<and> sorted (map (zero_key m) (pointers r')) \<and>
    (\<forall>i<length (pointers r). equals_to_left r' ! i \<longleftrightarrow>
       equals_to_left r ! i \<or> (0 < i \<and> zero_key m (pointers r' ! i) = zero_key m (pointers r' ! (i - 1)))) \<and>
    wf_arrays (length (pointers r)) r'"
proof -
  have "sort_input m L 0 False r"
    using assms by (auto simp: sort_input_def keys_ok_def)
  then obtain r' where r': "msd_radix_sort fuel m r 0 False = Some r'" "sort_output m False r r'"
    using msd_radix_sort_contract [of L 0 fuel m False] assms(5) by (auto simp: sorting_call_def)
  moreover have wf: "wf_arrays (length (pointers r)) r'" "length (pointers r') = length (pointers r)"
    using r'(2) by (simp_all add: sort_output_def wf_arrays_def)
  ultimately show ?thesis
    by (auto simp: sort_output_def out_of_def marks_def)
qed

text \<open>On discriminable keys this is the order of the keys themselves.\<close>

lemma sorted_zero_key:
  assumes "sorted (map (zero_key m) ps)" "\<forall>p\<in>set ps. \<forall>q\<in>set ps. discriminable (key_of m p) (key_of m q)"
  shows "sorted (map (key_of m) ps)"
  using assms strip_zeros_le_discriminable by (auto simp: sorted_map sorted_wrt_iff_nth_less zero_key_def)

lemma msd_radix_sort_fresh:
  assumes "wf_arrays (length (pointers r)) r"
    and d: "\<forall>p\<in>set (pointers r). \<forall>q\<in>set (pointers r). discriminable (key_of m p) (key_of m q)"
    and "\<forall>p\<in>set (pointers r). get_key_length m p \<le> L"
    and "cache r = replicate (length (pointers r)) 0" and "L + 8 \<le> fuel"
  shows "\<exists>r'. msd_radix_sort fuel m r 0 False = Some r' \<and>
    mset (pointers r') = mset (pointers r) \<and> sorted (map (key_of m) (pointers r')) \<and>
    (\<forall>i<length (pointers r). equals_to_left r' ! i \<longleftrightarrow>
       equals_to_left r ! i \<or> (0 < i \<and> key_of m (pointers r' ! i) = key_of m (pointers r' ! (i - 1)))) \<and>
    wf_arrays (length (pointers r)) r'"
proof -
  obtain r' where r': "msd_radix_sort fuel m r 0 False = Some r'" "mset (pointers r') = mset (pointers r)"
    "sorted (map (zero_key m) (pointers r'))" "wf_arrays (length (pointers r)) r'"
    and marks: "\<forall>i<length (pointers r). equals_to_left r' ! i \<longleftrightarrow>
       equals_to_left r ! i \<or> (0 < i \<and> zero_key m (pointers r' ! i) = zero_key m (pointers r' ! (i - 1)))"
    using msd_radix_sort_blocks [of r m L fuel] assms discriminable_block_comparable by blast
  have P: "set (pointers r') = set (pointers r)" "length (pointers r') = length (pointers r)"
    using r'(2) by (metis set_mset_mset, metis size_mset)
  have "zero_key m (pointers r' ! i) = zero_key m (pointers r' ! j) \<longleftrightarrow> key_of m (pointers r' ! i) = key_of m (pointers r' ! j)"
    if "i < length (pointers r)" "j < length (pointers r)" for i j
    using d that P strip_zeros_eq_discriminable unfolding zero_key_def by (metis nth_mem)
  then have "\<forall>i<length (pointers r). equals_to_left r' ! i \<longleftrightarrow>
       equals_to_left r ! i \<or> (0 < i \<and> key_of m (pointers r' ! i) = key_of m (pointers r' ! (i - 1)))"
    using marks by simp
  moreover have "sorted (map (key_of m) (pointers r'))"
    by (rule sorted_zero_key [OF r'(3)]) (use d P in simp)
  ultimately show ?thesis using r' by blast
qed

subsection \<open>Properties\<close>

text \<open>
  C1: \<open>msd_radix_sort\<close>, called the way \<open>sort_records\<close> calls it (fresh caches, depth 0, not swapped)
  on records whose keys are pairwise discriminable and at most \<open>L\<close> bytes long, returns within
  recursion depth \<open>L + 8\<close>; the pointers are permuted so that the keys are in lexicographic
  (memcmp) order, and \<open>equals_to_left\<close> gets a mark at exactly the records whose key equals the key
  of the record before.
\<close>
theorem msd_radix_sort_correct:
  assumes "wf_arrays (length (pointers r)) r"
    and "\<forall>p\<in>set (pointers r). \<forall>q\<in>set (pointers r). discriminable (key_of m p) (key_of m q)"
    and "\<forall>p\<in>set (pointers r). get_key_length m p \<le> L"
    and "cache r = replicate (length (pointers r)) 0" and "L + 8 \<le> fuel"
  shows "\<exists>r'. msd_radix_sort fuel m r 0 False = Some r' \<and>
    mset (pointers r') = mset (pointers r) \<and> sorted (map (key_of m) (pointers r')) \<and>
    (\<forall>i<length (pointers r). equals_to_left r' ! i \<longleftrightarrow>
       equals_to_left r ! i \<or> (0 < i \<and> key_of m (pointers r' ! i) = key_of m (pointers r' ! (i - 1))))"
  using msd_radix_sort_fresh [OF assms] by blast

text \<open>A memory that holds a given list of bytes from address 0, zero elsewhere.\<close>

definition mem_of :: "u8 list \<Rightarrow> mem" where
  "mem_of bs = (\<lambda>a. if a < length bs then bs ! a else 0)"

definition record_bytes :: "u8 list \<Rightarrow> u8 list \<Rightarrow> u8 list" where
  "record_bytes k v = le_bytes 8 (16 + length k + length v) @ le_bytes 8 (length k) @ k @ v"

definition fresh_arrays :: "addr list \<Rightarrow> radix_arrays" where
  "fresh_arrays ps =
     \<lparr>equals_to_left = replicate (length ps) False, cache = replicate (length ps) 0, pointers = ps,
      cache_work = replicate (length ps) 0, pointers_work = ps\<rparr>"

text \<open>Three records with the keys "b", "ab" and "b".\<close>

definition sample_mem :: mem where
  "sample_mem = mem_of (record_bytes [98] [1] @ record_bytes [97, 98] [] @ record_bytes [98] [2])"

lemma sample_keys:
  "key_of sample_mem 0 = [98]" "key_of sample_mem 18 = [97, 98]" "key_of sample_mem 36 = [98]"
  "get_key_length sample_mem 0 = 1" "get_key_length sample_mem 18 = 2" "get_key_length sample_mem 36 = 1"
  by code_simp+

theorem msd_radix_sort_correct_witness:
  "\<exists>r'. msd_radix_sort 10 sample_mem (fresh_arrays [0, 18, 36]) 0 False = Some r' \<and>
    mset (pointers r') = {#0, 18, 36#} \<and> sorted (map (key_of sample_mem) (pointers r'))"
proof -
  have "\<forall>p\<in>set [0, 18, 36]. \<forall>q\<in>set [0, 18, 36]. discriminable (key_of sample_mem p) (key_of sample_mem q)"
    by (auto simp: sample_keys intro!: discriminable_zero_free)
  then show ?thesis
    using msd_radix_sort_correct [of "fresh_arrays [0, 18, 36]" sample_mem 2 10]
    by (auto simp: fresh_arrays_def wf_arrays_def sample_keys)
qed

text \<open>
  C2: what the sort compares when keys end in zero bytes. Call two keys comparable when neither is over
  before an 8-byte block that the other one, the same up to there, goes on in (any keys of at most eight
  bytes are). On records whose keys are pairwise comparable in this sense and at most \<open>L\<close> bytes long,
  \<open>msd_radix_sort\<close>, called as \<open>sort_records\<close> calls it, returns within recursion depth \<open>L + 8\<close> with the
  pointers permuted into the lexicographic order of the keys without their trailing zero bytes, and marks
  exactly the records whose key, without these bytes, is that of the record before: keys as "a" and "a\000"
  differ and get the mark of equal keys. Nothing is said of keys that are not comparable.
\<close>
theorem msd_radix_sort_merges_zero_padded_keys:
  assumes "wf_arrays (length (pointers r)) r"
    and "\<forall>p\<in>set (pointers r). \<forall>q\<in>set (pointers r). block_comparable (key_of m p) (key_of m q)"
    and "\<forall>p\<in>set (pointers r). get_key_length m p \<le> L"
    and "cache r = replicate (length (pointers r)) 0" and "L + 8 \<le> fuel"
  shows "\<exists>r'. msd_radix_sort fuel m r 0 False = Some r' \<and>
    mset (pointers r') = mset (pointers r) \<and> sorted (map (\<lambda>p. strip_zeros (key_of m p)) (pointers r')) \<and>
    (\<forall>i<length (pointers r). equals_to_left r' ! i \<longleftrightarrow>
       equals_to_left r ! i \<or> (0 < i \<and> strip_zeros (key_of m (pointers r' ! i)) = strip_zeros (key_of m (pointers r' ! (i - 1)))))"
  using msd_radix_sort_blocks [OF assms] unfolding zero_key_def by blast

text \<open>The keys "a\000", "a" and one of nine bytes, "baaaaaaaa", in another block.\<close>

definition padded_mem :: mem where
  "padded_mem = mem_of (record_bytes [97, 0] [] @ record_bytes [97] [] @ record_bytes (98 # replicate 8 97) [])"

lemma padded_keys:
  "key_of padded_mem 0 = [97, 0]" "key_of padded_mem 18 = [97]" "key_of padded_mem 35 = 98 # replicate 8 97"
  "get_key_length padded_mem 0 = 2" "get_key_length padded_mem 18 = 1" "get_key_length padded_mem 35 = 9"
  by code_simp+

theorem msd_radix_sort_merges_zero_padded_keys_witness:
  "\<exists>r'. msd_radix_sort 17 padded_mem (fresh_arrays [35, 0, 18]) 0 False = Some r' \<and>
     mset (pointers r') = {#0, 18, 35#} \<and>
     sorted (map (\<lambda>p. strip_zeros (key_of padded_mem p)) (pointers r')) \<and>
     strip_zeros (key_of padded_mem 0) = strip_zeros (key_of padded_mem 18) \<and>
     (equals_to_left r' ! 1 \<longleftrightarrow>
        strip_zeros (key_of padded_mem (pointers r' ! 1)) = strip_zeros (key_of padded_mem (pointers r' ! 0)))"
proof -
  let ?r = "fresh_arrays [35, 0, 18]" and ?K = "\<lambda>p. strip_zeros (key_of padded_mem p)"
  have "\<forall>p\<in>set (pointers ?r). \<forall>q\<in>set (pointers ?r). block_comparable (key_of padded_mem p) (key_of padded_mem q)"
    by (simp add: padded_keys fresh_arrays_def short_keys_block_comparable first_byte_block_comparable pad_def
        discriminable_same_length discriminable_block_comparable)
  moreover have "wf_arrays (length (pointers ?r)) ?r" "cache ?r = replicate (length (pointers ?r)) 0"
    "\<forall>p\<in>set (pointers ?r). get_key_length padded_mem p \<le> 9"
    by (simp_all add: fresh_arrays_def wf_arrays_def padded_keys)
  ultimately obtain r' where r': "msd_radix_sort 17 padded_mem ?r 0 False = Some r'"
    "mset (pointers r') = mset (pointers ?r)" "sorted (map ?K (pointers r'))"
    and marks: "\<forall>i<length (pointers ?r). equals_to_left r' ! i \<longleftrightarrow>
       equals_to_left ?r ! i \<or> (0 < i \<and> ?K (pointers r' ! i) = ?K (pointers r' ! (i - 1)))"
    using msd_radix_sort_merges_zero_padded_keys [of ?r padded_mem 9 17] by auto
  have "mset (pointers r') = {#0, 18, 35#}" using r'(2) by (simp add: fresh_arrays_def add_mset_commute)
  moreover have "equals_to_left r' ! 1 \<longleftrightarrow> ?K (pointers r' ! 1) = ?K (pointers r' ! 0)"
    using marks [rule_format, of 1] by (simp add: fresh_arrays_def)
  moreover have "strip_zeros [97, 0] = strip_zeros [97]" by code_simp
  then have "?K 0 = ?K 18" by (simp only: padded_keys)
  ultimately show ?thesis using r'(1,3) by blast
qed

text \<open>
  C3: the block of a position behind the end of the key. \<open>key_len - k\<close> wraps around, so the first
  branch is taken and the block is eight bytes of whatever memory follows the key. The sort asks
  for such a block when a group of equal first blocks holds a key of fewer than eight bytes and
  one of more.
\<close>
theorem get_block_reads_past_key:
  assumes "get_key_length m p < k" "k < 2 ^ 63"
  shows "get_block m p k = block_word (load_bytes m (get_key_pointer p + k) 8)"
proof -
  have "sz_sub (get_key_length m p) k = size_modulus - (k - get_key_length m p)"
    using assms by (intro sz_sub_wraps) (auto simp: size_modulus_def)
  then have "8 \<le> sz_sub (get_key_length m p) k"
    using assms by (simp add: size_modulus_def)
  then show ?thesis by (simp add: get_block_def Let_def bswap64_load)
qed

theorem get_block_reads_past_key_witness:
  "get_block padded_mem 18 8 = block_word (load_bytes padded_mem (get_key_pointer 18 + 8) 8) \<and>
   get_key_length padded_mem 18 = 1"
  using get_block_reads_past_key [of padded_mem 18 8] by (simp add: padded_keys)

end
