(* ===== verification/ShuffleSort.thy ===== *)
theory ShuffleSort
  imports ShufflePartition MsdRadixSort
begin

text \<open>
  The second half of a shuffle: \<open>ShuffleLogicalTask::sort_records\<close> (shuffle_logical_task.cpp, lines
  240 to 332). It collects the records of one partition from every shuffle buffer, sorts them with
  \<open>msd_radix_sort\<close> and writes a grouped buffer. The collecting loops run until the pointer meets
  the end of the partition, so they are partial: \<open>None\<close> is not returning.
\<close>

subsection \<open>Collecting the records\<close>

partial_function (option) count_records :: "mem \<Rightarrow> addr \<Rightarrow> addr \<Rightarrow> size_type \<Rightarrow> size_type option" where
  "count_records m data data_end n =
     (if data = data_end then Some n
      else count_records m (data + (load_size m data + 2 * 8)) data_end (n + 1))"

partial_function (option) collect_pointers :: "mem \<Rightarrow> addr \<Rightarrow> addr \<Rightarrow> addr list \<Rightarrow> addr list option" where
  "collect_pointers m data data_end ps =
     (if data = data_end then Some ps
      else collect_pointers m (data + (load_size m data + 2 * 8)) data_end (ps @ [data]))"

definition partition_begin :: "mem \<Rightarrow> shuffle_buffer \<Rightarrow> nat \<Rightarrow> addr" where
  "partition_begin m b p = sh_data b + load_size m (ar_index (shuffle_offsets b) p)"

definition partition_end :: "mem \<Rightarrow> shuffle_buffer \<Rightarrow> nat \<Rightarrow> addr" where
  "partition_end m b p = sh_data b + load_size m (ar_index (shuffle_offsets b) (p + 1))"

definition total_records :: "mem \<Rightarrow> shuffle_buffer list \<Rightarrow> nat \<Rightarrow> size_type option" where
  "total_records m bs p =
     fold (\<lambda>b n. Option.bind n (count_records m (partition_begin m b p) (partition_end m b p))) bs (Some 0)"

definition all_pointers :: "mem \<Rightarrow> shuffle_buffer list \<Rightarrow> nat \<Rightarrow> addr list option" where
  "all_pointers m bs p =
     fold (\<lambda>b ps. Option.bind ps (collect_pointers m (partition_begin m b p) (partition_end m b p))) bs (Some [])"

subsection \<open>Sizes of the result\<close>

definition value_length :: "mem \<Rightarrow> addr \<Rightarrow> size_type" where
  "value_length m ptr = sz_sub (load_size m ptr) (load_size m (ptr + 8))"

definition group_sizes :: "mem \<Rightarrow> bool list \<Rightarrow> addr list \<Rightarrow> size_type \<times> size_type \<times> size_type" where
  "group_sizes m equals ps =
     fold (\<lambda>i (group_count, total_key_size, total_value_size).
         let tv = total_value_size + value_length m (ps ! i)
         in if equals ! i then (group_count, total_key_size, tv)
            else (group_count + 1, total_key_size + load_size m (ps ! i + 8), tv))
       [0..<length ps] (0, 0, 0)"

subsection \<open>Writing the groups\<close>

text \<open>
  The output arrays: key data and offsets, value data and offsets, group offsets. One iteration
  of the loop of lines 311 to 328.
\<close>

record group_arrays =
  out_keys :: addr
  out_key_offsets :: addr
  out_values :: addr
  out_value_offsets :: addr
  out_group_offsets :: addr

definition open_group :: "group_arrays \<Rightarrow> addr \<Rightarrow> nat \<Rightarrow> mem \<Rightarrow> mem" where
  "open_group a ptr j m =
     (let key_length = load_size m (ptr + 8);
          ko = load_size m (out_key_offsets a + 8 * j);
          m = memcpy m (out_keys a + ko) (ptr + 2 * 8) key_length;
          m = store_size m (out_key_offsets a + 8 * (j + 1)) (load_size m (out_key_offsets a + 8 * j) + key_length)
      in store_size m (out_group_offsets a + 8 * (j + 1)) (load_size m (out_group_offsets a + 8 * j)))"

definition add_value :: "group_arrays \<Rightarrow> addr \<Rightarrow> nat \<Rightarrow> nat \<Rightarrow> mem \<Rightarrow> mem" where
  "add_value a ptr i j m =
     (let key_length = load_size m (ptr + 8); len = value_length m ptr;
          vo = load_size m (out_value_offsets a + 8 * i);
          m = memcpy m (out_values a + vo) (ptr + 2 * 8 + key_length) len;
          m = store_size m (out_value_offsets a + 8 * (i + 1)) (load_size m (out_value_offsets a + 8 * i) + len)
      in store_size m (out_group_offsets a + 8 * j) (load_size m (out_group_offsets a + 8 * j) + len))"

definition write_groups :: "group_arrays \<Rightarrow> bool list \<Rightarrow> addr list \<Rightarrow> mem \<Rightarrow> mem \<times> nat" where
  "write_groups a equals ps m =
     fold (\<lambda>i (m, j).
         let (m, j) = (if equals ! i then (m, j) else (open_group a (ps ! i) j m, j + 1))
         in (add_value a (ps ! i) i j m, j))
       [0..<length ps]
       (store_size (store_size (store_size m (out_group_offsets a) 0) (out_value_offsets a) 0) (out_key_offsets a) 0, 0)"

definition arrays_of_buffer :: "mem \<Rightarrow> serialized_buffer \<Rightarrow> group_arrays" where
  "arrays_of_buffer m b =
     \<lparr>out_keys = keys_data b, out_key_offsets = m_first (keys_offsets m b), out_values = values_data b,
      out_value_offsets = m_first (values_offsets m b), out_group_offsets = m_first (value_group_offsets m b)\<rparr>"

text \<open>
  \<open>sort_records\<close> up to the commit of the fragment: \<open>node\<close> is \<open>partition_mapping(partition)\<close>, \<open>tmp\<close>,
  \<open>slot\<close> and \<open>p\<close> are those of the allocation of the result.
\<close>

definition sort_records ::
  "nat \<Rightarrow> bool \<Rightarrow> nat \<Rightarrow> nat \<Rightarrow> addr \<Rightarrow> identifier_type \<Rightarrow> shuffle_buffer list \<Rightarrow> nat \<Rightarrow> mem_state \<times> mem \<Rightarrow>
   (serialized_buffer \<times> mem_state \<times> mem) option" where
  "sort_records fuel nd tmp slot p node bs part st = do {
     n \<leftarrow> total_records (snd st) bs part;
     ps \<leftarrow> all_pointers (snd st) bs part;
     r \<leftarrow> msd_radix_sort fuel (snd st)
            \<lparr>equals_to_left = replicate n False, cache = replicate n 0, pointers = ps,
             cache_work = replicate n 0, pointers_work = replicate n 0\<rparr> 0 False;
     let (g, tk, tv) = group_sizes (snd st) (equals_to_left r) (pointers r);
     (b, ms, m) \<leftarrow> allocate_grouped_buffer nd tmp slot p n g tk tv node st;
     let m = fst (write_groups (arrays_of_buffer m b) (equals_to_left r) (pointers r) m);
     Some (b, ms, set_record_count b n m)
   }"

subsection \<open>Records in the shuffle buffer\<close>

definition record_ok :: "kv_record \<Rightarrow> bool" where
  "record_ok r \<longleftrightarrow> snd r \<le> length (fst r) \<and> length (fst r) < size_modulus"

definition record_at :: "mem \<Rightarrow> addr \<Rightarrow> kv_record \<Rightarrow> bool" where
  "record_at m p r \<longleftrightarrow> record_ok r \<and> load_bytes m p (length (encode r)) = encode r"

lemma load_size_of_bytes: "load_bytes m a 8 = le_bytes 8 v \<Longrightarrow> v < size_modulus \<Longrightarrow> load_size m a = v"
  by (simp add: load_size_def le_val_le_bytes size_modulus_def)

lemma record_at_parts:
  assumes "record_at m p r"
  shows "load_size m p = length (fst r)" "load_size m (p + 8) = snd r" "load_bytes m (p + 16) (length (fst r)) = fst r"
proof -
  have r: "snd r \<le> length (fst r)" "length (fst r) < size_modulus" using assms by (simp_all add: record_at_def record_ok_def)
  have "load_bytes m p (8 + (8 + length (fst r))) = le_bytes 8 (length (fst r)) @ le_bytes 8 (snd r) @ fst r"
    using assms by (simp add: record_at_def length_encode) (simp add: encode_def)
  then have "load_bytes m p 8 = le_bytes 8 (length (fst r))" "load_bytes m (p + 8) 8 = le_bytes 8 (snd r)"
    "load_bytes m (p + 8 + 8) (length (fst r)) = fst r"
    unfolding load_bytes_add by simp_all
  then show "load_size m p = length (fst r)" "load_size m (p + 8) = snd r" "load_bytes m (p + 16) (length (fst r)) = fst r"
    using r by (simp_all add: load_size_of_bytes add.commute [of 16])
qed

lemma load_bytes_prefix: "load_bytes m a n = xs \<Longrightarrow> k \<le> n \<Longrightarrow> load_bytes m a k = take k xs"
  by (auto simp: load_bytes_def take_map)

lemma load_bytes_suffix: "load_bytes m a n = xs \<Longrightarrow> k \<le> n \<Longrightarrow> load_bytes m (a + k) (n - k) = drop k xs"
  using load_bytes_add [of m a k "n - k"] by auto

lemma record_at_key:
  assumes "record_at m p r"
  shows "get_key_length m p = snd r" "key_of m p = record_key r" "length (record_key r) = snd r"
    "load_bytes m (p + 16) (snd r) = record_key r"
    "value_length m p = length (record_value r)" "load_bytes m (p + 16 + snd r) (length (record_value r)) = record_value r"
proof -
  note parts = record_at_parts [OF assms]
  have r: "snd r \<le> length (fst r)" "length (fst r) < size_modulus" using assms by (simp_all add: record_at_def record_ok_def)
  show k: "get_key_length m p = snd r" using parts by (simp add: get_key_length_def)
  show b: "load_bytes m (p + 16) (snd r) = record_key r"
    unfolding record_key_def by (rule load_bytes_prefix [OF parts(3) r(1)])
  show "key_of m p = record_key r" using k b by (simp add: key_of_def get_key_pointer_def)
  show "length (record_key r) = snd r" using r by (simp add: record_key_def)
  show "value_length m p = length (record_value r)"
    using parts r by (simp add: value_length_def sz_sub_exact record_value_def)
  show "load_bytes m (p + 16 + snd r) (length (record_value r)) = record_value r"
    using load_bytes_suffix [OF parts(3) r(1)] by (simp add: record_value_def)
qed

fun record_ptrs :: "addr \<Rightarrow> kv_record list \<Rightarrow> addr list" where
  "record_ptrs a [] = []"
| "record_ptrs a (r # rs) = a # record_ptrs (a + length (encode r)) rs"

lemma length_record_ptrs [simp]: "length (record_ptrs a rs) = length rs"
  by (induction rs arbitrary: a) auto

lemma encoded_region_split:
  assumes "load_bytes m a (length (encoded (r # rs))) = encoded (r # rs)"
  shows "load_bytes m a (length (encode r)) = encode r"
    "load_bytes m (a + length (encode r)) (length (encoded rs)) = encoded rs"
proof -
  have "load_bytes m a (length (encode r)) @ load_bytes m (a + length (encode r)) (length (encoded rs)) = encode r @ encoded rs"
    using assms by (simp add: encoded_def load_bytes_add)
  then show "load_bytes m a (length (encode r)) = encode r"
    "load_bytes m (a + length (encode r)) (length (encoded rs)) = encoded rs"
    by (simp_all add: append_eq_append_conv)
qed

lemma collect_encoded:
  assumes "load_bytes m a (length (encoded rs)) = encoded rs" "\<forall>r\<in>set rs. record_ok r"
  shows "count_records m a (a + length (encoded rs)) n = Some (n + length rs)"
    "collect_pointers m a (a + length (encoded rs)) ps = Some (ps @ record_ptrs a rs)"
    "list_all2 (record_at m) (record_ptrs a rs) rs"
  using assms
proof (induction rs arbitrary: a n ps)
  case Nil
  { case 1 show ?case by (subst count_records.simps) (simp add: encoded_def)
  next case 2 show ?case by (subst collect_pointers.simps) (simp add: encoded_def)
  next case 3 show ?case by simp }
next
  case (Cons r rs)
  let ?next = "\<lambda>a. a + length (encode r)"
  have step: "record_at m a r \<and> load_bytes m (?next a) (length (encoded rs)) = encoded rs \<and>
      load_size m a + 2 * 8 = length (encode r)"
    if e: "load_bytes m a (length (encoded (r # rs))) = encoded (r # rs)" "\<forall>r\<in>set (r # rs). record_ok r" for a
  proof -
    have "record_at m a r" using encoded_region_split(1) [OF e(1)] e(2) by (simp add: record_at_def)
    then show ?thesis
      using encoded_region_split(2) [OF e(1)] record_at_parts(1) [of m a r] by (simp add: length_encode)
  qed
  have ends: "a + length (encoded (r # rs)) = ?next a + length (encoded rs)" "a \<noteq> ?next a + length (encoded rs)" for a
    by (simp_all add: encoded_def length_encode)
  { case 1
    note s = step [OF 1]
    have "count_records m (?next a) (?next a + length (encoded rs)) (n + 1) = Some (n + 1 + length rs)"
      by (rule Cons.IH(1)) (use s 1 in simp_all)
    then show ?case unfolding ends(1) using s ends(2) [of a]
      by (subst count_records.simps) simp
  next
    case 2
    note s = step [OF 2]
    have "collect_pointers m (?next a) (?next a + length (encoded rs)) (ps @ [a]) = Some ((ps @ [a]) @ record_ptrs (?next a) rs)"
      by (rule Cons.IH(2)) (use s 2 in simp_all)
    then show ?case unfolding ends(1) using s ends(2) [of a]
      by (subst collect_pointers.simps) simp
  next
    case 3
    note s = step [OF 3]
    then show ?case using Cons.IH(3) [of "?next a"] 3 by simp }
qed

definition partition_holds :: "mem \<Rightarrow> nat \<Rightarrow> shuffle_buffer \<Rightarrow> kv_record list \<Rightarrow> bool" where
  "partition_holds m q b rs \<longleftrightarrow>
     partition_end m b q = partition_begin m b q + length (encoded rs) \<and>
     load_bytes m (partition_begin m b q) (length (encoded rs)) = encoded rs \<and> (\<forall>r\<in>set rs. record_ok r)"

text \<open>Each collected pointer is the start of a record inside its partition.\<close>

definition placed_record :: "mem \<Rightarrow> addr \<Rightarrow> addr \<Rightarrow> addr \<Rightarrow> kv_record \<Rightarrow> bool" where
  "placed_record m lo hi p r \<longleftrightarrow> record_at m p r \<and> apart p (length (encode r)) lo hi"

definition partition_placed :: "mem \<Rightarrow> nat \<Rightarrow> addr \<Rightarrow> addr \<Rightarrow> shuffle_buffer \<Rightarrow> kv_record list \<Rightarrow> bool" where
  "partition_placed m q lo hi b rs \<longleftrightarrow>
     partition_holds m q b rs \<and> apart (partition_begin m b q) (length (encoded rs)) lo hi"

lemma record_ptrs_apart:
  "apart a (length (encoded rs)) lo hi \<Longrightarrow> list_all2 (\<lambda>p r. apart p (length (encode r)) lo hi) (record_ptrs a rs) rs"
proof (induction rs arbitrary: a)
  case (Cons r rs)
  have l: "length (encoded (r # rs)) = length (encode r) + length (encoded rs)" by (simp add: encoded_def)
  have "apart a (length (encode r)) lo hi" "apart (a + length (encode r)) (length (encoded rs)) lo hi"
    by (rule apart_sub [OF Cons.prems[unfolded l]]; simp)+
  then show ?case using Cons.IH by simp
qed simp

lemma all_pointers_correct:
  assumes "list_all2 (partition_placed m q lo hi) bs rss"
  shows "\<exists>ps. all_pointers m bs q = Some ps \<and> total_records m bs q = Some (length ps) \<and>
    list_all2 (placed_record m lo hi) ps (concat rss)"
proof -
  have "\<exists>ps. fold (\<lambda>b n. Option.bind n (count_records m (partition_begin m b q) (partition_end m b q))) bs (Some k) = Some (k + length ps) \<and>
      fold (\<lambda>b ps. Option.bind ps (collect_pointers m (partition_begin m b q) (partition_end m b q))) bs (Some ps0) = Some (ps0 @ ps) \<and>
      list_all2 (placed_record m lo hi) ps (concat rss)" for k ps0
    using assms
  proof (induction arbitrary: k ps0 rule: list_all2_induct)
    case (Cons b bs rs rss)
    let ?a = "partition_begin m b q"
    have h: "partition_end m b q = ?a + length (encoded rs)" "load_bytes m ?a (length (encoded rs)) = encoded rs"
      "\<forall>r\<in>set rs. record_ok r" "apart ?a (length (encoded rs)) lo hi"
      using Cons.hyps(1) by (simp_all add: partition_placed_def partition_holds_def)
    note c = collect_encoded [OF h(2,3)]
    have pl: "list_all2 (placed_record m lo hi) (record_ptrs ?a rs) rs"
      using c(3) record_ptrs_apart [OF h(4)] by (simp add: list_all2_conv_all_nth placed_record_def)
    obtain ps where ps: "fold (\<lambda>b n. Option.bind n (count_records m (partition_begin m b q) (partition_end m b q))) bs
          (Some (k + length rs)) = Some (k + length rs + length ps)"
      "fold (\<lambda>b ps. Option.bind ps (collect_pointers m (partition_begin m b q) (partition_end m b q))) bs
          (Some (ps0 @ record_ptrs ?a rs)) = Some ((ps0 @ record_ptrs ?a rs) @ ps)"
      "list_all2 (placed_record m lo hi) ps (concat rss)"
      using Cons.IH [of "k + length rs" "ps0 @ record_ptrs ?a rs"] by blast
    show ?case
      by (rule exI [of _ "record_ptrs ?a rs @ ps"])
        (use ps c h pl in \<open>simp add: list_all2_appendI add.assoc\<close>)
  qed simp
  from this [of 0 "[]"] show ?thesis by (auto simp: all_pointers_def total_records_def)
qed

subsection \<open>Groups\<close>

text \<open>The groups that the marks \<open>equals_to_left\<close> cut the sorted records into.\<close>

type_synonym kv_group = "u8 list \<times> u8 list list"

fun add_to_last :: "u8 list \<Rightarrow> kv_group list \<Rightarrow> kv_group list" where
  "add_to_last v [] = []"
| "add_to_last v [(k, vs)] = [(k, vs @ [v])]"
| "add_to_last v (g # gs) = g # add_to_last v gs"

definition group_step :: "kv_group list \<Rightarrow> bool \<times> kv_record \<Rightarrow> kv_group list" where
  "group_step gs er = (case er of (e, r) \<Rightarrow>
     if e then add_to_last (record_value r) gs else gs @ [(record_key r, [record_value r])])"

definition groups_of :: "(bool \<times> kv_record) list \<Rightarrow> kv_group list" where
  "groups_of ers = foldl group_step [] ers"

lemma groups_of_simps [simp]: "groups_of [] = []" "groups_of (ers @ [er]) = group_step (groups_of ers) er"
  "groups_of [er] = group_step [] er"
  by (simp_all add: groups_of_def)

lemma add_to_last_append [simp]: "add_to_last v (gs @ [(k, vs)]) = gs @ [(k, vs @ [v])]"
  by (induction v gs rule: add_to_last.induct) auto

definition bytes_of :: "u8 list list \<Rightarrow> nat" where
  "bytes_of vs = sum_list (map length vs)"

definition key_bytes :: "kv_group list \<Rightarrow> nat" where
  "key_bytes gs = bytes_of (map fst gs)"

definition value_bytes :: "kv_group list \<Rightarrow> nat" where
  "value_bytes gs = bytes_of (concat (map snd gs))"

lemma bytes_of_simps [simp]: "bytes_of [] = 0" "bytes_of (vs @ ws) = bytes_of vs + bytes_of ws" "bytes_of [v] = length v"
  by (simp_all add: bytes_of_def)

lemma length_concat_bytes: "length (concat vs) = bytes_of vs"
  by (induction vs) (simp_all add: bytes_of_def)

lemma bytes_simps [simp]:
  "key_bytes [] = 0" "key_bytes (gs @ hs) = key_bytes gs + key_bytes hs" "key_bytes [g] = length (fst g)"
  "value_bytes [] = 0" "value_bytes (gs @ hs) = value_bytes gs + value_bytes hs" "value_bytes [g] = bytes_of (snd g)"
  by (simp_all add: key_bytes_def value_bytes_def)

lemma key_bytes_take_le: "key_bytes (take g gs) \<le> key_bytes gs"
  by (metis append_take_drop_id bytes_simps(2) le_add1)

lemma value_bytes_take_le: "value_bytes (take g gs) \<le> value_bytes gs"
  by (metis append_take_drop_id bytes_simps(5) le_add1)

text \<open>Marks that never continue before the first group.\<close>

definition starts_group :: "(bool \<times> kv_record) list \<Rightarrow> bool" where
  "starts_group ers \<longleftrightarrow> (case ers of [] \<Rightarrow> True | er # _ \<Rightarrow> \<not> fst er)"

lemma starts_group_prefix: "starts_group (ers @ fs) \<Longrightarrow> starts_group ers"
  by (cases ers) (auto simp: starts_group_def)

lemma groups_of_nonempty: "ers \<noteq> [] \<Longrightarrow> starts_group ers \<Longrightarrow> groups_of ers \<noteq> []"
proof (induction ers rule: rev_induct)
  case (snoc er ers)
  show ?case
  proof (cases "ers = []")
    case True
    with snoc show ?thesis by (cases er) (auto simp: starts_group_def group_step_def)
  next
    case False
    then have "groups_of ers \<noteq> []" using snoc starts_group_prefix by blast
    then obtain gs k vs where "groups_of ers = gs @ [(k, vs)]" by (metis rev_exhaust surj_pair)
    then show ?thesis by (cases er) (simp add: group_step_def)
  qed
qed simp

lemma values_of_groups:
  "starts_group ers \<Longrightarrow> concat (map snd (groups_of ers)) = map (record_value \<circ> snd) ers"
proof (induction ers rule: rev_induct)
  case (snoc er ers)
  then have IH: "concat (map snd (groups_of ers)) = map (record_value \<circ> snd) ers" using starts_group_prefix by blast
  show ?case
  proof (cases "fst er")
    case False
    with IH show ?thesis by (cases er) (simp add: group_step_def)
  next
    case True
    then have "ers \<noteq> []" using snoc by (auto simp: starts_group_def)
    then have "groups_of ers \<noteq> []" using groups_of_nonempty snoc starts_group_prefix by blast
    then obtain gs k vs where g: "groups_of ers = gs @ [(k, vs)]" by (metis rev_exhaust surj_pair)
    with True IH show ?thesis by (cases er) (simp add: group_step_def)
  qed
qed simp

text \<open>Over records sorted by key, with the marks of \<open>msd_radix_sort\<close>, the groups are the distinct
  keys in order, each with the values of its records.\<close>

definition key_marks :: "kv_record list \<Rightarrow> bool list \<Rightarrow> bool" where
  "key_marks rs es \<longleftrightarrow> length es = length rs \<and>
     (\<forall>i<length rs. es ! i \<longleftrightarrow> 0 < i \<and> record_key (rs ! i) = record_key (rs ! (i - 1)))"

lemma groups_sorted:
  "sorted (map record_key rs) \<Longrightarrow> key_marks rs es \<Longrightarrow>
     (rs \<noteq> [] \<longrightarrow> (\<exists>gs vs. groups_of (zip es rs) = gs @ [(record_key (last rs), vs)])) \<and>
     sorted_wrt (<) (map fst (groups_of (zip es rs))) \<and>
     set (map fst (groups_of (zip es rs))) = record_key ` set rs \<and>
     (\<forall>(k, vs)\<in>set (groups_of (zip es rs)). vs = map record_value (filter (\<lambda>r. record_key r = k) rs))"
proof (induction rs arbitrary: es rule: rev_induct)
  case (snoc r rs)
  obtain es' e where es: "es = es' @ [e]" "length es' = length rs"
    using snoc.prems(2) unfolding key_marks_def by (metis length_append_singleton length_Suc_conv_rev)
  have km: "key_marks rs es'"
    unfolding key_marks_def
  proof (intro conjI allI impI)
    fix i assume i: "i < length rs"
    have "(es' @ [e]) ! i \<longleftrightarrow> 0 < i \<and> record_key ((rs @ [r]) ! i) = record_key ((rs @ [r]) ! (i - 1))"
      using snoc.prems(2) i unfolding key_marks_def es by simp
    moreover have "i - 1 < length rs" using i by simp
    ultimately show "es' ! i \<longleftrightarrow> 0 < i \<and> record_key (rs ! i) = record_key (rs ! (i - 1))"
      using i es(2) by (simp add: nth_append)
  qed (rule es(2))
  have srt: "sorted (map record_key rs)" and le: "\<And>x. x \<in> set rs \<Longrightarrow> record_key x \<le> record_key r"
    using snoc.prems(1) by (auto simp: sorted_append)
  note IH = snoc.IH [OF srt km]
  have e: "e \<longleftrightarrow> rs \<noteq> [] \<and> record_key r = record_key (last rs)"
    using snoc.prems(2) es unfolding key_marks_def
    by (auto simp: nth_append last_conv_nth dest!: spec [of _ "length rs"])
  have z: "zip es (rs @ [r]) = zip es' rs @ [(e, r)]" using es by simp
  show ?case
  proof (cases e)
    case True
    then obtain gs vs where g: "groups_of (zip es' rs) = gs @ [(record_key r, vs)]" using IH e by force
    have notin: "record_key r \<notin> fst ` set gs" using IH g by (auto simp: sorted_wrt_append)
    have vs: "vs = map record_value (filter (\<lambda>x. record_key x = record_key r) rs)"
      using IH g by simp
    have "(\<forall>(k, ws)\<in>set gs. ws = map record_value (filter (\<lambda>x. record_key x = k) (rs @ [r])))"
    proof (clarify)
      fix k ws assume k: "(k, ws) \<in> set gs"
      then have "k \<noteq> record_key r" using notin by force
      moreover have "ws = map record_value (filter (\<lambda>x. record_key x = k) rs)"
        using bspec [OF conjunct2 [OF conjunct2 [OF conjunct2 [OF IH]]], of "(k, ws)"] k g by simp
      ultimately show "ws = map record_value (filter (\<lambda>x. record_key x = k) (rs @ [r]))" by simp
    qed
    then show ?thesis using IH True g vs e unfolding z by (auto simp: group_step_def)
  next
    case False
    have lt: "record_key x < record_key r" if x: "x \<in> set rs" for x
    proof -
      have "rs \<noteq> []" using x by auto
      then have ne: "record_key r \<noteq> record_key (last rs)" using False e by simp
      obtain i where i: "i < length rs" "x = rs ! i" using x by (metis in_set_conv_nth)
      have "record_key x \<le> record_key (last rs)"
        using sorted_nth_mono [OF srt, of i "length rs - 1"] i \<open>rs \<noteq> []\<close> by (simp add: last_conv_nth)
      also have "\<dots> < record_key r" using ne le [of "last rs"] \<open>rs \<noteq> []\<close> by (simp add: order.not_eq_order_implies_strict)
      finally show ?thesis .
    qed
    have "filter (\<lambda>x. record_key x = record_key r) rs = []" using lt by (auto simp: filter_empty_conv dest: order.strict_implies_not_eq)
    moreover have "(\<forall>(k, ws)\<in>set (groups_of (zip es' rs)). ws = map record_value (filter (\<lambda>x. record_key x = k) (rs @ [r])))"
    proof (clarify)
      fix k ws assume k: "(k, ws) \<in> set (groups_of (zip es' rs))"
      then have "k \<in> record_key ` set rs" using IH by (metis image_eqI fst_conv set_map)
      then have "k \<noteq> record_key r" using lt by (metis imageE less_irrefl)
      then show "ws = map record_value (filter (\<lambda>x. record_key x = k) (rs @ [r]))" using IH k by auto
    qed
    moreover have "\<forall>k\<in>set (map fst (groups_of (zip es' rs))). k < record_key r"
      unfolding conjunct1 [OF conjunct2 [OF conjunct2 [OF IH]]] using lt by blast
    ultimately show ?thesis using IH False lt unfolding z
      by (simp add: group_step_def sorted_wrt_append image_Un)
  qed
qed (simp add: key_marks_def)

subsection \<open>The writing loop\<close>

definition arrays_ok :: "group_arrays \<Rightarrow> nat \<Rightarrow> nat \<Rightarrow> nat \<Rightarrow> nat \<Rightarrow> addr \<Rightarrow> addr \<Rightarrow> bool" where
  "arrays_ok a tk tv n g lo hi \<longleftrightarrow>
     lo \<le> out_keys a \<and> out_keys a + tk \<le> out_key_offsets a \<and> out_key_offsets a + 8 * (g + 1) \<le> out_values a \<and>
     out_values a + tv \<le> out_value_offsets a \<and> out_value_offsets a + 8 * (n + 1) \<le> out_group_offsets a \<and>
     out_group_offsets a + 8 * (g + 1) \<le> hi \<and> tk < size_modulus \<and> tv < size_modulus"

definition written :: "mem \<Rightarrow> group_arrays \<Rightarrow> kv_group list \<Rightarrow> u8 list list \<Rightarrow> bool" where
  "written m a gs vals \<longleftrightarrow>
     (\<forall>k\<le>length gs. load_size m (out_key_offsets a + 8 * k) = key_bytes (take k gs)) \<and>
     load_bytes m (out_keys a) (key_bytes gs) = concat (map fst gs) \<and>
     (\<forall>k\<le>length vals. load_size m (out_value_offsets a + 8 * k) = bytes_of (take k vals)) \<and>
     load_bytes m (out_values a) (bytes_of vals) = concat vals \<and>
     (\<forall>k\<le>length gs. load_size m (out_group_offsets a + 8 * k) = value_bytes (take k gs))"

lemma record_at_same:
  assumes "record_at m p r" "same_outside lo hi m m'" "apart p (length (encode r)) lo hi"
  shows "record_at m' p r"
  using assms load_bytes_same_outside [OF assms(2,3)] by (simp add: record_at_def)

lemma bytes_of_take_le: "bytes_of (take k vals) \<le> bytes_of vals"
  by (metis append_take_drop_id bytes_of_simps(2) le_add1)

lemma open_group_correct:
  assumes ok: "arrays_ok a tk tv n g lo hi" and w: "written m a gs vals"
    and r: "record_at m p r" "apart p (length (encode r)) lo hi"
    and fit: "key_bytes gs + length (record_key r) \<le> tk" "length gs < g" "bytes_of vals \<le> tv" "length vals \<le> n"
  shows "written (open_group a p (length gs) m) a (gs @ [(record_key r, [])]) vals"
    "same_outside lo hi m (open_group a p (length gs) m)"
proof -
  let ?j = "length gs" and ?k = "record_key r"
  let ?K = "out_keys a" and ?KO = "out_key_offsets a" and ?VD = "out_values a" and ?VO = "out_value_offsets a"
    and ?GO = "out_group_offsets a"
  note ok' = ok[unfolded arrays_ok_def] and w' = w[unfolded written_def]
  note key = record_at_key [OF r(1)] and parts = record_at_parts [OF r(1)]
  have ko: "load_size m (?KO + 8 * ?j) = key_bytes gs" using w' by simp
  have go: "load_size m (?GO + 8 * ?j) = value_bytes gs" using w' by simp
  have b: "value_bytes gs < size_modulus"
    using go load_size_bound [of m "?GO + 8 * ?j"] by simp
  let ?m1 = "memcpy m (?K + key_bytes gs) (p + 2 * 8) (snd r)"
  let ?m2 = "store_size ?m1 (?KO + 8 * (?j + 1)) (key_bytes gs + snd r)"
  let ?m3 = "store_size ?m2 (?GO + 8 * (?j + 1)) (value_bytes gs)"
  have kl: "length ?k = snd r" by (rule key(3))
  have ko1: "load_size ?m1 (?KO + 8 * ?j) = key_bytes gs"
    using ko fit ok' kl by (subst load_size_memcpy_disjoint) auto
  have go2: "load_size ?m2 (?GO + 8 * ?j) = value_bytes gs"
  proof -
    have "load_size ?m2 (?GO + 8 * ?j) = load_size ?m1 (?GO + 8 * ?j)"
      by (rule load_size_store_size_disjoint) (use ok' fit in simp)
    also have "\<dots> = load_size m (?GO + 8 * ?j)"
      by (rule load_size_memcpy_disjoint) (use ok' fit kl in simp)
    finally show ?thesis using go by simp
  qed
  have eq: "open_group a p ?j m = ?m3"
    unfolding open_group_def Let_def parts(2) ko ko1 go2 ..
  have sz: "load_size ?m3 x = load_size m x"
    if "x + 8 \<le> ?K + key_bytes gs \<or> ?K + key_bytes gs + snd r \<le> x" "x + 8 \<le> ?KO + 8 * (?j + 1) \<or> ?KO + 8 * (?j + 1) + 8 \<le> x"
      "x + 8 \<le> ?GO + 8 * (?j + 1) \<or> ?GO + 8 * (?j + 1) + 8 \<le> x" for x
    using that by (simp add: mem_simps del: add_mult_distrib2)
  have bt: "load_bytes ?m3 x l = load_bytes m x l"
    if "x + l \<le> ?K + key_bytes gs \<or> ?K + key_bytes gs + snd r \<le> x" "x + l \<le> ?KO + 8 * (?j + 1) \<or> ?KO + 8 * (?j + 1) + 8 \<le> x"
      "x + l \<le> ?GO + 8 * (?j + 1) \<or> ?GO + 8 * (?j + 1) + 8 \<le> x" for x l
    using that by (simp add: mem_simps del: add_mult_distrib2)
  have 1: "load_size ?m3 (?KO + 8 * k) = key_bytes (take k (gs @ [(?k, [])]))" if "k \<le> ?j + 1" for k
  proof (cases "k = ?j + 1")
    case True
    have "load_size ?m3 (?KO + 8 * (?j + 1)) = load_size ?m2 (?KO + 8 * (?j + 1))"
      by (rule load_size_store_size_disjoint) (use ok' fit in simp)
    also have "\<dots> = (key_bytes gs + snd r) mod size_modulus" by (rule load_size_store_same)
    also have "\<dots> = key_bytes gs + snd r" using fit ok' kl by simp
    finally show ?thesis using True kl by simp
  next
    case False
    then have "load_size ?m3 (?KO + 8 * k) = load_size m (?KO + 8 * k)" using that ok' fit kl by (intro sz) auto
    then show ?thesis using w' False that by simp
  qed
  have 2: "load_bytes ?m3 ?K (key_bytes gs + snd r) = concat (map fst gs) @ ?k"
  proof -
    have "load_bytes ?m3 ?K (key_bytes gs) = load_bytes m ?K (key_bytes gs)" using ok' fit kl by (intro bt) auto
    moreover have "load_bytes ?m3 (?K + key_bytes gs) (snd r) = load_bytes ?m1 (?K + key_bytes gs) (snd r)"
      using ok' fit kl by (simp add: mem_simps del: add_mult_distrib2)
    moreover have "load_bytes ?m1 (?K + key_bytes gs) (snd r) = ?k"
      using load_bytes_memcpy_same [of m "?K + key_bytes gs" "p + 2 * 8" "snd r"] key(4) by simp
    ultimately show ?thesis using w' by (simp add: load_bytes_add)
  qed
  have 3: "load_size ?m3 (?VO + 8 * k) = bytes_of (take k vals)" if "k \<le> length vals" for k
  proof -
    have "load_size ?m3 (?VO + 8 * k) = load_size m (?VO + 8 * k)" using that ok' fit kl by (intro sz) auto
    then show ?thesis using w' that by simp
  qed
  have 4: "load_bytes ?m3 ?VD (bytes_of vals) = concat vals"
  proof -
    have "load_bytes ?m3 ?VD (bytes_of vals) = load_bytes m ?VD (bytes_of vals)" using ok' fit kl by (intro bt) auto
    then show ?thesis using w' by simp
  qed
  have 5: "load_size ?m3 (?GO + 8 * k) = value_bytes (take k (gs @ [(?k, [])]))" if "k \<le> ?j + 1" for k
  proof (cases "k = ?j + 1")
    case True
    then show ?thesis using load_size_store_same [of ?m2 "?GO + 8 * (?j + 1)" "value_bytes gs"] b by simp
  next
    case False
    then have "load_size ?m3 (?GO + 8 * k) = load_size m (?GO + 8 * k)" using that ok' fit kl by (intro sz) auto
    then show ?thesis using w' False that by simp
  qed
  show "written (open_group a p ?j m) a (gs @ [(?k, [])]) vals"
    unfolding eq written_def using 1 2 3 4 5 kl by simp
  show "same_outside lo hi m (open_group a p ?j m)" unfolding eq
    by (rule same_outside_trans [OF same_outside_trans [OF same_outside_memcpy same_outside_store_size] same_outside_store_size])
      (use ok' fit kl in auto)
qed

lemma add_value_correct:
  assumes ok: "arrays_ok a tk tv n g lo hi" and w: "written m a (hs @ [(k, vs)]) vals"
    and r: "record_at m p r"
    and fit: "bytes_of vals + length (record_value r) \<le> tv" "length vals < n" "length hs < g"
      "key_bytes (hs @ [(k, vs)]) \<le> tk" "value_bytes (hs @ [(k, vs)]) \<le> bytes_of vals"
  shows "written (add_value a p (length vals) (length hs + 1) m) a (hs @ [(k, vs @ [record_value r])]) (vals @ [record_value r])"
    "same_outside lo hi m (add_value a p (length vals) (length hs + 1) m)"
proof -
  let ?gs = "hs @ [(k, vs)]" and ?j = "length hs + 1" and ?i = "length vals" and ?v = "record_value r"
  let ?K = "out_keys a" and ?KO = "out_key_offsets a" and ?VD = "out_values a" and ?VO = "out_value_offsets a"
    and ?GO = "out_group_offsets a"
  note ok' = ok[unfolded arrays_ok_def] and w' = w[unfolded written_def]
  note key = record_at_key [OF r] and parts = record_at_parts [OF r]
  have vo: "load_size m (?VO + 8 * ?i) = bytes_of vals" using w' by simp
  have "?j \<le> length ?gs" by simp
  then have "load_size m (?GO + 8 * ?j) = value_bytes (take ?j ?gs)" using w' by blast
  then have go: "load_size m (?GO + 8 * ?j) = value_bytes ?gs" by simp
  let ?m1 = "memcpy m (?VD + bytes_of vals) (p + 2 * 8 + snd r) (length ?v)"
  let ?m2 = "store_size ?m1 (?VO + 8 * (?i + 1)) (bytes_of vals + length ?v)"
  let ?m3 = "store_size ?m2 (?GO + 8 * ?j) (value_bytes ?gs + length ?v)"
  have vo1: "load_size ?m1 (?VO + 8 * ?i) = bytes_of vals"
    using vo fit ok' by (subst load_size_memcpy_disjoint) auto
  have go2: "load_size ?m2 (?GO + 8 * ?j) = value_bytes ?gs"
  proof -
    have "load_size ?m2 (?GO + 8 * ?j) = load_size ?m1 (?GO + 8 * ?j)"
      by (rule load_size_store_size_disjoint) (use ok' fit in simp)
    also have "\<dots> = load_size m (?GO + 8 * ?j)"
      by (rule load_size_memcpy_disjoint) (use ok' fit in simp)
    finally show ?thesis using go by simp
  qed
  have eq: "add_value a p ?i ?j m = ?m3"
    unfolding add_value_def Let_def parts(2) key(5) vo vo1 go2 ..
  have sz: "load_size ?m3 x = load_size m x"
    if "x + 8 \<le> ?VD + bytes_of vals \<or> ?VD + bytes_of vals + length ?v \<le> x"
      "x + 8 \<le> ?VO + 8 * (?i + 1) \<or> ?VO + 8 * (?i + 1) + 8 \<le> x" "x + 8 \<le> ?GO + 8 * ?j \<or> ?GO + 8 * ?j + 8 \<le> x" for x
    using that by (simp add: mem_simps del: add_mult_distrib2)
  have bt: "load_bytes ?m3 x l = load_bytes m x l"
    if "x + l \<le> ?VD + bytes_of vals \<or> ?VD + bytes_of vals + length ?v \<le> x"
      "x + l \<le> ?VO + 8 * (?i + 1) \<or> ?VO + 8 * (?i + 1) + 8 \<le> x" "x + l \<le> ?GO + 8 * ?j \<or> ?GO + 8 * ?j + 8 \<le> x" for x l
    using that by (simp add: mem_simps del: add_mult_distrib2)
  have 1: "load_size ?m3 (?KO + 8 * q) = key_bytes (take q ?gs)" if "q \<le> length ?gs" for q
  proof -
    have "load_size ?m3 (?KO + 8 * q) = load_size m (?KO + 8 * q)" using that ok' fit by (intro sz) auto
    then show ?thesis using w' that by simp
  qed
  have 2: "load_bytes ?m3 ?K (key_bytes ?gs) = concat (map fst ?gs)"
  proof -
    have "load_bytes ?m3 ?K (key_bytes ?gs) = load_bytes m ?K (key_bytes ?gs)" using ok' fit by (intro bt) auto
    then show ?thesis using w' by simp
  qed
  have 3: "load_size ?m3 (?VO + 8 * q) = bytes_of (take q (vals @ [?v]))" if "q \<le> ?i + 1" for q
  proof (cases "q = ?i + 1")
    case True
    have "load_size ?m3 (?VO + 8 * (?i + 1)) = load_size ?m2 (?VO + 8 * (?i + 1))"
      by (rule load_size_store_size_disjoint) (use ok' fit in simp)
    also have "\<dots> = (bytes_of vals + length ?v) mod size_modulus" by (rule load_size_store_same)
    also have "\<dots> = bytes_of vals + length ?v" using fit ok' by simp
    finally show ?thesis using True by simp
  next
    case False
    then have "load_size ?m3 (?VO + 8 * q) = load_size m (?VO + 8 * q)" using that ok' fit by (intro sz) auto
    then show ?thesis using w' False that by simp
  qed
  have 4: "load_bytes ?m3 ?VD (bytes_of vals + length ?v) = concat vals @ ?v"
  proof -
    have "load_bytes ?m3 ?VD (bytes_of vals) = load_bytes m ?VD (bytes_of vals)" using ok' fit by (intro bt) auto
    moreover have "load_bytes ?m3 (?VD + bytes_of vals) (length ?v) = load_bytes ?m1 (?VD + bytes_of vals) (length ?v)"
      using ok' fit by (simp add: mem_simps del: add_mult_distrib2)
    moreover have "load_bytes ?m1 (?VD + bytes_of vals) (length ?v) = ?v"
      using load_bytes_memcpy_same [of m "?VD + bytes_of vals" "p + 2 * 8 + snd r" "length ?v"] key(6) by simp
    ultimately show ?thesis using w' by (simp add: load_bytes_add)
  qed
  have 5: "load_size ?m3 (?GO + 8 * q) = value_bytes (take q (hs @ [(k, vs @ [?v])]))" if "q \<le> ?j" for q
  proof (cases "q = ?j")
    case True
    have "load_size ?m3 (?GO + 8 * ?j) = (value_bytes ?gs + length ?v) mod size_modulus" by (rule load_size_store_same)
    also have "\<dots> = value_bytes ?gs + length ?v" using fit ok' by simp
    finally show ?thesis using True by simp
  next
    case False
    then have "load_size ?m3 (?GO + 8 * q) = load_size m (?GO + 8 * q)" using that ok' fit by (intro sz) auto
    then show ?thesis using w' False that by simp
  qed
  show "written (add_value a p ?i ?j m) a (hs @ [(k, vs @ [?v])]) (vals @ [?v])"
    unfolding eq written_def using 1 2 3 4 5 by (simp add: le_Suc_eq)
  show "same_outside lo hi m (add_value a p ?i ?j m)" unfolding eq
    by (rule same_outside_trans [OF same_outside_trans [OF same_outside_memcpy same_outside_store_size] same_outside_store_size])
      (use ok' fit in auto)
qed


lemma map_fst_add_to_last [simp]: "map fst (add_to_last v gs) = map fst gs"
  by (induction v gs rule: add_to_last.induct) auto

lemma groups_of_append_mono:
  "length (groups_of ers) \<le> length (groups_of (ers @ fs)) \<and> key_bytes (groups_of ers) \<le> key_bytes (groups_of (ers @ fs))"
proof (induction fs rule: rev_induct)
  case (snoc f fs)
  have "length (groups_of (ers @ fs)) \<le> length (groups_of (ers @ fs @ [f])) \<and>
      key_bytes (groups_of (ers @ fs)) \<le> key_bytes (groups_of (ers @ fs @ [f]))"
  proof -
    obtain e r where Pair: "f = (e, r)" by (cases f)
    have "length (add_to_last (record_value r) gs) = length gs" for gs
      by (metis length_map map_fst_add_to_last)
    then show ?thesis
      using Pair by (simp add: append_assoc [symmetric] group_step_def key_bytes_def del: append_assoc)
  qed
  with snoc show ?case by (meson le_trans)
qed simp

lemma groups_of_take_mono:
  "length (groups_of (take i ers)) \<le> length (groups_of ers)" "key_bytes (groups_of (take i ers)) \<le> key_bytes (groups_of ers)"
  using groups_of_append_mono [of "take i ers" "drop i ers"] by simp_all

definition group_write :: "group_arrays \<Rightarrow> bool list \<Rightarrow> addr list \<Rightarrow> nat \<Rightarrow> mem \<times> nat \<Rightarrow> mem \<times> nat" where
  "group_write a es ps i = (\<lambda>(m, j).
     let (m, j) = (if es ! i then (m, j) else (open_group a (ps ! i) j m, j + 1))
     in (add_value a (ps ! i) i j m, j))"

lemma group_write_correct:
  assumes ok: "arrays_ok a tk tv n g lo hi" and sg: "starts_group (ers @ [(e, r)])"
    and w: "written m a (groups_of ers) (map (record_value \<circ> snd) ers)"
    and r: "record_at m (ps ! i) r" "apart (ps ! i) (length (encode r)) lo hi"
    and i: "i = length ers" "es ! i = e" and j: "j = length (groups_of ers)"
    and fit: "key_bytes (groups_of (ers @ [(e, r)])) \<le> tk" "length (groups_of (ers @ [(e, r)])) \<le> g"
      "bytes_of (map (record_value \<circ> snd) (ers @ [(e, r)])) \<le> tv" "i < n"
  defines "st \<equiv> group_write a es ps i (m, j)"
  shows "written (fst st) a (groups_of (ers @ [(e, r)])) (map (record_value \<circ> snd) (ers @ [(e, r)])) \<and>
    snd st = length (groups_of (ers @ [(e, r)])) \<and> same_outside lo hi m (fst st)"
proof (cases e)
  case True
  then have "ers \<noteq> []" using sg by (auto simp: starts_group_def)
  then obtain hs k vs where g: "groups_of ers = hs @ [(k, vs)]"
    using groups_of_nonempty sg starts_group_prefix by (metis rev_exhaust surj_pair)
  have g': "groups_of (ers @ [(e, r)]) = hs @ [(k, vs @ [record_value r])]" using g True by (simp add: group_step_def)
  have vb: "value_bytes (groups_of ers) = bytes_of (map (record_value \<circ> snd) ers)"
    using values_of_groups [OF starts_group_prefix [OF sg]] by (simp add: value_bytes_def)
  have f: "length hs < g" "key_bytes (hs @ [(k, vs)]) \<le> tk" using fit g' by simp_all
  note av = add_value_correct [OF ok w[unfolded g] r(1) _ _ f]
  have "st = (add_value a (ps ! i) i j m, j)" using True i by (simp add: st_def group_write_def)
  moreover have "j = length hs + 1" using j g by simp
  ultimately show ?thesis using av fit i vb g g' by simp
next
  case False
  let ?gs = "groups_of ers"
  have g': "groups_of (ers @ [(e, r)]) = ?gs @ [(record_key r, [record_value r])]" using False by (simp add: group_step_def)
  have vb: "value_bytes ?gs = bytes_of (map (record_value \<circ> snd) ers)"
    using values_of_groups [OF starts_group_prefix [OF sg]] by (simp add: value_bytes_def)
  have f: "key_bytes ?gs + length (record_key r) \<le> tk" "length ?gs < g" "bytes_of (map (record_value \<circ> snd) ers) \<le> tv"
    "length (map (record_value \<circ> snd) ers) \<le> n"
    using fit i g' by simp_all
  note og = open_group_correct [OF ok w r f]
  let ?m1 = "open_group a (ps ! i) (length ?gs) m"
  have f2: "bytes_of (map (record_value \<circ> snd) ers) + length (record_value r) \<le> tv" "length (map (record_value \<circ> snd) ers) < n"
    "key_bytes (?gs @ [(record_key r, [])]) \<le> tk" "value_bytes (?gs @ [(record_key r, [])]) \<le> bytes_of (map (record_value \<circ> snd) ers)"
    using fit i g' vb by simp_all
  note av = add_value_correct [OF ok og(1) record_at_same [OF r(1) og(2) r(2)] f2(1,2) f(2) f2(3,4)]
  have "st = (add_value a (ps ! i) i (length ?gs + 1) ?m1, length ?gs + 1)"
    using False i j by (simp add: st_def group_write_def)
  then show ?thesis using av same_outside_trans [OF og(2) av(2)] i g' by simp
qed

definition clear_offsets :: "group_arrays \<Rightarrow> mem \<Rightarrow> mem" where
  "clear_offsets a m = store_size (store_size (store_size m (out_group_offsets a) 0) (out_value_offsets a) 0) (out_key_offsets a) 0"

lemma clear_offsets_correct:
  assumes ok: "arrays_ok a tk tv n g lo hi"
  shows "written (clear_offsets a m) a [] []" "same_outside lo hi m (clear_offsets a m)"
proof -
  note ok' = ok[unfolded arrays_ok_def]
  have "load_size (clear_offsets a m) (out_key_offsets a) = 0" "load_size (clear_offsets a m) (out_value_offsets a) = 0"
    "load_size (clear_offsets a m) (out_group_offsets a) = 0"
    using ok' by (simp_all add: clear_offsets_def mem_simps size_modulus_def)
  then show "written (clear_offsets a m) a [] []" by (simp add: written_def)
  show "same_outside lo hi m (clear_offsets a m)" unfolding clear_offsets_def
    by (rule same_outside_trans [OF same_outside_trans [OF same_outside_store_size same_outside_store_size] same_outside_store_size])
      (use ok' in auto)
qed

lemma write_groups_fold: "write_groups a es ps m = fold (group_write a es ps) [0..<length ps] (clear_offsets a m, 0)"
  unfolding write_groups_def group_write_def clear_offsets_def Let_def ..

lemma write_groups_correct:
  assumes ok: "arrays_ok a tk tv n g lo hi" and len: "length ps = length rs" "length es = length rs" "length rs \<le> n"
    and r: "\<forall>i<length rs. record_at m (ps ! i) (rs ! i) \<and> apart (ps ! i) (length (encode (rs ! i))) lo hi"
    and sg: "starts_group (zip es rs)"
    and fit: "key_bytes (groups_of (zip es rs)) \<le> tk" "length (groups_of (zip es rs)) \<le> g" "bytes_of (map record_value rs) \<le> tv"
  shows "written (fst (write_groups a es ps m)) a (groups_of (zip es rs)) (map record_value rs)"
    "same_outside lo hi m (fst (write_groups a es ps m))"
proof -
  let ?ers = "zip es rs"
  let ?P = "\<lambda>i st. written (fst st) a (groups_of (take i ?ers)) (map (record_value \<circ> snd) (take i ?ers)) \<and>
      snd st = length (groups_of (take i ?ers)) \<and> same_outside lo hi m (fst st)"
  have "?P (length ps) (fold (group_write a es ps) [0..<length ps] (clear_offsets a m, 0))"
  proof (rule fold_upt_invariant [where P = ?P])
    show "?P 0 (clear_offsets a m, 0)" using clear_offsets_correct [OF ok] by simp
  next
    fix i st assume i: "i < length ps" and P: "?P i st"
    obtain m' j where st: "st = (m', j)" by (cases st)
    have t: "take (Suc i) ?ers = take i ?ers @ [(es ! i, rs ! i)]" using i len by (simp add: take_Suc_conv_app_nth)
    have ri: "record_at m (ps ! i) (rs ! i)" "apart (ps ! i) (length (encode (rs ! i))) lo hi" using r i len by simp_all
    have so: "same_outside lo hi m m'" using P st by simp
    have sg': "starts_group (take i ?ers @ [(es ! i, rs ! i)])"
      by (rule starts_group_prefix [of _ "drop (Suc i) ?ers"]) (use sg in \<open>simp add: t [symmetric]\<close>)
    have f: "key_bytes (groups_of (take i ?ers @ [(es ! i, rs ! i)])) \<le> tk" "length (groups_of (take i ?ers @ [(es ! i, rs ! i)])) \<le> g"
      using groups_of_take_mono [of "Suc i" ?ers] fit unfolding t by simp_all
    have "bytes_of (map (record_value \<circ> snd) (take (Suc i) ?ers)) \<le> bytes_of (map (record_value \<circ> snd) ?ers)"
      by (metis bytes_of_take_le take_map)
    moreover have "map (record_value \<circ> snd) ?ers = map record_value rs"
      using len by (metis map_map map_snd_zip)
    ultimately have fv: "bytes_of (map (record_value \<circ> snd) (take i ?ers @ [(es ! i, rs ! i)])) \<le> tv"
      using fit(3) unfolding t by simp
    have il: "i = length (take i ?ers)" "i < n" using i len by simp_all
    have "written m' a (groups_of (take i ?ers)) (map (record_value \<circ> snd) (take i ?ers))" "j = length (groups_of (take i ?ers))"
      using P st by simp_all
    from group_write_correct [OF ok sg' this(1) record_at_same [OF ri(1) so ri(2)] ri(2) il(1) refl this(2) f fv il(2)]
    show "?P (Suc i) (group_write a es ps i st)" unfolding st t using same_outside_trans [OF so] by blast
  qed
  moreover have "map (record_value \<circ> snd) ?ers = map record_value rs"
    using len by (metis map_map map_snd_zip)
  ultimately show "written (fst (write_groups a es ps m)) a (groups_of ?ers) (map record_value rs)"
    "same_outside lo hi m (fst (write_groups a es ps m))"
    unfolding write_groups_fold using len by simp_all
qed

subsection \<open>Sizes and the sorted records\<close>

lemma length_groups_of_Cons_cases:
  "length (groups_of (ers @ [(e, r)])) = (if e then length (groups_of ers) else length (groups_of ers) + 1)"
  "key_bytes (groups_of (ers @ [(e, r)])) = (if e then key_bytes (groups_of ers) else key_bytes (groups_of ers) + length (record_key r))"
proof -
  have "length (add_to_last v gs) = length gs" for v gs by (metis length_map map_fst_add_to_last)
  then show "length (groups_of (ers @ [(e, r)])) = (if e then length (groups_of ers) else length (groups_of ers) + 1)"
    "key_bytes (groups_of (ers @ [(e, r)])) = (if e then key_bytes (groups_of ers) else key_bytes (groups_of ers) + length (record_key r))"
    by (simp_all add: group_step_def key_bytes_def)
qed

lemma group_sizes_correct:
  assumes len: "length ps = length rs" "length es = length rs" and r: "\<forall>i<length rs. record_at m (ps ! i) (rs ! i)"
  shows "group_sizes m es ps =
    (length (groups_of (zip es rs)), key_bytes (groups_of (zip es rs)), bytes_of (map record_value rs))"
proof -
  let ?P = "\<lambda>i st. st = (length (groups_of (take i (zip es rs))), key_bytes (groups_of (take i (zip es rs))),
      bytes_of (map record_value (take i rs)))"
  have "?P (length ps) (group_sizes m es ps)"
    unfolding group_sizes_def
  proof (rule fold_upt_invariant [where P = ?P])
    show "?P 0 (0, 0, 0)" by simp
  next
    fix i st assume i: "i < length ps" and P: "?P i st"
    have t: "take (Suc i) (zip es rs) = take i (zip es rs) @ [(es ! i, rs ! i)]" "take (Suc i) rs = take i rs @ [rs ! i]"
      using i len by (simp_all add: take_Suc_conv_app_nth)
    have "record_at m (ps ! i) (rs ! i)" using r i len by simp
    note rk = record_at_key [OF this] record_at_parts [OF this]
    show "?P (Suc i) (case st of (g, tk, tv) \<Rightarrow>
        let tv = tv + value_length m (ps ! i)
        in if es ! i then (g, tk, tv) else (g + 1, tk + load_size m (ps ! i + 8), tv))"
      unfolding P t prod.case Let_def length_groups_of_Cons_cases using rk by simp
  qed
  then show ?thesis using len by simp
qed

lemma placed_record_apart_size: "bytes_of (map record_value rs) \<le> length (encoded rs)"
proof (induction rs)
  case (Cons r rs)
  have "length (record_value r) \<le> length (encode r)" by (simp add: record_value_def length_encode)
  moreover have "length (encoded (r # rs)) = length (encode r) + length (encoded rs)" by (simp add: encoded_def)
  ultimately show ?case using Cons by (simp add: bytes_of_def)
qed simp

lemma written_apart_store:
  assumes ok: "arrays_ok a tk tv n g lo hi" and w: "written m a gs vals"
    and fit: "key_bytes gs \<le> tk" "length gs \<le> g" "bytes_of vals \<le> tv" "length vals \<le> n"
    and x: "out_key_offsets a + 8 * (g + 1) \<le> x" "x + 8 \<le> out_values a"
  shows "written (store_size m x v) a gs vals"
proof -
  note ok' = ok[unfolded arrays_ok_def]
  have sz: "load_size (store_size m x v) y = load_size m y" if "y + 8 \<le> x \<or> x + 8 \<le> y" for y
    using that by (auto simp: mem_simps)
  have bt: "load_bytes (store_size m x v) y l = load_bytes m y l" if "y + l \<le> x \<or> x + 8 \<le> y" for y l
    using that by (auto simp: mem_simps)
  have 1: "load_size (store_size m x v) (out_key_offsets a + 8 * k) = load_size m (out_key_offsets a + 8 * k)"
    if "k \<le> length gs" for k
    by (rule sz) (use that fit x in simp)
  have 2: "load_size (store_size m x v) (out_value_offsets a + 8 * k) = load_size m (out_value_offsets a + 8 * k)" for k
    by (rule sz) (use ok' x in simp)
  have 3: "load_size (store_size m x v) (out_group_offsets a + 8 * k) = load_size m (out_group_offsets a + 8 * k)" for k
    by (rule sz) (use ok' x in simp)
  have 4: "load_bytes (store_size m x v) (out_keys a) (key_bytes gs) = load_bytes m (out_keys a) (key_bytes gs)"
    by (rule bt) (use ok' x fit in simp)
  have 5: "load_bytes (store_size m x v) (out_values a) (bytes_of vals) = load_bytes m (out_values a) (bytes_of vals)"
    by (rule bt) (use ok' x fit in simp)
  show ?thesis using w unfolding written_def 2 3 4 5 using 1 by simp
qed

lemma arrays_of_buffer_mem: "arrays_of_buffer m b = arrays_of_buffer m' b"
  by (simp add: arrays_of_buffer_def keys_offsets_def values_offsets_def value_group_offsets_def array_of_def make_array_ref_def)

lemma group_sizes_le:
  "key_bytes (groups_of ers) + bytes_of (map (record_value \<circ> snd) ers) \<le> length (encoded (map snd ers))"
  "length (groups_of ers) \<le> length ers"
proof (induction ers rule: rev_induct)
  case (snoc er ers)
  obtain e r where er: "er = (e, r)" by (cases er)
  have "length (record_key r) + length (record_value r) \<le> length (encode r)"
    by (simp add: record_key_def record_value_def length_encode)
  moreover have "map (record_value \<circ> snd) (ers @ [er]) = map (record_value \<circ> snd) ers @ [record_value r]"
    "map snd (ers @ [er]) = map snd ers @ [r]" by (simp_all add: er)
  ultimately show "key_bytes (groups_of (ers @ [er])) + bytes_of (map (record_value \<circ> snd) (ers @ [er])) \<le> length (encoded (map snd (ers @ [er])))"
    and "length (groups_of (ers @ [er])) \<le> length (ers @ [er])"
    using snoc unfolding er length_groups_of_Cons_cases by (simp_all add: o_def)
qed simp_all

definition record_of :: "mem \<Rightarrow> addr \<Rightarrow> kv_record" where
  "record_of m p = (load_bytes m (p + 16) (load_size m p), load_size m (p + 8))"

lemma record_of_placed: "placed_record m lo hi p r \<Longrightarrow> record_of m p = r"
  using record_at_parts [of m p r] by (simp add: placed_record_def record_of_def prod_eq_iff)

lemma placed_records_of:
  assumes "list_all2 (placed_record m lo hi) ps R"
  shows "map (record_of m) ps = R" "\<forall>p\<in>set ps. placed_record m lo hi p (record_of m p)"
  using assms by (induction rule: list_all2_induct) (auto simp: record_of_placed)

lemma length_encoded_mset: "length (encoded rs) = sum_mset (image_mset (length \<circ> encode) (mset rs))"
  by (induction rs) (simp_all add: encoded_def)

text \<open>The contents a partition's result has to have: the distinct keys of the records in
  lexicographic order, each with the values of its records, in any order.\<close>

definition grouping_of :: "kv_record list \<Rightarrow> kv_group list \<Rightarrow> bool" where
  "grouping_of R gs \<longleftrightarrow>
     sorted_wrt (<) (map fst gs) \<and> set (map fst gs) = record_key ` set R \<and>
     (\<forall>g\<in>set gs. mset (snd g) = image_mset record_value (filter_mset (\<lambda>r. record_key r = fst g) (mset R)))"

lemma grouping_of_sorted:
  assumes "sorted (map record_key rs)" "key_marks rs es" "mset rs = mset R"
  shows "grouping_of R (groups_of (zip es rs))" "starts_group (zip es rs)"
proof -
  note g = groups_sorted [OF assms(1,2)]
  have "set rs = set R" using assms(3) by (rule mset_eq_setD)
  moreover have "mset (snd g) = image_mset record_value (filter_mset (\<lambda>r. record_key r = fst g) (mset R))"
    if "g \<in> set (groups_of (zip es rs))" for g
    using g that unfolding assms(3) [symmetric] by (auto simp: mset_filter)
  ultimately show "grouping_of R (groups_of (zip es rs))" using g by (simp add: grouping_of_def)
  show "starts_group (zip es rs)"
    using assms(2) by (cases rs; cases es) (auto simp: starts_group_def key_marks_def)
qed

lemma sort_collected:
  assumes pl: "list_all2 (placed_record m lo hi) ps R"
    and keys: "\<forall>r\<in>set R. \<forall>s\<in>set R. discriminable (record_key r) (record_key s)" "\<forall>r\<in>set R. snd r \<le> L" "L + 8 \<le> fuel"
  shows "\<exists>r rs. msd_radix_sort fuel m \<lparr>equals_to_left = replicate (length ps) False, cache = replicate (length ps) 0,
        pointers = ps, cache_work = replicate (length ps) 0, pointers_work = replicate (length ps) 0\<rparr> 0 False = Some r \<and>
      length (pointers r) = length rs \<and> length rs = length R \<and> length (equals_to_left r) = length rs \<and> mset rs = mset R \<and>
      sorted (map record_key rs) \<and> key_marks rs (equals_to_left r) \<and>
      (\<forall>i<length rs. placed_record m lo hi (pointers r ! i) (rs ! i))"
proof -
  let ?r0 = "\<lparr>equals_to_left = replicate (length ps) False, cache = replicate (length ps) 0,
        pointers = ps, cache_work = replicate (length ps) 0, pointers_work = replicate (length ps) 0\<rparr> :: radix_arrays"
  note po = placed_records_of [OF pl]
  have n: "length ps = length R" using pl by (rule list_all2_lengthD)
  have key: "key_of m p = record_key (record_of m p)" "get_key_length m p = snd (record_of m p)" "record_of m p \<in> set R"
    if "p \<in> set ps" for p
    using that po record_at_key [of m p "record_of m p"] by (auto simp: placed_record_def)
  have "wf_arrays (length (pointers ?r0)) ?r0" by (simp add: wf_arrays_def)
  moreover have "\<forall>p\<in>set (pointers ?r0). \<forall>q\<in>set (pointers ?r0). discriminable (key_of m p) (key_of m q)"
    using key keys(1) by simp
  moreover have "\<forall>p\<in>set (pointers ?r0). get_key_length m p \<le> L" using key keys(2) by simp
  ultimately obtain r where r: "msd_radix_sort fuel m ?r0 0 False = Some r" "mset (pointers r) = mset ps"
    "sorted (map (key_of m) (pointers r))"
    "\<forall>i<length ps. equals_to_left r ! i \<longleftrightarrow> 0 < i \<and> key_of m (pointers r ! i) = key_of m (pointers r ! (i - 1))"
    "wf_arrays (length ps) r"
    using msd_radix_sort_fresh [of ?r0 m L fuel] keys(3) by auto
  let ?rs = "map (record_of m) (pointers r)"
  have len: "length (pointers r) = length ps" using r(2) by (rule mset_eq_length)
  have el: "length (equals_to_left r) = length (pointers r)" using r(5) len by (simp add: wf_arrays_def)
  have sp: "set (pointers r) = set ps" using r(2) by (rule mset_eq_setD)
  have mk: "map (key_of m) (pointers r) = map record_key ?rs" using key sp by simp
  have ki: "key_of m (pointers r ! i) = record_key (?rs ! i)" if "i < length ps" for i
    using arg_cong [OF mk, of "\<lambda>xs. xs ! i"] that len by simp
  have "mset ?rs = image_mset (record_of m) (mset ps)" using r(2) by simp
  then have ms: "mset ?rs = mset R" using po(1) by (metis mset_map)
  have "key_marks ?rs (equals_to_left r)"
    using r(4) el len ki by (simp add: key_marks_def)
  moreover have "\<forall>i<length ?rs. placed_record m lo hi (pointers r ! i) (?rs ! i)"
    using po(2) sp by (metis length_map nth_map nth_mem)
  ultimately show ?thesis using r(1,3) ms len n el unfolding mk
    by (intro exI [of _ r] exI [of _ ?rs]) simp
qed

subsection \<open>The whole operation\<close>

lemma sort_records_result:
  assumes inv: "mem_inv ms" "fresh_mref tmp ms" "fresh_locked slot ms" "next_identifier ms < invalid_id"
    and parts: "list_all2 (partition_placed m part p (p + (length (encoded (concat rss)) + 24 * length (concat rss) + 512))) bs rss"
    and keys: "\<forall>r\<in>set (concat rss). \<forall>s\<in>set (concat rss). discriminable (record_key r) (record_key s)"
      "\<forall>r\<in>set (concat rss). snd r \<le> L" "L + 8 \<le> fuel"
    and fit: "length (encoded (concat rss)) + 24 * length (concat rss) + 512 < size_modulus"
  shows "\<exists>b ms' m' gs. sort_records fuel False tmp slot p node bs part (ms, m) = Some (b, ms', m') \<and> mem_inv ms' \<and>
    grouping_of (concat rss) gs \<and> is_grouped b \<and> group_count m' b = length gs \<and> record_count m' b = length (concat rss) \<and>
    written m' (arrays_of_buffer m' b) gs (concat (map snd gs)) \<and>
    same_outside p (p + (length (encoded (concat rss)) + 24 * length (concat rss) + 512)) m m'"
proof -
  let ?R = "concat rss" and ?hi = "p + (length (encoded (concat rss)) + 24 * length (concat rss) + 512)"
  obtain ps where ps: "all_pointers m bs part = Some ps" "total_records m bs part = Some (length ps)"
    "list_all2 (placed_record m p ?hi) ps ?R"
    using all_pointers_correct [OF parts] by blast
  obtain r rs where r: "msd_radix_sort fuel m \<lparr>equals_to_left = replicate (length ps) False, cache = replicate (length ps) 0,
        pointers = ps, cache_work = replicate (length ps) 0, pointers_work = replicate (length ps) 0\<rparr> 0 False = Some r"
    "length (pointers r) = length rs" "length rs = length ?R" "length (equals_to_left r) = length rs" "mset rs = mset ?R"
    "sorted (map record_key rs)" "key_marks rs (equals_to_left r)"
    "\<forall>i<length rs. placed_record m p ?hi (pointers r ! i) (rs ! i)"
    using sort_collected [OF ps(3) keys] by (elim exE conjE) (rule that)
  let ?es = "equals_to_left r" and ?n = "length ps"
  let ?gs = "groups_of (zip ?es rs)"
  have n: "?n = length ?R" using ps(3) by (rule list_all2_lengthD)
  have gr: "grouping_of ?R ?gs" "starts_group (zip ?es rs)" using grouping_of_sorted [OF r(6,7,5)] .
  have at: "\<forall>i<length rs. record_at m (pointers r ! i) (rs ! i)" using r(8) by (simp add: placed_record_def)
  note sz = group_sizes_correct [OF r(2,4) at]
  let ?tk = "key_bytes ?gs" and ?tv = "bytes_of (map record_value rs)" and ?g = "length ?gs"
  have maps: "map (record_value \<circ> snd) (zip ?es rs) = map record_value rs" "map snd (zip ?es rs) = rs"
    using r(4) by (simp_all add: map_map [symmetric] del: map_map)
  have vals: "concat (map snd ?gs) = map record_value rs" using values_of_groups [OF gr(2)] maps(1) by simp
  have le: "?tk + ?tv \<le> length (encoded ?R)" "?g \<le> ?n"
    using group_sizes_le [of "zip ?es rs"] maps r(3,4) n length_encoded_mset [of rs] length_encoded_mset [of ?R] r(5) by simp_all
  have gf: "grouped_fits ?tk ?tv ?n ?g" using le fit n by (simp add: grouped_fits_def)
  obtain b ms' m1 vh vd s where al: "allocate_grouped_buffer False tmp slot p ?n ?g ?tk ?tv node (ms, m) = Some (b, ms', m1)"
    "mem_inv ms'" "is_grouped b" "group_count m1 b = ?g" "keys_data b = p + 32" "?tk \<le> keys_data_size m1 b"
    "keys_offsets m1 b = array_of (p + 32 + keys_data_size m1 b) (?g + 1)"
    "p + 32 + keys_data_size m1 b + 8 * (?g + 1) = p + vh" "values_header b = Some (p + vh)" "vh + 24 \<le> vd"
    "values_data b = p + vd" "?tv \<le> values_data_size m1 b"
    "values_offsets m1 b = array_of (p + vd + values_data_size m1 b) (?n + 1)"
    "value_group_offsets m1 b = array_of (p + vd + values_data_size m1 b + 8 * (?n + 1)) (?g + 1)"
    "vd + values_data_size m1 b + 8 * (?n + 1) + 8 * (?g + 1) = s" "keys_header b = Some (p + 16)"
    "s \<le> ?tk + ?tv + 8 * ?n + 16 * ?g + 512" "\<forall>x. x < p \<or> p + s \<le> x \<longrightarrow> m1 x = m x"
    using allocate_grouped_ok [OF inv gf, of p node m] by blast
  have shi: "p + s \<le> ?hi" using al(17) le n by linarith
  let ?a = "arrays_of_buffer m1 b"
  have a: "out_keys ?a = p + 32" "out_key_offsets ?a = p + 32 + keys_data_size m1 b" "out_values ?a = p + vd"
    "out_value_offsets ?a = p + vd + values_data_size m1 b"
    "out_group_offsets ?a = p + vd + values_data_size m1 b + 8 * (?n + 1)"
    by (simp_all add: arrays_of_buffer_def al array_of_def make_array_ref_def)
  have ok: "arrays_ok ?a ?tk ?tv ?n ?g (p + 32) (p + s)"
  proof -
    have "?tk < size_modulus" "?tv < size_modulus" using le(1) fit by linarith+
    then show ?thesis unfolding arrays_ok_def a using al(6,8,10,12,15) by linarith
  qed
  have so1: "same_outside p (p + s) m m1" using al(18) by (simp add: same_outside_def)
  have pl: "\<forall>i<length rs. record_at m1 (pointers r ! i) (rs ! i) \<and> apart (pointers r ! i) (length (encode (rs ! i))) (p + 32) (p + s)"
  proof (intro allI impI)
    fix i assume "i < length rs"
    then have x: "record_at m (pointers r ! i) (rs ! i)" "apart (pointers r ! i) (length (encode (rs ! i))) p ?hi"
      using r(8) by (simp_all add: placed_record_def)
    have "apart (pointers r ! i) (length (encode (rs ! i))) p (p + s)" using x(2) shi by (auto simp: apart_def)
    with record_at_same [OF x(1) so1] show "record_at m1 (pointers r ! i) (rs ! i) \<and>
        apart (pointers r ! i) (length (encode (rs ! i))) (p + 32) (p + s)"
      by (auto simp: apart_def)
  qed
  let ?m2 = "fst (write_groups ?a ?es (pointers r) m1)"
  let ?m3 = "set_record_count b ?n ?m2"
  have rn: "length rs \<le> ?n" using r(3) n by simp
  note wg = write_groups_correct [OF ok r(2,4) rn pl gr(2) order.refl order.refl order.refl]
  have nm: "?n < size_modulus" using fit n by simp
  have w3: "written ?m3 ?a ?gs (map record_value rs)"
    unfolding set_record_count_def al(9) option.sel
    by (rule written_apart_store [OF ok wg(1)]) (use al(8,10) a r(3) n in simp_all)
  have gc: "group_count ?m3 b = ?g"
  proof -
    have "group_count ?m3 b = load_size ?m2 (p + 16 + 8)"
      unfolding group_count_def set_record_count_def al(9,16) option.sel
      by (rule load_size_store_size_disjoint) (use al(8) in simp)
    also have "\<dots> = load_size m1 (p + 16 + 8)"
      by (rule load_size_same_outside [OF wg(2)]) (simp add: apart_def)
    also have "\<dots> = ?g" using al(4) by (simp add: group_count_def al(16))
    finally show ?thesis .
  qed
  have rc: "record_count ?m3 b = ?n"
    using nm by (simp add: record_count_def set_record_count_def al(9) mem_simps)
  have so: "same_outside p ?hi m ?m3"
  proof -
    have "same_outside p ?hi m m1" using so1 shi by (auto simp: same_outside_def)
    moreover have "same_outside p ?hi m1 ?m2" using wg(2) shi by (auto simp: same_outside_def)
    moreover have "same_outside p ?hi ?m2 ?m3" unfolding set_record_count_def al(9) option.sel
      by (rule same_outside_store_size) (use al(8,10,15) shi in simp_all)
    ultimately show ?thesis using same_outside_trans by blast
  qed
  have "sort_records fuel False tmp slot p node bs part (ms, m) = Some (b, ms', ?m3)"
    unfolding sort_records_def by (simp add: ps r(1) sz al(1) Let_def)
  moreover have "arrays_of_buffer ?m3 b = ?a" by (rule arrays_of_buffer_mem)
  ultimately show ?thesis using al(2,3) gr(1) gc rc n w3 vals so by metis
qed

subsection \<open>Properties\<close>


text \<open>One shuffle buffer of one partition with two records of key "b" and one of key "a".\<close>

definition sample_records :: "kv_record list" where
  "sample_records = [([98, 1], 1), ([97, 2], 1), ([98, 3], 1)]"

definition sample_shuffle_mem :: mem where
  "sample_shuffle_mem = mem_of (le_bytes 8 0 @ le_bytes 8 54 @ encoded sample_records)"

lemma sample_shuffle_reads:
  "load_size sample_shuffle_mem 0 = 0" "load_size sample_shuffle_mem 8 = 54"
  "load_bytes sample_shuffle_mem 16 54 = encoded sample_records" "length (encoded sample_records) = 54"
  by code_simp+


end
