(* ===== verification/PhysicalTask.thy ===== *)
theory PhysicalTask
  imports Containers
begin

text \<open>
  Identifiers of tasks, physical tasks and the queues they wait in: tasks/logical_task_identifier.hpp,
  tasks/physical_task_identifier.hpp, tasks/physical_task.hpp and .cpp, scheduler/physical_task_list.hpp
  and .cpp, scheduler/thread_local_scheduler.hpp and .cpp. A command is a parameter \<open>'c\<close>: what
  \<open>prepare\<close> and \<open>run\<close> do is up to the logical task that made it.
\<close>

subsection \<open>Identifiers\<close>

datatype LogicalTaskIdentifier = LogicalTaskIdentifier (logical_id: identifier_type)
datatype PhysicalTaskIdentifier = PhysicalTaskIdentifier (physical_id: identifier_type)

definition no_logical_task :: LogicalTaskIdentifier where
  "no_logical_task = LogicalTaskIdentifier invalid_id"

definition no_physical_task :: PhysicalTaskIdentifier where
  "no_physical_task = PhysicalTaskIdentifier invalid_id"

definition logical_valid :: "LogicalTaskIdentifier \<Rightarrow> bool" where
  "logical_valid t \<longleftrightarrow> logical_id t \<noteq> invalid_id"

definition physical_valid :: "PhysicalTaskIdentifier \<Rightarrow> bool" where
  "physical_valid t \<longleftrightarrow> physical_id t \<noteq> invalid_id"

text \<open>Both are hashed by the number itself, and ordered by the time of their creation.\<close>

definition hash_logical :: "LogicalTaskIdentifier \<Rightarrow> nat" where
  "hash_logical t = logical_id t"

definition hash_physical :: "PhysicalTaskIdentifier \<Rightarrow> nat" where
  "hash_physical t = physical_id t"

instantiation PhysicalTaskIdentifier :: linorder
begin

definition less_eq_PhysicalTaskIdentifier :: "PhysicalTaskIdentifier \<Rightarrow> PhysicalTaskIdentifier \<Rightarrow> bool" where
  "less_eq_PhysicalTaskIdentifier a b \<longleftrightarrow> physical_id a \<le> physical_id b"

definition less_PhysicalTaskIdentifier :: "PhysicalTaskIdentifier \<Rightarrow> PhysicalTaskIdentifier \<Rightarrow> bool" where
  "less_PhysicalTaskIdentifier a b \<longleftrightarrow> physical_id a < physical_id b"

instance
  by standard (auto simp: less_eq_PhysicalTaskIdentifier_def less_PhysicalTaskIdentifier_def
      PhysicalTaskIdentifier.expand)

end

lemma hash_physical_mono: "a < b \<longleftrightarrow> hash_physical a < hash_physical b"
  by (simp add: less_PhysicalTaskIdentifier_def hash_physical_def)

subsection \<open>Physical tasks\<close>

record 'c physical_task =
  pt_logical :: LogicalTaskIdentifier
  pt_physical :: PhysicalTaskIdentifier
  pt_command :: "'c option"

definition default_physical_task :: "'c physical_task" where
  "default_physical_task = \<lparr>pt_logical = no_logical_task, pt_physical = no_physical_task, pt_command = None\<rparr>"

definition make_physical_task :: "LogicalTaskIdentifier \<Rightarrow> PhysicalTaskIdentifier \<Rightarrow> 'c \<Rightarrow> 'c physical_task" where
  "make_physical_task l p c = \<lparr>pt_logical = l, pt_physical = p, pt_command = Some c\<rparr>"

text \<open>
  \<open>prepare\<close> and \<open>run\<close> call the command, which changes the state of the program or throws; \<open>None\<close> is
  the failed assertion of a task without a command.
\<close>

definition prepare_task :: "('c \<Rightarrow> 's \<Rightarrow> 's result) \<Rightarrow> 'c physical_task \<Rightarrow> 's \<Rightarrow> 's result option" where
  "prepare_task prepare t s = map_option (\<lambda>c. prepare c s) (pt_command t)"

definition run_task :: "('c \<Rightarrow> 's \<Rightarrow> 's result) \<Rightarrow> 'c physical_task \<Rightarrow> 's \<Rightarrow> 's result option" where
  "run_task run t s = map_option (\<lambda>c. run c s) (pt_command t)"

subsection \<open>The interface of a task queue\<close>

text \<open>
  What the scheduler relies on: a queue with two ends, whose contents are a list. Each operation
  takes the mutex of the queue, so it is one step.
\<close>

locale task_deque =
  fixes contents :: "'q \<Rightarrow> 't list"
    and put_front :: "'t \<Rightarrow> 'q \<Rightarrow> 'q" and put_back :: "'t \<Rightarrow> 'q \<Rightarrow> 'q"
    and get_front :: "'q \<Rightarrow> 't option \<times> 'q" and get_back :: "'q \<Rightarrow> 't option \<times> 'q"
  assumes put_front: "contents (put_front t q) = t # contents q"
    and put_back: "contents (put_back t q) = contents q @ [t]"
    and get_front_empty: "contents q = [] \<Longrightarrow> get_front q = (None, q)"
    and get_front_some: "contents q = t # ts \<Longrightarrow> fst (get_front q) = Some t \<and> contents (snd (get_front q)) = ts"
    and get_back_empty: "contents q = [] \<Longrightarrow> get_back q = (None, q)"
    and get_back_some: "contents q = ts @ [t] \<Longrightarrow> fst (get_back q) = Some t \<and> contents (snd (get_back q)) = ts"
begin

lemma get_front_cases:
  obtains "contents q = []" "get_front q = (None, q)"
  | t q' where "get_front q = (Some t, q')" "contents q = t # contents q'"
proof (cases "contents q")
  case Nil
  then show thesis using get_front_empty that(1) by blast
next
  case (Cons t ts)
  then show thesis using get_front_some [OF Cons] that(2) by (metis prod.collapse)
qed

lemma get_back_cases:
  obtains "contents q = []" "get_back q = (None, q)"
  | t q' where "get_back q = (Some t, q')" "contents q = contents q' @ [t]"
proof (cases "contents q" rule: rev_cases)
  case Nil
  then show thesis using get_back_empty that(1) by blast
next
  case (snoc ts t)
  then show thesis using get_back_some [OF snoc] that(2) by (metis prod.collapse)
qed

text \<open>No task is lost or invented, whichever end it goes in and out.\<close>

lemma get_conserves:
  "get_front q = (Some t, q') \<Longrightarrow> mset (contents q) = add_mset t (mset (contents q'))"
  "get_back q = (Some t, q') \<Longrightarrow> mset (contents q) = add_mset t (mset (contents q'))"
  by (cases q rule: get_front_cases; simp) (cases q rule: get_back_cases; simp)

lemma get_none:
  "fst (get_front q) = None \<longleftrightarrow> contents q = []" "fst (get_back q) = None \<longleftrightarrow> contents q = []"
  by (cases q rule: get_front_cases; simp) (cases q rule: get_back_cases; simp)

lemma fifo: "contents q = [] \<Longrightarrow> get_front (put_back t q) = (Some t, q') \<Longrightarrow> contents q' = []"
  using get_front_some [of "put_back t q" t "[]"] put_back [of t q] by simp

end

subsection \<open>PhysicalTaskList\<close>

text \<open>The deque; \<open>None\<close> for a push is the failed assertion on an empty pointer.\<close>

type_synonym 'c task_list = "'c physical_task list"

definition push_front :: "'c physical_task option \<Rightarrow> 'c task_list \<Rightarrow> 'c task_list option" where
  "push_front t q = map_option (\<lambda>t. t # q) t"

definition push_back :: "'c physical_task option \<Rightarrow> 'c task_list \<Rightarrow> 'c task_list option" where
  "push_back t q = map_option (\<lambda>t. q @ [t]) t"

fun pop_front :: "'c task_list \<Rightarrow> 'c physical_task option \<times> 'c task_list" where
  "pop_front [] = (None, [])"
| "pop_front (t # q) = (Some t, q)"

definition pop_back :: "'c task_list \<Rightarrow> 'c physical_task option \<times> 'c task_list" where
  "pop_back q = (if q = [] then (None, []) else (Some (last q), butlast q))"

definition task_list_empty :: "'c task_list \<Rightarrow> bool" where
  "task_list_empty q \<longleftrightarrow> q = []"

interpretation tl: task_deque "\<lambda>q :: 'c task_list. q" "\<lambda>t q. the (push_front (Some t) q)" "\<lambda>t q. the (push_back (Some t) q)"
    pop_front pop_back
  by unfold_locales (auto simp: push_front_def push_back_def pop_back_def)

subsection \<open>ThreadLocalScheduler\<close>

record 'c thread_local_scheduler =
  tls_stealable :: "'c task_list"
  tls_unstealable :: "'c task_list"

definition new_thread_local_scheduler :: "'c thread_local_scheduler" where
  "new_thread_local_scheduler = \<lparr>tls_stealable = [], tls_unstealable = []\<rparr>"

definition push_stealable_task :: "'c physical_task option \<Rightarrow> 'c thread_local_scheduler \<Rightarrow> 'c thread_local_scheduler option" where
  "push_stealable_task t s = map_option (\<lambda>q. s\<lparr>tls_stealable := q\<rparr>) (push_front t (tls_stealable s))"

definition push_unstealable_task :: "'c physical_task option \<Rightarrow> 'c thread_local_scheduler \<Rightarrow> 'c thread_local_scheduler option" where
  "push_unstealable_task t s = map_option (\<lambda>q. s\<lparr>tls_unstealable := q\<rparr>) (push_front t (tls_unstealable s))"

definition pop_stealable_task :: "'c thread_local_scheduler \<Rightarrow> 'c physical_task option \<times> 'c thread_local_scheduler" where
  "pop_stealable_task s = (let (t, q) = pop_front (tls_stealable s) in (t, s\<lparr>tls_stealable := q\<rparr>))"

definition pop_unstealable_task :: "'c thread_local_scheduler \<Rightarrow> 'c physical_task option \<times> 'c thread_local_scheduler" where
  "pop_unstealable_task s = (let (t, q) = pop_front (tls_unstealable s) in (t, s\<lparr>tls_unstealable := q\<rparr>))"

definition tls_steal_task :: "'c thread_local_scheduler \<Rightarrow> 'c physical_task option \<times> 'c thread_local_scheduler" where
  "tls_steal_task s = (let (t, q) = pop_back (tls_stealable s) in (t, s\<lparr>tls_stealable := q\<rparr>))"

text \<open>The owner works last in, first out; thieves take the oldest task.\<close>

lemma thread_local_scheduler_order:
  assumes "push_stealable_task (Some t) s = Some s'"
  shows "fst (pop_stealable_task s') = Some t"
    "tls_stealable s \<noteq> [] \<Longrightarrow> fst (tls_steal_task s') = Some (last (tls_stealable s))"
  using assms by (auto simp: push_stealable_task_def pop_stealable_task_def tls_steal_task_def push_front_def pop_back_def)

end
