(* ===== verification/Scheduler.thy ===== *)
theory Scheduler
  imports PhysicalTask Locality
begin

text \<open>
  The scheduler's state and its operations, one definition per member function: scheduler/scheduler.hpp
  and .cpp, scheduler_synchronizer.hpp, cancellation_manager.hpp and .cpp. A failed assertion is
  \<open>None\<close>. The graph of tasks is locked by one mutex; which of these operations other threads can see
  half done is the subject of the theory SchedulerMachine.
\<close>

subsection \<open>Synchronizers and cancellation\<close>

text \<open>
  A synchronizer is its flag \<open>m_is_sleeping\<close>; its worker waits until the flag is down. \<open>notify\<close>
  answers whether it took the flag down.
\<close>

definition set_is_sleeping :: "nat \<Rightarrow> bool list \<Rightarrow> bool list" where
  "set_is_sleeping w flags = flags[w := True]"

definition reset_is_sleeping :: "nat \<Rightarrow> bool list \<Rightarrow> bool list" where
  "reset_is_sleeping w flags = flags[w := False]"

definition notify :: "nat \<Rightarrow> bool list \<Rightarrow> bool \<times> bool list" where
  "notify w flags = (if \<not> flags ! w then (False, flags) else (True, flags[w := False]))"

definition may_wake :: "nat \<Rightarrow> bool list \<Rightarrow> bool" where
  "may_wake w flags \<longleftrightarrow> \<not> flags ! w"

type_synonym cancellation_manager = "exn option"

text \<open>The first exception stays; every later one is suppressed.\<close>

definition cm_notify_exception :: "exn \<Rightarrow> cancellation_manager \<Rightarrow> cancellation_manager" where
  "cm_notify_exception e c = (if c = None then Some e else c)"

definition cm_rethrow_exception :: "cancellation_manager \<Rightarrow> unit result" where
  "cm_rethrow_exception c = (case c of None \<Rightarrow> ok () | Some e \<Rightarrow> throw e)"

definition cm_is_cancelled :: "cancellation_manager \<Rightarrow> bool" where
  "cm_is_cancelled c \<longleftrightarrow> c \<noteq> None"

subsection \<open>State\<close>

record 'c physical_vertex =
  predecessor_count :: size_type
  successors :: "PhysicalTaskIdentifier list"
  vertex_locality :: locality_option
  vertex_task :: "'c physical_task option"

definition make_vertex :: "locality_option \<Rightarrow> 'c physical_task \<Rightarrow> 'c physical_vertex" where
  "make_vertex lo t = \<lparr>predecessor_count = 1, successors = [], vertex_locality = lo, vertex_task = Some t\<rparr>"

record 'c scheduler =
  sch_locality :: locality_manager
  sleeping :: "bool list"
  stealable_queues :: "'c task_list list"
  unstealable_queues :: "'c task_list list"
  vertices :: "PhysicalTaskIdentifier \<Rightarrow> 'c physical_vertex option"
  created_task_count :: size_type
  unfinished_task_count :: size_type
  cancellation :: cancellation_manager

definition make_scheduler :: "locality_manager \<Rightarrow> 'c scheduler" where
  "make_scheduler lm =
     \<lparr>sch_locality = lm, sleeping = replicate (lm_max_concurrency lm) False,
      stealable_queues = replicate (lm_node_count lm) [], unstealable_queues = replicate (lm_max_concurrency lm) [],
      vertices = (\<lambda>_. None), created_task_count = 0, unfinished_task_count = 0, cancellation = None\<rparr>"

definition default_scheduler :: "'c scheduler" where
  "default_scheduler = make_scheduler default_locality_manager"

definition is_finished :: "'c scheduler \<Rightarrow> bool" where
  "is_finished s \<longleftrightarrow> unfinished_task_count s = 0"

definition is_cancelled :: "'c scheduler \<Rightarrow> bool" where
  "is_cancelled s \<longleftrightarrow> cm_is_cancelled (cancellation s)"

subsection \<open>Notification\<close>

definition notify_worker :: "nat \<Rightarrow> 'c scheduler \<Rightarrow> bool \<times> 'c scheduler" where
  "notify_worker w s = (let (b, flags) = notify w (sleeping s) in (b, s\<lparr>sleeping := flags\<rparr>))"

definition notify_all :: "'c scheduler \<Rightarrow> 'c scheduler" where
  "notify_all s = fold (\<lambda>w s. snd (notify_worker w s)) [0..<length (sleeping s)] s"

text \<open>The loop that stops at the first worker it wakes up.\<close>

fun notify_first :: "nat list \<Rightarrow> 'c scheduler \<Rightarrow> 'c scheduler" where
  "notify_first [] s = s"
| "notify_first (w # ws) s = (let (woken, s) = notify_worker w s in if woken then s else notify_first ws s)"

subsection \<open>The graph of tasks\<close>

text \<open>
  The part of \<open>decrement_predecessor_count\<close> up to the decision, the choice of a queue for a task
  that became ready, and the workers to notify. \<open>draw\<close> is \<open>uniform_random_integer\<close>.
\<close>

definition drop_predecessor :: "PhysicalTaskIdentifier \<Rightarrow> 'c scheduler \<Rightarrow> (bool \<times> 'c scheduler) option" where
  "drop_predecessor tid s =
     map_option (\<lambda>v. let n = sz_sub (predecessor_count v) 1
                      in (n = 0, s\<lparr>vertices := (vertices s)(tid \<mapsto> v\<lparr>predecessor_count := n\<rparr>)\<rparr>))
       (vertices s tid)"

definition choose_worker :: "(nat \<Rightarrow> nat \<Rightarrow> nat) \<Rightarrow> locality_option \<Rightarrow> 'c scheduler \<Rightarrow> nat" where
  "choose_worker draw lo s =
     (if has_recommendation lo then recommended_worker lo
      else draw 0 (sz_sub (lm_max_concurrency (sch_locality s)) 1))"

definition enqueue :: "(nat \<Rightarrow> nat \<Rightarrow> nat) \<Rightarrow> PhysicalTaskIdentifier \<Rightarrow> 'c scheduler \<Rightarrow> (nat list \<times> 'c scheduler) option" where
  "enqueue draw tid s = do {
     v \<leftarrow> vertices s tid;
     let lo = vertex_locality v;
     let s = s\<lparr>vertices := (vertices s)(tid \<mapsto> v\<lparr>vertex_task := None\<rparr>)\<rparr>;
     if \<not> is_stealable lo then do {
         let w = recommended_worker lo;
         q \<leftarrow> push_back (vertex_task v) (unstealable_queues s ! w);
         Some ([w], s\<lparr>unstealable_queues := (unstealable_queues s)[w := q]\<rparr>)
       } else do {
         let n = lm_max_concurrency (sch_locality s);
         let w = choose_worker draw lo s;
         let node = thread_mapping (sch_locality s) w;
         q \<leftarrow> push_back (vertex_task v) (stealable_queues s ! node);
         Some (map (\<lambda>i. (w + i) mod n) [0..<n], s\<lparr>stealable_queues := (stealable_queues s)[node := q]\<rparr>)
       }
   }"

definition decrement_predecessor_count ::
  "(nat \<Rightarrow> nat \<Rightarrow> nat) \<Rightarrow> PhysicalTaskIdentifier \<Rightarrow> 'c scheduler \<Rightarrow> 'c scheduler option" where
  "decrement_predecessor_count draw tid s = do {
     (ready, s) \<leftarrow> drop_predecessor tid s;
     if ready then map_option (\<lambda>(ws, s). notify_first ws s) (enqueue draw tid s) else Some s
   }"

definition create_physical_task ::
  "LogicalTaskIdentifier \<Rightarrow> 'c \<Rightarrow> locality_option \<Rightarrow> 'c scheduler \<Rightarrow> PhysicalTaskIdentifier \<times> 'c scheduler" where
  "create_physical_task l c lo s =
     (let tid = PhysicalTaskIdentifier (created_task_count s)
      in (tid, s\<lparr>created_task_count := created_task_count s + 1,
                vertices := (vertices s)(tid \<mapsto> make_vertex lo (make_physical_task l tid c))\<rparr>))"

text \<open>A dependency on a task that has already been completed is dropped.\<close>

definition add_dependency ::
  "PhysicalTaskIdentifier \<Rightarrow> PhysicalTaskIdentifier \<Rightarrow> 'c scheduler \<Rightarrow> 'c scheduler option" where
  "add_dependency p v s =
     (case vertices s p of
        None \<Rightarrow> Some s
      | Some vp \<Rightarrow>
          (case vertices s v of
             None \<Rightarrow> None
           | Some _ \<Rightarrow>
               (let g = (vertices s)(p \<mapsto> vp\<lparr>successors := successors vp @ [v]\<rparr>);
                    vv = the (g v)
                in Some (s\<lparr>vertices := g(v \<mapsto> vv\<lparr>predecessor_count := sz_add (predecessor_count vv) 1\<rparr>)\<rparr>))))"

definition begin_commit :: "'c scheduler \<Rightarrow> 'c scheduler" where
  "begin_commit s = s\<lparr>unfinished_task_count := unfinished_task_count s + 1\<rparr>"

definition commit_task :: "(nat \<Rightarrow> nat \<Rightarrow> nat) \<Rightarrow> PhysicalTaskIdentifier \<Rightarrow> 'c scheduler \<Rightarrow> 'c scheduler option" where
  "commit_task draw tid s = decrement_predecessor_count draw tid (begin_commit s)"

subsection \<open>Taking tasks\<close>

definition take_unstealable_task :: "locality \<Rightarrow> 'c scheduler \<Rightarrow> 'c physical_task option \<times> 'c scheduler" where
  "take_unstealable_task l s =
     (let w = self_thread_id l; (t, q) = pop_front (unstealable_queues s ! w)
      in (t, s\<lparr>unstealable_queues := (unstealable_queues s)[w := q]\<rparr>))"

definition take_local_stealable_task :: "locality \<Rightarrow> 'c scheduler \<Rightarrow> 'c physical_task option \<times> 'c scheduler" where
  "take_local_stealable_task l s =
     (let n = self_node_id l; (t, q) = pop_back (stealable_queues s ! n)
      in (t, s\<lparr>stealable_queues := (stealable_queues s)[n := q]\<rparr>))"

text \<open>One round of the loop of \<open>steal_task\<close>, and the loop.\<close>

definition steal_from :: "nat \<Rightarrow> 'c scheduler \<Rightarrow> 'c physical_task option \<times> 'c scheduler" where
  "steal_from q s =
     (let (t, ts) = pop_front (stealable_queues s ! q) in (t, s\<lparr>stealable_queues := (stealable_queues s)[q := ts]\<rparr>))"

fun steal_loop :: "nat list \<Rightarrow> 'c scheduler \<Rightarrow> 'c physical_task option \<times> 'c scheduler" where
  "steal_loop [] s = (None, s)"
| "steal_loop (q # qs) s = (case steal_from q s of (Some t, s) \<Rightarrow> (Some t, s) | (None, s) \<Rightarrow> steal_loop qs s)"

definition steal_order :: "locality \<Rightarrow> 'c scheduler \<Rightarrow> nat list" where
  "steal_order l s = (let n = length (stealable_queues s) in map (\<lambda>i. (self_node_id l + i) mod n) [0..<n])"

definition steal_task :: "locality \<Rightarrow> 'c scheduler \<Rightarrow> 'c physical_task option \<times> 'c scheduler" where
  "steal_task l s = steal_loop (steal_order l s) s"

text \<open>\<open>take_runnable_task\<close> up to the attempt to sleep.\<close>

definition take_without_sleep :: "locality \<Rightarrow> 'c scheduler \<Rightarrow> 'c physical_task option \<times> 'c scheduler" where
  "take_without_sleep l s =
     (case take_unstealable_task l s of
        (Some t, s) \<Rightarrow> (Some t, s)
      | (None, s) \<Rightarrow> (case take_local_stealable_task l s of
           (Some t, s) \<Rightarrow> (Some t, s)
         | (None, s) \<Rightarrow> steal_task l s))"

subsection \<open>Completion\<close>

definition erase_vertex :: "PhysicalTaskIdentifier \<Rightarrow> 'c scheduler \<Rightarrow> (PhysicalTaskIdentifier list \<times> 'c scheduler) option" where
  "erase_vertex tid s = map_option (\<lambda>v. (successors v, s\<lparr>vertices := (vertices s)(tid := None)\<rparr>)) (vertices s tid)"

definition count_completion :: "'c scheduler \<Rightarrow> 'c scheduler" where
  "count_completion s = s\<lparr>unfinished_task_count := sz_sub (unfinished_task_count s) 1\<rparr>"

definition notify_task_completion ::
  "(nat \<Rightarrow> nat \<Rightarrow> nat) \<Rightarrow> PhysicalTaskIdentifier \<Rightarrow> 'c scheduler \<Rightarrow> 'c scheduler option" where
  "notify_task_completion draw tid s = do {
     (succs, s) \<leftarrow> erase_vertex tid s;
     s \<leftarrow> fold (\<lambda>v s. Option.bind s (decrement_predecessor_count draw v)) succs (Some s);
     let s = count_completion s;
     Some (if unfinished_task_count s = 0 then notify_all s else s)
   }"

definition notify_exception :: "exn \<Rightarrow> 'c scheduler \<Rightarrow> 'c scheduler" where
  "notify_exception e s = notify_all (s\<lparr>cancellation := cm_notify_exception e (cancellation s)\<rparr>)"

definition rethrow_exception :: "'c scheduler \<Rightarrow> unit result" where
  "rethrow_exception s = cm_rethrow_exception (cancellation s)"

subsection \<open>Flags after notification\<close>

lemma notify_worker_simps [simp]:
  "vertices (snd (notify_worker w s)) = vertices s" "stealable_queues (snd (notify_worker w s)) = stealable_queues s"
  "unstealable_queues (snd (notify_worker w s)) = unstealable_queues s" "sch_locality (snd (notify_worker w s)) = sch_locality s"
  "created_task_count (snd (notify_worker w s)) = created_task_count s"
  "unfinished_task_count (snd (notify_worker w s)) = unfinished_task_count s" "cancellation (snd (notify_worker w s)) = cancellation s"
  "sleeping (snd (notify_worker w s)) = (sleeping s)[w := False]" "fst (notify_worker w s) \<longleftrightarrow> sleeping s ! w"
  by (auto simp: notify_worker_def notify_def Let_def split: prod.split) (metis list_update_id)

lemma notify_all_sleeping: "sleeping (notify_all s) = replicate (length (sleeping s)) False"
proof -
  let ?P = "\<lambda>i s'. length (sleeping s') = length (sleeping s) \<and> (\<forall>k<i. \<not> sleeping s' ! k)"
  have "?P (length (sleeping s)) (notify_all s)"
    unfolding notify_all_def
    by (rule fold_upt_invariant [where P = ?P]) (auto simp: nth_list_update less_Suc_eq)
  then show ?thesis by (simp add: list_eq_iff_nth_eq)
qed

end
