(* ===== verification/SchedulerGraph.thy ===== *)
theory SchedulerGraph
  imports Scheduler
begin

text \<open>
  The invariant of the graph of tasks and its preservation by each operation of the scheduler. Ghost
  arguments name what is in flight: \<open>U\<close> the tasks not committed yet, \<open>E\<close> the dependencies that were
  recorded, \<open>P\<close> the decrements still to be done, \<open>H\<close> the tasks taken out of the queues and not
  completed, \<open>F\<close> the completed tasks not yet subtracted from the count of unfinished ones.
\<close>

subsection \<open>The invariant\<close>

definition edges_into :: "'c scheduler \<Rightarrow> PhysicalTaskIdentifier \<Rightarrow> nat" where
  "edges_into s v = (\<Sum>u\<in>dom (vertices s). count_list (successors (the (vertices s u))) v)"

definition queued_ids :: "'c scheduler \<Rightarrow> PhysicalTaskIdentifier multiset" where
  "queued_ids s = mset (map pt_physical (concat (stealable_queues s) @ concat (unstealable_queues s)))"

definition ready_ids :: "'c scheduler \<Rightarrow> PhysicalTaskIdentifier set" where
  "ready_ids s = {v \<in> dom (vertices s). predecessor_count (the (vertices s v)) = 0}"

definition lo_ok :: "nat \<Rightarrow> locality_option \<Rightarrow> bool" where
  "lo_ok n lo \<longleftrightarrow> ((\<not> is_stealable lo \<or> has_recommendation lo) \<longrightarrow> recommended_worker lo < n)"

definition shape_ok :: "'c scheduler \<Rightarrow> bool" where
  "shape_ok s \<longleftrightarrow> (let lm = sch_locality s; n = lm_max_concurrency lm in
     0 < n \<and> n < size_modulus \<and> 0 < lm_node_count lm \<and> length (sleeping s) = n \<and> length (unstealable_queues s) = n \<and>
     length (stealable_queues s) = lm_node_count lm \<and> (\<forall>w<n. thread_mapping lm w < lm_node_count lm))"

definition vertex_ok :: "'c scheduler \<Rightarrow> PhysicalTaskIdentifier set \<Rightarrow> PhysicalTaskIdentifier rel \<Rightarrow>
    PhysicalTaskIdentifier multiset \<Rightarrow> PhysicalTaskIdentifier \<Rightarrow> 'c physical_vertex \<Rightarrow> bool" where
  "vertex_ok s U E P v x \<longleftrightarrow>
     predecessor_count x = of_bool (v \<in> U) + edges_into s v + count P v \<and> predecessor_count x < size_modulus \<and>
     set (successors x) = E `` {v} \<and> set (successors x) \<subseteq> dom (vertices s) \<and>
     (0 < predecessor_count x \<longrightarrow> (\<exists>t. vertex_task x = Some t \<and> pt_physical t = v)) \<and>
     lo_ok (lm_max_concurrency (sch_locality s)) (vertex_locality x) \<and> physical_id v < created_task_count s"

definition graph_inv :: "'c scheduler \<Rightarrow> PhysicalTaskIdentifier set \<Rightarrow> PhysicalTaskIdentifier rel \<Rightarrow>
    PhysicalTaskIdentifier multiset \<Rightarrow> PhysicalTaskIdentifier multiset \<Rightarrow> nat \<Rightarrow> bool" where
  "graph_inv s U E P H F \<longleftrightarrow> shape_ok s \<and>
     finite (dom (vertices s)) \<and> U \<subseteq> dom (vertices s) \<and> set_mset P \<subseteq> dom (vertices s) \<and>
     (\<forall>v x. vertices s v = Some x \<longrightarrow> vertex_ok s U E P v x) \<and>
     queued_ids s + H = mset_set (ready_ids s) \<and>
     unfinished_task_count s = card (dom (vertices s) - U) + F \<and> unfinished_task_count s < size_modulus \<and>
     (\<forall>(p, v)\<in>E. physical_id p < created_task_count s \<and> physical_id v < created_task_count s)"

lemma graph_invD:
  assumes "graph_inv s U E P H F"
  shows "shape_ok s" "finite (dom (vertices s))" "U \<subseteq> dom (vertices s)" "set_mset P \<subseteq> dom (vertices s)"
    "vertices s v = Some x \<Longrightarrow> vertex_ok s U E P v x" "queued_ids s + H = mset_set (ready_ids s)"
    "unfinished_task_count s = card (dom (vertices s) - U) + F" "unfinished_task_count s < size_modulus"
    "(p, q) \<in> E \<Longrightarrow> physical_id p < created_task_count s \<and> physical_id q < created_task_count s"
  using assms by (auto simp: graph_inv_def)

text \<open>Changes of the flags, of the cancellation and of nothing else.\<close>

lemma graph_inv_cong:
  assumes "graph_inv s U E P H F"
    "sch_locality s' = sch_locality s" "length (sleeping s') = length (sleeping s)" "vertices s' = vertices s"
    "stealable_queues s' = stealable_queues s" "unstealable_queues s' = unstealable_queues s"
    "created_task_count s' = created_task_count s" "unfinished_task_count s' = unfinished_task_count s"
  shows "graph_inv s' U E P H F"
proof -
  have "edges_into s' v = edges_into s v" for v using assms by (simp add: edges_into_def)
  then have "vertex_ok s' U E P v x = vertex_ok s U E P v x" for v x using assms by (simp add: vertex_ok_def)
  moreover have "queued_ids s' = queued_ids s" "ready_ids s' = ready_ids s" using assms by (simp_all add: queued_ids_def ready_ids_def)
  moreover have "shape_ok s' = shape_ok s" using assms by (simp add: shape_ok_def Let_def)
  ultimately show ?thesis using assms by (simp add: graph_inv_def)
qed

lemma mset_concat_update:
  "i < length qs \<Longrightarrow> mset (map f (concat (qs[i := q]))) + mset (map f (qs ! i)) = mset (map f (concat qs)) + mset (map f q)"
proof (induction qs arbitrary: i)
  case (Cons x xs)
  show ?case
  proof (cases i)
    case (Suc j)
    have "mset (map f (concat (xs[j := q]))) + mset (map f (xs ! j)) = mset (map f (concat xs)) + mset (map f q)"
      by (rule Cons.IH) (use Cons.prems Suc in simp)
    then show ?thesis using Suc by (simp add: add.assoc)
  qed simp
qed simp

lemma queued_ids_push_stealable:
  "i < length (stealable_queues s) \<Longrightarrow>
     queued_ids (s\<lparr>stealable_queues := (stealable_queues s)[i := stealable_queues s ! i @ [t]]\<rparr>) = add_mset (pt_physical t) (queued_ids s)"
  using mset_concat_update [of i "stealable_queues s" pt_physical "stealable_queues s ! i @ [t]"]
  by (simp add: queued_ids_def)

lemma queued_ids_push_unstealable:
  "i < length (unstealable_queues s) \<Longrightarrow>
     queued_ids (s\<lparr>unstealable_queues := (unstealable_queues s)[i := unstealable_queues s ! i @ [t]]\<rparr>) = add_mset (pt_physical t) (queued_ids s)"
  using mset_concat_update [of i "unstealable_queues s" pt_physical "unstealable_queues s ! i @ [t]"]
  by (simp add: queued_ids_def)

lemma queued_ids_pop:
  "i < length (stealable_queues s) \<Longrightarrow> mset (stealable_queues s ! i) = add_mset t (mset q) \<Longrightarrow>
     queued_ids s = add_mset (pt_physical t) (queued_ids (s\<lparr>stealable_queues := (stealable_queues s)[i := q]\<rparr>))"
  "i < length (unstealable_queues s) \<Longrightarrow> mset (unstealable_queues s ! i) = add_mset t (mset q) \<Longrightarrow>
     queued_ids s = add_mset (pt_physical t) (queued_ids (s\<lparr>unstealable_queues := (unstealable_queues s)[i := q]\<rparr>))"
  using mset_concat_update [of i "stealable_queues s" pt_physical q] mset_concat_update [of i "unstealable_queues s" pt_physical q]
  by (auto simp: queued_ids_def)

subsection \<open>Taking a task out of a queue\<close>

lemma graph_inv_dequeue:
  assumes inv: "graph_inv s U E P H F" and q: "queued_ids s = add_mset (pt_physical t) (queued_ids s')"
    and same: "sch_locality s' = sch_locality s" "sleeping s' = sleeping s" "vertices s' = vertices s"
    "length (stealable_queues s') = length (stealable_queues s)" "length (unstealable_queues s') = length (unstealable_queues s)"
    "created_task_count s' = created_task_count s" "unfinished_task_count s' = unfinished_task_count s"
  shows "graph_inv s' U E P (add_mset (pt_physical t) H) F"
proof -
  have "edges_into s' v = edges_into s v" for v using same by (simp add: edges_into_def)
  then have "vertex_ok s' U E P v x = vertex_ok s U E P v x" for v x using same by (simp add: vertex_ok_def)
  moreover have "ready_ids s' = ready_ids s" using same by (simp add: ready_ids_def)
  moreover have "shape_ok s' = shape_ok s" using same by (simp add: shape_ok_def Let_def)
  ultimately show ?thesis using inv q same by (simp add: graph_inv_def)
qed

lemma take_unstealable_inv:
  assumes inv: "graph_inv s U E P H F" and w: "self_thread_id l < lm_max_concurrency (sch_locality s)"
    and t: "take_unstealable_task l s = (Some t, s')"
  shows "graph_inv s' U E P (add_mset (pt_physical t) H) F"
proof -
  have len: "self_thread_id l < length (unstealable_queues s)" using graph_invD(1) [OF inv] w by (simp add: shape_ok_def Let_def)
  obtain q where q: "pop_front (unstealable_queues s ! self_thread_id l) = (Some t, q)"
    "s' = s\<lparr>unstealable_queues := (unstealable_queues s)[self_thread_id l := q]\<rparr>"
    using t by (auto simp: take_unstealable_task_def Let_def split: prod.splits)
  show ?thesis
    by (rule graph_inv_dequeue [OF inv]) (use queued_ids_pop(2) [OF len tl.get_conserves(1) [OF q(1)]] q(2) in simp_all)
qed

lemma take_local_inv:
  assumes inv: "graph_inv s U E P H F" and n: "self_node_id l < lm_node_count (sch_locality s)"
    and t: "take_local_stealable_task l s = (Some t, s')"
  shows "graph_inv s' U E P (add_mset (pt_physical t) H) F"
proof -
  have len: "self_node_id l < length (stealable_queues s)" using graph_invD(1) [OF inv] n by (simp add: shape_ok_def Let_def)
  obtain q where q: "pop_back (stealable_queues s ! self_node_id l) = (Some t, q)"
    "s' = s\<lparr>stealable_queues := (stealable_queues s)[self_node_id l := q]\<rparr>"
    using t by (auto simp: take_local_stealable_task_def Let_def split: prod.splits)
  show ?thesis
    by (rule graph_inv_dequeue [OF inv]) (use queued_ids_pop(1) [OF len tl.get_conserves(2) [OF q(1)]] q(2) in simp_all)
qed

lemma steal_from_inv:
  assumes inv: "graph_inv s U E P H F" and n: "i < lm_node_count (sch_locality s)" and t: "steal_from i s = (Some t, s')"
  shows "graph_inv s' U E P (add_mset (pt_physical t) H) F"
proof -
  have len: "i < length (stealable_queues s)" using graph_invD(1) [OF inv] n by (simp add: shape_ok_def Let_def)
  obtain q where q: "pop_front (stealable_queues s ! i) = (Some t, q)" "s' = s\<lparr>stealable_queues := (stealable_queues s)[i := q]\<rparr>"
    using t by (auto simp: steal_from_def split: prod.splits)
  show ?thesis
    by (rule graph_inv_dequeue [OF inv]) (use queued_ids_pop(1) [OF len tl.get_conserves(1) [OF q(1)]] q(2) in simp_all)
qed

lemma pop_none: "pop_front q = (None, q') \<Longrightarrow> q = [] \<and> q' = []" "pop_back q = (None, q') \<Longrightarrow> q = [] \<and> q' = []"
  by (cases q rule: pop_front.cases; simp) (simp add: pop_back_def split: if_splits)

lemma take_unstealable_none:
  assumes "take_unstealable_task l s = (None, s')"
  shows "s' = s \<and> unstealable_queues s ! self_thread_id l = []"
proof -
  obtain q where q: "pop_front (unstealable_queues s ! self_thread_id l) = (None, q)"
    "s' = s\<lparr>unstealable_queues := (unstealable_queues s)[self_thread_id l := q]\<rparr>"
    using assms by (auto simp: take_unstealable_task_def Let_def split: prod.splits)
  then show ?thesis using pop_none(1) [OF q(1)] list_update_id [of "unstealable_queues s" "self_thread_id l"] by simp
qed

lemma take_local_none:
  assumes "take_local_stealable_task l s = (None, s')"
  shows "s' = s \<and> stealable_queues s ! self_node_id l = []"
proof -
  obtain q where q: "pop_back (stealable_queues s ! self_node_id l) = (None, q)"
    "s' = s\<lparr>stealable_queues := (stealable_queues s)[self_node_id l := q]\<rparr>"
    using assms by (auto simp: take_local_stealable_task_def Let_def split: prod.splits)
  then show ?thesis using pop_none(2) [OF q(1)] list_update_id [of "stealable_queues s" "self_node_id l"] by simp
qed

lemma steal_from_none:
  assumes "steal_from i s = (None, s')"
  shows "s' = s \<and> stealable_queues s ! i = []"
proof -
  obtain q where q: "pop_front (stealable_queues s ! i) = (None, q)" "s' = s\<lparr>stealable_queues := (stealable_queues s)[i := q]\<rparr>"
    using assms by (auto simp: steal_from_def split: prod.splits)
  then show ?thesis using pop_none(1) [OF q(1)] list_update_id [of "stealable_queues s" i] by simp
qed

subsection \<open>Creating tasks and dependencies\<close>

lemma edges_into_update:
  assumes "finite (dom (vertices s))" "vertices s u = Some y"
  shows "(\<Sum>w\<in>dom (vertices s). count_list (successors (the (((vertices s)(u \<mapsto> x)) w))) v) + count_list (successors y) v =
    edges_into s v + count_list (successors x) v"
proof -
  let ?D = "dom (vertices s) - {u}"
  have u: "u \<in> dom (vertices s)" using assms(2) by blast
  have "(\<Sum>w\<in>dom (vertices s). count_list (successors (the (((vertices s)(u \<mapsto> x)) w))) v) =
      count_list (successors x) v + (\<Sum>w\<in>?D. count_list (successors (the (vertices s w))) v)"
    using sum.remove [OF assms(1) u, of "\<lambda>w. count_list (successors (the (((vertices s)(u \<mapsto> x)) w))) v"] by simp
  moreover have "edges_into s v = count_list (successors y) v + (\<Sum>w\<in>?D. count_list (successors (the (vertices s w))) v)"
    unfolding edges_into_def using sum.remove [OF assms(1) u, of "\<lambda>w. count_list (successors (the (vertices s w))) v"] assms(2) by simp
  ultimately show ?thesis by simp
qed

text \<open>A new task.\<close>

lemma create_inv:
  assumes inv: "graph_inv s U E P H F" and lo: "lo_ok (lm_max_concurrency (sch_locality s)) lo"
    and c: "create_physical_task l c lo s = (tid, s')"
  shows "graph_inv s' (insert tid U) E P H F" "tid \<notin> dom (vertices s)" "dom (vertices s') = insert tid (dom (vertices s))"
    "physical_id tid = created_task_count s"
proof -
  let ?V = "vertices s" and ?D = "dom (vertices s)"
  have tid: "tid = PhysicalTaskIdentifier (created_task_count s)" "physical_id tid = created_task_count s"
    and s': "s' = s\<lparr>created_task_count := created_task_count s + 1, vertices := ?V(tid \<mapsto> make_vertex lo (make_physical_task l tid c))\<rparr>"
    using c by (auto simp: create_physical_task_def Let_def)
  have new: "tid \<notin> ?D"
  proof
    assume "tid \<in> ?D"
    then obtain x where "?V tid = Some x" by blast
    from graph_invD(5) [OF inv this] show False using tid(2) by (simp add: vertex_ok_def)
  qed
  have fin: "finite ?D" by (rule graph_invD(2) [OF inv])
  have EE: "E `` {tid} = {}" "\<And>u. (u, tid) \<notin> E" using graph_invD(9) [OF inv] tid(2) by fastforce+
  have ein: "edges_into s' v = edges_into s v" for v
  proof -
    have "(\<Sum>u\<in>insert tid ?D. count_list (successors (the ((?V(tid \<mapsto> make_vertex lo (make_physical_task l tid c))) u))) v) =
        (\<Sum>u\<in>?D. count_list (successors (the ((?V(tid \<mapsto> make_vertex lo (make_physical_task l tid c))) u))) v)"
      using fin new by (simp add: make_vertex_def)
    also have "\<dots> = edges_into s v" unfolding edges_into_def by (rule sum.cong) (use new in auto)
    finally show ?thesis by (simp add: edges_into_def s')
  qed
  have no_in: "edges_into s tid = 0"
  proof -
    have "count_list (successors (the (?V u))) tid = 0" if "u \<in> ?D" for u
    proof -
      obtain x where x: "?V u = Some x" using \<open>u \<in> ?D\<close> by blast
      from graph_invD(5) [OF inv x] new have "tid \<notin> set (successors x)" by (auto simp: vertex_ok_def)
      then show ?thesis using x by simp
    qed
    then show ?thesis by (simp add: edges_into_def)
  qed
  have "count P tid = 0" "tid \<notin> U" using new graph_invD(3,4) [OF inv] by (auto simp: count_eq_zero_iff)
  note z = this
  have vok: "vertex_ok s' (insert tid U) E P v x" if v: "vertices s' v = Some x" for v x
  proof (cases "v = tid")
    case True
    then have x: "x = make_vertex lo (make_physical_task l tid c)" using v by (simp add: s')
    show ?thesis unfolding True x vertex_ok_def ein no_in
      using z EE lo tid(2) by (simp add: make_vertex_def make_physical_task_def s' size_modulus_def)
  next
    case False
    then have "vertex_ok s U E P v x" using v graph_invD(5) [OF inv] by (simp add: s')
    then show ?thesis using False ein by (auto simp: vertex_ok_def s')
  qed
  have "ready_ids s' = ready_ids s"
    using new by (auto simp: ready_ids_def s' make_vertex_def)
  moreover have "dom (vertices s') = insert tid ?D" by (simp add: s')
  moreover have "insert tid ?D - insert tid U = ?D - U" using new by blast
  moreover have "shape_ok s'" using graph_invD(1) [OF inv] by (simp add: shape_ok_def s')
  ultimately show "graph_inv s' (insert tid U) E P H F" "tid \<notin> ?D" "dom (vertices s') = insert tid ?D"
    "physical_id tid = created_task_count s"
    using inv vok new tid(2) by (auto simp: graph_inv_def queued_ids_def s')
qed

lemma edges_into_single:
  assumes "finite (dom (vertices s))" "vertices s u = Some y" "dom (vertices s') = dom (vertices s)"
    and "\<And>w. w \<noteq> u \<Longrightarrow> w \<in> dom (vertices s) \<Longrightarrow> successors (the (vertices s' w)) = successors (the (vertices s w))"
  shows "edges_into s' v + count_list (successors y) v = edges_into s v + count_list (successors (the (vertices s' u))) v"
proof -
  let ?D = "dom (vertices s)"
  have u: "u \<in> ?D" using assms(2) by blast
  have "edges_into s' v = count_list (successors (the (vertices s' u))) v + (\<Sum>w\<in>?D - {u}. count_list (successors (the (vertices s w))) v)"
    unfolding edges_into_def assms(3)
    using sum.remove [OF assms(1) u, of "\<lambda>w. count_list (successors (the (vertices s' w))) v"] assms(4) by simp
  moreover have "edges_into s v = count_list (successors y) v + (\<Sum>w\<in>?D - {u}. count_list (successors (the (vertices s w))) v)"
    unfolding edges_into_def using sum.remove [OF assms(1) u, of "\<lambda>w. count_list (successors (the (vertices s w))) v"] assms(2) by simp
  ultimately show ?thesis by simp
qed

text \<open>A dependency on a task that still exists; the successor must not have become ready yet.\<close>

lemma add_dependency_inv:
  assumes inv: "graph_inv s U E P H F" and vp: "vertices s p = Some xp" and vv: "vertices s v = Some xv"
    and waiting: "0 < predecessor_count xv" "predecessor_count xv + 1 < size_modulus"
  shows "\<exists>s'. add_dependency p v s = Some s' \<and> graph_inv s' U (insert (p, v) E) P H F \<and> dom (vertices s') = dom (vertices s)"
proof -
  let ?V = "vertices s"
  let ?g = "?V(p \<mapsto> xp\<lparr>successors := successors xp @ [v]\<rparr>)"
  let ?vv = "the (?g v)"
  let ?s' = "s\<lparr>vertices := ?g(v \<mapsto> ?vv\<lparr>predecessor_count := sz_add (predecessor_count ?vv) 1\<rparr>)\<rparr>"
  have pc: "predecessor_count ?vv = predecessor_count xv" using vp vv by auto
  have inc: "sz_add (predecessor_count ?vv) 1 = predecessor_count xv + 1" unfolding pc by (rule sz_add_exact [OF waiting(2)])
  have step: "add_dependency p v s = Some ?s'" using vp vv by (simp add: add_dependency_def Let_def)
  have dm: "dom (vertices ?s') = dom ?V" using vp vv by auto
  have succs: "successors (the (vertices ?s' w)) = (if w = p then successors xp @ [v] else successors (the (?V w)))" for w
    using vp vv by simp
  have cnts: "predecessor_count (the (vertices ?s' w)) = (if w = v then predecessor_count xv + 1 else predecessor_count (the (?V w)))"
    if "w \<in> dom ?V" for w
    using inc vp vv by simp
  have rest: "vertex_task (the (vertices ?s' w)) = vertex_task (the (?V w))"
    "vertex_locality (the (vertices ?s' w)) = vertex_locality (the (?V w))" for w
    using vp vv by auto
  have ein: "edges_into ?s' u = edges_into s u + (if u = v then 1 else 0)" for u
    using edges_into_single [OF graph_invD(2) [OF inv] vp dm, of u] succs by simp
  have vok: "vertex_ok ?s' U (insert (p, v) E) P u x" if x: "vertices ?s' u = Some x" for u x
  proof -
    have ud: "u \<in> dom ?V" using x dm by blast
    then obtain y where y: "?V u = Some y" by blast
    note ok = graph_invD(5) [OF inv y, unfolded vertex_ok_def]
    have "successors x = (if u = p then successors xp @ [v] else successors y)" using succs [of u] x y by simp
    moreover have "predecessor_count x = (if u = v then predecessor_count xv + 1 else predecessor_count y)"
      using cnts [OF ud] x y by simp
    moreover have "vertex_task x = vertex_task y" "vertex_locality x = vertex_locality y" using rest [of u] x y by simp_all
    moreover have "u = p \<Longrightarrow> y = xp" "u = v \<Longrightarrow> y = xv" using y vp vv by simp_all
    ultimately show ?thesis unfolding vertex_ok_def ein dm using ok waiting vv by auto
  qed
  have "predecessor_count (the (vertices ?s' w)) = 0 \<longleftrightarrow> predecessor_count (the (?V w)) = 0" if "w \<in> dom ?V" for w
    unfolding cnts [OF that] using waiting(1) vv by auto
  then have rd: "ready_ids ?s' = ready_ids s" unfolding ready_ids_def dm by blast
  have "physical_id p < created_task_count s" "physical_id v < created_task_count s"
    using graph_invD(5) [OF inv vp] graph_invD(5) [OF inv vv] by (simp_all add: vertex_ok_def)
  moreover have "shape_ok ?s'" using graph_invD(1) [OF inv] by (simp add: shape_ok_def)
  ultimately have "graph_inv ?s' U (insert (p, v) E) P H F"
    using inv vok rd unfolding graph_inv_def dm by (simp add: queued_ids_def)
  then show ?thesis using step dm by blast
qed

lemma add_dependency_completed: "vertices s p = None \<Longrightarrow> add_dependency p v s = Some s"
  by (simp add: add_dependency_def)

subsection \<open>Commits and decrements\<close>

lemma begin_commit_inv:
  assumes inv: "graph_inv s U E P H F" and v: "v \<in> U" and b: "unfinished_task_count s + 1 < size_modulus"
  shows "graph_inv (begin_commit s) (U - {v}) E (add_mset v P) H F"
proof -
  let ?s' = "begin_commit s"
  have s': "vertices ?s' = vertices s" "sch_locality ?s' = sch_locality s" "created_task_count ?s' = created_task_count s"
    "queued_ids ?s' = queued_ids s" "ready_ids ?s' = ready_ids s" "shape_ok ?s' = shape_ok s"
    "unfinished_task_count ?s' = unfinished_task_count s + 1"
    by (simp_all add: begin_commit_def queued_ids_def ready_ids_def shape_ok_def)
  have ein: "edges_into ?s' u = edges_into s u" for u by (simp add: edges_into_def s')
  have vd: "v \<in> dom (vertices s)" using v graph_invD(3) [OF inv] by blast
  have vok: "vertex_ok ?s' (U - {v}) E (add_mset v P) u x" if "vertices s u = Some x" for u x
    using graph_invD(5) [OF inv that] v by (auto simp: vertex_ok_def s' ein)
  have "dom (vertices s) - (U - {v}) = insert v (dom (vertices s) - U)" using vd by blast
  then have "card (dom (vertices s) - (U - {v})) = card (dom (vertices s) - U) + 1"
    using graph_invD(2) [OF inv] v by simp
  then show ?thesis using inv vok vd b by (auto simp: graph_inv_def s')
qed

definition decrement :: "(nat \<Rightarrow> nat \<Rightarrow> nat) \<Rightarrow> PhysicalTaskIdentifier \<Rightarrow> 'c scheduler \<Rightarrow> (nat list option \<times> 'c scheduler) option" where
  "decrement draw v s = do {
     (ready, s) \<leftarrow> drop_predecessor v s;
     if ready then map_option (\<lambda>(ws, s). (Some ws, s)) (enqueue draw v s) else Some (None, s)
   }"

lemma decrement_predecessor_count_alt:
  "decrement_predecessor_count draw v s =
     map_option (\<lambda>(ws, s). case ws of None \<Rightarrow> s | Some ws \<Rightarrow> notify_first ws s) (decrement draw v s)"
  by (simp add: decrement_predecessor_count_def decrement_def option.map_comp comp_def case_prod_unfold
      split: bind_splits option.split)

text \<open>Where a ready task goes, and whom \<open>decrement\<close> notifies.\<close>

definition target_ok :: "'c scheduler \<Rightarrow> nat list \<Rightarrow> 'c scheduler \<Rightarrow> bool" where
  "target_ok s ws s' \<longleftrightarrow>
     (\<forall>w\<in>set ws. w < lm_max_concurrency (sch_locality s)) \<and>
     ((\<exists>w t. ws = [w] \<and> w < lm_max_concurrency (sch_locality s) \<and> stealable_queues s' = stealable_queues s \<and>
         unstealable_queues s' = (unstealable_queues s)[w := unstealable_queues s ! w @ [t]]) \<or>
      (\<exists>q t. unstealable_queues s' = unstealable_queues s \<and> q < length (stealable_queues s) \<and>
         stealable_queues s' = (stealable_queues s)[q := stealable_queues s ! q @ [t]]))"

lemma choose_worker_less:
  assumes "uniform_draw draw" "lo_ok (lm_max_concurrency (sch_locality s)) lo" "0 < lm_max_concurrency (sch_locality s)"
    "lm_max_concurrency (sch_locality s) < size_modulus"
  shows "choose_worker draw lo s < lm_max_concurrency (sch_locality s)"
proof (cases "has_recommendation lo")
  case True
  then show ?thesis using assms(2) by (simp add: choose_worker_def lo_ok_def)
next
  case False
  let ?n = "lm_max_concurrency (sch_locality s)"
  have n: "sz_sub ?n 1 = ?n - 1" using assms(3,4) by (intro sz_sub_exact) simp_all
  have "draw 0 (?n - 1) \<le> ?n - 1" using assms(1) by (simp add: uniform_draw_def)
  then show ?thesis using False n assms(3) by (simp add: choose_worker_def)
qed

lemma enqueue_ready:
  assumes sh: "shape_ok s" and v: "vertices s v = Some x" "vertex_task x = Some t" and lo: "lo_ok (lm_max_concurrency (sch_locality s)) (vertex_locality x)"
    and draw: "uniform_draw draw"
  shows "\<exists>ws s'. enqueue draw v s = Some (ws, s') \<and> queued_ids s' = add_mset (pt_physical t) (queued_ids s) \<and> target_ok s ws s' \<and>
    vertices s' = (vertices s)(v \<mapsto> x\<lparr>vertex_task := None\<rparr>) \<and> sch_locality s' = sch_locality s \<and> sleeping s' = sleeping s \<and>
    shape_ok s' \<and> created_task_count s' = created_task_count s \<and> unfinished_task_count s' = unfinished_task_count s \<and>
    cancellation s' = cancellation s"
proof (cases "is_stealable (vertex_locality x)")
  case False
  let ?w = "recommended_worker (vertex_locality x)"
  have w: "?w < lm_max_concurrency (sch_locality s)" using lo False by (simp add: lo_ok_def)
  then have l: "?w < length (unstealable_queues s)" using sh by (simp add: shape_ok_def Let_def)
  note q = queued_ids_push_unstealable [OF l, of t]
  show ?thesis using v False w q sh
    by (simp add: enqueue_def push_back_def Let_def target_ok_def shape_ok_def) (auto simp: queued_ids_def)
next
  case True
  let ?n = "lm_max_concurrency (sch_locality s)"
  have n: "0 < ?n" "?n < size_modulus" using sh by (simp_all add: shape_ok_def Let_def)
  have w: "choose_worker draw (vertex_locality x) s < ?n" by (rule choose_worker_less [OF draw lo n])
  let ?s1 = "s\<lparr>vertices := (vertices s)(v \<mapsto> x\<lparr>vertex_task := None\<rparr>)\<rparr>"
  have cw: "choose_worker draw (vertex_locality x) ?s1 = choose_worker draw (vertex_locality x) s" by (simp add: choose_worker_def)
  let ?node = "thread_mapping (sch_locality s) (choose_worker draw (vertex_locality x) s)"
  have l: "?node < length (stealable_queues s)" using sh w by (simp add: shape_ok_def Let_def)
  note q = queued_ids_push_stealable [OF l, of t]
  show ?thesis using v True l q sh n(1)
    by (simp add: enqueue_def push_back_def Let_def target_ok_def shape_ok_def cw) (auto simp: queued_ids_def)
qed

lemma decrement_inv:
  assumes inv: "graph_inv s U E (add_mset v P) H F" and draw: "uniform_draw draw"
  shows "\<exists>ws s'. decrement draw v s = Some (ws, s') \<and> graph_inv s' U E P H F \<and> dom (vertices s') = dom (vertices s) \<and>
    sch_locality s' = sch_locality s \<and> sleeping s' = sleeping s \<and> cancellation s' = cancellation s \<and>
    unfinished_task_count s' = unfinished_task_count s \<and> created_task_count s' = created_task_count s \<and>
    (case ws of None \<Rightarrow> stealable_queues s' = stealable_queues s \<and> unstealable_queues s' = unstealable_queues s
     | Some ws \<Rightarrow> target_ok s ws s')"
proof -
  let ?V = "vertices s"
  have "v \<in> dom ?V" using graph_invD(4) [OF inv] by simp
  then obtain x where x: "?V v = Some x" by blast
  note ok = graph_invD(5) [OF inv x, unfolded vertex_ok_def]
  have pos: "0 < predecessor_count x" "predecessor_count x < size_modulus" using ok by simp_all
  have dec: "sz_sub (predecessor_count x) 1 = predecessor_count x - 1" by (rule sz_sub_exact) (use pos in simp_all)
  let ?x1 = "x\<lparr>predecessor_count := predecessor_count x - 1\<rparr>"
  let ?s1 = "s\<lparr>vertices := ?V(v \<mapsto> ?x1)\<rparr>"
  have drop: "drop_predecessor v s = Some (predecessor_count x = 1, ?s1)"
    using x dec pos by (auto simp: drop_predecessor_def Let_def)
  obtain t where t: "vertex_task x = Some t" "pt_physical t = v" using ok pos by blast
  have dm: "dom (vertices ?s1) = dom ?V" using x by auto
  have ein1: "edges_into s' u = edges_into s u"
    if "dom (vertices s') = dom ?V" "\<And>w. successors (the (vertices s' w)) = successors (the (?V w))" for s' :: "'a scheduler" and u
    by (simp add: edges_into_def that)
  have vok: "vertex_ok s' U E P u y"
    if same: "dom (vertices s') = dom ?V" "sch_locality s' = sch_locality s" "created_task_count s' = created_task_count s"
      "\<And>w. successors (the (vertices s' w)) = successors (the (?V w))"
      "\<And>w. w \<noteq> v \<Longrightarrow> vertices s' w = ?V w"
      "predecessor_count (the (vertices s' v)) = predecessor_count x - 1" "vertex_locality (the (vertices s' v)) = vertex_locality x"
      "predecessor_count x \<noteq> 1 \<Longrightarrow> vertex_task (the (vertices s' v)) = vertex_task x" and y: "vertices s' u = Some y"
    for s' :: "'a scheduler" and u y
  proof (cases "u = v")
    case True
    have "successors y = successors x" using same(4) [of v] y x True by simp
    then show ?thesis using same y True ok pos t unfolding vertex_ok_def ein1 [OF same(1,4)] by auto
  next
    case False
    then have "?V u = Some y" using same(5) y by simp
    from graph_invD(5) [OF inv this] show ?thesis
      using False unfolding vertex_ok_def ein1 [OF same(1,4)] same(1-3) by auto
  qed
  have sh: "shape_ok s" by (rule graph_invD(1) [OF inv])
  show ?thesis
  proof (cases "predecessor_count x = 1")
    case False
    have rd: "ready_ids ?s1 = ready_ids s" using x pos False unfolding ready_ids_def dm by auto
    have "vertex_ok ?s1 U E P u y" if "vertices ?s1 u = Some y" for u y
      by (rule vok [OF dm _ _ _ _ _ _ _ that]) (use x in auto)
    then have "graph_inv ?s1 U E P H F"
      using inv rd sh unfolding graph_inv_def dm by (simp add: shape_ok_def queued_ids_def)
    moreover have "decrement draw v s = Some (None, ?s1)" using drop False by (simp add: decrement_def)
    ultimately show ?thesis using dm by auto
  next
    case True
    have sh1: "shape_ok ?s1" using sh by (simp add: shape_ok_def)
    have x1: "vertices ?s1 v = Some ?x1" "vertex_task ?x1 = Some t" "lo_ok (lm_max_concurrency (sch_locality ?s1)) (vertex_locality ?x1)"
      using t ok by simp_all
    obtain ws s' where e: "enqueue draw v ?s1 = Some (ws, s')" "queued_ids s' = add_mset (pt_physical t) (queued_ids ?s1)"
      "target_ok ?s1 ws s'" "vertices s' = (vertices ?s1)(v \<mapsto> ?x1\<lparr>vertex_task := None\<rparr>)" "sch_locality s' = sch_locality ?s1"
      "sleeping s' = sleeping ?s1" "shape_ok s'" "created_task_count s' = created_task_count ?s1"
      "unfinished_task_count s' = unfinished_task_count ?s1" "cancellation s' = cancellation ?s1"
      using enqueue_ready [OF sh1 x1 draw] by blast
    have dm': "dom (vertices s') = dom ?V" using e(4) x by auto
    have "vertex_ok s' U E P u y" if "vertices s' u = Some y" for u y
      by (rule vok [OF dm' _ _ _ _ _ _ _ that]) (use x e True in auto)
    moreover have "ready_ids s' = insert v (ready_ids s)" "v \<notin> ready_ids s" "finite (ready_ids s)"
      using e(4) x True graph_invD(2) [OF inv] unfolding ready_ids_def dm' by auto
    then have "queued_ids s' + H = mset_set (ready_ids s')"
      using e(2) t(2) graph_invD(6) [OF inv] by (simp add: queued_ids_def)
    ultimately have "graph_inv s' U E P H F"
      using inv e unfolding graph_inv_def dm' by simp
    moreover have "decrement draw v s = Some (Some ws, s')" using drop True e(1) by (simp add: decrement_def)
    moreover have "target_ok s ws s'" using e(3) by (simp add: target_ok_def)
    ultimately show ?thesis using dm' e by auto
  qed
qed

subsection \<open>Completion\<close>

lemma held_ready:
  assumes "graph_inv s U E P (add_mset v H) F"
  shows "v \<in> ready_ids s" "v \<in> dom (vertices s)" "v \<notin> U" "v \<notin># queued_ids s" "v \<notin># H" "v \<notin># P" "edges_into s v = 0"
    "0 < unfinished_task_count s"
proof -
  note q = graph_invD(6) [OF assms]
  have fin: "finite (ready_ids s)" using graph_invD(2) [OF assms] by (simp add: ready_ids_def)
  have "v \<in># mset_set (ready_ids s)" using q by (metis union_iff union_single_eq_member add_mset_add_single)
  then show r: "v \<in> ready_ids s" using fin by simp
  then show d: "v \<in> dom (vertices s)" by (simp add: ready_ids_def)
  have "count (queued_ids s + add_mset v H) v \<le> 1" unfolding q using fin by (simp add: count_mset_set')
  then show "v \<notin># queued_ids s" "v \<notin># H" by (auto simp: not_in_iff)
  obtain x where x: "vertices s v = Some x" using d by blast
  have "predecessor_count x = 0" using r x by (simp add: ready_ids_def)
  with graph_invD(5) [OF assms x] show u: "v \<notin> U" and "v \<notin># P" "edges_into s v = 0"
    by (auto simp: vertex_ok_def not_in_iff split: if_splits)
  have "v \<in> dom (vertices s) - U" using d u by simp
  then have "0 < card (dom (vertices s) - U)" using graph_invD(2) [OF assms] by (metis card_gt_0_iff empty_iff finite_Diff)
  then show "0 < unfinished_task_count s" using graph_invD(7) [OF assms] by simp
qed

lemma erase_inv:
  assumes inv: "graph_inv s U E P (add_mset v H) F"
  shows "\<exists>vs s'. erase_vertex v s = Some (vs, s') \<and> graph_inv s' U E (P + mset vs) H (F + 1) \<and>
    dom (vertices s') = dom (vertices s) - {v} \<and> sch_locality s' = sch_locality s \<and> sleeping s' = sleeping s \<and>
    stealable_queues s' = stealable_queues s \<and> unstealable_queues s' = unstealable_queues s \<and> cancellation s' = cancellation s \<and>
    unfinished_task_count s' = unfinished_task_count s \<and> created_task_count s' = created_task_count s"
proof -
  let ?V = "vertices s"
  note h = held_ready [OF inv]
  obtain x where x: "?V v = Some x" using h(2) by blast
  let ?s' = "s\<lparr>vertices := ?V(v := None)\<rparr>"
  have fin: "finite (dom ?V)" by (rule graph_invD(2) [OF inv])
  have dm: "dom (vertices ?s') = dom ?V - {v}" by simp
  have no: "v \<notin> set (successors y)" if "?V u = Some y" for u y
  proof -
    have "count_list (successors (the (?V u))) v \<le> edges_into s v"
      unfolding edges_into_def by (rule member_le_sum) (use that fin in auto)
    then show ?thesis using h(7) that by (simp add: count_list_0_iff)
  qed
  have ein: "edges_into ?s' u + count_list (successors x) u = edges_into s u" for u
  proof -
    have "edges_into ?s' u = (\<Sum>w\<in>dom ?V - {v}. count_list (successors (the (?V w))) u)"
      unfolding edges_into_def dm by (rule sum.cong) auto
    then show ?thesis unfolding edges_into_def
      using sum.remove [OF fin h(2), of "\<lambda>w. count_list (successors (the (?V w))) u"] x by simp
  qed
  have cm: "count (mset xs) u = count_list xs u" for xs :: "PhysicalTaskIdentifier list" and u by (induction xs) auto
  note okx = graph_invD(5) [OF inv x, unfolded vertex_ok_def]
  have vok: "vertex_ok ?s' U E (P + mset (successors x)) u y" if y: "vertices ?s' u = Some y" for u y
  proof -
    have uy: "u \<noteq> v" "?V u = Some y" using y by (auto split: if_splits)
    note ok = graph_invD(5) [OF inv uy(2), unfolded vertex_ok_def]
    then show ?thesis using ein [of u] no [OF uy(2)] cm unfolding vertex_ok_def dm by auto
  qed
  have "ready_ids ?s' = ready_ids s - {v}" by (auto simp: ready_ids_def)
  moreover have "finite (ready_ids s)" using fin by (simp add: ready_ids_def)
  ultimately have "mset_set (ready_ids ?s') = mset_set (ready_ids s) - {#v#}" using h(1) by (simp add: mset_set_Diff)
  moreover have "queued_ids ?s' = queued_ids s" by (simp add: queued_ids_def)
  ultimately have "queued_ids ?s' + H = mset_set (ready_ids ?s')"
    using graph_invD(6) [OF inv] by (metis add_mset_remove_trivial union_mset_add_mset_right)
  moreover have "card (dom ?V - U) = card (dom ?V - {v} - U) + 1"
  proof -
    have "dom ?V - U = insert v (dom ?V - {v} - U)" using h(2,3) by blast
    moreover have "v \<notin> dom ?V - {v} - U" "finite (dom ?V - {v} - U)" using fin by simp_all
    ultimately show ?thesis by (metis card_insert_disjoint Suc_eq_plus1)
  qed
  moreover have "shape_ok ?s'" using graph_invD(1) [OF inv] by (simp add: shape_ok_def)
  moreover have "set (successors x) \<subseteq> dom ?V - {v}" using okx no [OF x] by blast
  moreover have "U \<subseteq> dom ?V - {v}" "set_mset P \<subseteq> dom ?V - {v}" using graph_invD(3,4) [OF inv] h(3,6) by blast+
  ultimately have "graph_inv ?s' U E (P + mset (successors x)) H (F + 1)"
    using inv vok fin unfolding graph_inv_def dm by simp
  then show ?thesis using x dm by (auto simp: erase_vertex_def)
qed

lemma count_completion_inv:
  assumes inv: "graph_inv s U E P H (F + 1)"
  shows "graph_inv (count_completion s) U E P H F" "unfinished_task_count (count_completion s) = unfinished_task_count s - 1"
proof -
  have n: "1 \<le> unfinished_task_count s" "unfinished_task_count s < size_modulus"
    using graph_invD(7,8) [OF inv] by simp_all
  then show u: "unfinished_task_count (count_completion s) = unfinished_task_count s - 1"
    by (simp add: count_completion_def sz_sub_exact)
  have "edges_into (count_completion s) v = edges_into s v" for v by (simp add: edges_into_def count_completion_def)
  then have "vertex_ok (count_completion s) U E P v x = vertex_ok s U E P v x" for v x
    by (simp add: vertex_ok_def count_completion_def)
  then show "graph_inv (count_completion s) U E P H F"
    using inv u by (simp add: graph_inv_def queued_ids_def ready_ids_def shape_ok_def)
      (simp add: count_completion_def)
qed

subsection \<open>Progress\<close>

text \<open>With nothing in flight and no task ready, every task waits for another one: a cycle.\<close>

lemma acyclic_some_ready:
  assumes inv: "graph_inv s {} E {#} H F" and ac: "acyclic E" and ne: "dom (vertices s) \<noteq> {}"
  shows "ready_ids s \<noteq> {}"
proof
  assume none: "ready_ids s = {}"
  let ?D = "dom (vertices s)" and ?R = "E \<inter> (dom (vertices s) \<times> dom (vertices s))"
  have fin: "finite ?D" by (rule graph_invD(2) [OF inv])
  have "finite ?R" using fin by (simp add: finite_subset [of _ "?D \<times> ?D"])
  moreover have "acyclic ?R" using ac by (rule acyclic_subset) blast
  ultimately have "wf ?R" by (rule finite_acyclic_wf)
  then obtain v where v: "v \<in> ?D" "\<And>u. (u, v) \<in> ?R \<Longrightarrow> u \<notin> ?D" using ne by (metis ex_in_conv wfE_min)
  obtain x where x: "vertices s v = Some x" using v(1) by blast
  have "predecessor_count x \<noteq> 0" using none x by (auto simp: ready_ids_def)
  then have "edges_into s v \<noteq> 0" using graph_invD(5) [OF inv x] by (simp add: vertex_ok_def)
  then obtain u where u: "u \<in> ?D" "count_list (successors (the (vertices s u))) v \<noteq> 0"
    unfolding edges_into_def using fin by (meson sum.neutral)
  then obtain y where y: "vertices s u = Some y" by blast
  then have "v \<in> set (successors y)" using u(2) by (simp add: count_list_0_iff)
  then have "(u, v) \<in> E" using graph_invD(5) [OF inv y] by (auto simp: vertex_ok_def)
  with v u(1) show False by blast
qed

lemma make_scheduler_inv:
  assumes "shape_ok (make_scheduler lm :: 'c scheduler)"
  shows "graph_inv (make_scheduler lm :: 'c scheduler) {} {} {#} {#} 0"
proof -
  have "concat (replicate n []) = []" for n by (induction n) auto
  then have q: "queued_ids (make_scheduler lm :: 'c scheduler) = {#}" by (simp add: queued_ids_def make_scheduler_def)
  have v: "vertices (make_scheduler lm :: 'c scheduler) = (\<lambda>_. None)" "ready_ids (make_scheduler lm :: 'c scheduler) = {}"
    "unfinished_task_count (make_scheduler lm :: 'c scheduler) = 0"
    by (simp_all add: ready_ids_def make_scheduler_def)
  show ?thesis using assms unfolding graph_inv_def q v by (simp add: size_modulus_def)
qed

end
