(* ===== verification/SchedulerMachine.thy ===== *)
theory SchedulerMachine
  imports SchedulerGraph
begin

text \<open>
  The scheduler under its worker threads: the loop of \<open>WorkerThread::run\<close> (context/worker_thread.cpp),
  \<open>take_runnable_task\<close> with its attempt to sleep, \<open>commit_task\<close>, \<open>notify_task_completion\<close> and
  \<open>notify_exception\<close> (scheduler/scheduler.cpp) cut into the steps that other threads can see. A step
  is one access to an atomic, one operation on a queue, or the part of an operation under the mutex
  of the graph up to the first notification. Any thread may do the next step.
\<close>

subsection \<open>Program counters\<close>

text \<open>What follows the decrements of an operation: the task goes on (after a commit), or its completion is counted.\<close>

datatype 'c continuation = Resume "'c physical_task" | Finish

datatype 'c pc =
    Init
  | LoopCancelled
  | LoopFinished
  | TakeOwn
  | TakeLocal
  | Steal nat
  | SetSleeping
  | CheckFinished
  | CheckCancelled
  | SleepOwn
  | SleepSteal nat
  | Waiting
  | Return "'c physical_task option"
  | Running "'c physical_task"
  | Decrementing "'c continuation" "PhysicalTaskIdentifier list"
  | Notifying "'c continuation" "PhysicalTaskIdentifier list" "nat list"
  | FinishCount
  | NotifyAll "nat list" bool
  | Exiting
  | Exited

text \<open>
  \<open>graph_lock\<close> is the owner of the mutex of the graph while it notifies. The last four fields record
  history: tasks not yet committed, dependencies, tasks that threw, and tasks in the order in which
  they were taken out of a queue.
\<close>

record 'c machine =
  sch :: "'c scheduler"
  pcs :: "'c pc list"
  graph_lock :: "nat option"
  uncommitted :: "PhysicalTaskIdentifier set"
  depends :: "PhysicalTaskIdentifier rel"
  dropped :: "PhysicalTaskIdentifier list"
  started :: "PhysicalTaskIdentifier list"

definition worker_count :: "'c machine \<Rightarrow> nat" where
  "worker_count m = lm_max_concurrency (sch_locality (sch m))"

definition node_of :: "nat \<Rightarrow> 'c machine \<Rightarrow> nat" where
  "node_of w m = thread_mapping (sch_locality (sch m)) w"

definition locality_of :: "nat \<Rightarrow> 'c machine \<Rightarrow> locality" where
  "locality_of w m = \<lparr>self_thread_id = w, self_node_id = node_of w m\<rparr>"

definition goto :: "nat \<Rightarrow> 'c pc \<Rightarrow> 'c scheduler \<Rightarrow> 'c machine \<Rightarrow> 'c machine" where
  "goto w p s m = m\<lparr>sch := s, pcs := (pcs m)[w := p]\<rparr>"

text \<open>After a look into a queue: with the task found, or on to the next place.\<close>

definition took :: "nat \<Rightarrow> ('c physical_task \<Rightarrow> 'c pc) \<Rightarrow> 'c pc \<Rightarrow> 'c physical_task option \<times> 'c scheduler \<Rightarrow> 'c machine \<Rightarrow> 'c machine" where
  "took w found next r m =
     (case fst r of
        Some t \<Rightarrow> goto w (found t) (snd r) (m\<lparr>started := started m @ [pt_physical t]\<rparr>)
      | None \<Rightarrow> goto w next (snd r) m)"

fun resume :: "'c continuation \<Rightarrow> 'c pc" where
  "resume (Resume t) = Running t"
| "resume Finish = FinishCount"

definition queue_at :: "nat \<Rightarrow> nat \<Rightarrow> 'c machine \<Rightarrow> nat" where
  "queue_at w i m = (node_of w m + i) mod length (stealable_queues (sch m))"

subsection \<open>Steps of a worker\<close>

text \<open>The loop of the worker and the part of \<open>take_runnable_task\<close> before the attempt to sleep.\<close>

fun take_step :: "nat \<Rightarrow> 'c machine \<Rightarrow> 'c pc \<Rightarrow> 'c machine option" where
  "take_step w m Init = Some (goto w LoopCancelled (sch m) m)"
| "take_step w m LoopCancelled = Some (goto w (if is_cancelled (sch m) then Exiting else LoopFinished) (sch m) m)"
| "take_step w m LoopFinished = Some (goto w (if is_finished (sch m) then Exiting else TakeOwn) (sch m) m)"
| "take_step w m TakeOwn = Some (took w Running TakeLocal (take_unstealable_task (locality_of w m) (sch m)) m)"
| "take_step w m TakeLocal = Some (took w Running (Steal 0) (take_local_stealable_task (locality_of w m) (sch m)) m)"
| "take_step w m (Steal i) =
     Some (if i < length (stealable_queues (sch m))
           then took w Running (Steal (i + 1)) (steal_from (queue_at w i m) (sch m)) m
           else goto w SetSleeping (sch m) m)"
| "take_step w m Exiting = Some (goto w Exited (sch m) m)"
| "take_step w m p = None"

text \<open>The attempt to sleep.\<close>

fun sleep_step :: "nat \<Rightarrow> 'c machine \<Rightarrow> 'c pc \<Rightarrow> 'c machine option" where
  "sleep_step w m SetSleeping =
     Some (goto w CheckFinished ((sch m)\<lparr>sleeping := set_is_sleeping w (sleeping (sch m))\<rparr>) m)"
| "sleep_step w m CheckFinished = Some (goto w (if is_finished (sch m) then Return None else CheckCancelled) (sch m) m)"
| "sleep_step w m CheckCancelled = Some (goto w (if is_cancelled (sch m) then Return None else SleepOwn) (sch m) m)"
| "sleep_step w m SleepOwn =
     Some (took w (Return \<circ> Some) (SleepSteal 0) (take_unstealable_task (locality_of w m) (sch m)) m)"
| "sleep_step w m (SleepSteal i) =
     Some (if i < length (stealable_queues (sch m))
           then took w (Return \<circ> Some) (SleepSteal (i + 1)) (steal_from (queue_at w i m) (sch m)) m
           else goto w Waiting (sch m) m)"
| "sleep_step w m Waiting = (if may_wake w (sleeping (sch m)) then Some (goto w SetSleeping (sch m) m) else None)"
| "sleep_step w m (Return r) =
     Some (goto w (case r of Some t \<Rightarrow> Running t | None \<Rightarrow> LoopCancelled)
            ((sch m)\<lparr>sleeping := reset_is_sleeping w (sleeping (sch m))\<rparr>) m)"
| "sleep_step w m p = None"

text \<open>Decrements with their notifications, and the end of a completion.\<close>

fun notify_step :: "(nat \<Rightarrow> nat \<Rightarrow> nat) \<Rightarrow> nat \<Rightarrow> 'c machine \<Rightarrow> 'c pc \<Rightarrow> 'c machine option" where
  "notify_step draw w m (Decrementing k []) = Some (goto w (resume k) (sch m) m)"
| "notify_step draw w m (Decrementing k (v # vs)) =
     (if graph_lock m \<noteq> None then None
      else map_option (\<lambda>(ws, s). case ws of
               None \<Rightarrow> goto w (Decrementing k vs) s m
             | Some us \<Rightarrow> goto w (Notifying k vs us) s (m\<lparr>graph_lock := Some w\<rparr>))
             (decrement draw v (sch m)))"
| "notify_step draw w m (Notifying k vs []) = Some (goto w (Decrementing k vs) (sch m) (m\<lparr>graph_lock := None\<rparr>))"
| "notify_step draw w m (Notifying k vs (u # us)) =
     Some (let (woken, s) = notify_worker u (sch m)
           in if woken then goto w (Decrementing k vs) s (m\<lparr>graph_lock := None\<rparr>)
              else goto w (Notifying k vs us) s m)"
| "notify_step draw w m FinishCount =
     (let s = count_completion (sch m)
      in Some (goto w (if is_finished s then NotifyAll [0..<worker_count m] False else LoopCancelled) s m))"
| "notify_step draw w m (NotifyAll [] failed) = Some (goto w (if failed then Exiting else LoopCancelled) (sch m) m)"
| "notify_step draw w m (NotifyAll (u # us) failed) =
     Some (goto w (NotifyAll us failed) (snd (notify_worker u (sch m))) m)"
| "notify_step draw w m p = None"

subsection \<open>What a running task does\<close>

datatype 'c action =
    Continue
  | Create LogicalTaskIdentifier 'c locality_option
  | AddDependency PhysicalTaskIdentifier PhysicalTaskIdentifier
  | Commit PhysicalTaskIdentifier
  | Complete
  | Throw exn

text \<open>
  The contract of the tasks: the recommended worker of a new task exists, a dependency is added to a
  task that has not become ready, a task is committed once. Counters do not reach 2^64.
\<close>

fun allowed :: "'c action \<Rightarrow> 'c machine \<Rightarrow> bool" where
  "allowed (Create l c lo) m \<longleftrightarrow> lo_ok (worker_count m) lo"
| "allowed (AddDependency p v) m \<longleftrightarrow>
     (vertices (sch m) p \<noteq> None \<longrightarrow>
        (\<exists>x. vertices (sch m) v = Some x \<and> 0 < predecessor_count x \<and> predecessor_count x + 1 < size_modulus))"
| "allowed (Commit v) m \<longleftrightarrow> v \<in> uncommitted m \<and> unfinished_task_count (sch m) + 1 < size_modulus"
| "allowed a m \<longleftrightarrow> True"

fun run_step :: "'c action \<Rightarrow> nat \<Rightarrow> 'c machine \<Rightarrow> 'c physical_task \<Rightarrow> 'c machine option" where
  "run_step (Create l c lo) w m t =
     (if graph_lock m \<noteq> None then None
      else (let (tid, s) = create_physical_task l c lo (sch m)
            in Some (m\<lparr>sch := s, uncommitted := insert tid (uncommitted m)\<rparr>)))"
| "run_step (AddDependency p v) w m t =
     (if graph_lock m \<noteq> None then None
      else map_option (\<lambda>s. m\<lparr>sch := s, depends := (if vertices (sch m) p = None then depends m else insert (p, v) (depends m))\<rparr>)
             (add_dependency p v (sch m)))"
| "run_step (Commit v) w m t =
     Some (goto w (Decrementing (Resume t) [v]) (begin_commit (sch m)) (m\<lparr>uncommitted := uncommitted m - {v}\<rparr>))"
| "run_step Complete w m t =
     (if graph_lock m \<noteq> None then None
      else map_option (\<lambda>(vs, s). goto w (Decrementing Finish vs) s m) (erase_vertex (pt_physical t) (sch m)))"
| "run_step a w m t = None"

definition throw_step :: "exn \<Rightarrow> nat \<Rightarrow> 'c machine \<Rightarrow> PhysicalTaskIdentifier list \<Rightarrow> 'c machine" where
  "throw_step e w m ids =
     goto w (NotifyAll [0..<worker_count m] True)
       ((sch m)\<lparr>cancellation := cm_notify_exception e (cancellation (sch m))\<rparr>) (m\<lparr>dropped := dropped m @ ids\<rparr>)"

definition step :: "(nat \<Rightarrow> nat \<Rightarrow> nat) \<Rightarrow> 'c action \<Rightarrow> nat \<Rightarrow> 'c machine \<Rightarrow> 'c machine option" where
  "step draw a w m =
     (case (a, pcs m ! w) of
        (Throw e, Init) \<Rightarrow> Some (throw_step e w m [])
      | (Throw e, Running t) \<Rightarrow> Some (throw_step e w m [pt_physical t])
      | (Throw e, Exiting) \<Rightarrow> Some (throw_step e w m [])
      | (_, Running t) \<Rightarrow> run_step a w m t
      | (Continue, p) \<Rightarrow>
          (case take_step w m p of Some m' \<Rightarrow> Some m'
           | None \<Rightarrow> (case sleep_step w m p of Some m' \<Rightarrow> Some m' | None \<Rightarrow> notify_step draw w m p))
      | _ \<Rightarrow> None)"

inductive machine_step :: "'c machine \<Rightarrow> 'c machine \<Rightarrow> bool" where
  "w < worker_count m \<Longrightarrow> uniform_draw draw \<Longrightarrow> allowed a m \<Longrightarrow> step draw a w m = Some m' \<Longrightarrow> machine_step m m'"

inductive_cases machine_stepE: "machine_step m m'"

subsection \<open>The start\<close>

text \<open>Before the workers start, the executor's thread creates, links and commits tasks by itself.\<close>

datatype 'c prologue =
    SCreate LogicalTaskIdentifier 'c locality_option
  | SDepend PhysicalTaskIdentifier PhysicalTaskIdentifier
  | SCommit PhysicalTaskIdentifier

fun prologue_action :: "'c prologue \<Rightarrow> 'c action" where
  "prologue_action (SCreate l c lo) = Create l c lo"
| "prologue_action (SDepend p v) = AddDependency p v"
| "prologue_action (SCommit v) = Commit v"

fun prologue_step :: "(nat \<Rightarrow> nat \<Rightarrow> nat) \<Rightarrow> 'c prologue \<Rightarrow> 'c machine \<Rightarrow> 'c machine option" where
  "prologue_step draw (SCreate l c lo) m =
     (let (tid, s) = create_physical_task l c lo (sch m) in Some (m\<lparr>sch := s, uncommitted := insert tid (uncommitted m)\<rparr>))"
| "prologue_step draw (SDepend p v) m =
     map_option (\<lambda>s. m\<lparr>sch := s, depends := (if vertices (sch m) p = None then depends m else insert (p, v) (depends m))\<rparr>)
       (add_dependency p v (sch m))"
| "prologue_step draw (SCommit v) m =
     map_option (\<lambda>s. m\<lparr>sch := s, uncommitted := uncommitted m - {v}\<rparr>) (commit_task draw v (sch m))"

definition initial :: "locality_manager \<Rightarrow> 'c machine" where
  "initial lm = \<lparr>sch = make_scheduler lm, pcs = replicate (lm_max_concurrency lm) Init, graph_lock = None,
     uncommitted = {}, depends = {}, dropped = [], started = []\<rparr>"

inductive reachable :: "locality_manager \<Rightarrow> bool \<Rightarrow> 'c machine \<Rightarrow> bool" for lm where
  start: "shape_ok (make_scheduler lm :: 'c scheduler) \<Longrightarrow> reachable lm False (initial lm :: 'c machine)"
| prologue: "reachable lm False m \<Longrightarrow> uniform_draw draw \<Longrightarrow> allowed (prologue_action a) m \<Longrightarrow> prologue_step draw a m = Some m' \<Longrightarrow>
    reachable lm False m'"
| run: "reachable lm b m \<Longrightarrow> machine_step m m' \<Longrightarrow> reachable lm True m'"

end
