(* ===== verification/SchedulerInvariants.thy ===== *)
theory SchedulerInvariants
  imports SchedulerMachine
begin

text \<open>
  The invariants of the machine of SchedulerMachine: the accounting of tasks (\<open>tasks_inv\<close>), the
  protocol of sleeping and waking up (\<open>sleep_inv\<close>), the owner of the mutex (\<open>lock_inv\<close>) and the order
  in which tasks start (\<open>history_inv\<close>).
\<close>

subsection \<open>What a worker holds\<close>

fun cont_held :: "'c continuation \<Rightarrow> PhysicalTaskIdentifier list" where
  "cont_held (Resume t) = [pt_physical t]"
| "cont_held Finish = []"

fun cont_finishing :: "'c continuation \<Rightarrow> nat" where
  "cont_finishing (Resume t) = 0"
| "cont_finishing Finish = 1"

fun held_of :: "'c pc \<Rightarrow> PhysicalTaskIdentifier list" where
  "held_of (Running t) = [pt_physical t]"
| "held_of (Return (Some t)) = [pt_physical t]"
| "held_of (Decrementing k vs) = cont_held k"
| "held_of (Notifying k vs us) = cont_held k"
| "held_of p = []"

fun pending_of :: "'c pc \<Rightarrow> PhysicalTaskIdentifier list" where
  "pending_of (Decrementing k vs) = vs"
| "pending_of (Notifying k vs us) = vs"
| "pending_of p = []"

fun finishing_of :: "'c pc \<Rightarrow> nat" where
  "finishing_of (Decrementing k vs) = cont_finishing k"
| "finishing_of (Notifying k vs us) = cont_finishing k"
| "finishing_of FinishCount = 1"
| "finishing_of p = 0"

lemma resume_simps [simp]:
  "held_of (resume k) = cont_held k" "pending_of (resume k) = []" "finishing_of (resume k) = cont_finishing k"
  by (cases k; simp)+

definition held :: "'c machine \<Rightarrow> PhysicalTaskIdentifier multiset" where
  "held m = mset (concat (map held_of (pcs m))) + mset (dropped m)"

definition pending :: "'c machine \<Rightarrow> PhysicalTaskIdentifier multiset" where
  "pending m = mset (concat (map pending_of (pcs m)))"

definition finishing :: "'c machine \<Rightarrow> nat" where
  "finishing m = sum_list (map finishing_of (pcs m))"

definition tasks_inv :: "'c machine \<Rightarrow> bool" where
  "tasks_inv m \<longleftrightarrow> length (pcs m) = worker_count m \<and>
     graph_inv (sch m) (uncommitted m) (depends m) (pending m) (held m) (finishing m)"

lemma mset_concat_pc:
  "w < length ps \<Longrightarrow> mset (concat (map f (ps[w := p]))) + mset (f (ps ! w)) = mset (concat (map f ps)) + mset (f p)"
proof -
  assume "w < length ps"
  then have "mset (map id (concat ((map f ps)[w := f p]))) + mset (map id (map f ps ! w)) =
      mset (map id (concat (map f ps))) + mset (map id (f p))"
    by (intro mset_concat_update) simp
  then show ?thesis using \<open>w < length ps\<close> by (simp add: map_update)
qed

lemma goto_sums:
  assumes "w < length (pcs m)"
  shows "held (goto w p s m) + mset (held_of (pcs m ! w)) = held m + mset (held_of p)"
    "pending (goto w p s m) + mset (pending_of (pcs m ! w)) = pending m + mset (pending_of p)"
    "finishing (goto w p s m) + finishing_of (pcs m ! w) = finishing m + finishing_of p"
proof -
  show "held (goto w p s m) + mset (held_of (pcs m ! w)) = held m + mset (held_of p)"
    using mset_concat_pc [OF assms, of held_of p] by (simp add: held_def goto_def add.assoc add.commute add.left_commute)
  show "pending (goto w p s m) + mset (pending_of (pcs m ! w)) = pending m + mset (pending_of p)"
    using mset_concat_pc [OF assms, of pending_of p] by (simp add: pending_def goto_def)
  have "sum_list (map finishing_of ((pcs m)[w := p])) + finishing_of (pcs m ! w) = sum_list (map finishing_of (pcs m)) + finishing_of p"
    using assms by (simp add: map_update sum_list_update) (metis add_diff_inverse_nat elem_le_sum_list length_map not_less nth_map
        add.commute le_add_diff_inverse2 trans_le_add1)
  then show "finishing (goto w p s m) + finishing_of (pcs m ! w) = finishing m + finishing_of p"
    by (simp add: finishing_def goto_def)
qed

lemma goto_simps [simp]:
  "sch (goto w p s m) = s" "pcs (goto w p s m) = (pcs m)[w := p]" "graph_lock (goto w p s m) = graph_lock m"
  "uncommitted (goto w p s m) = uncommitted m" "depends (goto w p s m) = depends m" "dropped (goto w p s m) = dropped m"
  "started (goto w p s m) = started m"
  by (simp_all add: goto_def)

text \<open>A step that only moves the program counter and keeps what the worker holds.\<close>

lemma tasks_inv_goto:
  assumes inv: "tasks_inv m" and w: "w < worker_count m"
    and p: "held_of p = held_of (pcs m ! w)" "pending_of p = pending_of (pcs m ! w)" "finishing_of p = finishing_of (pcs m ! w)"
    and s: "sch_locality s = sch_locality (sch m)" "length (sleeping s) = length (sleeping (sch m))" "vertices s = vertices (sch m)"
      "stealable_queues s = stealable_queues (sch m)" "unstealable_queues s = unstealable_queues (sch m)"
      "created_task_count s = created_task_count (sch m)" "unfinished_task_count s = unfinished_task_count (sch m)"
  shows "tasks_inv (goto w p s m)" "held (goto w p s m) = held m"
proof -
  have l: "w < length (pcs m)" using inv w by (simp add: tasks_inv_def)
  have "held (goto w p s m) = held m" "pending (goto w p s m) = pending m" "finishing (goto w p s m) = finishing m"
    using goto_sums [OF l, of p s] p by simp_all
  moreover have "graph_inv s (uncommitted m) (depends m) (pending m) (held m) (finishing m)"
    by (rule graph_inv_cong [of "sch m"]) (use inv s in \<open>simp_all add: tasks_inv_def\<close>)
  ultimately show "tasks_inv (goto w p s m)" "held (goto w p s m) = held m"
    using inv s by (simp_all add: tasks_inv_def worker_count_def)
qed

text \<open>A step that takes a task out of a queue.\<close>

lemma tasks_inv_took:
  assumes inv: "tasks_inv m" and w: "w < worker_count m"
    and none: "\<And>s. r = (None, s) \<Longrightarrow> s = sch m"
    and some: "\<And>t s. r = (Some t, s) \<Longrightarrow>
        graph_inv s (uncommitted m) (depends m) (pending m) (add_mset (pt_physical t) (held m)) (finishing m) \<and>
        sch_locality s = sch_locality (sch m)"
    and p: "held_of (pcs m ! w) = []" "pending_of (pcs m ! w) = []" "finishing_of (pcs m ! w) = 0"
      "held_of next = []" "pending_of next = []" "finishing_of next = 0"
      "\<And>t. held_of (found t) = [pt_physical t]" "\<And>t. pending_of (found t) = []" "\<And>t. finishing_of (found t) = 0"
  shows "tasks_inv (took w found next r m)"
proof (cases r)
  case (Pair t s)
  have l: "w < length (pcs m)" using inv w by (simp add: tasks_inv_def)
  show ?thesis
  proof (cases t)
    case None
    then have "s = sch m" using none Pair by simp
    then show ?thesis using tasks_inv_goto(1) [OF inv w, of "next" "sch m"] p Pair None by (simp add: took_def)
  next
    case (Some t)
    let ?m = "m\<lparr>started := started m @ [pt_physical t]\<rparr>"
    have g: "graph_inv s (uncommitted m) (depends m) (pending m) (add_mset (pt_physical t) (held m)) (finishing m)"
      "sch_locality s = sch_locality (sch m)"
      using some Pair Some by simp_all
    have same: "held ?m = held m" "pending ?m = pending m" "finishing ?m = finishing m"
      by (simp_all add: held_def pending_def finishing_def)
    have "held (goto w (found t) s ?m) = add_mset (pt_physical t) (held m)" "pending (goto w (found t) s ?m) = pending m"
      "finishing (goto w (found t) s ?m) = finishing m"
      using goto_sums [of w ?m "found t" s] l p same by simp_all
    then show ?thesis using g inv Pair Some by (simp add: took_def tasks_inv_def worker_count_def)
  qed
qed

lemma tasks_inv_shape:
  assumes "tasks_inv m"
  shows "shape_ok (sch m)" "length (sleeping (sch m)) = worker_count m" "length (unstealable_queues (sch m)) = worker_count m"
    "length (pcs m) = worker_count m" "0 < worker_count m"
proof -
  show sh: "shape_ok (sch m)" by (rule graph_invD(1) [OF assms [unfolded tasks_inv_def, THEN conjunct2]])
  then show "length (sleeping (sch m)) = worker_count m" "length (unstealable_queues (sch m)) = worker_count m" "0 < worker_count m"
    by (simp_all add: shape_ok_def Let_def worker_count_def)
  show "length (pcs m) = worker_count m" using assms by (simp add: tasks_inv_def)
qed

lemma worker_bounds:
  assumes inv: "tasks_inv m" and w: "w < worker_count m"
  shows "self_thread_id (locality_of w m) < lm_max_concurrency (sch_locality (sch m))"
    "self_node_id (locality_of w m) < lm_node_count (sch_locality (sch m))"
    "queue_at w i m < lm_node_count (sch_locality (sch m))"
proof -
  have sh: "shape_ok (sch m)" using inv graph_invD(1) by (auto simp: tasks_inv_def)
  then show "self_thread_id (locality_of w m) < lm_max_concurrency (sch_locality (sch m))"
    "self_node_id (locality_of w m) < lm_node_count (sch_locality (sch m))"
    using w by (auto simp: locality_of_def node_of_def worker_count_def shape_ok_def Let_def)
  have "0 < length (stealable_queues (sch m))" using sh by (simp add: shape_ok_def Let_def)
  then have "queue_at w i m < length (stealable_queues (sch m))" by (simp add: queue_at_def)
  then show "queue_at w i m < lm_node_count (sch_locality (sch m))" using sh by (simp add: shape_ok_def Let_def)
qed

lemma take_locality:
  "take_unstealable_task l s = (t, s') \<Longrightarrow> sch_locality s' = sch_locality s"
  "take_local_stealable_task l s = (t, s') \<Longrightarrow> sch_locality s' = sch_locality s"
  "steal_from i s = (t, s') \<Longrightarrow> sch_locality s' = sch_locality s"
  by (auto simp: take_unstealable_task_def take_local_stealable_task_def steal_from_def Let_def split: prod.splits)

lemma tasks_inv_take_step:
  assumes inv: "tasks_inv m" and w: "w < worker_count m" and st: "take_step w m (pcs m ! w) = Some m'"
  shows "tasks_inv m'"
proof -
  note g = inv [unfolded tasks_inv_def, THEN conjunct2]
  note b = worker_bounds [OF inv w]
  show ?thesis
  proof (cases "pcs m ! w")
    case TakeOwn
    then show ?thesis using st
      by (auto intro!: tasks_inv_took [OF inv w] dest: take_unstealable_none take_unstealable_inv [OF g b(1)] take_locality)
  next
    case TakeLocal
    then show ?thesis using st
      by (auto intro!: tasks_inv_took [OF inv w] dest: take_local_none take_local_inv [OF g b(2)] take_locality)
  next
    case (Steal i)
    show ?thesis
    proof (cases "i < length (stealable_queues (sch m))")
      case True
      then show ?thesis using st Steal
        by (auto intro!: tasks_inv_took [OF inv w] dest: steal_from_none steal_from_inv [OF g b(3)] take_locality)
    next
      case False
      then show ?thesis using st Steal tasks_inv_goto(1) [OF inv w, of SetSleeping "sch m"] by auto
    qed
  qed (use st in \<open>auto intro!: tasks_inv_goto(1) [OF inv w]\<close>)
qed

lemma tasks_inv_sleep_step:
  assumes inv: "tasks_inv m" and w: "w < worker_count m" and st: "sleep_step w m (pcs m ! w) = Some m'"
  shows "tasks_inv m'"
proof -
  note g = inv [unfolded tasks_inv_def, THEN conjunct2]
  note b = worker_bounds [OF inv w]
  show ?thesis
  proof (cases "pcs m ! w")
    case SleepOwn
    then show ?thesis using st
      by (auto intro!: tasks_inv_took [OF inv w] dest: take_unstealable_none take_unstealable_inv [OF g b(1)] take_locality)
  next
    case (SleepSteal i)
    show ?thesis
    proof (cases "i < length (stealable_queues (sch m))")
      case True
      then show ?thesis using st SleepSteal
        by (auto intro!: tasks_inv_took [OF inv w] dest: steal_from_none steal_from_inv [OF g b(3)] take_locality)
    next
      case False
      then show ?thesis using st SleepSteal tasks_inv_goto(1) [OF inv w, of Waiting "sch m"] by auto
    qed
  qed (use st in \<open>auto intro!: tasks_inv_goto(1) [OF inv w] simp: set_is_sleeping_def reset_is_sleeping_def
      split: option.splits if_splits\<close>)
qed

lemma tasks_inv_decrementing:
  assumes inv: "tasks_inv m" and w: "w < worker_count m" and pc: "pcs m ! w = Decrementing k (v # vs)" and draw: "uniform_draw draw"
  shows "\<exists>ws s. decrement draw v (sch m) = Some (ws, s) \<and> dom (vertices s) = dom (vertices (sch m)) \<and>
    created_task_count s = created_task_count (sch m) \<and> unfinished_task_count s = unfinished_task_count (sch m) \<and>
    cancellation s = cancellation (sch m) \<and> sleeping s = sleeping (sch m) \<and> sch_locality s = sch_locality (sch m) \<and>
    (case ws of None \<Rightarrow> stealable_queues s = stealable_queues (sch m) \<and> unstealable_queues s = unstealable_queues (sch m)
     | Some ws \<Rightarrow> target_ok (sch m) ws s) \<and>
    (\<forall>p g. held_of p = cont_held k \<longrightarrow> pending_of p = vs \<longrightarrow> finishing_of p = cont_finishing k \<longrightarrow>
       tasks_inv (goto w p s (m\<lparr>graph_lock := g\<rparr>)) \<and> held (goto w p s (m\<lparr>graph_lock := g\<rparr>)) = held m)"
proof -
  have l: "w < length (pcs m)" using inv w by (simp add: tasks_inv_def)
  have "v \<in># pending m"
    using l pc by (auto simp: pending_def) (metis list.set_intros(1) nth_mem pending_of.simps(1))
  then obtain P where P: "pending m = add_mset v P" by (metis mset_add)
  have "graph_inv (sch m) (uncommitted m) (depends m) (add_mset v P) (held m) (finishing m)"
    using inv P by (simp add: tasks_inv_def)
  from decrement_inv [OF this draw] obtain ws s where d: "decrement draw v (sch m) = Some (ws, s)"
    "graph_inv s (uncommitted m) (depends m) P (held m) (finishing m)" "dom (vertices s) = dom (vertices (sch m))"
    "sch_locality s = sch_locality (sch m)" "sleeping s = sleeping (sch m)" "cancellation s = cancellation (sch m)"
    "unfinished_task_count s = unfinished_task_count (sch m)" "created_task_count s = created_task_count (sch m)"
    "case ws of None \<Rightarrow> stealable_queues s = stealable_queues (sch m) \<and> unstealable_queues s = unstealable_queues (sch m)
     | Some ws \<Rightarrow> target_ok (sch m) ws s"
    by blast
  have "tasks_inv (goto w p s (m\<lparr>graph_lock := g\<rparr>)) \<and> held (goto w p s (m\<lparr>graph_lock := g\<rparr>)) = held m"
    if p: "held_of p = cont_held k" "pending_of p = vs" "finishing_of p = cont_finishing k" for p g
  proof -
    let ?m = "m\<lparr>graph_lock := g\<rparr>"
    have same: "held ?m = held m" "pending ?m = pending m" "finishing ?m = finishing m"
      by (simp_all add: held_def pending_def finishing_def)
    have "held (goto w p s ?m) = held m" "pending (goto w p s ?m) = P" "finishing (goto w p s ?m) = finishing m"
      using goto_sums [of w ?m p s] l pc p same P by simp_all
    then show ?thesis using inv d(2,4) by (simp add: tasks_inv_def worker_count_def)
  qed
  with d show ?thesis by blast
qed

lemma tasks_inv_lock: "tasks_inv m \<Longrightarrow> tasks_inv (m\<lparr>graph_lock := g\<rparr>)" "held (m\<lparr>graph_lock := g\<rparr>) = held m"
  "worker_count (m\<lparr>graph_lock := g\<rparr>) = worker_count m"
  by (simp_all add: tasks_inv_def held_def pending_def finishing_def worker_count_def)

lemma tasks_inv_finish:
  assumes inv: "tasks_inv m" and w: "w < worker_count m" and pc: "pcs m ! w = FinishCount"
    and p: "held_of p = []" "pending_of p = []" "finishing_of p = 0"
  shows "tasks_inv (goto w p (count_completion (sch m)) m)" "held (goto w p (count_completion (sch m)) m) = held m"
    "unfinished_task_count (count_completion (sch m)) = unfinished_task_count (sch m) - 1"
    "0 < unfinished_task_count (sch m)"
proof -
  let ?s = "count_completion (sch m)"
  have l: "w < length (pcs m)" using inv w by (simp add: tasks_inv_def)
  have "finishing_of (pcs m ! w) \<le> finishing m"
    unfolding finishing_def using l by (metis elem_le_sum_list length_map nth_map)
  then obtain F where F: "finishing m = F + 1" using pc by (metis add.commute finishing_of.simps(3) le_Suc_ex)
  have g: "graph_inv (sch m) (uncommitted m) (depends m) (pending m) (held m) (F + 1)"
    using inv F by (simp add: tasks_inv_def)
  note c = count_completion_inv [OF g]
  have "held (goto w p ?s m) = held m" "pending (goto w p ?s m) = pending m" "finishing (goto w p ?s m) = F"
    using goto_sums [of w m p ?s] l pc p F by simp_all
  then show "tasks_inv (goto w p ?s m)" "held (goto w p ?s m) = held m"
    using inv c by (simp_all add: tasks_inv_def worker_count_def count_completion_def)
  show "unfinished_task_count ?s = unfinished_task_count (sch m) - 1" by (rule c(2))
  show "0 < unfinished_task_count (sch m)" using graph_invD(7) [OF g] by simp
qed

lemma tasks_inv_notify_step:
  assumes inv: "tasks_inv m" and w: "w < worker_count m" and draw: "uniform_draw draw"
    and st: "notify_step draw w m (pcs m ! w) = Some m'"
  shows "tasks_inv m'"
proof (cases "pcs m ! w")
  case (Decrementing k vs)
  show ?thesis
  proof (cases vs)
    case Nil
    then show ?thesis using st Decrementing by (auto intro!: tasks_inv_goto(1) [OF inv w])
  next
    case (Cons v vs')
    from tasks_inv_decrementing [OF inv w Decrementing [unfolded Cons] draw] obtain ws s where
      d: "decrement draw v (sch m) = Some (ws, s)"
      "\<forall>p g. held_of p = cont_held k \<longrightarrow> pending_of p = vs' \<longrightarrow> finishing_of p = cont_finishing k \<longrightarrow>
         tasks_inv (goto w p s (m\<lparr>graph_lock := g\<rparr>))"
      by blast
    have "m\<lparr>graph_lock := graph_lock m\<rparr> = m" by simp
    then have "tasks_inv (goto w (Decrementing k vs') s m)"
      using d(2) [rule_format, of "Decrementing k vs'" "graph_lock m"] by simp
    then show ?thesis using st Decrementing Cons d by (auto split: if_splits option.splits)
  qed
next
  case (Notifying k vs us)
  note lk = tasks_inv_lock(1) [OF inv, of None]
  have wl: "w < worker_count (m\<lparr>graph_lock := None\<rparr>)" using w by (simp add: worker_count_def)
  show ?thesis
  proof (cases us)
    case Nil
    then show ?thesis using st Notifying
      by (auto intro!: tasks_inv_goto(1) [OF lk wl])
  next
    case (Cons u us')
    obtain woken s where n: "notify_worker u (sch m) = (woken, s)" by (cases "notify_worker u (sch m)")
    have same: "sch_locality s = sch_locality (sch m)" "length (sleeping s) = length (sleeping (sch m))" "vertices s = vertices (sch m)"
      "stealable_queues s = stealable_queues (sch m)" "unstealable_queues s = unstealable_queues (sch m)"
      "created_task_count s = created_task_count (sch m)" "unfinished_task_count s = unfinished_task_count (sch m)"
      using notify_worker_simps [of u "sch m"] n by simp_all
    show ?thesis
    proof (cases woken)
      case True
      then have "m' = goto w (Decrementing k vs) s (m\<lparr>graph_lock := None\<rparr>)" using st Notifying Cons n by simp
      then show ?thesis using tasks_inv_goto(1) [OF lk wl, of "Decrementing k vs" s] same Notifying by simp
    next
      case False
      then have "m' = goto w (Notifying k vs us') s m" using st Notifying Cons n by simp
      then show ?thesis using tasks_inv_goto(1) [OF inv w, of "Notifying k vs us'" s] same Notifying by simp
    qed
  qed
next
  case FinishCount
  then show ?thesis using st
    by (auto simp: Let_def intro!: tasks_inv_finish(1) [OF inv w])
next
  case (NotifyAll us failed)
  then show ?thesis using st by (cases us) (auto intro!: tasks_inv_goto(1) [OF inv w])
qed (use st in simp_all)

lemma tasks_inv_create:
  assumes inv: "tasks_inv m" and lo: "lo_ok (worker_count m) lo" and c: "create_physical_task l c lo (sch m) = (tid, s)"
  shows "tasks_inv (m\<lparr>sch := s, uncommitted := insert tid (uncommitted m)\<rparr>)"
    "tid \<notin> dom (vertices (sch m))" "dom (vertices s) = insert tid (dom (vertices (sch m)))"
    "physical_id tid = created_task_count (sch m)"
proof -
  have g: "graph_inv (sch m) (uncommitted m) (depends m) (pending m) (held m) (finishing m)" using inv by (simp add: tasks_inv_def)
  note ci = create_inv [OF g lo [unfolded worker_count_def] c]
  have "sch_locality s = sch_locality (sch m)" using c by (auto simp: create_physical_task_def Let_def)
  with ci(1) show "tasks_inv (m\<lparr>sch := s, uncommitted := insert tid (uncommitted m)\<rparr>)"
    using inv by (simp add: tasks_inv_def worker_count_def held_def pending_def finishing_def)
  show "tid \<notin> dom (vertices (sch m))" "dom (vertices s) = insert tid (dom (vertices (sch m)))"
    "physical_id tid = created_task_count (sch m)" by (fact ci(2-4))+
qed

definition link :: "PhysicalTaskIdentifier \<Rightarrow> PhysicalTaskIdentifier \<Rightarrow> 'c machine \<Rightarrow> PhysicalTaskIdentifier rel" where
  "link p v m = (if vertices (sch m) p = None then depends m else insert (p, v) (depends m))"

lemma tasks_inv_depend:
  assumes inv: "tasks_inv m" and al: "allowed (AddDependency p v) m"
  shows "\<exists>s. add_dependency p v (sch m) = Some s \<and> tasks_inv (m\<lparr>sch := s, depends := link p v m\<rparr>) \<and>
    dom (vertices s) = dom (vertices (sch m)) \<and> created_task_count s = created_task_count (sch m) \<and>
    unfinished_task_count s = unfinished_task_count (sch m) \<and> cancellation s = cancellation (sch m) \<and> sleeping s = sleeping (sch m) \<and>
    sch_locality s = sch_locality (sch m) \<and> stealable_queues s = stealable_queues (sch m) \<and>
    unstealable_queues s = unstealable_queues (sch m)"
proof (cases "vertices (sch m) p")
  case None
  have "m\<lparr>sch := sch m, depends := depends m\<rparr> = m" by simp
  then show ?thesis using None inv by (simp add: add_dependency_completed link_def)
next
  case (Some xp)
  have g: "graph_inv (sch m) (uncommitted m) (depends m) (pending m) (held m) (finishing m)" using inv by (simp add: tasks_inv_def)
  obtain xv where xv: "vertices (sch m) v = Some xv" "0 < predecessor_count xv" "predecessor_count xv + 1 < size_modulus"
    using al Some by auto
  obtain s where s: "add_dependency p v (sch m) = Some s" "graph_inv s (uncommitted m) (insert (p, v) (depends m)) (pending m) (held m) (finishing m)"
    "dom (vertices s) = dom (vertices (sch m))"
    using add_dependency_inv [OF g Some xv] by blast
  have same: "sch_locality s = sch_locality (sch m)" "created_task_count s = created_task_count (sch m)"
    "unfinished_task_count s = unfinished_task_count (sch m)" "cancellation s = cancellation (sch m)" "sleeping s = sleeping (sch m)"
    "stealable_queues s = stealable_queues (sch m)" "unstealable_queues s = unstealable_queues (sch m)"
    using s(1) Some xv by (auto simp: add_dependency_def Let_def)
  have "tasks_inv (m\<lparr>sch := s, depends := link p v m\<rparr>)"
    using inv s(2) same Some by (simp add: tasks_inv_def worker_count_def held_def pending_def finishing_def link_def)
  then show ?thesis using s same by blast
qed

lemma tasks_inv_commit:
  assumes inv: "tasks_inv m" and w: "w < worker_count m" and pc: "pcs m ! w = Running t" and al: "allowed (Commit v) m"
  defines "m' \<equiv> goto w (Decrementing (Resume t) [v]) (begin_commit (sch m)) (m\<lparr>uncommitted := uncommitted m - {v}\<rparr>)"
  shows "tasks_inv m'" "held m' = held m"
proof -
  let ?m = "m\<lparr>uncommitted := uncommitted m - {v}\<rparr>" and ?p = "Decrementing (Resume t) [v] :: 'a pc"
  have l: "w < length (pcs m)" using inv w by (simp add: tasks_inv_def)
  have same: "held ?m = held m" "pending ?m = pending m" "finishing ?m = finishing m"
    by (simp_all add: held_def pending_def finishing_def)
  have sums: "held m' = held m" "pending m' = add_mset v (pending m)" "finishing m' = finishing m"
    using goto_sums [of w ?m ?p "begin_commit (sch m)"] l pc same unfolding m'_def by simp_all
  have g: "graph_inv (sch m) (uncommitted m) (depends m) (pending m) (held m) (finishing m)" using inv by (simp add: tasks_inv_def)
  have "graph_inv (begin_commit (sch m)) (uncommitted m - {v}) (depends m) (add_mset v (pending m)) (held m) (finishing m)"
    by (rule begin_commit_inv [OF g]) (use al in simp_all)
  with sums inv show "tasks_inv m'" by (simp add: tasks_inv_def m'_def worker_count_def begin_commit_def)
  show "held m' = held m" by (rule sums(1))
qed

lemma held_running:
  assumes inv: "tasks_inv m" and w: "w < worker_count m" and v: "v \<in> set (held_of (pcs m ! w))"
  obtains H where "held m = add_mset v H"
proof -
  have "w < length (pcs m)" using inv w by (simp add: tasks_inv_def)
  then have "v \<in># held m" using v by (auto simp: held_def)
  then show thesis using that by (metis mset_add)
qed

lemma tasks_inv_complete:
  assumes inv: "tasks_inv m" and w: "w < worker_count m" and pc: "pcs m ! w = Running t"
  shows "\<exists>vs s. erase_vertex (pt_physical t) (sch m) = Some (vs, s) \<and> tasks_inv (goto w (Decrementing Finish vs) s m) \<and>
    held m = add_mset (pt_physical t) (held (goto w (Decrementing Finish vs) s m)) \<and>
    dom (vertices s) = dom (vertices (sch m)) - {pt_physical t} \<and> created_task_count s = created_task_count (sch m) \<and>
    unfinished_task_count s = unfinished_task_count (sch m) \<and> cancellation s = cancellation (sch m) \<and> sleeping s = sleeping (sch m) \<and>
    sch_locality s = sch_locality (sch m) \<and> stealable_queues s = stealable_queues (sch m) \<and>
    unstealable_queues s = unstealable_queues (sch m)"
proof -
  have l: "w < length (pcs m)" using inv w by (simp add: tasks_inv_def)
  obtain H where H: "held m = add_mset (pt_physical t) H" using held_running [OF inv w, of "pt_physical t"] pc by auto
  have g: "graph_inv (sch m) (uncommitted m) (depends m) (pending m) (add_mset (pt_physical t) H) (finishing m)"
    using inv H by (simp add: tasks_inv_def)
  obtain vs s where e: "erase_vertex (pt_physical t) (sch m) = Some (vs, s)"
    "graph_inv s (uncommitted m) (depends m) (pending m + mset vs) H (finishing m + 1)"
    "dom (vertices s) = dom (vertices (sch m)) - {pt_physical t}" "sch_locality s = sch_locality (sch m)" "sleeping s = sleeping (sch m)"
    "stealable_queues s = stealable_queues (sch m)" "unstealable_queues s = unstealable_queues (sch m)"
    "cancellation s = cancellation (sch m)" "unfinished_task_count s = unfinished_task_count (sch m)"
    "created_task_count s = created_task_count (sch m)"
    using erase_inv [OF g] by blast
  let ?p = "Decrementing Finish vs :: 'a pc"
  have "held (goto w ?p s m) = H" "pending (goto w ?p s m) = pending m + mset vs" "finishing (goto w ?p s m) = finishing m + 1"
    using goto_sums [OF l, of ?p s] pc H by simp_all
  then have "tasks_inv (goto w ?p s m)" "held m = add_mset (pt_physical t) (held (goto w ?p s m))"
    using inv e H by (simp_all add: tasks_inv_def worker_count_def)
  with e show ?thesis by blast
qed

lemma tasks_inv_throw:
  assumes inv: "tasks_inv m" and w: "w < worker_count m" and pc: "held_of (pcs m ! w) = ids" "pending_of (pcs m ! w) = []"
    "finishing_of (pcs m ! w) = 0"
  shows "tasks_inv (throw_step e w m ids)" "held (throw_step e w m ids) = held m"
proof -
  let ?m = "m\<lparr>dropped := dropped m @ ids\<rparr>" and ?p = "NotifyAll [0..<worker_count m] True :: 'a pc"
  let ?s = "(sch m)\<lparr>cancellation := cm_notify_exception e (cancellation (sch m))\<rparr>"
  have l: "w < length (pcs m)" using inv w by (simp add: tasks_inv_def)
  have same: "held ?m = held m + mset ids" "pending ?m = pending m" "finishing ?m = finishing m"
    by (simp_all add: held_def pending_def finishing_def add.assoc)
  have sums: "held (throw_step e w m ids) = held m" "pending (throw_step e w m ids) = pending m"
    "finishing (throw_step e w m ids) = finishing m"
    using goto_sums [of w ?m ?p ?s] l pc same unfolding throw_step_def by simp_all
  have "graph_inv ?s (uncommitted m) (depends m) (pending m) (held m) (finishing m)"
    by (rule graph_inv_cong [of "sch m"]) (use inv in \<open>simp_all add: tasks_inv_def\<close>)
  with sums inv show "tasks_inv (throw_step e w m ids)" by (simp add: tasks_inv_def throw_step_def worker_count_def)
  show "held (throw_step e w m ids) = held m" by (rule sums(1))
qed

lemma tasks_inv_run_step:
  assumes inv: "tasks_inv m" and w: "w < worker_count m" and al: "allowed a m" and pc: "pcs m ! w = Running t"
    and st: "run_step a w m t = Some m'"
  shows "tasks_inv m'"
proof (cases a)
  case (Create l c lo)
  then show ?thesis using st al tasks_inv_create(1) [OF inv, of lo l c] by (auto split: prod.splits if_splits)
next
  case (AddDependency p v)
  then show ?thesis using st tasks_inv_depend [OF inv al [unfolded AddDependency]]
    by (auto simp: link_def split: if_splits)
next
  case (Commit v)
  then show ?thesis using st tasks_inv_commit(1) [OF inv w pc al [unfolded Commit]] by simp
next
  case Complete
  then show ?thesis using st tasks_inv_complete [OF inv w pc] by (auto split: if_splits)
qed (use st in simp_all)

lemma step_cases:
  assumes "step draw a w m = Some m'"
  obtains (throw) e ids where "a = Throw e" "m' = throw_step e w m ids" "held_of (pcs m ! w) = ids"
      "pending_of (pcs m ! w) = []" "finishing_of (pcs m ! w) = 0"
      "pcs m ! w = Init \<or> pcs m ! w = Exiting \<or> (\<exists>t. pcs m ! w = Running t)"
  | (run) t where "pcs m ! w = Running t" "run_step a w m t = Some m'"
  | (take) "take_step w m (pcs m ! w) = Some m'"
  | (sleep) "sleep_step w m (pcs m ! w) = Some m'"
  | (notify) "notify_step draw w m (pcs m ! w) = Some m'"
  using assms by (cases a; cases "pcs m ! w") (auto simp: step_def split: option.splits)

lemma tasks_inv_step:
  assumes inv: "tasks_inv m" and st: "machine_step m m'"
  shows "tasks_inv m'"
  using st
proof (rule machine_stepE)
  fix w draw a assume w: "w < worker_count m" and h: "uniform_draw draw" "allowed a m" and s: "step draw a w m = Some m'"
  show ?thesis
  using s proof (cases rule: step_cases)
    case (throw e ids)
    then show ?thesis using tasks_inv_throw(1) [OF inv w] by simp
  next
    case (run t)
    then show ?thesis by (rule tasks_inv_run_step [OF inv w h(2)])
  next
    case take
    then show ?thesis by (rule tasks_inv_take_step [OF inv w])
  next
    case sleep
    then show ?thesis by (rule tasks_inv_sleep_step [OF inv w])
  next
    case notify
    then show ?thesis by (rule tasks_inv_notify_step [OF inv w h(1)])
  qed
qed

end
