(* ===== verification/SchedulerSleep.thy ===== *)
theory SchedulerSleep
  imports SchedulerInvariants
begin

text \<open>
  The protocol of sleeping and waking up (\<open>take_runnable_task\<close> with \<open>SchedulerSynchronizer\<close>): no
  worker sleeps over a task, over the end of the execution or over a cancellation.
\<close>

subsection \<open>The invariant\<close>

definition asleep :: "'c machine \<Rightarrow> nat \<Rightarrow> bool" where
  "asleep m w \<longleftrightarrow> sleeping (sch m) ! w"

text \<open>What a worker that raised its flag has already looked at.\<close>

fun past_finished :: "'c pc \<Rightarrow> bool" where
  "past_finished CheckCancelled \<longleftrightarrow> True" | "past_finished SleepOwn \<longleftrightarrow> True"
| "past_finished (SleepSteal i) \<longleftrightarrow> True" | "past_finished Waiting \<longleftrightarrow> True" | "past_finished p \<longleftrightarrow> False"

fun past_cancelled :: "'c pc \<Rightarrow> bool" where
  "past_cancelled SleepOwn \<longleftrightarrow> True" | "past_cancelled (SleepSteal i) \<longleftrightarrow> True" | "past_cancelled Waiting \<longleftrightarrow> True"
| "past_cancelled p \<longleftrightarrow> False"

fun past_own :: "'c pc \<Rightarrow> bool" where
  "past_own (SleepSteal i) \<longleftrightarrow> True" | "past_own Waiting \<longleftrightarrow> True" | "past_own p \<longleftrightarrow> False"

fun scanned :: "(nat \<Rightarrow> nat) \<Rightarrow> 'c pc \<Rightarrow> nat \<Rightarrow> bool" where
  "scanned f (SleepSteal i) q \<longleftrightarrow> (\<exists>j<i. f j = q)" | "scanned f Waiting q \<longleftrightarrow> True" | "scanned f p q \<longleftrightarrow> False"

definition waker :: "'c machine \<Rightarrow> nat \<Rightarrow> bool" where
  "waker m u \<longleftrightarrow> (\<exists>u'<worker_count m. \<exists>us e. pcs m ! u' = NotifyAll us e \<and> u \<in> set us)"

definition caller :: "'c machine \<Rightarrow> nat \<Rightarrow> bool" where
  "caller m u \<longleftrightarrow> (\<exists>u'<worker_count m. \<exists>k vs. pcs m ! u' = Notifying k vs [u])"

definition blind :: "'c machine \<Rightarrow> nat \<Rightarrow> nat \<Rightarrow> bool" where
  "blind m u q \<longleftrightarrow> asleep m u \<and> scanned (\<lambda>j. queue_at u j m) (pcs m ! u) q"

fun leaving :: "'c pc \<Rightarrow> bool" where
  "leaving Exiting \<longleftrightarrow> True" | "leaving Exited \<longleftrightarrow> True" | "leaving p \<longleftrightarrow> False"

fun failing :: "'c pc \<Rightarrow> bool" where
  "failing (NotifyAll us e) \<longleftrightarrow> e" | "failing p \<longleftrightarrow> False"

definition sleep_inv :: "'c machine \<Rightarrow> bool" where
  "sleep_inv m \<longleftrightarrow>
     (\<forall>q<length (stealable_queues (sch m)). stealable_queues (sch m) ! q \<noteq> [] \<longrightarrow> (\<exists>u<worker_count m. \<not> blind m u q)) \<and>
     (\<forall>u<worker_count m.
        (unstealable_queues (sch m) ! u \<noteq> [] \<and> asleep m u \<and> past_own (pcs m ! u) \<longrightarrow> caller m u) \<and>
        (is_finished (sch m) \<and> asleep m u \<and> past_finished (pcs m ! u) \<longrightarrow> waker m u) \<and>
        (is_cancelled (sch m) \<and> asleep m u \<and> past_cancelled (pcs m ! u) \<longrightarrow> waker m u) \<and>
        (leaving (pcs m ! u) \<longrightarrow> is_cancelled (sch m) \<or> is_finished (sch m)) \<and>
        (failing (pcs m ! u) \<longrightarrow> is_cancelled (sch m))) \<and>
     (dropped m \<noteq> [] \<longrightarrow> is_cancelled (sch m))"

subsection \<open>Preservation\<close>

text \<open>
  What one step of worker \<open>w\<close> to the program counter \<open>p\<close> has to satisfy: it wakes nobody's flag up,
  its own flag covers no queue it did not see empty, it publishes tasks and ends together with the
  notifications, and keeps the notifications it has not done yet.
\<close>

definition calm :: "nat \<Rightarrow> 'c pc \<Rightarrow> 'c machine \<Rightarrow> 'c machine \<Rightarrow> bool" where
  "calm w p m m' \<longleftrightarrow>
     worker_count m' = worker_count m \<and> sch_locality (sch m') = sch_locality (sch m) \<and>
     length (stealable_queues (sch m')) = length (stealable_queues (sch m)) \<and> pcs m' = (pcs m)[w := p] \<and>
     (\<forall>u<worker_count m. u \<noteq> w \<longrightarrow> asleep m' u \<longrightarrow> asleep m u)"

definition queues_calm :: "nat \<Rightarrow> 'c pc \<Rightarrow> 'c machine \<Rightarrow> 'c machine \<Rightarrow> bool" where
  "queues_calm w p m m' \<longleftrightarrow>
     (\<forall>q<length (stealable_queues (sch m)). stealable_queues (sch m') ! q \<noteq> [] \<longrightarrow>
        stealable_queues (sch m) ! q \<noteq> [] \<or> \<not> scanned (\<lambda>j. queue_at w j m) p q) \<and>
     (\<forall>q<length (stealable_queues (sch m)). asleep m' w \<longrightarrow> scanned (\<lambda>j. queue_at w j m) p q \<longrightarrow>
        stealable_queues (sch m') ! q = [] \<or> blind m w q) \<and>
     (\<forall>u<worker_count m. unstealable_queues (sch m') ! u \<noteq> [] \<longrightarrow>
        unstealable_queues (sch m) ! u \<noteq> [] \<or> (\<exists>k vs. p = Notifying k vs [u])) \<and>
     (asleep m' w \<longrightarrow> past_own p \<longrightarrow> unstealable_queues (sch m') ! w = [] \<or> asleep m w \<and> past_own (pcs m ! w)) \<and>
     (\<forall>u<worker_count m. asleep m' u \<longrightarrow> (\<exists>k vs. pcs m ! w = Notifying k vs [u]) \<longrightarrow> (\<exists>k vs. p = Notifying k vs [u]))"

definition ends_calm :: "nat \<Rightarrow> 'c pc \<Rightarrow> 'c machine \<Rightarrow> 'c machine \<Rightarrow> bool" where
  "ends_calm w p m m' \<longleftrightarrow>
     (asleep m' w \<longrightarrow> past_finished p \<longrightarrow> is_finished (sch m') \<longrightarrow> is_finished (sch m) \<and> asleep m w \<and> past_finished (pcs m ! w)) \<and>
     (asleep m' w \<longrightarrow> past_cancelled p \<longrightarrow> is_cancelled (sch m') \<longrightarrow> is_cancelled (sch m) \<and> asleep m w \<and> past_cancelled (pcs m ! w)) \<and>
     (is_finished (sch m') \<longrightarrow> is_finished (sch m) \<or> (\<exists>e. p = NotifyAll [0..<worker_count m] e)) \<and>
     (is_cancelled (sch m') \<longrightarrow> is_cancelled (sch m) \<or> (\<exists>e. p = NotifyAll [0..<worker_count m] e)) \<and>
     (\<forall>u<worker_count m. asleep m' u \<longrightarrow> (\<exists>us e. pcs m ! w = NotifyAll us e \<and> u \<in> set us) \<longrightarrow> (\<exists>us e. p = NotifyAll us e \<and> u \<in> set us)) \<and>
     (is_cancelled (sch m) \<longrightarrow> is_cancelled (sch m')) \<and> (is_finished (sch m) \<longrightarrow> is_finished (sch m')) \<and>
     (leaving p \<longrightarrow> is_cancelled (sch m') \<or> is_finished (sch m')) \<and> (failing p \<longrightarrow> is_cancelled (sch m')) \<and>
     (dropped m' = dropped m \<or> is_cancelled (sch m'))"

lemma queue_at_calm: "calm w p m m' \<Longrightarrow> queue_at u j m' = queue_at u j m"
  by (simp add: calm_def queue_at_def node_of_def)

lemma calm_stealable:
  assumes inv: "sleep_inv m" and c: "calm w p m m'" "queues_calm w p m m'" and w: "w < worker_count m" "length (pcs m) = worker_count m"
    and q: "q < length (stealable_queues (sch m))" "stealable_queues (sch m') ! q \<noteq> []"
  shows "\<exists>u<worker_count m'. \<not> blind m' u q"
proof -
  have pw: "pcs m' ! w = p" "u \<noteq> w \<Longrightarrow> pcs m' ! u = pcs m ! u" for u using c(1) w by (simp_all add: calm_def)
  have n: "worker_count m' = worker_count m" using c(1) by (simp add: calm_def)
  have bw: "blind m' w q \<longrightarrow> blind m w q"
    using c q pw(1) queue_at_calm [OF c(1)] unfolding blind_def queues_calm_def by auto
  show ?thesis
  proof (cases "stealable_queues (sch m) ! q = []")
    case False
    then obtain u where u: "u < worker_count m" "\<not> blind m u q" using inv q(1) by (auto simp: sleep_inv_def)
    have "\<not> blind m' u q"
    proof (cases "u = w")
      case True
      then show ?thesis using bw u(2) by blast
    next
      case False
      then have "asleep m' u \<longrightarrow> asleep m u" using c(1) u(1) by (simp add: calm_def)
      then show ?thesis using u(2) pw(2) [OF False] queue_at_calm [OF c(1)] by (auto simp: blind_def)
    qed
    then show ?thesis using u(1) n by auto
  next
    case True
    then have "\<not> scanned (\<lambda>j. queue_at w j m) p q" using c(2) q by (auto simp: queues_calm_def)
    then have "\<not> blind m' w q" using pw(1) queue_at_calm [OF c(1)] by (simp add: blind_def)
    then show ?thesis using w n by auto
  qed
qed

lemma calm_notifications:
  assumes c: "calm w p m m'" "queues_calm w p m m'" "ends_calm w p m m'" and w: "w < worker_count m" "length (pcs m) = worker_count m"
    and u: "u < worker_count m" "asleep m' u"
  shows "caller m u \<Longrightarrow> caller m' u" "waker m u \<Longrightarrow> waker m' u" "\<exists>k vs. p = Notifying k vs [u] \<Longrightarrow> caller m' u"
    "\<exists>e. p = NotifyAll [0..<worker_count m] e \<Longrightarrow> waker m' u"
proof -
  have pw: "pcs m' ! w = p" "\<And>u. u \<noteq> w \<Longrightarrow> pcs m' ! u = pcs m ! u" and n: "worker_count m' = worker_count m"
    using c(1) w by (simp_all add: calm_def)
  show call: "\<exists>k vs. p = Notifying k vs [u] \<Longrightarrow> caller m' u" using pw(1) w n by (auto simp: caller_def)
  show "\<exists>e. p = NotifyAll [0..<worker_count m] e \<Longrightarrow> waker m' u" using pw(1) w n u by (auto simp: waker_def)
  show "caller m u \<Longrightarrow> caller m' u"
  proof -
    assume "caller m u"
    then obtain u' k vs where u': "u' < worker_count m" "pcs m ! u' = Notifying k vs [u]" by (auto simp: caller_def)
    show "caller m' u"
    proof (cases "u' = w")
      case True
      then have "\<exists>k vs. p = Notifying k vs [u]" using c(2) u u' by (auto simp: queues_calm_def)
      then show ?thesis by (rule call)
    next
      case False
      then show ?thesis using u' pw(2) n by (auto simp: caller_def)
    qed
  qed
  show "waker m u \<Longrightarrow> waker m' u"
  proof -
    assume "waker m u"
    then obtain u' us e where u': "u' < worker_count m" "pcs m ! u' = NotifyAll us e" "u \<in> set us" by (auto simp: waker_def)
    show "waker m' u"
    proof (cases "u' = w")
      case True
      then have "\<exists>us e. p = NotifyAll us e \<and> u \<in> set us" using c(3) u u' unfolding ends_calm_def by blast
      then show ?thesis using pw(1) w n by (auto simp: waker_def)
    next
      case False
      then show ?thesis using u' pw(2) n by (auto simp: waker_def)
    qed
  qed
qed

lemma calm_sleep_inv:
  assumes inv: "sleep_inv m" and c: "calm w p m m'" "queues_calm w p m m'" "ends_calm w p m m'"
    and w: "w < worker_count m" "length (pcs m) = worker_count m"
  shows "sleep_inv m'"
proof -
  have pw: "pcs m' ! w = p" "\<And>u. u \<noteq> w \<Longrightarrow> pcs m' ! u = pcs m ! u" and n: "worker_count m' = worker_count m"
    and ls: "length (stealable_queues (sch m')) = length (stealable_queues (sch m))"
    using c(1) w by (simp_all add: calm_def)
  have old: "asleep m u" if "u < worker_count m" "u \<noteq> w" "asleep m' u" for u using c(1) that by (simp add: calm_def)
  note note_u = calm_notifications [OF c w]
  have a: "caller m' u" if u: "u < worker_count m" "unstealable_queues (sch m') ! u \<noteq> []" "asleep m' u" "past_own (pcs m' ! u)" for u
  proof (cases "\<exists>k vs. p = Notifying k vs [u]")
    case False
    then have ne: "unstealable_queues (sch m) ! u \<noteq> []" using c(2) u(1,2) unfolding queues_calm_def by blast
    have "asleep m u \<and> past_own (pcs m ! u)"
    proof (cases "u = w")
      case True
      then show ?thesis using c(2) u(2-4) pw(1) unfolding queues_calm_def by simp
    next
      case False
      then show ?thesis using old [OF u(1) _ u(3)] u(4) pw(2) by simp
    qed
    then have "caller m u" using inv u(1) ne by (simp add: sleep_inv_def)
    then show ?thesis by (rule note_u(1) [OF u(1,3)])
  qed (rule note_u(3) [OF u(1,3)])
  have b: "waker m' u" if u: "u < worker_count m" "is_finished (sch m')" "asleep m' u" "past_finished (pcs m' ! u)" for u
  proof (cases "\<exists>e. p = NotifyAll [0..<worker_count m] e")
    case False
    then have f: "is_finished (sch m)" using c(3) u(2) by (simp add: ends_calm_def)
    have "asleep m u \<and> past_finished (pcs m ! u)"
    proof (cases "u = w")
      case True
      then show ?thesis using c(3) u(2-4) pw(1) unfolding ends_calm_def by simp
    next
      case False
      then show ?thesis using old [OF u(1) _ u(3)] u(4) pw(2) by simp
    qed
    then have "waker m u" using inv u(1) f by (simp add: sleep_inv_def)
    then show ?thesis by (rule note_u(2) [OF u(1,3)])
  qed (rule note_u(4) [OF u(1,3)])
  have d: "waker m' u" if u: "u < worker_count m" "is_cancelled (sch m')" "asleep m' u" "past_cancelled (pcs m' ! u)" for u
  proof (cases "\<exists>e. p = NotifyAll [0..<worker_count m] e")
    case False
    then have f: "is_cancelled (sch m)" using c(3) u(2) by (simp add: ends_calm_def)
    have "asleep m u \<and> past_cancelled (pcs m ! u)"
    proof (cases "u = w")
      case True
      then show ?thesis using c(3) u(2-4) pw(1) unfolding ends_calm_def by simp
    next
      case False
      then show ?thesis using old [OF u(1) _ u(3)] u(4) pw(2) by simp
    qed
    then have "waker m u" using inv u(1) f by (simp add: sleep_inv_def)
    then show ?thesis by (rule note_u(2) [OF u(1,3)])
  qed (rule note_u(4) [OF u(1,3)])
  have e: "leaving (pcs m' ! u) \<longrightarrow> is_cancelled (sch m') \<or> is_finished (sch m')" if u: "u < worker_count m" for u
    using inv c(3) u pw by (cases "u = w") (auto simp: sleep_inv_def ends_calm_def)
  have f: "failing (pcs m' ! u) \<longrightarrow> is_cancelled (sch m')" if u: "u < worker_count m" for u
    using inv c(3) u pw by (cases "u = w") (auto simp: sleep_inv_def ends_calm_def)
  have g: "dropped m' \<noteq> [] \<longrightarrow> is_cancelled (sch m')" using inv c(3) by (auto simp: sleep_inv_def ends_calm_def)
  have h: "\<exists>u<worker_count m. \<not> blind m' u q"
    if "q < length (stealable_queues (sch m))" "stealable_queues (sch m') ! q \<noteq> []" for q
    using calm_stealable [OF inv c(1,2) w that] n by simp
  show ?thesis
    unfolding sleep_inv_def n ls
  proof (intro conjI allI impI, goal_cases)
    case (1 q) then show ?case by (rule h)
  next case (2 u) then show ?case using a by blast
  next case (3 u) then show ?case using b by blast
  next case (4 u) then show ?case using d by blast
  next case (5 u) then show ?case using e by blast
  next case (6 u) then show ?case using f by blast
  next case 7 then show ?case using g by blast
  qed
qed

subsection \<open>Every step is calm\<close>

text \<open>Taking from a queue changes queues only, and only makes them shorter.\<close>

definition shrinks :: "'c scheduler \<Rightarrow> 'c scheduler \<Rightarrow> bool" where
  "shrinks s s' \<longleftrightarrow> sch_locality s' = sch_locality s \<and> sleeping s' = sleeping s \<and> vertices s' = vertices s \<and>
     unfinished_task_count s' = unfinished_task_count s \<and> cancellation s' = cancellation s \<and>
     created_task_count s' = created_task_count s \<and>
     length (stealable_queues s') = length (stealable_queues s) \<and>
     (\<forall>q<length (stealable_queues s). stealable_queues s' ! q \<noteq> [] \<longrightarrow> stealable_queues s ! q \<noteq> []) \<and>
     (\<forall>u<length (unstealable_queues s). unstealable_queues s' ! u \<noteq> [] \<longrightarrow> unstealable_queues s ! u \<noteq> [])"

lemma pop_shrinks: "pop_front q = (t, q') \<Longrightarrow> q' \<noteq> [] \<Longrightarrow> q \<noteq> []" "pop_back q = (t, q') \<Longrightarrow> q' \<noteq> [] \<Longrightarrow> q \<noteq> []"
  by (cases q rule: pop_front.cases; simp) (auto simp: pop_back_def split: if_splits)

lemma update_shrinks:
  "pop_front (qs ! i) = (t, q') \<Longrightarrow> j < length qs \<Longrightarrow> qs[i := q'] ! j \<noteq> [] \<Longrightarrow> qs ! j \<noteq> []"
  "pop_back (qs ! i) = (t, q') \<Longrightarrow> j < length qs \<Longrightarrow> qs[i := q'] ! j \<noteq> [] \<Longrightarrow> qs ! j \<noteq> []"
  by (metis nth_list_update_eq nth_list_update_neq pop_shrinks)+

lemma take_shrinks:
  "take_unstealable_task l s = (t, s') \<Longrightarrow> shrinks s s'" "take_local_stealable_task l s = (t, s') \<Longrightarrow> shrinks s s'"
  "steal_from i s = (t, s') \<Longrightarrow> shrinks s s'"
  by (auto simp: take_unstealable_task_def take_local_stealable_task_def steal_from_def Let_def shrinks_def
      split: prod.splits dest: update_shrinks)

lemma calm_took:
  assumes sh: "\<And>t s. r = (t, s) \<Longrightarrow> shrinks (sch m) s" and inv: "tasks_inv m" and w: "w < worker_count m"
    and pc: "pcs m ! w \<in> {TakeOwn, TakeLocal, SleepOwn} \<or> (\<exists>i. pcs m ! w = Steal i) \<or> (\<exists>i. pcs m ! w = SleepSteal i)"
    and p: "found = Running \<or> found = Return \<circ> Some"
    and nxt: "\<And>s. r = (None, s) \<Longrightarrow> next \<in> {TakeLocal} \<or> (\<exists>i. next = Steal i) \<or>
       (pcs m ! w = SleepOwn \<and> next = SleepSteal 0 \<and> unstealable_queues s ! w = []) \<or>
       (\<exists>i. pcs m ! w = SleepSteal i \<and> next = SleepSteal (i + 1) \<and> stealable_queues s ! queue_at w i m = [])"
  shows "\<exists>p. calm w p m (took w found next r m) \<and> queues_calm w p m (took w found next r m) \<and>
    ends_calm w p m (took w found next r m)"
proof (cases r)
  case (Pair t s)
  note h = sh [OF Pair, unfolded shrinks_def]
  note un = tasks_inv_shape(3) [OF inv]
  show ?thesis
  proof (cases t)
    case (Some t)
    have "calm w (found t) m (took w found next r m) \<and> queues_calm w (found t) m (took w found next r m) \<and>
      ends_calm w (found t) m (took w found next r m)"
      using h un pc p Pair Some
      by (auto simp: took_def calm_def queues_calm_def ends_calm_def asleep_def worker_count_def is_finished_def is_cancelled_def)
    then show ?thesis by blast
  next
    case None
    note n = nxt [OF Pair [unfolded None]]
    have c: "calm w next m (took w found next r m)"
      using h Pair None by (simp add: took_def calm_def asleep_def worker_count_def)
    have e: "ends_calm w next m (took w found next r m)"
      using h pc n Pair None
      by (auto simp: took_def ends_calm_def asleep_def is_finished_def is_cancelled_def)
    have q: "queues_calm w next m (took w found next r m)"
      using h un pc n Pair None
      by (auto simp: took_def queues_calm_def asleep_def blind_def less_Suc_eq)
    from c e q show ?thesis by blast
  qed
qed

lemma queue_at_onto:
  assumes "q < length (stealable_queues (sch m))"
  shows "\<exists>j<length (stealable_queues (sch m)). queue_at w j m = q"
proof -
  let ?N = "length (stealable_queues (sch m))" and ?n = "node_of w m mod length (stealable_queues (sch m))"
  have "?n < ?N" using assms by (metis gr_implies_not0 mod_less_divisor neq0_conv)
  then have "(node_of w m + (if ?n \<le> q then q - ?n else ?N - (?n - q))) mod ?N = q"
    using assms by (subst mod_add_left_eq [symmetric]) auto
  moreover have "(if ?n \<le> q then q - ?n else ?N - (?n - q)) < ?N" using assms by auto
  ultimately show ?thesis unfolding queue_at_def by blast
qed

definition calm_step :: "nat \<Rightarrow> 'c machine \<Rightarrow> 'c machine \<Rightarrow> bool" where
  "calm_step w m m' \<longleftrightarrow> (\<exists>p. calm w p m m' \<and> queues_calm w p m m' \<and> ends_calm w p m m')"

lemmas calm_defs = calm_def queues_calm_def ends_calm_def asleep_def worker_count_def is_finished_def is_cancelled_def

lemma calm_take_step:
  assumes inv: "tasks_inv m" "sleep_inv m" and w: "w < worker_count m" and st: "take_step w m (pcs m ! w) = Some m'"
  shows "calm_step w m m'"
proof -
  have me: "leaving (pcs m ! w) \<longrightarrow> is_cancelled (sch m) \<or> is_finished (sch m)" using inv(2) w by (simp add: sleep_inv_def)
  show ?thesis
  proof (cases "pcs m ! w")
    case Init
    then show ?thesis using st unfolding calm_step_def by (intro exI [of _ LoopCancelled]) (auto simp: calm_defs)
  next
    case LoopCancelled
    then show ?thesis using st unfolding calm_step_def
      by (intro exI [of _ "if is_cancelled (sch m) then Exiting else LoopFinished"]) (auto simp: calm_defs)
  next
    case LoopFinished
    then show ?thesis using st unfolding calm_step_def
      by (intro exI [of _ "if is_finished (sch m) then Exiting else TakeOwn"]) (auto simp: calm_defs)
  next
    case TakeOwn
    then show ?thesis using st unfolding calm_step_def
      by (auto intro!: calm_took [OF _ inv(1) w] dest: take_shrinks)
  next
    case TakeLocal
    then show ?thesis using st unfolding calm_step_def
      by (auto intro!: calm_took [OF _ inv(1) w] dest: take_shrinks)
  next
    case (Steal i)
    show ?thesis
    proof (cases "i < length (stealable_queues (sch m))")
      case True
      then show ?thesis using st Steal unfolding calm_step_def
        by (auto intro!: calm_took [OF _ inv(1) w] dest: take_shrinks)
    next
      case False
      then show ?thesis using st Steal unfolding calm_step_def by (intro exI [of _ SetSleeping]) (auto simp: calm_defs)
    qed
  next
    case Exiting
    then show ?thesis using st me unfolding calm_step_def by (intro exI [of _ Exited]) (auto simp: calm_defs)
  qed (use st in simp_all)
qed

lemma calm_sleep_step:
  assumes inv: "tasks_inv m" "sleep_inv m" and w: "w < worker_count m" and st: "sleep_step w m (pcs m ! w) = Some m'"
  shows "calm_step w m m'"
proof -
  note len = tasks_inv_shape(2) [OF inv(1)]
  show ?thesis
  proof (cases "pcs m ! w")
    case SetSleeping
    then show ?thesis using st unfolding calm_step_def
      by (intro exI [of _ CheckFinished]) (auto simp: calm_defs set_is_sleeping_def)
  next
    case CheckFinished
    then show ?thesis using st unfolding calm_step_def
      by (intro exI [of _ "if is_finished (sch m) then Return None else CheckCancelled"]) (auto simp: calm_defs)
  next
    case CheckCancelled
    then show ?thesis using st unfolding calm_step_def
      by (intro exI [of _ "if is_cancelled (sch m) then Return None else SleepOwn"]) (auto simp: calm_defs)
  next
    case SleepOwn
    have "\<exists>p. calm w p m m' \<and> queues_calm w p m m' \<and> ends_calm w p m m'"
      using st SleepOwn
      by (auto intro!: calm_took [OF _ inv(1) w] dest: take_shrinks take_unstealable_none simp: locality_of_def)
    then show ?thesis by (simp add: calm_step_def)
  next
    case (SleepSteal i)
    show ?thesis
    proof (cases "i < length (stealable_queues (sch m))")
      case True
      then have "\<exists>p. calm w p m m' \<and> queues_calm w p m m' \<and> ends_calm w p m m'"
        using st SleepSteal by (auto intro!: calm_took [OF _ inv(1) w] dest: take_shrinks steal_from_none)
      then show ?thesis by (simp add: calm_step_def)
    next
      case False
      then have m': "m' = goto w Waiting (sch m) m" using st SleepSteal by simp
      have "blind m w q" if q: "asleep m w" "q < length (stealable_queues (sch m))" for q
      proof -
        obtain j where j: "j < length (stealable_queues (sch m))" "queue_at w j m = q" using queue_at_onto [OF q(2)] by blast
        then have "j < i" using False by simp
        with j q(1) SleepSteal show ?thesis by (auto simp: blind_def)
      qed
      then have "queues_calm w Waiting m m'" using SleepSteal unfolding m' queues_calm_def by (simp add: asleep_def)
      then show ?thesis using SleepSteal unfolding calm_step_def
        by (intro exI [of _ Waiting]) (auto simp: m' calm_def ends_calm_def asleep_def worker_count_def)
    qed
  next
    case Waiting
    then show ?thesis using st unfolding calm_step_def
      by (intro exI [of _ SetSleeping]) (auto simp: calm_defs may_wake_def split: if_splits)
  next
    case (Return r)
    then show ?thesis using st len w unfolding calm_step_def
      by (intro exI [of _ "case r of Some t \<Rightarrow> Running t | None \<Rightarrow> LoopCancelled"])
        (auto simp: calm_defs reset_is_sleeping_def split: option.splits)
  qed (use st in simp_all)
qed

text \<open>Notifying lowers one flag.\<close>

lemma notified:
  assumes "notify_worker u (sch m) = (b, s)" "length (sleeping (sch m)) = worker_count m"
  shows "sleeping s = (sleeping (sch m))[u := False]" "u < worker_count m \<Longrightarrow> \<not> sleeping s ! u"
    "v < worker_count m \<Longrightarrow> sleeping s ! v \<Longrightarrow> sleeping (sch m) ! v"
proof -
  show s: "sleeping s = (sleeping (sch m))[u := False]" using notify_worker_simps(8) [of u "sch m"] assms(1) by simp
  show "u < worker_count m \<Longrightarrow> \<not> sleeping s ! u" using s assms(2) by simp
  show "v < worker_count m \<Longrightarrow> sleeping s ! v \<Longrightarrow> sleeping (sch m) ! v" using s by (cases "v = u") (auto simp: assms(2))
qed

lemma calm_notify_one:
  assumes inv: "tasks_inv m" "sleep_inv m" and w: "w < worker_count m"
    and n: "notify_worker u (sch m) = (b, s)" and m': "m' = goto w p s m1" "pcs m1 = pcs m" "dropped m1 = dropped m"
    and pc: "(\<exists>k vs us. pcs m ! w = Notifying k vs (u # us) \<and> (p = Decrementing k vs \<or> p = Notifying k vs us)) \<or>
      (\<exists>us e. pcs m ! w = NotifyAll (u # us) e \<and> p = NotifyAll us e)"
  shows "calm_step w m m'"
proof -
  note len = tasks_inv_shape(2) [OF inv(1)]
  have me: "failing (pcs m ! w) \<longrightarrow> is_cancelled (sch m)" using inv(2) w by (simp add: sleep_inv_def)
  have same: "sch_locality s = sch_locality (sch m)" "stealable_queues s = stealable_queues (sch m)"
    "unstealable_queues s = unstealable_queues (sch m)" "unfinished_task_count s = unfinished_task_count (sch m)"
    "cancellation s = cancellation (sch m)"
    using notify_worker_simps [of u "sch m"] n by simp_all
  have fl: "\<And>v. v < worker_count m \<Longrightarrow> asleep m' v \<Longrightarrow> asleep m v \<and> v \<noteq> u"
    using notified [OF n len] by (auto simp: asleep_def m')
  have c: "calm w p m m'" using same fl by (simp add: calm_def m' worker_count_def)
  moreover have "queues_calm w p m m'"
    using same pc fl unfolding queues_calm_def m'(1) by auto
  moreover have "ends_calm w p m m'"
    unfolding ends_calm_def using same pc fl me m'(3) unfolding m'(1) by (auto simp: is_finished_def is_cancelled_def)
  ultimately show ?thesis unfolding calm_step_def by blast
qed

lemma calm_notify_step:
  assumes inv: "tasks_inv m" "sleep_inv m" and w: "w < worker_count m" and draw: "uniform_draw draw"
    and st: "notify_step draw w m (pcs m ! w) = Some m'"
  shows "calm_step w m m'"
proof -
  note sh = tasks_inv_shape [OF inv(1)]
  have me: "failing (pcs m ! w) \<longrightarrow> is_cancelled (sch m)" using inv(2) w by (simp add: sleep_inv_def)
  show ?thesis
  proof (cases "pcs m ! w")
    case (Decrementing k vs)
    show ?thesis
    proof (cases vs)
      case Nil
      then show ?thesis using st Decrementing unfolding calm_step_def
        by (intro exI [of _ "resume k"]) (cases k; auto simp: calm_defs)
    next
      case (Cons v vs')
      obtain ws s where d: "decrement draw v (sch m) = Some (ws, s)" "unfinished_task_count s = unfinished_task_count (sch m)"
        "cancellation s = cancellation (sch m)" "sleeping s = sleeping (sch m)" "sch_locality s = sch_locality (sch m)"
        "case ws of None \<Rightarrow> stealable_queues s = stealable_queues (sch m) \<and> unstealable_queues s = unstealable_queues (sch m)
         | Some ws \<Rightarrow> target_ok (sch m) ws s"
        using tasks_inv_decrementing [OF inv(1) w Decrementing [unfolded Cons] draw] by blast
      show ?thesis
      proof (cases ws)
        case None
        then have "m' = goto w (Decrementing k vs') s m" using st Decrementing Cons d by (simp split: if_splits)
        then show ?thesis using d None Decrementing unfolding calm_step_def
          by (intro exI [of _ "Decrementing k vs'"]) (auto simp: calm_defs)
      next
        case (Some us)
        then have m': "m' = goto w (Notifying k vs' us) s (m\<lparr>graph_lock := Some w\<rparr>)"
          using st Decrementing Cons d by (simp split: if_splits)
        have t: "target_ok (sch m) us s" using d(6) Some by simp
        have len: "length (stealable_queues s) = length (stealable_queues (sch m))"
          using t by (auto simp: target_ok_def)
        have un: "unstealable_queues s ! u \<noteq> [] \<longrightarrow> unstealable_queues (sch m) ! u \<noteq> [] \<or> us = [u]" if "u < worker_count m" for u
          using t that by (auto simp: target_ok_def) (metis nth_list_update_neq)
        have "calm w (Notifying k vs' us) m m'" using d len by (simp add: m' calm_def worker_count_def asleep_def)
        moreover have "queues_calm w (Notifying k vs' us) m m'"
          using un Decrementing by (simp add: queues_calm_def m')
        moreover have "ends_calm w (Notifying k vs' us) m m'"
          using d Decrementing by (simp add: ends_calm_def m' is_finished_def is_cancelled_def)
        ultimately show ?thesis unfolding calm_step_def by blast
      qed
    qed
  next
    case (Notifying k vs us)
    show ?thesis
    proof (cases us)
      case Nil
      then show ?thesis using st Notifying unfolding calm_step_def
        by (intro exI [of _ "Decrementing k vs"]) (auto simp: calm_defs)
    next
      case (Cons u us')
      obtain b s where n: "notify_worker u (sch m) = (b, s)" by (cases "notify_worker u (sch m)")
      show ?thesis using st Notifying Cons n
        by (cases b) (auto intro: calm_notify_one [OF inv w n])
    qed
  next
    case FinishCount
    note f = tasks_inv_finish [OF inv(1) w FinishCount, of LoopCancelled]
    let ?p = "if is_finished (count_completion (sch m)) then NotifyAll [0..<worker_count m] False else LoopCancelled :: 'a pc"
    have "m' = goto w ?p (count_completion (sch m)) m" using st FinishCount by (simp add: Let_def)
    then show ?thesis using f(4) FinishCount unfolding calm_step_def
      by (intro exI [of _ ?p]) (auto simp: calm_defs count_completion_def)
  next
    case (NotifyAll us e)
    show ?thesis
    proof (cases us)
      case Nil
      then show ?thesis using st NotifyAll me unfolding calm_step_def
        by (intro exI [of _ "if e then Exiting else LoopCancelled"]) (auto simp: calm_defs)
    next
      case (Cons u us')
      obtain b s where n: "notify_worker u (sch m) = (b, s)" by (cases "notify_worker u (sch m)")
      show ?thesis using st NotifyAll Cons n by (auto intro: calm_notify_one [OF inv w n])
    qed
  qed (use st in simp_all)
qed

lemma running_unfinished:
  assumes inv: "tasks_inv m" and w: "w < worker_count m" and v: "v \<in> set (held_of (pcs m ! w))"
  shows "0 < unfinished_task_count (sch m)"
proof -
  obtain H where "held m = add_mset v H" using held_running [OF inv w v] .
  then show ?thesis using held_ready(8) inv by (metis tasks_inv_def)
qed

lemma calm_run_step:
  assumes inv: "tasks_inv m" "sleep_inv m" and w: "w < worker_count m" and al: "allowed a m" and pc: "pcs m ! w = Running t"
    and st: "run_step a w m t = Some m'"
  shows "calm_step w m m'"
proof (cases a)
  case (Create l c lo)
  obtain tid s where c: "create_physical_task l c lo (sch m) = (tid, s)" by (cases "create_physical_task l c lo (sch m)")
  then have s: "sch_locality s = sch_locality (sch m)" "stealable_queues s = stealable_queues (sch m)"
    "unstealable_queues s = unstealable_queues (sch m)" "unfinished_task_count s = unfinished_task_count (sch m)"
    "cancellation s = cancellation (sch m)" "sleeping s = sleeping (sch m)"
    by (auto simp: create_physical_task_def Let_def)
  have "pcs m = (pcs m)[w := Running t]" using pc by (metis list_update_id)
  then show ?thesis using st Create c s pc unfolding calm_step_def
    by (intro exI [of _ "Running t"]) (auto simp: calm_defs split: if_splits)
next
  case (AddDependency p v)
  obtain s where s: "add_dependency p v (sch m) = Some s" "unfinished_task_count s = unfinished_task_count (sch m)"
    "cancellation s = cancellation (sch m)" "sleeping s = sleeping (sch m)" "sch_locality s = sch_locality (sch m)"
    "stealable_queues s = stealable_queues (sch m)" "unstealable_queues s = unstealable_queues (sch m)"
    using tasks_inv_depend [OF inv(1) al [unfolded AddDependency]] by blast
  have "pcs m = (pcs m)[w := Running t]" using pc by (metis list_update_id)
  then show ?thesis using st AddDependency s pc unfolding calm_step_def
    by (intro exI [of _ "Running t"]) (auto simp: calm_defs split: if_splits)
next
  case (Commit v)
  have "0 < unfinished_task_count (sch m)" using running_unfinished [OF inv(1) w, of "pt_physical t"] pc by simp
  then show ?thesis using st Commit pc unfolding calm_step_def
    by (intro exI [of _ "Decrementing (Resume t) [v]"]) (auto simp: calm_defs begin_commit_def)
next
  case Complete
  obtain vs s where s: "erase_vertex (pt_physical t) (sch m) = Some (vs, s)" "unfinished_task_count s = unfinished_task_count (sch m)"
    "cancellation s = cancellation (sch m)" "sleeping s = sleeping (sch m)" "sch_locality s = sch_locality (sch m)"
    "stealable_queues s = stealable_queues (sch m)" "unstealable_queues s = unstealable_queues (sch m)"
    using tasks_inv_complete [OF inv(1) w pc] by blast
  then show ?thesis using st Complete pc unfolding calm_step_def
    by (intro exI [of _ "Decrementing Finish vs"]) (auto simp: calm_defs split: if_splits)
qed (use st in simp_all)

lemma calm_throw:
  assumes w: "w < worker_count m" and pc: "pcs m ! w = Init \<or> pcs m ! w = Exiting \<or> (\<exists>t. pcs m ! w = Running t)"
  shows "calm_step w m (throw_step e w m ids)"
  unfolding calm_step_def
  by (rule exI [of _ "NotifyAll [0..<worker_count m] True"])
    (use pc in \<open>auto simp: calm_defs throw_step_def cm_is_cancelled_def cm_notify_exception_def\<close>)

lemma sleep_inv_step:
  assumes inv: "tasks_inv m" "sleep_inv m" and st: "machine_step m m'"
  shows "sleep_inv m'"
  using st
proof (rule machine_stepE)
  fix w draw a assume w: "w < worker_count m" and h: "uniform_draw draw" "allowed a m" and s: "step draw a w m = Some m'"
  have "calm_step w m m'"
    using s
  proof (cases rule: step_cases)
    case (throw e ids)
    then show ?thesis using calm_throw [OF w] by simp
  next
    case (run t)
    then show ?thesis by (rule calm_run_step [OF inv w h(2)])
  next
    case take
    then show ?thesis by (rule calm_take_step [OF inv w])
  next
    case sleep
    then show ?thesis by (rule calm_sleep_step [OF inv w])
  next
    case notify
    then show ?thesis by (rule calm_notify_step [OF inv w h(1)])
  qed
  then show ?thesis using calm_sleep_inv [OF inv(2) _ _ _ w] tasks_inv_shape(4) [OF inv(1)]
    by (auto simp: calm_step_def)
qed

end
