(* ===== verification/SchedulerProperties.thy ===== *)
theory SchedulerProperties
  imports SchedulerSleep
begin

text \<open>
  What the scheduler guarantees in every reachable state of its machine: its assertions hold, tasks
  start once and after what they depend on, and no set of sleeping workers is ever stuck.
\<close>

subsection \<open>The owner of the mutex\<close>

fun notifying :: "'c pc \<Rightarrow> bool" where
  "notifying (Notifying k vs us) \<longleftrightarrow> True" | "notifying p \<longleftrightarrow> False"

definition lock_inv :: "'c machine \<Rightarrow> bool" where
  "lock_inv m \<longleftrightarrow> (\<forall>w<worker_count m. notifying (pcs m ! w) \<longleftrightarrow> graph_lock m = Some w) \<and>
     (\<forall>w. graph_lock m = Some w \<longrightarrow> w < worker_count m)"

lemma lock_inv_goto:
  assumes inv: "lock_inv m" "length (pcs m) = worker_count m" and w: "w < worker_count m"
    and m': "worker_count m' = worker_count m" "pcs m' = (pcs m)[w := p]"
    and lk: "(notifying p \<longleftrightarrow> notifying (pcs m ! w)) \<and> graph_lock m' = graph_lock m \<or>
      \<not> notifying (pcs m ! w) \<and> graph_lock m = None \<and> notifying p \<and> graph_lock m' = Some w \<or>
      notifying (pcs m ! w) \<and> \<not> notifying p \<and> graph_lock m' = None"
  shows "lock_inv m'"
proof -
  have "notifying (pcs m' ! u) \<longleftrightarrow> graph_lock m' = Some u" if u: "u < worker_count m" for u
  proof (cases "u = w")
    case True
    then show ?thesis using inv w m' lk by (auto simp: lock_inv_def)
  next
    case False
    then have "pcs m' ! u = pcs m ! u" using m' by simp
    then show ?thesis using inv(1) u w lk False unfolding lock_inv_def by (metis option.distinct(1) option.inject)
  qed
  moreover have "graph_lock m' = Some u \<longrightarrow> u < worker_count m" for u
    using inv(1) lk w unfolding lock_inv_def by auto
  ultimately show ?thesis using m' by (simp add: lock_inv_def)
qed

lemma not_notifying_resume [simp]: "\<not> notifying (resume k)"
  by (cases k) auto

lemma lock_inv_took:
  assumes inv: "lock_inv m" "length (pcs m) = worker_count m" and w: "w < worker_count m"
    and pc: "\<not> notifying (pcs m ! w)" "\<not> notifying next" "\<And>t. \<not> notifying (found t)"
    and sh: "\<And>t s. r = (t, s) \<Longrightarrow> sch_locality s = sch_locality (sch m)"
  shows "lock_inv (took w found next r m)"
proof -
  obtain t s where r: "r = (t, s)" by (cases r)
  then have "worker_count (took w found next r m) = worker_count m"
    using sh by (simp add: took_def worker_count_def split: option.split)
  then show ?thesis
    by (rule lock_inv_goto [OF inv w, where p = "case t of Some t \<Rightarrow> found t | None \<Rightarrow> next"])
      (use r pc in \<open>auto simp: took_def split: option.split\<close>)
qed

lemma lock_inv_step:
  assumes tasks: "tasks_inv m" and inv: "lock_inv m" and st: "machine_step m m'"
  shows "lock_inv m'"
  using st
proof (rule machine_stepE)
  fix w draw a assume w: "w < worker_count m" and h: "uniform_draw draw" "allowed a m" and s: "step draw a w m = Some m'"
  note len = tasks_inv_shape(4) [OF tasks]
  note go = lock_inv_goto [OF inv len w] and tk = lock_inv_took [OF inv len w]
  show ?thesis
    using s
  proof (cases rule: step_cases)
    case (throw e ids)
    then show ?thesis
      by (intro go [of _ "NotifyAll [0..<worker_count m] True"]) (auto simp: throw_step_def worker_count_def)
  next
    case (run t)
    show ?thesis
    proof (cases a)
      case (Create l c lo)
      have "pcs m = (pcs m)[w := Running t]" using run(1) by (metis list_update_id)
      with run Create show ?thesis
        by (intro go [of _ "Running t"]) (auto simp: worker_count_def create_physical_task_def Let_def split: if_splits)
    next
      case (AddDependency p v)
      have "pcs m = (pcs m)[w := Running t]" using run(1) by (metis list_update_id)
      with run AddDependency tasks_inv_depend [OF tasks h(2) [unfolded AddDependency]] show ?thesis
        by (intro go [of _ "Running t"]) (auto simp: worker_count_def split: if_splits)
    next
      case (Commit v)
      with run show ?thesis
        by (intro go [of _ "Decrementing (Resume t) [v]"]) (auto simp: worker_count_def begin_commit_def)
    next
      case Complete
      obtain vs s where e: "erase_vertex (pt_physical t) (sch m) = Some (vs, s)" "sch_locality s = sch_locality (sch m)"
        using tasks_inv_complete [OF tasks w run(1)] by blast
      with run Complete show ?thesis
        by (intro go [of _ "Decrementing Finish vs"]) (auto simp: worker_count_def split: if_splits)
    qed (use run in simp_all)
  next
    case take
    show ?thesis
    proof (cases "pcs m ! w")
      case TakeOwn
      with take show ?thesis by (auto intro!: tk dest: take_locality)
    next
      case TakeLocal
      with take show ?thesis by (auto intro!: tk dest: take_locality)
    next
      case (Steal i)
      show ?thesis
      proof (cases "i < length (stealable_queues (sch m))")
        case True
        with take Steal show ?thesis by (auto intro!: tk dest: take_locality)
      next
        case False
        with take Steal show ?thesis by (auto intro!: go simp: worker_count_def)
      qed
    qed (use take in \<open>auto intro!: go simp: worker_count_def split: if_splits\<close>)
  next
    case sleep
    show ?thesis
    proof (cases "pcs m ! w")
      case SleepOwn
      with sleep show ?thesis by (auto intro!: tk dest: take_locality)
    next
      case (SleepSteal i)
      show ?thesis
      proof (cases "i < length (stealable_queues (sch m))")
        case True
        with sleep SleepSteal show ?thesis by (auto intro!: tk dest: take_locality)
      next
        case False
        with sleep SleepSteal show ?thesis by (auto intro!: go simp: worker_count_def)
      qed
    qed (use sleep in \<open>auto intro!: go simp: worker_count_def split: if_splits option.splits\<close>)
  next
    case notify
    show ?thesis
    proof (cases "pcs m ! w")
      case (Decrementing k vs)
      show ?thesis
      proof (cases vs)
        case Nil
        with notify Decrementing show ?thesis by (auto intro!: go simp: worker_count_def)
      next
        case (Cons v vs')
        obtain ws s where "decrement draw v (sch m) = Some (ws, s)" "sch_locality s = sch_locality (sch m)"
          using tasks_inv_decrementing [OF tasks w Decrementing [unfolded Cons] h(1)] by blast
        with notify Decrementing Cons show ?thesis
          by (auto intro!: go simp: worker_count_def split: if_splits option.splits)
      qed
    next
      case (Notifying k vs us)
      show ?thesis
      proof (cases us)
        case Nil
        with notify Notifying show ?thesis by (auto intro!: go simp: worker_count_def)
      next
        case (Cons u us')
        obtain b s where n: "notify_worker u (sch m) = (b, s)" by (cases "notify_worker u (sch m)")
        then have "sch_locality s = sch_locality (sch m)" using notify_worker_simps(4) [of u "sch m"] by simp
        with notify Notifying Cons n show ?thesis by (cases b) (auto intro!: go simp: worker_count_def)
      qed
    next
      case FinishCount
      with notify show ?thesis by (auto intro!: go simp: worker_count_def Let_def count_completion_def split: if_splits)
    next
      case (NotifyAll us e)
      with notify show ?thesis by (cases us) (auto intro!: go simp: worker_count_def split: if_splits)
    qed (use notify in simp_all)
  qed
qed

subsection \<open>The order of starts\<close>

definition history_inv :: "'c machine \<Rightarrow> bool" where
  "history_inv m \<longleftrightarrow> (let D = dom (vertices (sch m)); c = created_task_count (sch m) in
     distinct (started m) \<and> set_mset (held m) \<subseteq> set (started m) \<and>
     (\<forall>v\<in>set (started m). physical_id v < c \<and> (v \<in> D \<longrightarrow> v \<in># held m)) \<and>
     (\<forall>v. physical_id v < c \<longrightarrow> v \<notin> D \<longrightarrow> v \<in> set (started m)) \<and>
     (\<forall>i<length (started m). \<forall>p. (p, started m ! i) \<in> depends m \<longrightarrow> p \<notin> D \<and> p \<in> set (take i (started m))))"

lemma history_same:
  assumes "history_inv m" "dom (vertices (sch m')) = dom (vertices (sch m))" "created_task_count (sch m') = created_task_count (sch m)"
    "held m' = held m" "started m' = started m" "depends m' = depends m"
  shows "history_inv m'"
  using assms by (simp add: history_inv_def)

lemma history_took:
  assumes tasks: "tasks_inv m" and inv: "history_inv m" and w: "w < worker_count m" and tk: "tasks_inv (took w found next r m)"
    and sh: "\<And>t s. r = (t, s) \<Longrightarrow> shrinks (sch m) s"
    and p: "held_of (pcs m ! w) = []" "held_of next = []" "\<And>t. held_of (found t) = [pt_physical t]"
  shows "history_inv (took w found next r m)"
proof (cases r)
  case (Pair t s)
  note h = sh [OF Pair, unfolded shrinks_def]
  have l: "w < length (pcs m)" using tasks_inv_shape(4) [OF tasks] w by simp
  show ?thesis
  proof (cases t)
    case None
    have "held (goto w next s m) = held m" using goto_sums(1) [OF l, of "next" s] p by simp
    then show ?thesis using Pair None h by (intro history_same [OF inv]) (simp_all add: took_def)
  next
    case (Some t)
    let ?m = "m\<lparr>started := started m @ [pt_physical t]\<rparr>" and ?v = "pt_physical t"
    have m': "took w found next r m = goto w (found t) s ?m" using Pair Some by (simp add: took_def)
    have "held ?m = held m" by (simp add: held_def)
    then have hd: "held (goto w (found t) s ?m) = add_mset ?v (held m)" using goto_sums(1) [of w ?m "found t" s] l p by simp
    have g: "graph_inv s (uncommitted m) (depends m) (pending (goto w (found t) s ?m)) (add_mset ?v (held m)) (finishing (goto w (found t) s ?m))"
      using tk hd unfolding m' tasks_inv_def by simp
    note hr = held_ready [OF g]
    have vs: "vertices s = vertices (sch m)" "created_task_count s = created_task_count (sch m)" using h by simp_all
    have vd: "?v \<in> dom (vertices (sch m))" "?v \<notin># held m" using hr(2,5) vs by auto
    have new: "?v \<notin> set (started m)" using inv vd by (auto simp: history_inv_def Let_def)
    have id: "physical_id ?v < created_task_count (sch m)"
      using vd(1) graph_invD(5) [OF g] vs by (auto simp: vertex_ok_def)
    have preds: "p \<notin> dom (vertices (sch m)) \<and> p \<in> set (started m)" if "(p, ?v) \<in> depends m" for p
    proof -
      have np: "p \<notin> dom (vertices s)"
      proof
        assume "p \<in> dom (vertices s)"
        then obtain x where x: "vertices s p = Some x" by blast
        then have "?v \<in> set (successors x)" using graph_invD(5) [OF g x] that by (auto simp: vertex_ok_def)
        moreover have "count_list (successors (the (vertices s p))) ?v \<le> edges_into s ?v"
          unfolding edges_into_def by (rule member_le_sum) (use x graph_invD(2) [OF g] in auto)
        ultimately show False using hr(7) x by (simp add: count_list_0_iff)
      qed
      moreover have "physical_id p < created_task_count (sch m)" using graph_invD(9) [OF g that] vs by simp
      ultimately show ?thesis using inv vs by (auto simp: history_inv_def Let_def)
    qed
    show ?thesis
      using inv new id preds vd hd unfolding m' history_inv_def Let_def
      by (auto simp: vs nth_append less_Suc_eq)
  qed
qed

lemma history_inv_run_step:
  assumes tasks: "tasks_inv m" and inv: "history_inv m" and w: "w < worker_count m" and al: "allowed a m"
    and pc: "pcs m ! w = Running t" and st: "run_step a w m t = Some m'"
  shows "history_inv m'"
proof (cases a)
  case (Create l c lo)
  obtain tid s where c: "create_physical_task l c lo (sch m) = (tid, s)" by (cases "create_physical_task l c lo (sch m)")
  have lo: "lo_ok (worker_count m) lo" using al Create by simp
  note cr = tasks_inv_create [OF tasks lo c]
  have m': "m' = m\<lparr>sch := s, uncommitted := insert tid (uncommitted m)\<rparr>" using st Create c by (simp split: if_splits)
  have cnt: "created_task_count s = created_task_count (sch m) + 1" using c by (auto simp: create_physical_task_def Let_def)
  let ?D = "dom (vertices (sch m))" and ?c = "created_task_count (sch m)"
  have hd: "held m' = held m" "started m' = started m" "depends m' = depends m" "sch m' = s" by (simp_all add: m' held_def)
  have old: "distinct (started m)" "set_mset (held m) \<subseteq> set (started m)"
    "\<And>v. v \<in> set (started m) \<Longrightarrow> physical_id v < ?c \<and> (v \<in> ?D \<longrightarrow> v \<in># held m)"
    "\<And>v. physical_id v < ?c \<Longrightarrow> v \<notin> ?D \<Longrightarrow> v \<in> set (started m)"
    "\<And>i p. i < length (started m) \<Longrightarrow> (p, started m ! i) \<in> depends m \<Longrightarrow> p \<notin> ?D \<and> p \<in> set (take i (started m))"
    using inv by (simp_all add: history_inv_def Let_def)
  have new: "tid \<notin> set (started m)" using old(3) [of tid] cr(4) by auto
  have no_edge: "p \<noteq> tid" if "(p, q) \<in> depends m" for p q
    using graph_invD(9) [OF tasks [unfolded tasks_inv_def, THEN conjunct2] that] cr(4) by auto
  have only: "v = tid" if "physical_id v = ?c" for v using that cr(4) PhysicalTaskIdentifier.expand by metis
  show ?thesis
    unfolding history_inv_def Let_def hd cr(3) cnt
  proof (intro conjI ballI allI impI, goal_cases)
    case 1 show ?case by (rule old(1))
  next case 2 show ?case by (rule old(2))
  next case (3 v) then show ?case using old(3) by fastforce
  next case (4 v) then show ?case using old(3) new by auto
  next case (5 v) then show ?case using old(4) [of v] only [of v] by (auto simp: less_Suc_eq)
  next case (6 i p) then show ?case using old(5) no_edge by blast
  next case (7 i p) then show ?case using old(5) by blast
  qed
next
  case (AddDependency p v)
  obtain s where s: "add_dependency p v (sch m) = Some s" "dom (vertices s) = dom (vertices (sch m))"
    "created_task_count s = created_task_count (sch m)"
    using tasks_inv_depend [OF tasks al [unfolded AddDependency]] by blast
  have m': "m' = m\<lparr>sch := s, depends := link p v m\<rparr>" using st AddDependency s by (auto simp: link_def split: if_splits)
  have "v \<notin> set (started m)" if vp: "vertices (sch m) p \<noteq> None"
  proof
    assume "v \<in> set (started m)"
    obtain x where x: "vertices (sch m) v = Some x" "0 < predecessor_count x" using al AddDependency vp by auto
    then have "v \<in># held m" using inv \<open>v \<in> set (started m)\<close> by (auto simp: history_inv_def Let_def)
    then obtain H where "held m = add_mset v H" by (metis mset_add)
    then have "v \<in> ready_ids (sch m)" using held_ready(1) tasks by (metis tasks_inv_def)
    then show False using x by (simp add: ready_ids_def)
  qed
  then have new: "started m ! i \<noteq> v" if "vertices (sch m) p \<noteq> None" "i < length (started m)" for i
    using that nth_mem by metis
  have hd: "held m' = held m" "started m' = started m" "depends m' = link p v m" "sch m' = s" by (simp_all add: m' held_def)
  have "p' \<notin> dom (vertices (sch m)) \<and> p' \<in> set (take i (started m))"
    if "i < length (started m)" "(p', started m ! i) \<in> link p v m" for i p'
  proof -
    have "(p', started m ! i) \<in> depends m" using that new by (auto simp: link_def split: if_splits)
    then show ?thesis using inv that(1) by (simp add: history_inv_def Let_def)
  qed
  then show ?thesis
    using inv s unfolding history_inv_def Let_def hd by simp
next
  case (Commit v)
  then show ?thesis using st tasks_inv_commit(2) [OF tasks w pc al [unfolded Commit]]
    by (intro history_same [OF inv]) (auto simp: begin_commit_def)
next
  case Complete
  obtain vs s where e: "erase_vertex (pt_physical t) (sch m) = Some (vs, s)"
    "held m = add_mset (pt_physical t) (held (goto w (Decrementing Finish vs) s m))"
    "dom (vertices s) = dom (vertices (sch m)) - {pt_physical t}" "created_task_count s = created_task_count (sch m)"
    using tasks_inv_complete [OF tasks w pc] by blast
  have m': "m' = goto w (Decrementing Finish vs) s m" using st Complete e by (simp split: if_splits)
  then have hm: "held m = add_mset (pt_physical t) (held m')" using e(2) by simp
  have d: "dom (vertices (sch m')) = dom (vertices (sch m)) - {pt_physical t}" "created_task_count (sch m') = created_task_count (sch m)"
    "started m' = started m" "depends m' = depends m" using e m' by simp_all
  show ?thesis using inv unfolding history_inv_def Let_def d hm by auto
qed (use st in simp_all)

lemma history_inv_step:
  assumes tasks: "tasks_inv m" and inv: "history_inv m" and st: "machine_step m m'"
  shows "history_inv m'"
  using st
proof (rule machine_stepE)
  fix w draw a assume w: "w < worker_count m" and h: "uniform_draw draw" "allowed a m" and s: "step draw a w m = Some m'"
  have after: "tasks_inv m'" by (rule tasks_inv_step [OF tasks st])
  have hg: "history_inv (goto w p s m)"
    if "held_of p = held_of (pcs m ! w)" "vertices s = vertices (sch m)" "created_task_count s = created_task_count (sch m)" for p s
    using that goto_sums(1) [of w m p s] tasks_inv_shape(4) [OF tasks] w by (intro history_same [OF inv]) simp_all
  have hl: "history_inv (goto w p s (m\<lparr>graph_lock := g\<rparr>))"
    if "held_of p = held_of (pcs m ! w)" "dom (vertices s) = dom (vertices (sch m))" "created_task_count s = created_task_count (sch m)" for p s g
    using that goto_sums(1) [of w "m\<lparr>graph_lock := g\<rparr>" p s] tasks_inv_shape(4) [OF tasks] w tasks_inv_lock(2)
    by (intro history_same [OF inv]) simp_all
  note tk = history_took [OF tasks inv w]
  show ?thesis
    using s
  proof (cases rule: step_cases)
    case (throw e ids)
    then show ?thesis using tasks_inv_throw(2) [OF tasks w] by (intro history_same [OF inv]) (auto simp: throw_step_def)
  next
    case (run t)
    then show ?thesis by (rule history_inv_run_step [OF tasks inv w h(2)])
  next
    case take
    show ?thesis
    proof (cases "pcs m ! w")
      case (Steal i)
      then show ?thesis using take after
        by (cases "i < length (stealable_queues (sch m))") (auto intro!: tk hg dest: take_shrinks)
    qed (use take after in \<open>auto intro: tk hg dest: take_shrinks split: if_splits\<close>)
  next
    case sleep
    show ?thesis
    proof (cases "pcs m ! w")
      case (SleepSteal i)
      then show ?thesis using sleep after
        by (cases "i < length (stealable_queues (sch m))") (auto intro!: tk hg dest: take_shrinks)
    qed (use sleep after in \<open>auto intro: tk hg dest: take_shrinks split: if_splits option.splits\<close>)
  next
    case notify
    show ?thesis
    proof (cases "pcs m ! w")
      case (Decrementing k vs)
      show ?thesis
      proof (cases vs)
        case Nil
        with notify Decrementing show ?thesis by (auto intro: hg)
      next
        case (Cons v vs')
        obtain ws s where d: "decrement draw v (sch m) = Some (ws, s)" "dom (vertices s) = dom (vertices (sch m))"
          "created_task_count s = created_task_count (sch m)"
          using tasks_inv_decrementing [OF tasks w Decrementing [unfolded Cons] h(1)] by blast
        have "m\<lparr>graph_lock := graph_lock m\<rparr> = m" by simp
        with notify Decrementing Cons d hl [of "Decrementing k vs'" s "graph_lock m"] hl show ?thesis
          by (auto split: if_splits option.splits)
      qed
    next
      case (Notifying k vs us)
      show ?thesis
      proof (cases us)
        case Nil
        with notify Notifying show ?thesis by (auto intro: hl)
      next
        case (Cons u us')
        obtain b s where n: "notify_worker u (sch m) = (b, s)" by (cases "notify_worker u (sch m)")
        then have "vertices s = vertices (sch m)" "created_task_count s = created_task_count (sch m)"
          using notify_worker_simps(1,5) [of u "sch m"] by simp_all
        with notify Notifying Cons n show ?thesis by (cases b) (auto intro: hl hg)
      qed
    next
      case FinishCount
      with notify show ?thesis by (auto intro!: hg simp: Let_def count_completion_def split: if_splits)
    next
      case (NotifyAll us e)
      with notify show ?thesis by (cases us) (auto intro!: hg split: if_splits)
    qed (use notify in simp_all)
  qed
qed

subsection \<open>Reachable states\<close>

lemma notify_first_same:
  "vertices (notify_first ws s) = vertices s \<and> stealable_queues (notify_first ws s) = stealable_queues s \<and>
   unstealable_queues (notify_first ws s) = unstealable_queues s \<and> sch_locality (notify_first ws s) = sch_locality s \<and>
   created_task_count (notify_first ws s) = created_task_count s \<and>
   unfinished_task_count (notify_first ws s) = unfinished_task_count s \<and> cancellation (notify_first ws s) = cancellation s \<and>
   length (sleeping (notify_first ws s)) = length (sleeping s)"
proof (induction ws arbitrary: s)
  case (Cons w ws)
  obtain b s' where n: "notify_worker w s = (b, s')" by (cases "notify_worker w s")
  show ?case using Cons [of s'] notify_worker_simps [of w s, unfolded n snd_conv] by (cases b) (simp_all add: n)
qed simp

lemma notify_first_simps [simp]:
  "vertices (notify_first ws s) = vertices s" "stealable_queues (notify_first ws s) = stealable_queues s"
  "unstealable_queues (notify_first ws s) = unstealable_queues s" "sch_locality (notify_first ws s) = sch_locality s"
  "created_task_count (notify_first ws s) = created_task_count s"
  "unfinished_task_count (notify_first ws s) = unfinished_task_count s" "cancellation (notify_first ws s) = cancellation s"
  "length (sleeping (notify_first ws s)) = length (sleeping s)"
  by (simp_all add: notify_first_same)

lemma notify_first_awake: "\<forall>w<length (sleeping s). \<not> sleeping s ! w \<Longrightarrow> w < length (sleeping s) \<Longrightarrow> \<not> sleeping (notify_first ws s) ! w"
proof (induction ws arbitrary: s)
  case (Cons v ws)
  obtain b s' where n: "notify_worker v s = (b, s')" by (cases "notify_worker v s")
  then have s': "sleeping s' = (sleeping s)[v := False]" using notify_worker_simps(8) [of v s] by simp
  have awake: "\<forall>w<length (sleeping s'). \<not> sleeping s' ! w"
    using Cons.prems(1) unfolding s' by (metis length_list_update nth_list_update_eq nth_list_update_neq)
  moreover have "length (sleeping s') = length (sleeping s)" using s' by simp
  ultimately show ?case using Cons.IH [of s'] Cons.prems(2) n by (cases b) simp_all
qed simp

text \<open>Before the workers start nothing runs, sleeps or has failed.\<close>

definition quiet :: "'c machine \<Rightarrow> bool" where
  "quiet m \<longleftrightarrow> pcs m = replicate (worker_count m) Init \<and> graph_lock m = None \<and> dropped m = [] \<and> started m = [] \<and>
     (\<forall>w<worker_count m. \<not> asleep m w)"

lemma quiet_nothing:
  assumes "quiet m"
  shows "held m = {#}" "pending m = {#}" "finishing m = 0" "\<And>w. w < worker_count m \<Longrightarrow> pcs m ! w = Init"
proof -
  have "concat (replicate n []) = []" for n by (induction n) auto
  then show "held m = {#}" "pending m = {#}" using assms by (simp_all add: held_def pending_def quiet_def)
  show "finishing m = 0" using assms by (simp add: finishing_def quiet_def sum_list_replicate)
  show "\<And>w. w < worker_count m \<Longrightarrow> pcs m ! w = Init" using assms by (simp add: quiet_def)
qed

lemma quiet_sleep_inv: "quiet m \<Longrightarrow> 0 < worker_count m \<Longrightarrow> sleep_inv m"
  using quiet_nothing(4) [of m] by (auto simp: sleep_inv_def quiet_def blind_def)

lemma quiet_lock_inv: "quiet m \<Longrightarrow> lock_inv m"
  using quiet_nothing(4) [of m] by (auto simp: lock_inv_def quiet_def)

definition prologue_inv :: "'c machine \<Rightarrow> bool" where
  "prologue_inv m \<longleftrightarrow> tasks_inv m \<and> quiet m \<and> (\<forall>v. physical_id v < created_task_count (sch m) \<longrightarrow> v \<in> dom (vertices (sch m)))"

lemma prologue_initial:
  assumes "shape_ok (make_scheduler lm :: 'c scheduler)"
  shows "prologue_inv (initial lm :: 'c machine)"
proof -
  let ?m = "initial lm :: 'c machine"
  have wc: "worker_count ?m = lm_max_concurrency lm" "sch ?m = make_scheduler lm" by (simp_all add: initial_def worker_count_def make_scheduler_def)
  have q: "quiet ?m" by (simp add: quiet_def wc) (simp add: initial_def asleep_def make_scheduler_def)
  have "tasks_inv ?m"
    using make_scheduler_inv [OF assms] quiet_nothing(1-3) [OF q] wc
    by (simp add: tasks_inv_def) (simp add: initial_def)
  moreover have "created_task_count (sch ?m) = 0" using wc by (simp add: make_scheduler_def)
  ultimately show ?thesis using q by (simp add: prologue_inv_def)
qed

lemma prologue_step_inv:
  assumes inv: "prologue_inv m" and draw: "uniform_draw draw" and al: "allowed (prologue_action a) m" and st: "prologue_step draw a m = Some m'"
  shows "prologue_inv m'"
proof -
  have t: "tasks_inv m" and q: "quiet m" and d: "\<And>v. physical_id v < created_task_count (sch m) \<Longrightarrow> v \<in> dom (vertices (sch m))"
    using inv by (simp_all add: prologue_inv_def)
  note n = quiet_nothing [OF q]
  show ?thesis
  proof (cases a)
    case (SCreate l c lo)
    obtain tid s where c: "create_physical_task l c lo (sch m) = (tid, s)" by (cases "create_physical_task l c lo (sch m)")
    have lo: "lo_ok (worker_count m) lo" using al SCreate by simp
    note cr = tasks_inv_create [OF t lo c]
    have m': "m' = m\<lparr>sch := s, uncommitted := insert tid (uncommitted m)\<rparr>" using st SCreate c by simp
    have s: "sch_locality s = sch_locality (sch m)" "sleeping s = sleeping (sch m)" "created_task_count s = created_task_count (sch m) + 1"
      using c by (auto simp: create_physical_task_def Let_def)
    have "v \<in> dom (vertices s)" if "physical_id v < created_task_count s" for v
      using that cr(3,4) s(3) d [of v] PhysicalTaskIdentifier.expand [of v tid] by (auto simp: less_Suc_eq)
    then show ?thesis using cr(1) q s unfolding m' by (simp add: prologue_inv_def quiet_def worker_count_def asleep_def)
  next
    case (SDepend p v)
    obtain s where s: "add_dependency p v (sch m) = Some s" "tasks_inv (m\<lparr>sch := s, depends := link p v m\<rparr>)"
      "dom (vertices s) = dom (vertices (sch m))" "created_task_count s = created_task_count (sch m)" "sleeping s = sleeping (sch m)"
      "sch_locality s = sch_locality (sch m)"
      using tasks_inv_depend [OF t] al SDepend by (metis prologue_action.simps(2))
    have m': "m' = m\<lparr>sch := s, depends := link p v m\<rparr>" using st SDepend s by (auto simp: link_def split: if_splits)
    show ?thesis using s(2-6) q d unfolding m' by (simp add: prologue_inv_def quiet_def worker_count_def asleep_def)
  next
    case (SCommit v)
    have g: "graph_inv (sch m) (uncommitted m) (depends m) {#} {#} 0" using t n by (simp add: tasks_inv_def)
    have al': "v \<in> uncommitted m" "unfinished_task_count (sch m) + 1 < size_modulus" using al SCommit by simp_all
    obtain ws s where s: "decrement draw v (begin_commit (sch m)) = Some (ws, s)" "graph_inv s (uncommitted m - {v}) (depends m) {#} {#} 0"
      "dom (vertices s) = dom (vertices (begin_commit (sch m)))" "sch_locality s = sch_locality (begin_commit (sch m))"
      "sleeping s = sleeping (begin_commit (sch m))" "created_task_count s = created_task_count (begin_commit (sch m))"
      using decrement_inv [OF begin_commit_inv [OF g al'] draw] by blast
    let ?s = "case ws of None \<Rightarrow> s | Some ws \<Rightarrow> notify_first ws s"
    have m': "m' = m\<lparr>sch := ?s, uncommitted := uncommitted m - {v}\<rparr>"
      using st SCommit s(1) by (auto simp: commit_task_def decrement_predecessor_count_alt)
    have same: "sch_locality ?s = sch_locality (sch m)" "created_task_count ?s = created_task_count (sch m)"
      "dom (vertices ?s) = dom (vertices (sch m))" "length (sleeping ?s) = length (sleeping (sch m))"
      using s(3-6) by (auto simp: begin_commit_def split: option.split)
    have "graph_inv ?s (uncommitted m - {v}) (depends m) {#} {#} 0"
      by (cases ws) (use s(2) graph_inv_cong [OF s(2)] in simp_all)
    moreover have "\<And>w. w < worker_count m \<Longrightarrow> \<not> sleeping ?s ! w"
      using q s(5) notify_first_awake [of s] tasks_inv_shape(2) [OF t]
      by (auto simp: quiet_def asleep_def begin_commit_def split: option.split)
    then have q': "quiet m'" using q same unfolding m' quiet_def by (simp add: worker_count_def asleep_def)
    ultimately show ?thesis
      using d t same quiet_nothing(1-3) [OF q'] q' unfolding m' prologue_inv_def tasks_inv_def
      by (simp add: worker_count_def)
  qed
qed

definition machine_inv :: "'c machine \<Rightarrow> bool" where
  "machine_inv m \<longleftrightarrow> tasks_inv m \<and> sleep_inv m \<and> lock_inv m \<and> history_inv m"

lemma prologue_machine_inv:
  assumes "prologue_inv m"
  shows "machine_inv m"
proof -
  have t: "tasks_inv m" "quiet m" "\<And>v. physical_id v < created_task_count (sch m) \<Longrightarrow> v \<in> dom (vertices (sch m))"
    using assms by (simp_all add: prologue_inv_def)
  have "history_inv m" using t quiet_nothing(1) [OF t(2)] by (auto simp: history_inv_def quiet_def Let_def)
  then show ?thesis
    using t quiet_sleep_inv [OF t(2) tasks_inv_shape(5) [OF t(1)]] quiet_lock_inv [OF t(2)] by (simp add: machine_inv_def)
qed

lemma reachable_inv: "reachable lm b m \<Longrightarrow> machine_inv m \<and> (\<not> b \<longrightarrow> prologue_inv m)"
proof (induction rule: reachable.induct)
  case start
  then show ?case using prologue_initial prologue_machine_inv by auto
next
  case (prologue m draw a m')
  then show ?case using prologue_step_inv prologue_machine_inv by blast
next
  case (run b m m')
  then show ?case using tasks_inv_step sleep_inv_step lock_inv_step history_inv_step by (auto simp: machine_inv_def)
qed

subsection \<open>Nobody is stuck\<close>

definition blocked :: "'c machine \<Rightarrow> nat \<Rightarrow> bool" where
  "blocked m w \<longleftrightarrow> pcs m ! w = Waiting \<and> asleep m w"

lemma all_blocked_exited:
  assumes inv: "machine_inv m" and all: "\<forall>w<worker_count m. pcs m ! w = Exited \<or> blocked m w"
    and client: "uncommitted m = {}" "acyclic (depends m)"
  shows "\<forall>w<worker_count m. pcs m ! w = Exited"
proof (rule ccontr)
  assume "\<not> (\<forall>w<worker_count m. pcs m ! w = Exited)"
  then obtain w0 where w0: "w0 < worker_count m" "blocked m w0" using all by blast
  have t: "tasks_inv m" and sl: "sleep_inv m" using inv by (simp_all add: machine_inv_def)
  have shape: "pcs m ! w = Exited \<or> pcs m ! w = Waiting" if "w < worker_count m" for w
    using all that by (auto simp: blocked_def)
  have no_waker: "\<not> waker m u" "\<not> caller m u" for u using shape by (force simp: waker_def caller_def)+
  have "\<not> is_finished (sch m)" "\<not> is_cancelled (sch m)"
    using sl w0 no_waker by (auto simp: sleep_inv_def blocked_def)
  note nf = this
  have all_wait: "blocked m w" if w: "w < worker_count m" for w
  proof -
    have "\<not> leaving (pcs m ! w)" using sl nf w by (simp add: sleep_inv_def)
    then have "pcs m ! w \<noteq> Exited" by auto
    with all w show ?thesis by blast
  qed
  have pw: "pcs m ! w = Waiting" if "w < worker_count m" for w using all_wait [OF that] by (simp add: blocked_def)
  have "pcs m = replicate (worker_count m) Waiting"
    by (rule nth_equalityI) (use pw tasks_inv_shape(4) [OF t] in simp_all)
  moreover have "concat (replicate n []) = []" for n by (induction n) auto
  moreover have "dropped m = []" using sl nf by (auto simp: sleep_inv_def)
  ultimately have "held m = {#}" "pending m = {#}" "finishing m = 0"
    by (simp_all add: held_def pending_def finishing_def sum_list_replicate)
  then have g: "graph_inv (sch m) {} (depends m) {#} {#} 0" using t client by (simp add: tasks_inv_def)
  have "dom (vertices (sch m)) \<noteq> {}" using nf(1) graph_invD(7) [OF g] by (auto simp: is_finished_def)
  from acyclic_some_ready [OF g client(2) this] have "queued_ids (sch m) \<noteq> {#}"
    using graph_invD(2,6) [OF g] by (auto simp: ready_ids_def mset_set_empty_iff)
  then have "concat (stealable_queues (sch m)) \<noteq> [] \<or> concat (unstealable_queues (sch m)) \<noteq> []" by (auto simp: queued_ids_def)
  then consider q where "q < length (stealable_queues (sch m))" "stealable_queues (sch m) ! q \<noteq> []"
    | u where "u < length (unstealable_queues (sch m))" "unstealable_queues (sch m) ! u \<noteq> []"
    by (auto simp: in_set_conv_nth)
  then show False
  proof cases
    case 1
    then obtain u where "u < worker_count m" "\<not> blind m u q" using sl by (auto simp: sleep_inv_def)
    with all_wait show False by (auto simp: blind_def blocked_def)
  next
    case 2
    then have "u < worker_count m" using tasks_inv_shape(3) [OF t] by simp
    then have "caller m u" using sl 2 all_wait [of u] by (auto simp: sleep_inv_def blocked_def)
    then show False using no_waker by blast
  qed
qed

lemma step_continue:
  assumes "\<And>t. pcs m ! w \<noteq> Running t"
  shows "step draw Continue w m =
    (case take_step w m (pcs m ! w) of Some m' \<Rightarrow> Some m'
     | None \<Rightarrow> (case sleep_step w m (pcs m ! w) of Some m' \<Rightarrow> Some m' | None \<Rightarrow> notify_step draw w m (pcs m ! w)))"
  using assms by (cases "pcs m ! w") (auto simp: step_def)

lemma worker_moves:
  assumes t: "tasks_inv m" and w: "w < worker_count m" "pcs m ! w \<noteq> Exited" "\<not> blocked m w"
    and lock: "graph_lock m = None \<or> notifying (pcs m ! w)" and draw: "uniform_draw draw"
  shows "\<exists>a m'. allowed a m \<and> step draw a w m = Some m'"
proof (cases "pcs m ! w")
  case (Running r)
  then have "graph_lock m = None" using lock by simp
  moreover obtain vs s where "erase_vertex (pt_physical r) (sch m) = Some (vs, s)" using tasks_inv_complete [OF t w(1) Running] by blast
  ultimately have "step draw Complete w m = Some (goto w (Decrementing Finish vs) s m)" using Running by (simp add: step_def)
  then show ?thesis by (intro exI [of _ Complete]) simp
next
  case (Decrementing k vs)
  then have g: "graph_lock m = None" using lock by simp
  have "\<exists>m'. step draw Continue w m = Some m'"
  proof (cases vs)
    case Nil
    then show ?thesis using Decrementing by (simp add: step_def)
  next
    case (Cons v vs')
    obtain ws s where "decrement draw v (sch m) = Some (ws, s)"
      using tasks_inv_decrementing [OF t w(1) Decrementing [unfolded Cons] draw] by blast
    then show ?thesis using Decrementing Cons g by (auto simp: step_def)
  qed
  then show ?thesis by (intro exI [of _ Continue]) simp
next
  case (Notifying k vs us)
  then have "\<exists>m'. step draw Continue w m = Some m'" by (cases us) (simp_all add: step_def)
  then show ?thesis by (intro exI [of _ Continue]) simp
next
  case (NotifyAll us e)
  then have "\<exists>m'. step draw Continue w m = Some m'" by (cases us) (simp_all add: step_def)
  then show ?thesis by (intro exI [of _ Continue]) simp
next
  case Waiting
  then have "\<exists>m'. step draw Continue w m = Some m'" using w(3) by (simp add: step_def may_wake_def blocked_def asleep_def)
  then show ?thesis by (intro exI [of _ Continue]) simp
qed (use w in \<open>auto simp: step_def Let_def intro!: exI [of _ Continue]\<close>)

lemma never_stuck:
  assumes inv: "machine_inv m" and client: "uncommitted m = {}" "acyclic (depends m)"
  shows "(\<forall>w<worker_count m. pcs m ! w = Exited) \<or> (\<exists>m'. machine_step m m')"
proof (cases "\<forall>w<worker_count m. pcs m ! w = Exited \<or> blocked m w")
  case True
  then show ?thesis using all_blocked_exited [OF inv True client] by blast
next
  case False
  then obtain w where w: "w < worker_count m" "pcs m ! w \<noteq> Exited" "\<not> blocked m w" by blast
  have t: "tasks_inv m" and l: "lock_inv m" using inv by (simp_all add: machine_inv_def)
  have draw: "uniform_draw (\<lambda>lo hi. lo)" by (simp add: uniform_draw_def)
  have "\<exists>w a m'. w < worker_count m \<and> allowed a m \<and> step (\<lambda>lo hi. lo) a w m = Some m'"
  proof (cases "graph_lock m")
    case None
    then show ?thesis using worker_moves [OF t w _ draw] w(1) by blast
  next
    case (Some u)
    then have u: "u < worker_count m" "notifying (pcs m ! u)" using l by (simp_all add: lock_inv_def)
    then have "pcs m ! u \<noteq> Exited" "\<not> blocked m u" by (auto simp: blocked_def)
    then show ?thesis using worker_moves [OF t u(1) _ _ _ draw] u by blast
  qed
  then show ?thesis using draw machine_step.intros by blast
qed

subsection \<open>The first exception\<close>

lemma took_cancellation:
  assumes "\<And>t s. r = (t, s) \<Longrightarrow> shrinks (sch m) s"
  shows "cancellation (sch (took w found next r m)) = cancellation (sch m)"
  using assms by (cases r) (auto simp: took_def shrinks_def split: option.split)

lemma step_cancellation:
  assumes t: "tasks_inv m" and st: "machine_step m m'"
  shows "cancellation (sch m') = cancellation (sch m) \<or> (\<exists>e. cancellation (sch m') = cm_notify_exception e (cancellation (sch m)))"
  using st
proof (rule machine_stepE)
  fix w draw a assume w: "w < worker_count m" and h: "uniform_draw draw" "allowed a m" and s: "step draw a w m = Some m'"
  have tk: "cancellation (sch m') = cancellation (sch m)"
    if "m' = took w f n r m" "\<And>t s. r = (t, s) \<Longrightarrow> shrinks (sch m) s" for f n r
    using that took_cancellation by blast
  show ?thesis
    using s
  proof (cases rule: step_cases)
    case (throw e ids)
    then show ?thesis by (auto simp: throw_step_def)
  next
    case (run r)
    show ?thesis
    proof (cases a)
      case (Create l c lo)
      with run show ?thesis by (auto simp: create_physical_task_def Let_def split: if_splits)
    next
      case (AddDependency p v)
      with run tasks_inv_depend [OF t h(2) [unfolded AddDependency]] show ?thesis by (auto split: if_splits)
    next
      case (Commit v)
      with run show ?thesis by (auto simp: begin_commit_def)
    next
      case Complete
      with run tasks_inv_complete [OF t w run(1)] show ?thesis by (auto split: if_splits)
    qed (use run in simp_all)
  next
    case take
    show ?thesis
    proof (cases "pcs m ! w")
      case (Steal i)
      show ?thesis
      proof (cases "i < length (stealable_queues (sch m))")
        case True
        with take Steal have "m' = took w Running (Steal (i + 1)) (steal_from (queue_at w i m) (sch m)) m" by simp
        then have "cancellation (sch m') = cancellation (sch m)" by (rule tk) (rule take_shrinks(3))
        then show ?thesis ..
      qed (use take Steal in auto)
    next
      case TakeOwn
      with take have "m' = took w Running TakeLocal (take_unstealable_task (locality_of w m) (sch m)) m" by simp
      then have "cancellation (sch m') = cancellation (sch m)" by (rule tk) (rule take_shrinks(1))
      then show ?thesis ..
    next
      case TakeLocal
      with take have "m' = took w Running (Steal 0) (take_local_stealable_task (locality_of w m) (sch m)) m" by simp
      then have "cancellation (sch m') = cancellation (sch m)" by (rule tk) (rule take_shrinks(2))
      then show ?thesis ..
    qed (use take in auto)
  next
    case sleep
    show ?thesis
    proof (cases "pcs m ! w")
      case (SleepSteal i)
      show ?thesis
      proof (cases "i < length (stealable_queues (sch m))")
        case True
        with sleep SleepSteal have "m' = took w (Return \<circ> Some) (SleepSteal (i + 1)) (steal_from (queue_at w i m) (sch m)) m" by simp
        then have "cancellation (sch m') = cancellation (sch m)" by (rule tk) (rule take_shrinks(3))
        then show ?thesis ..
      qed (use sleep SleepSteal in auto)
    next
      case SleepOwn
      with sleep have "m' = took w (Return \<circ> Some) (SleepSteal 0) (take_unstealable_task (locality_of w m) (sch m)) m" by simp
      then have "cancellation (sch m') = cancellation (sch m)" by (rule tk) (rule take_shrinks(1))
      then show ?thesis ..
    qed (use sleep in \<open>auto split: if_splits option.splits\<close>)
  next
    case notify
    show ?thesis
    proof (cases "pcs m ! w")
      case (Decrementing k vs)
      show ?thesis
      proof (cases vs)
        case (Cons v vs')
        with notify Decrementing tasks_inv_decrementing [OF t w Decrementing [unfolded Cons] h(1)] show ?thesis
          by (auto split: if_splits option.splits)
      qed (use notify Decrementing in auto)
    next
      case (Notifying k vs us)
      show ?thesis
      proof (cases us)
        case (Cons u us')
        obtain b s where n: "notify_worker u (sch m) = (b, s)" by (cases "notify_worker u (sch m)")
        then have "cancellation s = cancellation (sch m)" using notify_worker_simps(7) [of u "sch m"] by simp
        with notify Notifying Cons n show ?thesis by (cases b) auto
      qed (use notify Notifying in auto)
    next
      case FinishCount
      with notify show ?thesis by (auto simp: Let_def count_completion_def split: if_splits)
    next
      case (NotifyAll us e)
      with notify show ?thesis by (cases us) (auto split: if_splits)
    qed (use notify in simp_all)
  qed
qed

lemma first_exception_stays:
  "reachable lm b m \<Longrightarrow> machine_step\<^sup>*\<^sup>* m m' \<Longrightarrow> cancellation (sch m) = Some e \<Longrightarrow> cancellation (sch m') = Some e"
proof -
  assume r: "reachable lm b m" and st: "machine_step\<^sup>*\<^sup>* m m'" and e: "cancellation (sch m) = Some e"
  from st have "(\<exists>b. reachable lm b m') \<and> cancellation (sch m') = Some e"
  proof (induction rule: rtranclp_induct)
    case base
    then show ?case using r e by blast
  next
    case (step m1 m2)
    then obtain b where b: "reachable lm b m1" "cancellation (sch m1) = Some e" by blast
    then have "tasks_inv m1" using reachable_inv by (auto simp: machine_inv_def)
    from step_cancellation [OF this step(2)] b(2) have "cancellation (sch m2) = Some e" by (auto simp: cm_notify_exception_def)
    moreover have "reachable lm True m2" using b(1) step(2) by (rule reachable.run)
    ultimately show ?case by blast
  qed
  then show ?thesis by blast
qed

subsection \<open>Properties\<close>

text \<open>
  C15: every reachable state accounts for its tasks. The predecessor count of a task is the number of
  unfinished predecessors, plus one until it is committed, plus the decrements in flight; the tasks
  with count zero are, each exactly once, in a queue or \<open>held\<close>, that is: held by a worker, or dropped by
  an exception (\<open>held\<close> counts both, since a task whose execution threw is never completed);
  the unfinished count is the number of committed tasks not yet erased plus those being finished.
\<close>
theorem scheduler_accounts_for_tasks:
  assumes "reachable lm b m"
  shows "(\<forall>v x. vertices (sch m) v = Some x \<longrightarrow>
      predecessor_count x = of_bool (v \<in> uncommitted m) + edges_into (sch m) v + count (pending m) v) \<and>
    queued_ids (sch m) + held m = mset_set (ready_ids (sch m)) \<and>
    unfinished_task_count (sch m) = card (dom (vertices (sch m)) - uncommitted m) + finishing m"
  using reachable_inv [OF assms] by (auto simp: machine_inv_def tasks_inv_def graph_inv_def vertex_ok_def)

text \<open>
  C16: no task is started twice, and a task starts only after all tasks it depends on have been
  started and completed (they are gone from the graph).
\<close>
theorem scheduler_starts_in_order:
  assumes "reachable lm b m"
  shows "distinct (started m) \<and>
    (\<forall>i<length (started m). \<forall>p. (p, started m ! i) \<in> depends m \<longrightarrow>
       p \<in> set (take i (started m)) \<and> vertices (sch m) p = None)"
  using reachable_inv [OF assms] unfolding machine_inv_def history_inv_def Let_def domIff by blast

text \<open>
  C17: the workers are never stuck. While every task created has been committed and the dependencies
  have no cycle, all workers have left their loop or one of them can do a step: sleeping never
  loses the last task, the end of the execution or a cancellation, and no assertion blocks a step.
\<close>
theorem scheduler_never_stuck:
  assumes "reachable lm b m" "uncommitted m = {}" "acyclic (depends m)"
  shows "(\<forall>w<worker_count m. pcs m ! w = Exited) \<or> (\<exists>m'. machine_step m m')"
  using reachable_inv [OF assms(1)] assms(2,3) never_stuck by blast

text \<open>
  C18: no lost wake-up. A worker that waits with its flag up while its own queue is not empty is the
  next one to be notified by some thread; one that waits after the last completion or after an
  exception is still on the list of a \<open>notify_all\<close>.
\<close>
theorem scheduler_no_lost_wakeup:
  assumes "reachable lm b m" "w < worker_count m" "pcs m ! w = Waiting" "sleeping (sch m) ! w"
  shows "(unstealable_queues (sch m) ! w \<noteq> [] \<longrightarrow> (\<exists>u<worker_count m. \<exists>k vs. pcs m ! u = Notifying k vs [w])) \<and>
    (is_finished (sch m) \<or> is_cancelled (sch m) \<longrightarrow>
       (\<exists>u<worker_count m. \<exists>us e. pcs m ! u = NotifyAll us e \<and> w \<in> set us))"
  using reachable_inv [OF assms(1)] assms(2-4)
  by (auto simp: machine_inv_def sleep_inv_def asleep_def caller_def waker_def)

text \<open>
  C19: a worker leaves its loop only after an exception or when every committed task has been
  completed; in the latter case all of them have been started.
\<close>
theorem scheduler_leaves_when_done:
  assumes "reachable lm b m" "w < worker_count m" "pcs m ! w = Exited" "cancellation (sch m) = None"
  shows "dom (vertices (sch m)) \<subseteq> uncommitted m \<and>
    (\<forall>v. physical_id v < created_task_count (sch m) \<longrightarrow> v \<notin> uncommitted m \<longrightarrow> v \<in> set (started m))"
proof -
  have inv: "tasks_inv m" "sleep_inv m" "history_inv m" using reachable_inv [OF assms(1)] by (simp_all add: machine_inv_def)
  have "is_finished (sch m)"
    using inv(2) assms(2-4) by (auto simp: sleep_inv_def is_cancelled_def cm_is_cancelled_def)
  then have "card (dom (vertices (sch m)) - uncommitted m) = 0"
    using inv(1) by (simp add: is_finished_def tasks_inv_def graph_inv_def)
  moreover have "finite (dom (vertices (sch m)))" using inv(1) by (simp add: tasks_inv_def graph_inv_def)
  ultimately have "dom (vertices (sch m)) \<subseteq> uncommitted m" by auto
  then show ?thesis using inv(3) unfolding history_inv_def Let_def by blast
qed

subsection \<open>A run of two workers\<close>

text \<open>One task is created and committed; worker 0 takes it while worker 1 finds nothing and sleeps.\<close>

fun trace :: "('c action \<times> nat) list \<Rightarrow> 'c machine \<Rightarrow> 'c machine option" where
  "trace [] m = Some m"
| "trace ((a, w) # ws) m = (if w < worker_count m then Option.bind (step (\<lambda>lo hi. lo) a w m) (trace ws) else None)"

lemma trace_reachable:
  "trace ws m = Some m' \<Longrightarrow> reachable lm b m \<Longrightarrow> ws \<noteq> [] \<Longrightarrow> \<forall>a\<in>fst ` set ws. a = Continue \<or> a = Complete \<Longrightarrow> reachable lm True m'"
proof (induction ws arbitrary: m b)
  case (Cons aw ws)
  obtain a w where aw: "aw = (a, w)" by (cases aw)
  then obtain m1 where m1: "w < worker_count m" "step (\<lambda>lo hi. lo) a w m = Some m1" "trace ws m1 = Some m'"
    using Cons.prems(1) by (auto split: if_splits bind_splits)
  have "allowed a m" using Cons.prems(4) aw by auto
  then have "machine_step m m1"
    by (intro machine_step.intros [OF m1(1) _ _ m1(2)]) (simp_all add: uniform_draw_def)
  then have "reachable lm True m1" using Cons.prems(2) reachable.run by blast
  then show ?case using Cons.IH [OF m1(3)] m1(3) Cons.prems(4) by (cases ws) auto
qed simp

definition continue_all :: "nat list \<Rightarrow> ('c action \<times> nat) list" where
  "continue_all ws = map (\<lambda>w. (Continue, w)) ws"

definition two_workers :: locality_manager where
  "two_workers = default_locality_manager\<lparr>lm_max_concurrency := 2\<rparr>"

definition one_task :: "unit machine" where
  "one_task = the (prologue_step (\<lambda>lo hi. lo) (SCreate (LogicalTaskIdentifier 0) () no_locality_option) (initial two_workers))"

definition committed_task :: "unit machine" where
  "committed_task = the (prologue_step (\<lambda>lo hi. lo) (SCommit (PhysicalTaskIdentifier 0)) one_task)"

definition sleeping_worker :: "unit machine" where
  "sleeping_worker = the (trace (continue_all [0, 0, 0, 0, 0, 1, 1, 1, 1, 1, 1, 1, 1, 1, 1, 1, 1, 1]) committed_task)"

lemmas run_defs = create_physical_task_def make_physical_task_def make_vertex_def Let_def initial_def make_scheduler_def
  two_workers_def default_locality_manager_def commit_task_def decrement_predecessor_count_def begin_commit_def
  drop_predecessor_def enqueue_def choose_worker_def has_recommendation_def no_locality_option_def thread_mapping_def
  push_back_def sz_sub_def size_modulus_def invalid_id_def notify_worker_def notify_def

lemma one_task_eq: "prologue_step (\<lambda>lo hi. lo) (SCreate (LogicalTaskIdentifier 0) () no_locality_option) (initial two_workers) = Some one_task"
  by (simp add: one_task_def run_defs)

lemma committed_task_eq: "prologue_step (\<lambda>lo hi. lo) (SCommit (PhysicalTaskIdentifier 0)) one_task = Some committed_task"
  unfolding committed_task_def using one_task_eq by (simp add: run_defs one_task_def upt_conv_Cons)

lemma committed_task_fields:
  "sch_locality (sch committed_task) = two_workers" "pcs committed_task = [Init, Init]"
  "stealable_queues (sch committed_task) = [[make_physical_task (LogicalTaskIdentifier 0) (PhysicalTaskIdentifier 0) ()]]"
  "unstealable_queues (sch committed_task) = [[], []]" "sleeping (sch committed_task) = [False, False]"
  "cancellation (sch committed_task) = None" "unfinished_task_count (sch committed_task) = 1" "uncommitted committed_task = {}"
  "depends committed_task = {}" "started committed_task = []" "graph_lock committed_task = None"
  by (simp_all add: committed_task_def one_task_def run_defs upt_conv_Cons numeral_2_eq_2)

lemmas take_defs = step_def took_def goto_def locality_of_def node_of_def queue_at_def worker_count_def
  take_unstealable_task_def take_local_stealable_task_def steal_from_def pop_back_def two_workers_def default_locality_manager_def
  thread_mapping_def is_finished_def is_cancelled_def cm_is_cancelled_def set_is_sleeping_def may_wake_def make_physical_task_def continue_all_def

lemma sleeping_worker_eq:
  "trace (continue_all [0, 0, 0, 0, 0, 1, 1, 1, 1, 1, 1, 1, 1, 1, 1, 1, 1, 1]) committed_task = Some sleeping_worker"
  "pcs sleeping_worker ! 1 = Waiting" "worker_count sleeping_worker = 2" "sleeping (sch sleeping_worker) ! 1"
  "started sleeping_worker = [PhysicalTaskIdentifier 0]" "cancellation (sch sleeping_worker) = None"
  "uncommitted sleeping_worker = {}" "depends sleeping_worker = {}" "unfinished_task_count (sch sleeping_worker) = 1"
  unfolding sleeping_worker_def by (simp_all add: take_defs committed_task_fields numeral_2_eq_2)

lemma committed_task_reachable: "reachable two_workers False committed_task"
proof -
  have sh: "shape_ok (make_scheduler two_workers :: unit scheduler)"
    by (simp add: shape_ok_def make_scheduler_def two_workers_def default_locality_manager_def thread_mapping_def size_modulus_def)
  have draw: "uniform_draw (\<lambda>lo hi. lo)" by (simp add: uniform_draw_def)
  have al: "allowed (prologue_action (SCreate (LogicalTaskIdentifier 0) () no_locality_option)) (initial two_workers)"
    "allowed (prologue_action (SCommit (PhysicalTaskIdentifier 0))) one_task"
    by (simp_all add: lo_ok_def has_recommendation_def no_locality_option_def one_task_def run_defs)
  have "reachable two_workers False one_task"
    by (rule reachable.prologue [OF reachable.start [OF sh] draw al(1) one_task_eq])
  then show ?thesis
    by (rule reachable.prologue [OF _ draw al(2) committed_task_eq])
qed

lemma sleeping_worker_reachable: "reachable two_workers True sleeping_worker"
  using trace_reachable [OF sleeping_worker_eq(1) committed_task_reachable] by (auto simp: continue_all_def)

theorem scheduler_accounts_for_tasks_witness:
  "unfinished_task_count (sch sleeping_worker) = card (dom (vertices (sch sleeping_worker)) - uncommitted sleeping_worker) +
     finishing sleeping_worker \<and> unfinished_task_count (sch sleeping_worker) = 1"
  using scheduler_accounts_for_tasks [OF sleeping_worker_reachable] sleeping_worker_eq(9) by simp

theorem scheduler_starts_in_order_witness:
  "distinct (started sleeping_worker) \<and> started sleeping_worker = [PhysicalTaskIdentifier 0]"
  using scheduler_starts_in_order [OF sleeping_worker_reachable] sleeping_worker_eq(5) by simp

theorem scheduler_never_stuck_witness:
  "(\<exists>m. machine_step sleeping_worker m) \<and> pcs sleeping_worker ! 1 = Waiting"
proof -
  have "(\<forall>w<worker_count sleeping_worker. pcs sleeping_worker ! w = Exited) \<or> (\<exists>m. machine_step sleeping_worker m)"
    by (rule scheduler_never_stuck [OF sleeping_worker_reachable]) (simp_all add: sleeping_worker_eq acyclic_def)
  then show ?thesis using sleeping_worker_eq(2,3) by force
qed

text \<open>Worker 0 completes the task, notifies everybody and leaves.\<close>

definition finished_worker :: "unit machine" where
  "finished_worker = the (trace (continue_all [0, 0, 0, 0, 0] @ [(Complete, 0)] @ continue_all [0, 0, 0, 0, 0, 0, 0, 0]) committed_task)"

lemma committed_vertex: "erase_vertex (PhysicalTaskIdentifier 0) s = Some ([], s\<lparr>vertices := (vertices s)(PhysicalTaskIdentifier 0 := None)\<rparr>)"
  if "vertices s = vertices (sch committed_task)" for s :: "unit scheduler"
  using that by (simp add: erase_vertex_def committed_task_def one_task_def run_defs)

lemma finished_worker_eq:
  "trace (continue_all [0, 0, 0, 0, 0] @ [(Complete, 0)] @ continue_all [0, 0, 0, 0, 0, 0, 0, 0]) committed_task = Some finished_worker"
  "pcs finished_worker ! 0 = Exited" "worker_count finished_worker = 2" "cancellation (sch finished_worker) = None"
  "started finished_worker = [PhysicalTaskIdentifier 0]" "uncommitted finished_worker = {}"
  unfolding finished_worker_def
  by (simp_all add: take_defs committed_task_fields committed_vertex count_completion_def sz_sub_def size_modulus_def
      upt_conv_Cons notify_worker_def notify_def numeral_2_eq_2)

text \<open>Worker 0 has completed the last task and has not notified anybody yet, while worker 1 waits.\<close>

definition last_completion :: "unit machine" where
  "last_completion = the (trace (continue_all [0, 0, 0, 0, 0, 1, 1, 1, 1, 1, 1, 1, 1, 1, 1, 1, 1, 1] @ [(Complete, 0)] @
     continue_all [0, 0]) committed_task)"

lemma last_completion_eq:
  "trace (continue_all [0, 0, 0, 0, 0, 1, 1, 1, 1, 1, 1, 1, 1, 1, 1, 1, 1, 1] @ [(Complete, 0)] @ continue_all [0, 0])
     committed_task = Some last_completion"
  "pcs last_completion ! 1 = Waiting" "worker_count last_completion = 2" "sleeping (sch last_completion) ! 1"
  "is_finished (sch last_completion)"
  unfolding last_completion_def
  by (simp_all add: take_defs committed_task_fields committed_vertex count_completion_def sz_sub_def size_modulus_def
      upt_conv_Cons notify_worker_def notify_def numeral_2_eq_2)

theorem scheduler_no_lost_wakeup_witness:
  "pcs last_completion ! 1 = Waiting \<and> sleeping (sch last_completion) ! 1 \<and> is_finished (sch last_completion) \<and>
   (\<exists>u us e. pcs last_completion ! u = NotifyAll us e \<and> 1 \<in> set us)"
proof -
  have "reachable two_workers True last_completion"
    using trace_reachable [OF last_completion_eq(1) committed_task_reachable] by (auto simp: continue_all_def)
  from scheduler_no_lost_wakeup [OF this, of 1] show ?thesis using last_completion_eq by auto
qed

theorem scheduler_leaves_when_done_witness:
  "pcs finished_worker ! 0 = Exited \<and> dom (vertices (sch finished_worker)) \<subseteq> uncommitted finished_worker \<and>
   started finished_worker = [PhysicalTaskIdentifier 0]"
proof -
  have "reachable two_workers True finished_worker"
    using trace_reachable [OF finished_worker_eq(1) committed_task_reachable] by (auto simp: continue_all_def)
  from scheduler_leaves_when_done [OF this, of 0] show ?thesis using finished_worker_eq by simp
qed

text \<open>
  C20: the first exception wins. Once an exception has been recorded, no further step of any worker
  replaces it, and \<open>rethrow_exception\<close> throws it.
\<close>
theorem scheduler_first_exception:
  assumes "reachable lm b m" "machine_step\<^sup>*\<^sup>* m m'" "cancellation (sch m) = Some e"
  shows "is_cancelled (sch m') \<and> rethrow_exception (sch m') = throw e"
  using first_exception_stays [OF assms] by (simp add: is_cancelled_def cm_is_cancelled_def rethrow_exception_def cm_rethrow_exception_def)

text \<open>Worker 0 fails while it initialises, then a second exception comes from worker 1.\<close>

definition failed_once :: "unit machine" where
  "failed_once = throw_step (Runtime_error) 0 committed_task []"

definition failed_twice :: "unit machine" where
  "failed_twice = throw_step (Out_of_range) 1 failed_once []"

theorem scheduler_first_exception_witness:
  "is_cancelled (sch failed_twice) \<and> rethrow_exception (sch failed_twice) = throw (Runtime_error)"
proof -
  have draw: "uniform_draw (\<lambda>lo hi. lo)" by (simp add: uniform_draw_def)
  have wc: "worker_count committed_task = 2" "worker_count failed_once = 2"
    by (simp_all add: worker_count_def failed_once_def throw_step_def committed_task_fields two_workers_def)
  have "step (\<lambda>lo hi. lo) (Throw (Runtime_error)) 0 committed_task = Some failed_once"
    by (simp add: step_def committed_task_fields failed_once_def)
  then have one: "machine_step committed_task failed_once" by (intro machine_step.intros [OF _ draw]) (simp_all add: wc)
  have "step (\<lambda>lo hi. lo) (Throw (Out_of_range)) 1 failed_once = Some failed_twice"
    by (simp add: step_def committed_task_fields failed_once_def failed_twice_def throw_step_def)
  then have two: "machine_step failed_once failed_twice" by (intro machine_step.intros [OF _ draw]) (simp_all add: wc)
  have "cancellation (sch failed_once) = Some (Runtime_error)"
    by (simp add: failed_once_def throw_step_def cm_notify_exception_def committed_task_fields)
  moreover have "machine_step\<^sup>*\<^sup>* failed_once failed_twice" using two by (rule r_into_rtranclp)
  ultimately show ?thesis using scheduler_first_exception [OF reachable.run [OF committed_task_reachable one]] by blast
qed

end
