(* ===== verification/Processor.thy ===== *)
theory Processor
  imports Containers
begin

text \<open>
  Ports and processors: \<open>Movement\<close> and \<open>InputPort\<close> (include/m3bp/input_port.hpp, api/input_port.cpp),
  \<open>OutputPort\<close> (api/output_port.cpp), \<open>ProcessorBaseImpl\<close> (api/internal/processor_base_impl.hpp) behind
  \<open>ProcessorBase\<close> (api/processor_base.cpp), and \<open>ProcessorWrapper\<close> (api/internal/processor_wrapper.cpp).

  Each public class holds its implementation through a \<open>unique_ptr\<close>, a \<open>handle\<close> here. A moved-from
  object has none; each of its members dereferences a null pointer, which is \<open>None\<close> as the outcome
  of a member.
\<close>

subsection \<open>Handles\<close>

type_synonym 'a handle = "'a option"

definition handle_copy :: "'a handle \<Rightarrow> 'a handle option" where
  "handle_copy h = map_option Some h"

definition handle_move :: "'a handle \<Rightarrow> 'a handle \<times> 'a handle" where
  "handle_move h = (h, None)"

definition handle_get :: "('a \<Rightarrow> 'b) \<Rightarrow> 'a handle \<Rightarrow> 'b option" where
  "handle_get f h = map_option f h"

definition handle_set :: "('a \<Rightarrow> 'a) \<Rightarrow> 'a handle \<Rightarrow> 'a handle option" where
  "handle_set f h = map_option (\<lambda>x. Some (f x)) h"

lemmas handle_defs = handle_copy_def handle_move_def handle_get_def handle_set_def

lemma handle_simps [simp]:
  "handle_copy (Some x) = Some (Some x)" "handle_get f (Some x) = Some (f x)" "handle_set g (Some x) = Some (Some (g x))"
  "handle_copy None = None" "handle_get f None = None" "handle_set g None = None"
  "handle_move h = (h, None)"
  by (simp_all add: handle_defs)

subsection \<open>InputPort\<close>

datatype Movement = UNDEFINED | ONE_TO_ONE | SCATTER_GATHER | BROADCAST

text \<open>A comparator reads the two values behind its pointers; a \<open>std::function\<close> may be empty.\<close>

type_synonym comparator = "mem \<Rightarrow> addr \<Rightarrow> addr \<Rightarrow> bool"

record input_port =
  ip_name :: string
  ip_movement :: Movement
  ip_value_comparator :: "comparator option"

definition default_input_port :: input_port where
  "default_input_port = \<lparr>ip_name = [], ip_movement = UNDEFINED, ip_value_comparator = None\<rparr>"

definition named_input_port :: "string \<Rightarrow> input_port" where
  "named_input_port n = \<lparr>ip_name = n, ip_movement = UNDEFINED, ip_value_comparator = None\<rparr>"

definition InputPort_new :: "input_port handle" where
  "InputPort_new = Some default_input_port"

definition InputPort_named :: "string \<Rightarrow> input_port handle" where
  "InputPort_named n = Some (named_input_port n)"

definition InputPort_copy :: "input_port handle \<Rightarrow> input_port handle option" where
  "InputPort_copy = handle_copy"

definition InputPort_move :: "input_port handle \<Rightarrow> input_port handle \<times> input_port handle" where
  "InputPort_move = handle_move"

definition InputPort_assign :: "input_port handle \<Rightarrow> input_port handle \<Rightarrow> input_port handle option" where
  "InputPort_assign this port = handle_copy port"

definition InputPort_name :: "input_port handle \<Rightarrow> string option" where
  "InputPort_name = handle_get ip_name"

definition InputPort_movement :: "input_port handle \<Rightarrow> Movement option" where
  "InputPort_movement = handle_get ip_movement"

definition InputPort_set_movement :: "Movement \<Rightarrow> input_port handle \<Rightarrow> input_port handle option" where
  "InputPort_set_movement m = handle_set (ip_movement_update (\<lambda>_. m))"

definition InputPort_value_comparator :: "input_port handle \<Rightarrow> comparator option option" where
  "InputPort_value_comparator = handle_get ip_value_comparator"

definition InputPort_set_value_comparator :: "comparator option \<Rightarrow> input_port handle \<Rightarrow> input_port handle option" where
  "InputPort_set_value_comparator c = handle_set (ip_value_comparator_update (\<lambda>_. c))"

subsection \<open>OutputPort\<close>

record output_port =
  op_name :: string
  op_has_key :: bool

definition default_output_port :: output_port where
  "default_output_port = \<lparr>op_name = [], op_has_key = False\<rparr>"

definition named_output_port :: "string \<Rightarrow> output_port" where
  "named_output_port n = \<lparr>op_name = n, op_has_key = False\<rparr>"

definition OutputPort_new :: "output_port handle" where
  "OutputPort_new = Some default_output_port"

definition OutputPort_named :: "string \<Rightarrow> output_port handle" where
  "OutputPort_named n = Some (named_output_port n)"

definition OutputPort_copy :: "output_port handle \<Rightarrow> output_port handle option" where
  "OutputPort_copy = handle_copy"

definition OutputPort_move :: "output_port handle \<Rightarrow> output_port handle \<times> output_port handle" where
  "OutputPort_move = handle_move"

definition OutputPort_assign :: "output_port handle \<Rightarrow> output_port handle \<Rightarrow> output_port handle option" where
  "OutputPort_assign this port = handle_copy port"

definition OutputPort_name :: "output_port handle \<Rightarrow> string option" where
  "OutputPort_name = handle_get op_name"

definition OutputPort_has_key :: "output_port handle \<Rightarrow> bool option" where
  "OutputPort_has_key = handle_get op_has_key"

definition OutputPort_set_has_key :: "bool \<Rightarrow> output_port handle \<Rightarrow> output_port handle option" where
  "OutputPort_set_has_key b = handle_set (op_has_key_update (\<lambda>_. b))"

subsection \<open>ProcessorBase\<close>

record processor =
  input_ports :: "input_port list"
  output_ports :: "output_port list"
  task_count :: size_type
  processor_concurrency :: size_type

definition default_processor :: processor where
  "default_processor = \<lparr>input_ports = [], output_ports = [], task_count = 0, processor_concurrency = size_modulus - 1\<rparr>"

text \<open>The loop over the input ports that looks for the two movements that exclude each other.\<close>

definition note_movement :: "input_port \<Rightarrow> bool \<times> bool \<Rightarrow> bool \<times> bool" where
  "note_movement ip f =
     (if ip_movement ip = ONE_TO_ONE then (True, snd f)
      else if ip_movement ip = SCATTER_GATHER then (fst f, True) else f)"

definition movements :: "input_port list \<Rightarrow> bool \<times> bool" where
  "movements ips = fold note_movement ips (False, False)"

text \<open>The constructor copies the ports; a moved-from port has no implementation to copy.\<close>

definition make_processor :: "input_port handle list \<Rightarrow> output_port handle list \<Rightarrow> processor result" where
  "make_processor ips ops =
     (case (those ips, those ops) of
        (Some ips, Some ops) \<Rightarrow>
          (let (one_to_one, scatter_gather) = movements ips
           in if one_to_one \<and> scatter_gather then throw ProcessorDefinitionError
              else ok \<lparr>input_ports = ips, output_ports = ops, task_count = 0, processor_concurrency = size_modulus - 1\<rparr>)
      | _ \<Rightarrow> throw Undefined)"

definition ProcessorBase_new :: "processor handle" where
  "ProcessorBase_new = Some default_processor"

definition ProcessorBase_ports :: "input_port handle list \<Rightarrow> output_port handle list \<Rightarrow> processor handle result" where
  "ProcessorBase_ports ips ops = andThen (make_processor ips ops) (\<lambda>p. ok (Some p))"

definition ProcessorBase_copy :: "processor handle \<Rightarrow> processor handle option" where
  "ProcessorBase_copy = handle_copy"

definition ProcessorBase_move :: "processor handle \<Rightarrow> processor handle \<times> processor handle" where
  "ProcessorBase_move = handle_move"

definition ProcessorBase_assign :: "processor handle \<Rightarrow> processor handle \<Rightarrow> processor handle option" where
  "ProcessorBase_assign this p = handle_copy p"

definition ProcessorBase_input_ports :: "processor handle \<Rightarrow> input_port list option" where
  "ProcessorBase_input_ports = handle_get input_ports"

definition ProcessorBase_output_ports :: "processor handle \<Rightarrow> output_port list option" where
  "ProcessorBase_output_ports = handle_get output_ports"

definition ProcessorBase_task_count :: "processor handle \<Rightarrow> size_type option" where
  "ProcessorBase_task_count = handle_get task_count"

definition ProcessorBase_set_task_count :: "size_type \<Rightarrow> processor handle \<Rightarrow> processor handle option" where
  "ProcessorBase_set_task_count n = handle_set (task_count_update (\<lambda>_. n))"

definition ProcessorBase_max_concurrency :: "processor handle \<Rightarrow> size_type option" where
  "ProcessorBase_max_concurrency = handle_get processor_concurrency"

definition ProcessorBase_set_max_concurrency :: "size_type \<Rightarrow> processor handle \<Rightarrow> processor handle option" where
  "ProcessorBase_set_max_concurrency n = handle_set (processor_concurrency_update (\<lambda>_. n))"

subsection \<open>ProcessorWrapper\<close>

text \<open>The wrapper owns a copy of a processor; the copy constructors of user classes copy their base.\<close>

type_synonym processor_wrapper = "processor handle"

definition ProcessorWrapper_new :: processor_wrapper where
  "ProcessorWrapper_new = None"

definition ProcessorWrapper_of :: "processor handle \<Rightarrow> processor_wrapper option" where
  "ProcessorWrapper_of proc = ProcessorBase_copy proc"

definition ProcessorWrapper_copy :: "processor_wrapper \<Rightarrow> processor_wrapper option" where
  "ProcessorWrapper_copy = handle_copy"

definition ProcessorWrapper_assign :: "processor_wrapper \<Rightarrow> processor_wrapper \<Rightarrow> processor_wrapper option" where
  "ProcessorWrapper_assign this pw = handle_copy pw"

definition ProcessorWrapper_deref :: "processor_wrapper \<Rightarrow> processor option" where
  "ProcessorWrapper_deref pw = pw"

subsection \<open>What the constructor accepts\<close>

definition has_movement :: "Movement \<Rightarrow> processor \<Rightarrow> bool" where
  "has_movement m p \<longleftrightarrow> (\<exists>ip\<in>set (input_ports p). ip_movement ip = m)"

text \<open>The invariant of every constructed processor.\<close>

definition processor_ok :: "processor \<Rightarrow> bool" where
  "processor_ok p \<longleftrightarrow> \<not> (has_movement ONE_TO_ONE p \<and> has_movement SCATTER_GATHER p) \<and>
     processor_concurrency p < size_modulus \<and> task_count p < size_modulus"

lemma fold_note_movement:
  "fold note_movement ips f =
     (fst f \<or> (\<exists>ip\<in>set ips. ip_movement ip = ONE_TO_ONE), snd f \<or> (\<exists>ip\<in>set ips. ip_movement ip = SCATTER_GATHER))"
  by (induction ips arbitrary: f) (auto simp: note_movement_def)

lemma movements_eq:
  "movements ips = ((\<exists>ip\<in>set ips. ip_movement ip = ONE_TO_ONE), (\<exists>ip\<in>set ips. ip_movement ip = SCATTER_GATHER))"
  by (simp add: movements_def fold_note_movement)

lemma those_map_Some [simp]: "those (map Some xs) = Some xs"
  by (induction xs) auto

lemma those_eq_Some: "those hs = Some xs \<longleftrightarrow> hs = map Some xs"
  by (induction hs arbitrary: xs) (auto split: option.splits)

lemma make_processor_Some:
  "make_processor (map Some ips) (map Some ops) =
     (if (\<exists>ip\<in>set ips. ip_movement ip = ONE_TO_ONE) \<and> (\<exists>ip\<in>set ips. ip_movement ip = SCATTER_GATHER)
      then throw ProcessorDefinitionError
      else ok \<lparr>input_ports = ips, output_ports = ops, task_count = 0, processor_concurrency = size_modulus - 1\<rparr>)"
  by (simp add: make_processor_def movements_eq)

lemma make_processor_ok: "make_processor ips ops = ok p \<Longrightarrow> processor_ok p"
  unfolding make_processor_def movements_eq processor_ok_def has_movement_def
  by (auto split: option.splits if_splits simp: size_modulus_def)

lemma setters_ok:
  "processor_ok p \<Longrightarrow> n < size_modulus \<Longrightarrow> processor_ok (p\<lparr>task_count := n\<rparr>)"
  "processor_ok p \<Longrightarrow> n < size_modulus \<Longrightarrow> processor_ok (p\<lparr>processor_concurrency := n\<rparr>)"
  by (simp_all add: processor_ok_def has_movement_def)

text \<open>
  C21: the constructor of a processor throws exactly when its ports include both a ONE_TO_ONE and a
  SCATTER_GATHER input. Otherwise the processor keeps its ports in order, and it stays well-formed
  under the setters of the public class; setting the number of tasks never throws, not even for a
  processor with a non-broadcast input.
\<close>
theorem processor_construction:
  "case make_processor (map Some ips) (map Some ops) of
     Inl e \<Rightarrow> e = ProcessorDefinitionError \<and>
       (\<exists>a b. a \<in> set ips \<and> b \<in> set ips \<and> ip_movement a = ONE_TO_ONE \<and> ip_movement b = SCATTER_GATHER)
   | Inr p \<Rightarrow> input_ports p = ips \<and> output_ports p = ops \<and> processor_ok p \<and>
       ProcessorBase_set_task_count (n mod size_modulus) (Some p) = Some (Some (p\<lparr>task_count := n mod size_modulus\<rparr>)) \<and>
       processor_ok (p\<lparr>task_count := n mod size_modulus, processor_concurrency := k mod size_modulus\<rparr>)"
proof (cases "make_processor (map Some ips) (map Some ops)")
  case (Inl e)
  then show ?thesis by (auto simp: make_processor_Some throw_def ok_def split: if_splits)
next
  case (Inr p)
  then have "processor_ok p" using make_processor_ok by (metis ok_def)
  moreover have "n mod size_modulus < size_modulus" "k mod size_modulus < size_modulus"
    by (simp_all add: size_modulus_def)
  ultimately show ?thesis using Inr
    by (auto simp: make_processor_Some throw_def ok_def ProcessorBase_set_task_count_def processor_ok_def has_movement_def split: if_splits)
qed

end
