(* ===== verification/FlowGraph.thy ===== *)
theory FlowGraph
  imports Processor
begin

text \<open>
  The graph the user builds: descriptors of ports and vertices and the public class \<open>FlowGraph\<close>
  (include/m3bp/flow_graph.hpp, api/flow_graph.cpp), its implementation \<open>FlowGraphImpl\<close> with the
  validation of an edge and the depth-first search for a cycle (api/internal/flow_graph_impl.hpp),
  and \<open>Vertex\<close> (api/internal/vertex.hpp).
\<close>

subsection \<open>Descriptors\<close>

record port_descriptor =
  pd_vertex_id :: identifier_type
  pd_port_id :: identifier_type

definition invalid_port_descriptor :: port_descriptor where
  "invalid_port_descriptor = \<lparr>pd_vertex_id = invalid_id, pd_port_id = invalid_id\<rparr>"

definition make_port_descriptor :: "identifier_type \<Rightarrow> identifier_type \<Rightarrow> port_descriptor" where
  "make_port_descriptor v p = \<lparr>pd_vertex_id = v, pd_port_id = p\<rparr>"

definition port_descriptor_is_valid :: "port_descriptor \<Rightarrow> bool" where
  "port_descriptor_is_valid d \<longleftrightarrow> pd_vertex_id d \<noteq> invalid_id \<and> pd_port_id d \<noteq> invalid_id"

record vertex_descriptor =
  vd_vertex_id :: identifier_type
  vd_input_port_count :: size_type
  vd_output_port_count :: size_type

definition invalid_vertex_descriptor :: vertex_descriptor where
  "invalid_vertex_descriptor = \<lparr>vd_vertex_id = invalid_id, vd_input_port_count = 0, vd_output_port_count = 0\<rparr>"

definition make_vertex_descriptor :: "identifier_type \<Rightarrow> processor \<Rightarrow> vertex_descriptor" where
  "make_vertex_descriptor v p =
     \<lparr>vd_vertex_id = v, vd_input_port_count = length (input_ports p), vd_output_port_count = length (output_ports p)\<rparr>"

definition input_port_of :: "vertex_descriptor \<Rightarrow> identifier_type \<Rightarrow> port_descriptor result" where
  "input_port_of d p =
     (if vd_input_port_count d \<le> p then throw Out_of_range else ok (make_port_descriptor (vd_vertex_id d) p))"

definition output_port_of :: "vertex_descriptor \<Rightarrow> identifier_type \<Rightarrow> port_descriptor result" where
  "output_port_of d p =
     (if vd_output_port_count d \<le> p then throw Out_of_range else ok (make_port_descriptor (vd_vertex_id d) p))"

subsection \<open>Vertices\<close>

record vertex =
  vx_name :: string
  vx_processor :: processor
  vx_sources :: "port_descriptor list list"

definition make_flow_vertex :: "string \<Rightarrow> processor \<Rightarrow> vertex" where
  "make_flow_vertex n p = \<lparr>vx_name = n, vx_processor = p, vx_sources = replicate (length (input_ports p)) []\<rparr>"

definition vx_input_ports :: "vertex \<Rightarrow> input_port list" where
  "vx_input_ports v = input_ports (vx_processor v)"

definition vx_output_ports :: "vertex \<Rightarrow> output_port list" where
  "vx_output_ports v = output_ports (vx_processor v)"

subsection \<open>FlowGraphImpl\<close>

type_synonym flow_graph = "vertex list"

definition valid_input_descriptor :: "flow_graph \<Rightarrow> port_descriptor \<Rightarrow> bool" where
  "valid_input_descriptor g d \<longleftrightarrow>
     (if length g \<le> pd_vertex_id d then False else pd_port_id d < length (vx_input_ports (g ! pd_vertex_id d)))"

definition valid_output_descriptor :: "flow_graph \<Rightarrow> port_descriptor \<Rightarrow> bool" where
  "valid_output_descriptor g d \<longleftrightarrow>
     (if length g \<le> pd_vertex_id d then False else pd_port_id d < length (vx_output_ports (g ! pd_vertex_id d)))"

definition add_vertex :: "string \<Rightarrow> processor \<Rightarrow> flow_graph \<Rightarrow> vertex_descriptor \<times> flow_graph" where
  "add_vertex n p g = (make_vertex_descriptor (length g) p, g @ [make_flow_vertex n p])"

definition connect :: "port_descriptor \<Rightarrow> port_descriptor \<Rightarrow> flow_graph \<Rightarrow> flow_graph" where
  "connect producer consumer g =
     (let c = g ! pd_vertex_id consumer; i = pd_port_id consumer
      in g[pd_vertex_id consumer := c\<lparr>vx_sources := (vx_sources c)[i := vx_sources c ! i @ [producer]]\<rparr>])"

definition add_edge :: "port_descriptor \<Rightarrow> port_descriptor \<Rightarrow> flow_graph \<Rightarrow> flow_graph result" where
  "add_edge producer consumer g =
     (if \<not> valid_output_descriptor g producer then throw Invalid_argument
      else if \<not> valid_input_descriptor g consumer then throw Invalid_argument
      else
        (let oport = vx_output_ports (g ! pd_vertex_id producer) ! pd_port_id producer;
             iport = vx_input_ports (g ! pd_vertex_id consumer) ! pd_port_id consumer
         in if ip_movement iport = SCATTER_GATHER \<and> \<not> op_has_key oport then throw Invalid_argument
            else ok (connect producer consumer g)))"

text \<open>
  The depth-first search along the sources. Its recursion is bounded by fuel; \<open>None\<close> means that the
  fuel was not enough. The state is the two bit vectors \<open>done\<close> and \<open>in_stack\<close>.
\<close>

type_synonym dfs_state = "bool list \<times> bool list"

definition source_vertices :: "vertex \<Rightarrow> identifier_type list" where
  "source_vertices v = concat (map (map pd_vertex_id) (vx_sources v))"

fun has_cycle_recur :: "nat \<Rightarrow> flow_graph \<Rightarrow> identifier_type \<Rightarrow> dfs_state \<Rightarrow> (bool \<times> dfs_state) option"
  and has_cycle_sources :: "nat \<Rightarrow> flow_graph \<Rightarrow> identifier_type list \<Rightarrow> dfs_state \<Rightarrow> (bool \<times> dfs_state) option"
where
  "has_cycle_recur 0 g u s = None"
| "has_cycle_recur (Suc n) g u (visited, in_stack) =
     (if in_stack ! u then Some (True, visited, in_stack)
      else if visited ! u then Some (False, visited, in_stack)
      else case has_cycle_sources n g (source_vertices (g ! u)) (visited[u := True], in_stack[u := True]) of
             None \<Rightarrow> None
           | Some (True, s) \<Rightarrow> Some (True, s)
           | Some (False, visited, in_stack) \<Rightarrow> Some (False, visited, in_stack[u := False]))"
| "has_cycle_sources n g [] s = Some (False, s)"
| "has_cycle_sources n g (v # vs) s =
     (case has_cycle_recur n g v s of
        None \<Rightarrow> None
      | Some (True, s) \<Rightarrow> Some (True, s)
      | Some (False, s) \<Rightarrow> has_cycle_sources n g vs s)"

fun has_cycle_from :: "nat \<Rightarrow> flow_graph \<Rightarrow> identifier_type list \<Rightarrow> dfs_state \<Rightarrow> bool option" where
  "has_cycle_from n g [] s = Some False"
| "has_cycle_from n g (i # is) s =
     (if fst s ! i then has_cycle_from n g is s
      else case has_cycle_recur n g i s of
             None \<Rightarrow> None
           | Some (True, _) \<Rightarrow> Some True
           | Some (False, s) \<Rightarrow> has_cycle_from n g is s)"

definition has_cycle_fuel :: "nat \<Rightarrow> flow_graph \<Rightarrow> bool option" where
  "has_cycle_fuel fuel g =
     (let n = length g in has_cycle_from fuel g [0..<n] (replicate n False, replicate n False))"

definition has_cycle :: "flow_graph \<Rightarrow> bool option" where
  "has_cycle g = has_cycle_fuel (length g + 1) g"

subsection \<open>FlowGraph\<close>

definition FlowGraph_new :: "flow_graph handle" where
  "FlowGraph_new = Some []"

definition FlowGraph_copy :: "flow_graph handle \<Rightarrow> flow_graph handle option" where
  "FlowGraph_copy = handle_copy"

definition FlowGraph_move :: "flow_graph handle \<Rightarrow> flow_graph handle \<times> flow_graph handle" where
  "FlowGraph_move = handle_move"

definition FlowGraph_assign :: "flow_graph handle \<Rightarrow> flow_graph handle \<Rightarrow> flow_graph handle option" where
  "FlowGraph_assign this g = handle_copy g"

text \<open>The template member copies the processor into a wrapper; the private member takes the wrapper.\<close>

definition FlowGraph_add_wrapper ::
  "string \<Rightarrow> processor_wrapper \<Rightarrow> flow_graph handle \<Rightarrow> (vertex_descriptor \<times> flow_graph handle) option" where
  "FlowGraph_add_wrapper n pw h =
     (case (h, ProcessorWrapper_deref pw) of
        (Some g, Some p) \<Rightarrow> (let (d, g) = add_vertex n p g in Some (d, Some g))
      | _ \<Rightarrow> None)"

definition FlowGraph_add_vertex ::
  "string \<Rightarrow> processor handle \<Rightarrow> flow_graph handle \<Rightarrow> (vertex_descriptor \<times> flow_graph handle) option" where
  "FlowGraph_add_vertex n proc h = Option.bind (ProcessorWrapper_of proc) (\<lambda>pw. FlowGraph_add_wrapper n pw h)"

definition FlowGraph_add_edge :: "port_descriptor \<Rightarrow> port_descriptor \<Rightarrow> flow_graph handle \<Rightarrow> flow_graph handle result" where
  "FlowGraph_add_edge producer consumer h =
     (case h of None \<Rightarrow> throw Undefined
      | Some g \<Rightarrow> andThen (add_edge producer consumer g) (\<lambda>g. ok (Some g)))"

end
