(* ===== verification/FlowGraphCycle.thy ===== *)
theory FlowGraphCycle
  imports FlowGraph
begin

text \<open>
  The invariant of the flow graph and the correctness of its validation: \<open>add_vertex\<close> and \<open>add_edge\<close>
  keep every recorded edge valid, and the depth-first search of \<open>has_cycle\<close> ends and answers whether
  the graph has a cycle.
\<close>

subsection \<open>Well-formed graphs\<close>

definition edge_ok :: "flow_graph \<Rightarrow> input_port \<Rightarrow> port_descriptor \<Rightarrow> bool" where
  "edge_ok g ip d \<longleftrightarrow> valid_output_descriptor g d \<and>
     (ip_movement ip = SCATTER_GATHER \<longrightarrow> op_has_key (vx_output_ports (g ! pd_vertex_id d) ! pd_port_id d))"

definition flow_vertex_ok :: "flow_graph \<Rightarrow> vertex \<Rightarrow> bool" where
  "flow_vertex_ok g v \<longleftrightarrow> length (vx_sources v) = length (vx_input_ports v) \<and>
     (\<forall>i<length (vx_input_ports v). \<forall>d\<in>set (vx_sources v ! i). edge_ok g (vx_input_ports v ! i) d)"

definition flow_graph_ok :: "flow_graph \<Rightarrow> bool" where
  "flow_graph_ok g \<longleftrightarrow> (\<forall>v\<in>set g. flow_vertex_ok g v)"

text \<open>Producer to consumer, as the user sees the edges.\<close>

definition flow_edges :: "flow_graph \<Rightarrow> nat rel" where
  "flow_edges g = {(u, v). v < length g \<and> u \<in> set (source_vertices (g ! v))}"

lemma edge_ok_append: "edge_ok g ip d \<Longrightarrow> edge_ok (g @ [x]) ip d"
  by (auto simp: edge_ok_def valid_output_descriptor_def nth_append split: if_splits)

lemma flow_graph_ok_empty: "flow_graph_ok []"
  by (simp add: flow_graph_ok_def)

lemma add_vertex_ok: "flow_graph_ok g \<Longrightarrow> flow_graph_ok (snd (add_vertex n p g))"
  by (auto simp: flow_graph_ok_def flow_vertex_ok_def add_vertex_def make_flow_vertex_def vx_input_ports_def intro: edge_ok_append)

lemma connect_ports [simp]:
  "length (connect a b g) = length g" "vx_processor (connect a b g ! i) = vx_processor (g ! i)"
  "vx_output_ports (connect a b g ! i) = vx_output_ports (g ! i)" "vx_input_ports (connect a b g ! i) = vx_input_ports (g ! i)"
proof -
  show "length (connect a b g) = length g" by (simp add: connect_def Let_def)
  show p: "vx_processor (connect a b g ! i) = vx_processor (g ! i)"
  proof (cases "i = pd_vertex_id b")
    case True
    then show ?thesis by (cases "i < length g") (simp_all add: connect_def Let_def list_update_beyond)
  qed (simp add: connect_def Let_def)
  show "vx_output_ports (connect a b g ! i) = vx_output_ports (g ! i)" "vx_input_ports (connect a b g ! i) = vx_input_ports (g ! i)"
    using p by (simp_all add: vx_output_ports_def vx_input_ports_def)
qed

lemma edge_ok_connect [simp]: "edge_ok (connect a b g) ip d = edge_ok g ip d"
  by (simp add: edge_ok_def valid_output_descriptor_def)

lemma flow_graph_okD: "flow_graph_ok g \<Longrightarrow> v < length g \<Longrightarrow> flow_vertex_ok g (g ! v)"
  by (simp add: flow_graph_ok_def)

lemma connect_sources:
  assumes "valid_input_descriptor g b" "flow_graph_ok g" "v < length g" "i < length (vx_input_ports (g ! v))"
  shows "vx_sources (connect a b g ! v) ! i =
    (if v = pd_vertex_id b \<and> i = pd_port_id b then vx_sources (g ! v) ! i @ [a] else vx_sources (g ! v) ! i)"
  using assms flow_graph_okD [OF assms(2,3)]
  by (cases "v = pd_vertex_id b") (auto simp: connect_def Let_def valid_input_descriptor_def flow_vertex_ok_def nth_list_update split: if_splits)

lemma connect_ok:
  assumes g: "flow_graph_ok g" and a: "valid_output_descriptor g a" and b: "valid_input_descriptor g b"
    and k: "edge_ok g (vx_input_ports (g ! pd_vertex_id b) ! pd_port_id b) a"
  shows "flow_graph_ok (connect a b g)"
proof -
  have "flow_vertex_ok (connect a b g) (connect a b g ! v)" if v: "v < length g" for v
    unfolding flow_vertex_ok_def
  proof (intro conjI allI impI ballI)
    have "length (vx_sources (g ! v)) = length (vx_input_ports (g ! v))" using g v by (simp add: flow_graph_ok_def flow_vertex_ok_def)
    then show "length (vx_sources (connect a b g ! v)) = length (vx_input_ports (connect a b g ! v))"
      using v by (cases "v = pd_vertex_id b") (simp_all, simp_all add: connect_def Let_def)
  next
    fix i d assume i: "i < length (vx_input_ports (connect a b g ! v))" and d: "d \<in> set (vx_sources (connect a b g ! v) ! i)"
    have "\<forall>d\<in>set (vx_sources (g ! v) ! i). edge_ok g (vx_input_ports (g ! v) ! i) d"
      using g v i by (simp add: flow_graph_ok_def flow_vertex_ok_def)
    then show "edge_ok (connect a b g) (vx_input_ports (connect a b g ! v) ! i) d"
      using connect_sources [OF b g v, of i a] i d k by (auto split: if_splits)
  qed
  then show ?thesis by (auto simp: flow_graph_ok_def in_set_conv_nth)
qed

lemma add_edge_ok: "flow_graph_ok g \<Longrightarrow> add_edge a b g = ok g' \<Longrightarrow> flow_graph_ok g'"
  unfolding add_edge_def Let_def by (auto split: if_splits intro!: connect_ok simp: edge_ok_def)

lemma source_vertices_less:
  assumes "flow_graph_ok g" "v < length g" "u \<in> set (source_vertices (g ! v))"
  shows "u < length g"
proof -
  obtain i d where i: "i < length (vx_sources (g ! v))" "d \<in> set (vx_sources (g ! v) ! i)" "u = pd_vertex_id d"
    using assms(3) by (fastforce simp: source_vertices_def in_set_conv_nth)
  then have "valid_output_descriptor g d"
    using flow_graph_okD [OF assms(1,2)] by (auto simp: flow_vertex_ok_def edge_ok_def)
  with i show ?thesis by (simp add: valid_output_descriptor_def split: if_splits)
qed

subsection \<open>The depth-first search\<close>

definition back_edges :: "flow_graph \<Rightarrow> nat rel" where
  "back_edges g = {(u, v). u < length g \<and> v \<in> set (source_vertices (g ! u))}"

lemma back_edges_eq: "back_edges g = (flow_edges g)\<inverse>"
  by (auto simp: back_edges_def flow_edges_def)

definition bits :: "bool list \<Rightarrow> nat set" where
  "bits xs = {i. i < length xs \<and> xs ! i}"

lemma bits_simps: "bits (xs[u := True]) = (if u < length xs then insert u (bits xs) else bits xs)"
  "bits (xs[u := False]) = bits xs - {u}" "finite (bits xs)" "bits xs \<subseteq> {..<length xs}"
  "bits (replicate n False) = {}"
proof -
  show "bits (xs[u := False]) = bits xs - {u}"
    by (cases "u < length xs") (auto simp: bits_def nth_list_update list_update_beyond split: if_splits)
qed (auto simp: bits_def nth_list_update)

text \<open>The finished vertices are closed under sources and free of cycles.\<close>

definition finished :: "dfs_state \<Rightarrow> nat set" where
  "finished s = bits (fst s) - bits (snd s)"

definition dfs_inv :: "flow_graph \<Rightarrow> dfs_state \<Rightarrow> bool" where
  "dfs_inv g s \<longleftrightarrow> length (fst s) = length g \<and> length (snd s) = length g \<and> bits (snd s) \<subseteq> bits (fst s) \<and>
     back_edges g `` finished s \<subseteq> finished s \<and> acyclic (back_edges g \<inter> finished s \<times> finished s)"

definition unvisited :: "flow_graph \<Rightarrow> dfs_state \<Rightarrow> nat" where
  "unvisited g s = card ({..<length g} - bits (fst s))"

lemma trancl_avoid:
  assumes "(x, y) \<in> r\<^sup>+" "x \<noteq> u" "u \<notin> Range r" "\<And>a b. (a, b) \<in> r \<Longrightarrow> a \<noteq> u \<Longrightarrow> (a, b) \<in> R"
  shows "(x, y) \<in> R\<^sup>+"
  using assms(1)
proof (induction rule: trancl_induct)
  case (base y)
  then show ?case using assms(2,4) by blast
next
  case (step y z)
  have "y \<in> Range r" using step.hyps(1) by (metis Range.intros tranclE)
  then have "(y, z) \<in> R" using assms(3,4) step.hyps(2) by blast
  then show ?case using step.IH by simp
qed

text \<open>A vertex whose sources are all finished can be finished.\<close>

lemma acyclic_finish:
  assumes "acyclic (E \<inter> B \<times> B)" "E `` B \<subseteq> B" "E `` {u} \<subseteq> B" "u \<notin> B"
  shows "acyclic (E \<inter> insert u B \<times> insert u B)"
proof (rule acyclicI, rule allI, rule notI)
  fix x assume c: "(x, x) \<in> (E \<inter> insert u B \<times> insert u B)\<^sup>+"
  let ?r = "E \<inter> insert u B \<times> insert u B"
  have "u \<notin> Range ?r" using assms by blast
  moreover from c have "x \<in> Range ?r" by (metis Range.intros tranclE)
  ultimately have "(x, x) \<in> (E \<inter> B \<times> B)\<^sup>+"
    by (intro trancl_avoid [OF c, of u]) (use assms in blast)+
  then show False using assms(1) by (simp add: acyclic_def)
qed

definition dfs_post :: "flow_graph \<Rightarrow> nat set \<Rightarrow> dfs_state \<Rightarrow> bool \<times> dfs_state \<Rightarrow> bool" where
  "dfs_post g us s r \<longleftrightarrow>
     (if fst r then \<exists>x. (x, x) \<in> (back_edges g)\<^sup>+
      else dfs_inv g (snd r) \<and> snd (snd r) = snd s \<and> bits (fst s) \<subseteq> bits (fst (snd r)) \<and> us \<subseteq> finished (snd r))"

lemma push_inv:
  assumes inv: "dfs_inv g (D, S)" and u: "u < length g" "\<not> D ! u"
  shows "dfs_inv g (D[u := True], S[u := True])" "finished (D[u := True], S[u := True]) = finished (D, S)"
    "unvisited g (D[u := True], S[u := True]) < unvisited g (D, S)" "\<not> S ! u"
proof -
  have len: "length D = length g" "length S = length g" using inv by (simp_all add: dfs_inv_def)
  have uD: "u \<notin> bits D" using u by (simp add: bits_def)
  then show "\<not> S ! u" using inv u len by (auto simp: dfs_inv_def bits_def)
  show f: "finished (D[u := True], S[u := True]) = finished (D, S)"
    using uD u len by (auto simp: finished_def bits_simps)
  show "dfs_inv g (D[u := True], S[u := True])"
    using inv u len unfolding dfs_inv_def f by (auto simp: bits_simps)
  have "u \<in> {..<length g} - bits D" using u uD by simp
  then have "card ({..<length g} - bits D - {u}) < card ({..<length g} - bits D)"
    by (intro psubset_card_mono) auto
  moreover have "{..<length g} - bits (D[u := True]) = {..<length g} - bits D - {u}"
    using u len by (auto simp: bits_simps)
  ultimately show "unvisited g (D[u := True], S[u := True]) < unvisited g (D, S)" by (simp add: unvisited_def)
qed

lemma pop_inv:
  assumes "dfs_inv g (D', S[u := True])" "set (source_vertices (g ! u)) \<subseteq> finished (D', S[u := True])"
    "u < length g" "\<not> S ! u" "length S = length g" "u \<in> bits D'"
  shows "dfs_inv g (D', S)" "u \<in> finished (D', S)"
proof -
  let ?B = "finished (D', S[u := True])"
  have f: "finished (D', S) = insert u ?B" "u \<notin> ?B"
    using assms(3-6) by (auto simp: finished_def bits_def nth_list_update)
  have e: "back_edges g `` {u} \<subseteq> ?B" using assms(2) by (auto simp: back_edges_def)
  have B: "acyclic (back_edges g \<inter> ?B \<times> ?B)" "back_edges g `` ?B \<subseteq> ?B" using assms(1) by (simp_all add: dfs_inv_def)
  have "acyclic (back_edges g \<inter> finished (D', S) \<times> finished (D', S))"
    unfolding f using acyclic_finish [OF B e f(2)] .
  moreover have "back_edges g `` finished (D', S) \<subseteq> finished (D', S)"
    unfolding f(1) using B(2) e by blast
  moreover have "bits (S[u := True]) \<subseteq> bits D'" "length D' = length g" "length (S[u := True]) = length g"
    using assms(1) by (simp_all add: dfs_inv_def)
  moreover from calculation have "bits S \<subseteq> bits D'" using assms(3,5) by (auto simp: bits_simps)
  ultimately show "dfs_inv g (D', S)" by (simp add: dfs_inv_def)
  show "u \<in> finished (D', S)" using f by simp
qed

lemma dfs_correct:
  "flow_graph_ok g \<Longrightarrow> dfs_inv g s \<Longrightarrow> u < length g \<Longrightarrow> \<forall>x\<in>bits (snd s). (x, u) \<in> (back_edges g)\<^sup>+ \<Longrightarrow> unvisited g s < n \<Longrightarrow>
     \<exists>r. has_cycle_recur n g u s = Some r \<and> dfs_post g {u} s r"
  "flow_graph_ok g \<Longrightarrow> dfs_inv g s \<Longrightarrow> set vs \<subseteq> {..<length g} \<Longrightarrow> \<forall>x\<in>bits (snd s). \<forall>v\<in>set vs. (x, v) \<in> (back_edges g)\<^sup>+ \<Longrightarrow>
     unvisited g s < n \<Longrightarrow> \<exists>r. has_cycle_sources n g vs s = Some r \<and> dfs_post g (set vs) s r"
proof (induction n g u s and n g vs s rule: has_cycle_recur_has_cycle_sources.induct)
  case (2 n g u D S)
  have len: "length D = length g" "length S = length g" using 2(3) by (simp_all add: dfs_inv_def)
  show ?case
  proof (cases "S ! u")
    case True
    then have "u \<in> bits S" using 2(4) len by (simp add: bits_def)
    then show ?thesis using True 2(5) by (auto simp: dfs_post_def)
  next
    case nS: False
    show ?thesis
    proof (cases "D ! u")
      case True
      then have "u \<in> finished (D, S)" using nS 2(4) len by (simp add: finished_def bits_def)
      then show ?thesis using True nS 2(3) by (simp add: dfs_post_def)
    next
      case False
      let ?s = "(D[u := True], S[u := True])"
      note push = push_inv [OF 2(3,4) False]
      have sub: "set (source_vertices (g ! u)) \<subseteq> {..<length g}" using source_vertices_less [OF 2(2,4)] by auto
      have "\<forall>x\<in>bits (snd ?s). \<forall>v\<in>set (source_vertices (g ! u)). (x, v) \<in> (back_edges g)\<^sup>+"
      proof (intro ballI)
        fix x v assume x: "x \<in> bits (snd ?s)" and v: "v \<in> set (source_vertices (g ! u))"
        then have uv: "(u, v) \<in> back_edges g" using 2(4) by (simp add: back_edges_def)
        from x 2(4) len have "x = u \<or> x \<in> bits S" by (auto simp: bits_simps)
        then show "(x, v) \<in> (back_edges g)\<^sup>+" using uv 2(5) by (auto intro: trancl_into_trancl)
      qed
      then obtain r where r: "has_cycle_sources n g (source_vertices (g ! u)) ?s = Some r"
          "dfs_post g (set (source_vertices (g ! u))) ?s r"
        using 2(1) [OF nS False 2(2) push(1) sub] push(3) 2(6) by auto
      obtain b D' S' where r': "r = (b, D', S')" by (cases r)
      show ?thesis
      proof (cases b)
        case True
        then show ?thesis using r r' nS False by (auto simp: dfs_post_def)
      next
        case b: False
        have S': "S' = S[u := True]" and uD: "u \<in> bits D'" "bits D \<subseteq> bits D'"
          and inv': "dfs_inv g (D', S[u := True])" "set (source_vertices (g ! u)) \<subseteq> finished (D', S[u := True])"
          using r(2) r' b 2(4) len by (auto simp: dfs_post_def bits_simps)
        have "S[u := False] = S" using nS by (metis list_update_id)
        then show ?thesis
          using pop_inv [OF inv' 2(4) nS len(2) uD(1)] r(1) r' b nS False uD(2) S' by (simp add: dfs_post_def)
      qed
    qed
  qed
next
  case (4 n g v vs s)
  from 4 obtain r where r: "has_cycle_recur n g v s = Some r" "dfs_post g {v} s r" by auto
  obtain b s' where r': "r = (b, s')" by (cases r)
  show ?case
  proof (cases b)
    case True
    then show ?thesis using r r' by (auto simp: dfs_post_def)
  next
    case False
    have post: "dfs_inv g s'" "snd s' = snd s" "bits (fst s) \<subseteq> bits (fst s')" "v \<in> finished s'"
      using r(2) r' False by (simp_all add: dfs_post_def)
    have "unvisited g s' \<le> unvisited g s" unfolding unvisited_def by (rule card_mono) (use post(3) in auto)
    then obtain r2 where r2: "has_cycle_sources n g vs s' = Some r2" "dfs_post g (set vs) s' r2"
      using 4(2) [OF r(1) r' [symmetric] _ 4(3) post(1)] 4(5-7) post(2) False by auto
    have "finished s' \<subseteq> finished (snd r2)" if "\<not> fst r2"
      using r2(2) that post(2) by (auto simp: dfs_post_def finished_def)
    moreover have "bits (fst s) \<subseteq> bits (fst (snd r2))" if "\<not> fst r2"
      using r2(2) that post(3) by (simp add: dfs_post_def) blast
    ultimately show ?thesis using r r' False r2 post by (auto simp: dfs_post_def)
  qed
qed (auto simp: dfs_post_def)

subsection \<open>The search over all vertices\<close>

definition from_post :: "flow_graph \<Rightarrow> nat list \<Rightarrow> dfs_state \<Rightarrow> bool \<Rightarrow> bool" where
  "from_post g us s b \<longleftrightarrow>
     (if b then \<exists>x. (x, x) \<in> (back_edges g)\<^sup>+
      else \<exists>s'. dfs_inv g s' \<and> finished s \<subseteq> finished s' \<and> set us \<subseteq> finished s')"

lemma from_post_Cons:
  assumes "from_post g us s' b" "finished s \<subseteq> finished s'" "u \<in> finished s'"
  shows "from_post g (u # us) s b"
proof (cases b)
  case False
  then obtain t where t: "dfs_inv g t" "finished s' \<subseteq> finished t" "set us \<subseteq> finished t"
    using assms(1) by (auto simp: from_post_def)
  have "finished s \<subseteq> finished t" "u \<in> finished t" using t(2) assms(2,3) by blast+
  then have "dfs_inv g t \<and> finished s \<subseteq> finished t \<and> set (u # us) \<subseteq> finished t" using t by simp
  then show ?thesis using False unfolding from_post_def by (metis (mono_tags))
qed (use assms in \<open>simp add: from_post_def\<close>)

lemma has_cycle_from_correct:
  assumes "flow_graph_ok g" "length g < n"
  shows "dfs_inv g s \<Longrightarrow> bits (snd s) = {} \<Longrightarrow> set us \<subseteq> {..<length g} \<Longrightarrow>
    \<exists>b. has_cycle_from n g us s = Some b \<and> from_post g us s b"
proof (induction us arbitrary: s)
  case Nil
  then have "dfs_inv g s \<and> finished s \<subseteq> finished s \<and> set [] \<subseteq> finished s" by simp
  then have "from_post g [] s False" unfolding from_post_def by (metis (mono_tags))
  then show ?case by auto
next
  case (Cons u us)
  have len: "length (fst s) = length g" using Cons.prems(1) by (simp add: dfs_inv_def)
  have sub: "set us \<subseteq> {..<length g}" and u: "u < length g" using Cons.prems(3) by simp_all
  show ?case
  proof (cases "fst s ! u")
    case True
    then have "u \<in> finished s" using Cons.prems(2) len u by (auto simp: finished_def bits_def)
    then show ?thesis using True Cons.IH [OF Cons.prems(1,2) sub] from_post_Cons [of g us s _ s u] by auto
  next
    case False
    have "unvisited g s \<le> length g" unfolding unvisited_def by (rule order_trans [OF card_mono [of "{..<length g}"]]) auto
    then have fuel: "unvisited g s < n" using assms(2) by simp
    obtain r where r: "has_cycle_recur n g u s = Some r" "dfs_post g {u} s r"
      using dfs_correct(1) [OF assms(1) Cons.prems(1) u _ fuel] Cons.prems(2) by auto
    obtain b s' where r': "r = (b, s')" by (cases r)
    show ?thesis
    proof (cases b)
      case True
      then show ?thesis using r r' False by (auto simp: dfs_post_def from_post_def)
    next
      case b: False
      have post: "dfs_inv g s'" "bits (snd s') = {}" "u \<in> finished s'"
        using r(2) r' b Cons.prems(2) by (simp_all add: dfs_post_def)
      have "finished s \<subseteq> finished s'" using r(2) r' b by (auto simp: dfs_post_def finished_def)
      then show ?thesis using r r' b False post from_post_Cons [of g us s' _ s u] Cons.IH [OF post(1,2) sub] by auto
    qed
  qed
qed

lemma dfs_inv_start: "dfs_inv g (replicate (length g) False, replicate (length g) False)"
  by (simp add: dfs_inv_def finished_def bits_simps acyclic_def)

lemma has_cycle_fuel_correct:
  assumes "flow_graph_ok g" "length g < n"
  shows "has_cycle_fuel n g = Some (\<not> acyclic (flow_edges g))"
proof -
  let ?s = "(replicate (length g) False, replicate (length g) False)"
  have "set [0..<length g] \<subseteq> {..<length g}" by auto
  then obtain b where b: "has_cycle_from n g [0..<length g] ?s = Some b" "from_post g [0..<length g] ?s b"
    using has_cycle_from_correct [OF assms dfs_inv_start _ ] bits_simps(5) by (metis snd_conv)
  have "b \<longleftrightarrow> \<not> acyclic (back_edges g)"
  proof (cases b)
    case True
    then show ?thesis using b(2) by (auto simp: acyclic_def from_post_def)
  next
    case False
    then obtain s' where s': "dfs_inv g s'" "{..<length g} \<subseteq> finished s'" using b(2) by (auto simp: lessThan_atLeast0 from_post_def)
    then have "back_edges g \<inter> finished s' \<times> finished s' = back_edges g"
      using source_vertices_less [OF assms(1)] by (auto simp: back_edges_def)
    then show ?thesis using s'(1) False by (auto simp: dfs_inv_def)
  qed
  then show ?thesis using b(1) by (simp add: has_cycle_fuel_def Let_def back_edges_eq acyclic_converse)
qed

subsection \<open>Properties\<close>

text \<open>A graph is what the two public operations make of an empty one; a rejected edge changes nothing.\<close>

datatype graph_op = AddVertex string processor | AddEdge port_descriptor port_descriptor

fun apply_graph_op :: "graph_op \<Rightarrow> flow_graph \<Rightarrow> flow_graph" where
  "apply_graph_op (AddVertex n p) g = snd (add_vertex n p g)"
| "apply_graph_op (AddEdge a b) g = (case add_edge a b g of Inl _ \<Rightarrow> g | Inr g' \<Rightarrow> g')"

definition built_graph :: "graph_op list \<Rightarrow> flow_graph" where
  "built_graph ops = fold apply_graph_op ops []"

lemma built_graph_ok: "flow_graph_ok (built_graph ops)"
proof -
  have "flow_graph_ok g \<Longrightarrow> flow_graph_ok (fold apply_graph_op ops g)" for g
  proof (induction ops arbitrary: g)
    case (Cons o1 ops)
    have "flow_graph_ok (apply_graph_op o1 g)"
    proof (cases o1)
      case (AddVertex n p)
      then show ?thesis using add_vertex_ok Cons.prems by simp
    next
      case (AddEdge a b)
      then show ?thesis using add_edge_ok [OF Cons.prems, of a b] Cons.prems by (auto simp: ok_def split: sum.split)
    qed
    then show ?case using Cons.IH by simp
  qed simp
  then show ?thesis unfolding built_graph_def using flow_graph_ok_empty by blast
qed

lemma connect_edges:
  assumes g: "flow_graph_ok g" and b: "valid_input_descriptor g b"
  shows "flow_edges (connect a b g) = insert (pd_vertex_id a, pd_vertex_id b) (flow_edges g)"
proof -
  let ?v = "pd_vertex_id b" and ?i = "pd_port_id b"
  have v: "?v < length g" "?i < length (vx_sources (g ! ?v))"
    using b flow_graph_okD [OF g, of ?v] by (auto simp: valid_input_descriptor_def flow_vertex_ok_def split: if_splits)
  have "set (source_vertices (connect a b g ! ?v)) = insert (pd_vertex_id a) (set (source_vertices (g ! ?v)))"
  proof -
    let ?ss = "vx_sources (g ! ?v)"
    have "\<Union> (set ` set (?ss[?i := ?ss ! ?i @ [a]])) = insert a (\<Union> (set ` set ?ss))"
    proof -
      have "?ss[?i := x] = take ?i ?ss @ x # drop (Suc ?i) ?ss" for x using v(2) by (rule upd_conv_take_nth_drop)
      moreover have "?ss = take ?i ?ss @ ?ss ! ?i # drop (Suc ?i) ?ss" using v(2) by (rule id_take_nth_drop)
      then have "set ` set ?ss = set ` (set (take ?i ?ss) \<union> {?ss ! ?i} \<union> set (drop (Suc ?i) ?ss))"
        by (metis Un_insert_right list.simps(15) set_append sup_bot_right Un_insert_left)
      ultimately show ?thesis by auto
    qed
    then have "pd_vertex_id ` \<Union> (set ` set (?ss[?i := ?ss ! ?i @ [a]])) = insert (pd_vertex_id a) (pd_vertex_id ` \<Union> (set ` set ?ss))"
      by simp
    then show ?thesis using v(1) by (simp add: source_vertices_def connect_def Let_def image_UN image_image)
  qed
  moreover have "source_vertices (connect a b g ! u) = source_vertices (g ! u)" if "u \<noteq> ?v" for u
    using that by (simp add: connect_def Let_def)
  ultimately have "x \<in> set (source_vertices (connect a b g ! u)) \<longleftrightarrow>
      x \<in> set (source_vertices (g ! u)) \<or> x = pd_vertex_id a \<and> u = ?v" for x u
    by (cases "u = ?v") auto
  then show ?thesis using v(1) by (auto simp: flow_edges_def)
qed

text \<open>
  C22: every graph the user can build is well-formed, and \<open>add_edge\<close> accepts an edge exactly when both
  descriptors name existing ports and a scatter-gather input gets records with keys; an accepted edge
  is the only change, a rejected one throws \<open>invalid_argument\<close>.
\<close>
theorem flow_graph_edges_valid:
  "flow_graph_ok (built_graph ops) \<and>
   (case add_edge a b (built_graph ops) of
      Inl e \<Rightarrow> e = Invalid_argument \<and>
        \<not> (valid_output_descriptor (built_graph ops) a \<and> valid_input_descriptor (built_graph ops) b \<and>
            edge_ok (built_graph ops) (vx_input_ports (built_graph ops ! pd_vertex_id b) ! pd_port_id b) a)
    | Inr g \<Rightarrow> edge_ok (built_graph ops) (vx_input_ports (built_graph ops ! pd_vertex_id b) ! pd_port_id b) a \<and>
        valid_input_descriptor (built_graph ops) b \<and> flow_graph_ok g \<and>
        flow_edges g = insert (pd_vertex_id a, pd_vertex_id b) (flow_edges (built_graph ops)))"
proof (intro conjI built_graph_ok)
  let ?g = "built_graph ops"
  show "case add_edge a b ?g of
      Inl e \<Rightarrow> e = Invalid_argument \<and> \<not> (valid_output_descriptor ?g a \<and> valid_input_descriptor ?g b \<and>
            edge_ok ?g (vx_input_ports (?g ! pd_vertex_id b) ! pd_port_id b) a)
    | Inr g \<Rightarrow> edge_ok ?g (vx_input_ports (?g ! pd_vertex_id b) ! pd_port_id b) a \<and> valid_input_descriptor ?g b \<and>
        flow_graph_ok g \<and> flow_edges g = insert (pd_vertex_id a, pd_vertex_id b) (flow_edges ?g)"
    using add_edge_ok [OF built_graph_ok, of a b ops] connect_edges [OF built_graph_ok, of ops b a]
    by (auto simp: add_edge_def Let_def edge_ok_def throw_def ok_def)
qed

text \<open>
  C23: the depth-first search for a cycle ends on every graph the user can build, for any recursion
  depth beyond the number of vertices, and answers whether the edges from producers to consumers
  have a cycle.
\<close>
theorem has_cycle_correct:
  "has_cycle (built_graph ops) = Some (\<not> acyclic (flow_edges (built_graph ops))) \<and>
   has_cycle_fuel (length (built_graph ops) + 1 + k) (built_graph ops) = has_cycle (built_graph ops)"
  using has_cycle_fuel_correct [OF built_graph_ok] by (simp add: has_cycle_def)

end
