(* ===== verification/LogicalTask.thy ===== *)
theory LogicalTask
  imports Processor Scheduler
begin

text \<open>
  Logical tasks: the base class with its successors and its entry, barrier and terminal tasks
  (tasks/logical_task_base.*), and the fields and constructors of its subclasses
  (tasks/process, tasks/shuffle, tasks/gather, tasks/value_sort). A pointer to a logical task is its
  position in the list of the logical graph. A \<open>MemoryReference\<close> is a value of a type parameter; a
  null reference is \<open>None\<close>.
\<close>

subsection \<open>Fields of the subclasses\<close>

record 'm process_task =
  pr_processor :: processor
  global_initialized :: bool
  thread_local_initialized :: "bool list"
  broadcast_inputs :: "'m option list"
  remaining_concurrency :: size_type
  task_queue :: "PhysicalTaskIdentifier list"

definition make_process_task :: "processor \<Rightarrow> size_type \<Rightarrow> 'm process_task" where
  "make_process_task p workers =
     \<lparr>pr_processor = p, global_initialized = False, thread_local_initialized = replicate workers False,
      broadcast_inputs = replicate (length (input_ports p)) None,
      remaining_concurrency = processor_concurrency p, task_queue = []\<rparr>"

datatype 'm task_body =
    InputProcess "'m process_task"
  | OneToOneProcess "'m process_task" identifier_type
  | ScatterGatherProcess "'m process_task" "'m option list list" "size_type list"
  | Shuffle size_type "'m list"
  | Gather "'m list"
  | ValueSort "comparator option"

definition input_process :: "processor \<Rightarrow> size_type \<Rightarrow> 'm task_body" where
  "input_process p workers = InputProcess (make_process_task p workers)"

definition one_to_one_process :: "processor \<Rightarrow> size_type \<Rightarrow> 'm task_body" where
  "one_to_one_process p workers = OneToOneProcess (make_process_task p workers) 0"

definition scatter_gather_count :: "processor \<Rightarrow> size_type" where
  "scatter_gather_count p = fold (\<lambda>ip n. if ip_movement ip = SCATTER_GATHER then n + 1 else n) (input_ports p) 0"

definition scatter_gather_process :: "processor \<Rightarrow> size_type \<Rightarrow> size_type \<Rightarrow> 'm task_body" where
  "scatter_gather_process p workers partitions =
     ScatterGatherProcess (make_process_task p workers)
       (replicate partitions (replicate (length (input_ports p)) None))
       (replicate partitions (scatter_gather_count p))"

definition shuffle_task :: "size_type \<Rightarrow> 'm task_body" where
  "shuffle_task partitions = Shuffle partitions []"

definition gather_task :: "'m task_body" where
  "gather_task = Gather []"

definition value_sort_task :: "comparator option \<Rightarrow> 'm task_body" where
  "value_sort_task c = ValueSort c"

subsection \<open>The base class\<close>

type_synonym successor_port = "nat \<times> identifier_type"

record 'm logical_task =
  lt_task_id :: LogicalTaskIdentifier
  lt_task_name :: string
  lt_successors :: "successor_port list list"
  lt_entry_task :: PhysicalTaskIdentifier
  lt_barrier_task :: PhysicalTaskIdentifier
  lt_terminal_task :: PhysicalTaskIdentifier
  lt_body :: "'m task_body"

definition make_logical_task :: "'m task_body \<Rightarrow> 'm logical_task" where
  "make_logical_task b =
     \<lparr>lt_task_id = no_logical_task, lt_task_name = ''(unnamed)'', lt_successors = [], lt_entry_task = no_physical_task,
      lt_barrier_task = no_physical_task, lt_terminal_task = no_physical_task, lt_body = b\<rparr>"

definition set_task_id :: "LogicalTaskIdentifier \<Rightarrow> 'm logical_task \<Rightarrow> 'm logical_task" where
  "set_task_id i t = t\<lparr>lt_task_id := i\<rparr>"

definition set_task_name :: "string \<Rightarrow> 'm logical_task \<Rightarrow> 'm logical_task" where
  "set_task_name n t = t\<lparr>lt_task_name := n\<rparr>"

definition set_entry_task :: "PhysicalTaskIdentifier \<Rightarrow> 'm logical_task \<Rightarrow> 'm logical_task" where
  "set_entry_task i t = t\<lparr>lt_entry_task := i\<rparr>"

definition set_barrier_task :: "PhysicalTaskIdentifier \<Rightarrow> 'm logical_task \<Rightarrow> 'm logical_task" where
  "set_barrier_task i t = t\<lparr>lt_barrier_task := i\<rparr>"

definition set_terminal_task :: "PhysicalTaskIdentifier \<Rightarrow> 'm logical_task \<Rightarrow> 'm logical_task" where
  "set_terminal_task i t = t\<lparr>lt_terminal_task := i\<rparr>"

definition resize_list :: "nat \<Rightarrow> 'a \<Rightarrow> 'a list \<Rightarrow> 'a list" where
  "resize_list n x xs = take n xs @ replicate (n - length xs) x"

definition add_successor :: "nat \<Rightarrow> identifier_type \<Rightarrow> identifier_type \<Rightarrow> 'm logical_task \<Rightarrow> 'm logical_task" where
  "add_successor dst_task dst_port src_port t =
     (let ss = (if length (lt_successors t) \<le> src_port then resize_list (src_port + 1) [] (lt_successors t) else lt_successors t)
      in t\<lparr>lt_successors := ss[src_port := ss ! src_port @ [(dst_task, dst_port)]]\<rparr>)"

text \<open>The receivers of \<open>commit_fragment\<close>, in the order in which it calls \<open>receive_fragment\<close>.\<close>

definition fragment_receivers :: "identifier_type \<Rightarrow> 'm logical_task \<Rightarrow> successor_port list" where
  "fragment_receivers port t = (if length (lt_successors t) \<le> port then [] else lt_successors t ! port)"

lemma resize_list_simps:
  "length (resize_list n x xs) = n"
  "i < n \<Longrightarrow> resize_list n x xs ! i = (if i < length xs then xs ! i else x)"
  by (auto simp: resize_list_def nth_append)

lemma fragment_receivers_add [simp]:
  "fragment_receivers port (add_successor d dp sp t) =
     (if port = sp then fragment_receivers port t @ [(d, dp)] else fragment_receivers port t)"
  by (auto simp: fragment_receivers_def add_successor_def Let_def resize_list_simps)

lemma add_successor_simps [simp]:
  "lt_task_id (add_successor d dp sp t) = lt_task_id t" "lt_task_name (add_successor d dp sp t) = lt_task_name t"
  "lt_body (add_successor d dp sp t) = lt_body t" "lt_entry_task (add_successor d dp sp t) = lt_entry_task t"
  "lt_barrier_task (add_successor d dp sp t) = lt_barrier_task t" "lt_terminal_task (add_successor d dp sp t) = lt_terminal_task t"
  by (simp_all add: add_successor_def Let_def)

end
