(* ===== verification/LogicalGraph.thy ===== *)
theory LogicalGraph
  imports LogicalTask
begin

text \<open>
  The logical graph (graph/logical_graph.*): logical tasks in the order of their identifiers and the
  edges between their ports. Every edge is recorded twice, in the list of edges and in the
  successors of its producer; \<open>edges_match\<close> relates the two.
\<close>

record lg_port =
  port_task :: LogicalTaskIdentifier
  port_id :: identifier_type

definition no_port :: lg_port where
  "no_port = \<lparr>port_task = no_logical_task, port_id = invalid_id\<rparr>"

definition make_port :: "LogicalTaskIdentifier \<Rightarrow> identifier_type \<Rightarrow> lg_port" where
  "make_port t p = \<lparr>port_task = t, port_id = p\<rparr>"

datatype PhysicalSuccessor = ENTRY | BARRIER | TERMINAL

record lg_edge =
  edge_producer :: lg_port
  edge_consumer :: lg_port
  edge_successor :: PhysicalSuccessor

definition default_edge :: lg_edge where
  "default_edge = \<lparr>edge_producer = no_port, edge_consumer = no_port, edge_successor = ENTRY\<rparr>"

definition make_edge :: "lg_port \<Rightarrow> lg_port \<Rightarrow> PhysicalSuccessor \<Rightarrow> lg_edge" where
  "make_edge p c s = \<lparr>edge_producer = p, edge_consumer = c, edge_successor = s\<rparr>"

record 'm logical_graph =
  lg_tasks :: "'m logical_task list"
  lg_edges :: "lg_edge list"

definition empty_logical_graph :: "'m logical_graph" where
  "empty_logical_graph = \<lparr>lg_tasks = [], lg_edges = []\<rparr>"

definition add_logical_task :: "'m logical_task \<Rightarrow> 'm logical_graph \<Rightarrow> LogicalTaskIdentifier \<times> 'm logical_graph" where
  "add_logical_task t g =
     (let tid = LogicalTaskIdentifier (length (lg_tasks g))
      in (tid, g\<lparr>lg_tasks := lg_tasks g @ [set_task_id tid t]\<rparr>))"

text \<open>Both assertions of \<open>add_edge\<close> guard an access to the list of tasks.\<close>

definition add_edge :: "lg_port \<Rightarrow> lg_port \<Rightarrow> PhysicalSuccessor \<Rightarrow> 'm logical_graph \<Rightarrow> 'm logical_graph result" where
  "add_edge p c s g =
     (let i = logical_id (port_task p); j = logical_id (port_task c); n = length (lg_tasks g)
      in if i < n \<and> j < n
         then ok (g\<lparr>lg_edges := lg_edges g @ [make_edge p c s],
                    lg_tasks := (lg_tasks g)[i := add_successor j (port_id c) (port_id p) (lg_tasks g ! i)]\<rparr>)
         else throw Undefined)"

subsection \<open>Producers and receivers\<close>

text \<open>An end of an edge as task and port.\<close>

definition end_of :: "lg_port \<Rightarrow> nat \<times> nat" where
  "end_of p = (logical_id (port_task p), port_id p)"

definition edge_ends :: "'m logical_graph \<Rightarrow> ((nat \<times> nat) \<times> (nat \<times> nat)) list" where
  "edge_ends g = map (\<lambda>e. (end_of (edge_producer e), end_of (edge_consumer e))) (lg_edges g)"

text \<open>What is connected to an input port, in the order of the connections.\<close>

definition producers :: "'m logical_graph \<Rightarrow> nat \<times> nat \<Rightarrow> (nat \<times> nat) list" where
  "producers g c = map fst (filter (\<lambda>e. snd e = c) (edge_ends g))"

definition consumers :: "'m logical_graph \<Rightarrow> nat \<times> nat \<Rightarrow> (nat \<times> nat) list" where
  "consumers g p = map snd (filter (\<lambda>e. fst e = p) (edge_ends g))"

definition bodies :: "'m logical_graph \<Rightarrow> 'm task_body list" where
  "bodies g = map lt_body (lg_tasks g)"

text \<open>A committed fragment reaches the consumers of its port and nothing else.\<close>

definition edges_match :: "'m logical_graph \<Rightarrow> bool" where
  "edges_match g \<longleftrightarrow>
     (\<forall>i<length (lg_tasks g). lt_task_id (lg_tasks g ! i) = LogicalTaskIdentifier i \<and>
        (\<forall>p. fragment_receivers p (lg_tasks g ! i) = consumers g (i, p))) \<and>
     (\<forall>e\<in>set (edge_ends g). fst (fst e) < length (lg_tasks g) \<and> fst (snd e) < length (lg_tasks g))"

lemma edges_match_empty: "edges_match empty_logical_graph"
  by (simp add: edges_match_def empty_logical_graph_def edge_ends_def)

lemma add_logical_task_simps [simp]:
  "fst (add_logical_task t g) = LogicalTaskIdentifier (length (lg_tasks g))"
  "length (lg_tasks (snd (add_logical_task t g))) = Suc (length (lg_tasks g))"
  "edge_ends (snd (add_logical_task t g)) = edge_ends g" "producers (snd (add_logical_task t g)) = producers g"
  "bodies (snd (add_logical_task t g)) = bodies g @ [lt_body t]"
  by (simp_all add: add_logical_task_def Let_def edge_ends_def producers_def bodies_def set_task_id_def fun_eq_iff)

lemma add_logical_task_match:
  assumes "edges_match g" "lt_successors t = []"
  shows "edges_match (snd (add_logical_task t g))"
proof -
  have "consumers g (length (lg_tasks g), p) = []" for p
    using assms(1) by (force simp: edges_match_def consumers_def filter_empty_conv)
  then have new: "fragment_receivers p (set_task_id i t) = consumers g (length (lg_tasks g), p)" for p i
    using assms(2) by (simp add: fragment_receivers_def set_task_id_def)
  show ?thesis
    using assms(1) new
    by (auto simp: edges_match_def add_logical_task_def Let_def nth_append less_Suc_eq consumers_def edge_ends_def
        set_task_id_def dest: less_SucI)
qed

lemma add_edge_eq:
  assumes "logical_id (port_task p) < length (lg_tasks g)" "logical_id (port_task c) < length (lg_tasks g)"
  obtains g' where "add_edge p c s g = ok g'" "length (lg_tasks g') = length (lg_tasks g)" "bodies g' = bodies g"
    "edge_ends g' = edge_ends g @ [(end_of p, end_of c)]"
    "producers g' = (\<lambda>x. if x = end_of c then producers g x @ [end_of p] else producers g x)"
proof -
  let ?i = "logical_id (port_task p)"
  let ?g = "g\<lparr>lg_edges := lg_edges g @ [make_edge p c s],
      lg_tasks := (lg_tasks g)[?i := add_successor (logical_id (port_task c)) (port_id c) (port_id p) (lg_tasks g ! ?i)]\<rparr>"
  have "bodies ?g = bodies g" using assms by (simp add: bodies_def map_update list_update_same_conv)
  moreover have "edge_ends ?g = edge_ends g @ [(end_of p, end_of c)]" by (simp add: edge_ends_def make_edge_def)
  moreover from this have "producers ?g = (\<lambda>x. if x = end_of c then producers g x @ [end_of p] else producers g x)"
    by (auto simp: producers_def fun_eq_iff)
  ultimately show ?thesis using assms by (intro that [of ?g]) (simp_all add: add_edge_def Let_def)
qed

lemma add_edge_match:
  assumes "edges_match g" "add_edge p c s g = ok g'"
  shows "edges_match g'"
proof -
  let ?i = "logical_id (port_task p)" and ?j = "logical_id (port_task c)"
  have ij: "?i < length (lg_tasks g)" "?j < length (lg_tasks g)"
    and g': "g' = g\<lparr>lg_edges := lg_edges g @ [make_edge p c s],
        lg_tasks := (lg_tasks g)[?i := add_successor ?j (port_id c) (port_id p) (lg_tasks g ! ?i)]\<rparr>"
    using assms(2) by (auto simp: add_edge_def Let_def split: if_splits)
  have e: "edge_ends g' = edge_ends g @ [(end_of p, end_of c)]" by (simp add: g' edge_ends_def make_edge_def)
  have c: "consumers g' x = (if x = end_of p then consumers g x @ [end_of c] else consumers g x)" for x
    by (simp add: consumers_def e)
  have len: "length (lg_tasks g') = length (lg_tasks g)" by (simp add: g')
  have nth: "lg_tasks g' ! k = (if k = ?i then add_successor ?j (port_id c) (port_id p) (lg_tasks g ! k) else lg_tasks g ! k)"
    if "k < length (lg_tasks g)" for k using that by (simp add: g' nth_list_update)
  have "fragment_receivers q (lg_tasks g' ! k) = consumers g' (k, q)" if "k < length (lg_tasks g)" for k q
    using assms(1) that by (auto simp: edges_match_def c nth end_of_def)
  moreover have "lt_task_id (lg_tasks g' ! k) = LogicalTaskIdentifier k" if "k < length (lg_tasks g)" for k
    using assms(1) that by (auto simp: edges_match_def nth)
  ultimately show ?thesis
    using assms(1) ij unfolding edges_match_def e len by (auto simp: end_of_def)
qed

end
