(* ===== verification/LogicalGraphBuilder.thy ===== *)
theory LogicalGraphBuilder
  imports FlowGraphCycle LogicalGraph Configuration "HOL-Library.Product_Lexorder"
begin

text \<open>
  graph/logical_graph_builder.cpp: the translation of the user's flow graph into the logical graph.
  Every vertex becomes a process task; inputs that are grouped or broadcast are fed through a
  shuffle or gather task, one for each set of source ports; inputs with a comparator get a value
  sort task of their own.
\<close>

subsection \<open>Process tasks\<close>

text \<open>
  The assertion that no processor has both movements is left out: a processor that has them cannot
  be constructed (\<open>Processor\<close>).
\<close>

definition create_process_task :: "configuration \<Rightarrow> processor \<Rightarrow> 'm task_body" where
  "create_process_task config p =
     (let (is_one_to_one, is_scatter_gather) = movements (input_ports p)
      in if is_one_to_one then one_to_one_process p (max_concurrency config)
         else if is_scatter_gather then scatter_gather_process p (max_concurrency config) (partition_count config)
         else input_process p (max_concurrency config))"

definition create_processor_node :: "configuration \<Rightarrow> vertex \<Rightarrow> 'm logical_graph \<Rightarrow> 'm logical_graph" where
  "create_processor_node config v g =
     snd (add_logical_task (set_task_name (vx_name v) (make_logical_task (create_process_task config (vx_processor v)))) g)"

definition create_processor_nodes :: "configuration \<Rightarrow> flow_graph \<Rightarrow> 'm logical_graph \<Rightarrow> 'm logical_graph" where
  "create_processor_nodes config fg g = fold (create_processor_node config) fg g"

subsection \<open>Port sets\<close>

type_synonym port_key = "identifier_type \<times> identifier_type"
type_synonym port_set = "port_key list"

definition normalize_port_set :: "port_descriptor list \<Rightarrow> port_set" where
  "normalize_port_set ds = sort (map (\<lambda>d. (pd_vertex_id d, pd_port_id d)) ds)"

definition port_name :: "flow_graph \<Rightarrow> port_key \<Rightarrow> string" where
  "port_name fg p =
     (let v = fg ! fst p in vx_name v @ ''.'' @ op_name (output_ports (vx_processor v) ! snd p))"

fun join_names :: "string list \<Rightarrow> string" where
  "join_names [] = []"
| "join_names [n] = n"
| "join_names (n # m # ns) = n @ ''+'' @ join_names (m # ns)"

definition concat_port_names :: "flow_graph \<Rightarrow> port_set \<Rightarrow> string" where
  "concat_port_names fg ps = ''('' @ join_names (map (port_name fg) ps) @ '')''"

subsection \<open>Shuffle and gather nodes\<close>

record 'm builder =
  bd_graph :: "'m logical_graph"
  shuffle_nodes :: "port_set \<Rightarrow> LogicalTaskIdentifier option"
  gather_nodes :: "port_set \<Rightarrow> LogicalTaskIdentifier option"

text \<open>The edges from the source ports to the new node.\<close>

fun connect_sources_to :: "LogicalTaskIdentifier \<Rightarrow> PhysicalSuccessor \<Rightarrow> port_set \<Rightarrow> 'm logical_graph \<Rightarrow> 'm logical_graph result" where
  "connect_sources_to tid s [] g = ok g"
| "connect_sources_to tid s (p # ps) g =
     andThen (LogicalGraph.add_edge (make_port (LogicalTaskIdentifier (fst p)) (snd p)) (make_port tid 0) s g)
       (connect_sources_to tid s ps)"

definition create_shuffle_node :: "configuration \<Rightarrow> flow_graph \<Rightarrow> port_set \<Rightarrow> 'm builder \<Rightarrow> 'm builder result" where
  "create_shuffle_node config fg ps b =
     (case shuffle_nodes b ps of
        Some _ \<Rightarrow> ok b
      | None \<Rightarrow>
          (let (tid, g) = add_logical_task (set_task_name (concat_port_names fg ps @ ''.shuffle'')
                            (make_logical_task (shuffle_task (partition_count config)))) (bd_graph b)
           in andThen (connect_sources_to tid BARRIER ps g)
                (\<lambda>g. ok (b\<lparr>bd_graph := g, shuffle_nodes := (shuffle_nodes b)(ps \<mapsto> tid)\<rparr>))))"

definition create_gather_node :: "flow_graph \<Rightarrow> port_set \<Rightarrow> 'm builder \<Rightarrow> 'm builder result" where
  "create_gather_node fg ps b =
     (case gather_nodes b ps of
        Some _ \<Rightarrow> ok b
      | None \<Rightarrow>
          (let (tid, g) = add_logical_task (set_task_name (concat_port_names fg ps @ ''.gather'')
                            (make_logical_task gather_task)) (bd_graph b)
           in andThen (connect_sources_to tid ENTRY ps g)
                (\<lambda>g. ok (b\<lparr>bd_graph := g, gather_nodes := (gather_nodes b)(ps \<mapsto> tid)\<rparr>))))"

text \<open>The two nested loops over vertices and input ports.\<close>

definition all_inputs :: "flow_graph \<Rightarrow> (nat \<times> nat) list" where
  "all_inputs fg = concat (map (\<lambda>i. map (Pair i) [0..<length (vx_input_ports (fg ! i))]) [0..<length fg])"

definition input_at :: "flow_graph \<Rightarrow> nat \<times> nat \<Rightarrow> input_port" where
  "input_at fg ij = vx_input_ports (fg ! fst ij) ! snd ij"

definition sources_at :: "flow_graph \<Rightarrow> nat \<times> nat \<Rightarrow> port_descriptor list" where
  "sources_at fg ij = vx_sources (fg ! fst ij) ! snd ij"

definition intermediate_node :: "configuration \<Rightarrow> flow_graph \<Rightarrow> nat \<times> nat \<Rightarrow> 'm builder \<Rightarrow> 'm builder result" where
  "intermediate_node config fg ij b =
     (if ip_movement (input_at fg ij) = SCATTER_GATHER
      then create_shuffle_node config fg (normalize_port_set (sources_at fg ij)) b
      else if ip_movement (input_at fg ij) = BROADCAST
      then create_gather_node fg (normalize_port_set (sources_at fg ij)) b
      else ok b)"

fun for_each :: "('a \<Rightarrow> 's \<Rightarrow> 's result) \<Rightarrow> 'a list \<Rightarrow> 's \<Rightarrow> 's result" where
  "for_each f [] s = ok s"
| "for_each f (x # xs) s = andThen (f x s) (for_each f xs)"

definition create_intermediate_nodes :: "configuration \<Rightarrow> flow_graph \<Rightarrow> 'm builder \<Rightarrow> 'm builder result" where
  "create_intermediate_nodes config fg b = for_each (intermediate_node config fg) (all_inputs fg) b"

subsection \<open>Edges\<close>

text \<open>\<open>std::map::at\<close> throws for a port set without a node.\<close>

definition node_at :: "(port_set \<Rightarrow> LogicalTaskIdentifier option) \<Rightarrow> port_set \<Rightarrow> LogicalTaskIdentifier result" where
  "node_at nodes ps = (case nodes ps of None \<Rightarrow> throw Out_of_range | Some t \<Rightarrow> ok t)"

definition builder_edge :: "lg_port \<Rightarrow> lg_port \<Rightarrow> PhysicalSuccessor \<Rightarrow> 'm builder \<Rightarrow> 'm builder result" where
  "builder_edge p c s b = andThen (LogicalGraph.add_edge p c s (bd_graph b)) (\<lambda>g. ok (b\<lparr>bd_graph := g\<rparr>))"

definition sort_name :: "flow_graph \<Rightarrow> nat \<times> nat \<Rightarrow> string" where
  "sort_name fg ij = vx_name (fg ! fst ij) @ ''.'' @ ip_name (input_at fg ij) @ ''.'' @ ''value_sort''"

definition create_input_edges :: "flow_graph \<Rightarrow> nat \<times> nat \<Rightarrow> 'm builder \<Rightarrow> 'm builder result" where
  "create_input_edges fg ij b =
     (let ps = normalize_port_set (sources_at fg ij);
          comparator = ip_value_comparator (input_at fg ij);
          dst = make_port (LogicalTaskIdentifier (fst ij)) (snd ij)
      in if ip_movement (input_at fg ij) = ONE_TO_ONE then
           for_each (\<lambda>d. builder_edge (make_port (LogicalTaskIdentifier (pd_vertex_id d)) (pd_port_id d)) dst BARRIER)
             (sources_at fg ij) b
         else if ip_movement (input_at fg ij) = BROADCAST then
           andThen (node_at (gather_nodes b) ps) (\<lambda>t. builder_edge (make_port t 0) dst ENTRY b)
         else if comparator \<noteq> None then
           (let (sort_id, g) = add_logical_task (set_task_name (sort_name fg ij) (make_logical_task (value_sort_task comparator))) (bd_graph b)
            in andThen (node_at (shuffle_nodes b) ps)
                 (\<lambda>t. andThen (builder_edge (make_port t 0) (make_port sort_id 0) TERMINAL (b\<lparr>bd_graph := g\<rparr>))
                        (builder_edge (make_port sort_id 0) dst BARRIER)))
         else andThen (node_at (shuffle_nodes b) ps) (\<lambda>t. builder_edge (make_port t 0) dst BARRIER b))"

definition create_edges :: "flow_graph \<Rightarrow> 'm builder \<Rightarrow> 'm builder result" where
  "create_edges fg b = for_each (create_input_edges fg) (all_inputs fg) b"

definition new_builder :: "'m builder" where
  "new_builder = \<lparr>bd_graph = empty_logical_graph, shuffle_nodes = (\<lambda>_. None), gather_nodes = (\<lambda>_. None)\<rparr>"

definition build_logical_graph :: "flow_graph \<Rightarrow> configuration \<Rightarrow> 'm logical_graph result" where
  "build_logical_graph fg config =
     (let b = new_builder\<lparr>bd_graph := create_processor_nodes config fg empty_logical_graph\<rparr>
      in andThen (create_intermediate_nodes config fg b)
           (\<lambda>b. andThen (create_edges fg b) (\<lambda>b. ok (bd_graph b))))"

end
