(* ===== verification/LogicalGraphProperties.thy ===== *)
theory LogicalGraphProperties
  imports LogicalGraphBuilder
begin

text \<open>
  What the builder promises: every input port of the flow graph is fed by exactly its sources, through
  the nodes its movement asks for; equal port sets share one shuffle or gather node; the
  logical graph has a cycle only if the flow graph has one. The builder fails only on an input
  without a movement.
\<close>

subsection \<open>The specification\<close>

definition source_keys :: "flow_graph \<Rightarrow> nat \<times> nat \<Rightarrow> port_key list" where
  "source_keys fg ij = map (\<lambda>d. (pd_vertex_id d, pd_port_id d)) (sources_at fg ij)"

text \<open>An intermediate task: its position and kind, and the ports it collects.\<close>

definition node_is :: "flow_graph \<Rightarrow> 'm logical_graph \<Rightarrow> 'm task_body \<Rightarrow> port_key list \<Rightarrow> nat \<Rightarrow> bool" where
  "node_is fg g body ps t \<longleftrightarrow> length fg \<le> t \<and> t < length (bodies g) \<and> bodies g ! t = body \<and> producers g (t, 0) = ps"

definition shuffled :: "flow_graph \<Rightarrow> configuration \<Rightarrow> 'm logical_graph \<Rightarrow> nat \<times> nat \<Rightarrow> bool" where
  "shuffled fg config g ij \<longleftrightarrow>
     (\<exists>t. node_is fg g (shuffle_task (partition_count config)) (sort (source_keys fg ij)) t \<and>
        (case ip_value_comparator (input_at fg ij) of
           None \<Rightarrow> producers g ij = [(t, 0)]
         | Some c \<Rightarrow> \<exists>s. producers g ij = [(s, 0)] \<and> node_is fg g (value_sort_task (Some c)) [(t, 0)] s))"

definition input_fed :: "flow_graph \<Rightarrow> configuration \<Rightarrow> 'm logical_graph \<Rightarrow> nat \<times> nat \<Rightarrow> bool" where
  "input_fed fg config g ij \<longleftrightarrow>
     (case ip_movement (input_at fg ij) of
        ONE_TO_ONE \<Rightarrow> producers g ij = source_keys fg ij
      | BROADCAST \<Rightarrow> \<exists>t. producers g ij = [(t, 0)] \<and> node_is fg g gather_task (sort (source_keys fg ij)) t
      | _ \<Rightarrow> shuffled fg config g ij)"

definition collector_ok :: "flow_graph \<Rightarrow> configuration \<Rightarrow> 'm logical_graph \<Rightarrow> nat \<Rightarrow> bool" where
  "collector_ok fg config g t \<longleftrightarrow>
     ((bodies g ! t = shuffle_task (partition_count config) \<or> bodies g ! t = gather_task) \<and>
        fst ` set (producers g (t, 0)) \<subseteq> {..<length fg}) \<or>
     (\<exists>c t' ps. bodies g ! t = value_sort_task (Some c) \<and> producers g (t, 0) = [(t', 0)] \<and>
        node_is fg g (shuffle_task (partition_count config)) ps t')"

text \<open>The part of the specification that does not depend on the inputs connected so far.\<close>

definition frame_ok :: "flow_graph \<Rightarrow> configuration \<Rightarrow> 'm logical_graph \<Rightarrow> bool" where
  "frame_ok fg config g \<longleftrightarrow> edges_match g \<and> length fg \<le> length (bodies g) \<and>
     (\<forall>i<length fg. bodies g ! i = create_process_task config (vx_processor (fg ! i))) \<and>
     (\<forall>t. length fg \<le> t \<and> t < length (bodies g) \<longrightarrow> collector_ok fg config g t) \<and>
     (\<forall>e\<in>set (edge_ends g). snd e \<in> set (all_inputs fg) \<or> length fg \<le> fst (snd e) \<and> snd (snd e) = 0)"

definition well_built :: "flow_graph \<Rightarrow> configuration \<Rightarrow> 'm logical_graph \<Rightarrow> bool" where
  "well_built fg config g \<longleftrightarrow> frame_ok fg config g \<and> (\<forall>ij\<in>set (all_inputs fg). input_fed fg config g ij) \<and>
     (\<forall>ps t t'. node_is fg g (shuffle_task (partition_count config)) ps t \<and>
        node_is fg g (shuffle_task (partition_count config)) ps t' \<longrightarrow> t = t') \<and>
     (\<forall>ps t t'. node_is fg g gather_task ps t \<and> node_is fg g gather_task ps t' \<longrightarrow> t = t')"

subsection \<open>Inputs\<close>

lemma all_inputs_iff: "ij \<in> set (all_inputs fg) \<longleftrightarrow> fst ij < length fg \<and> snd ij < length (vx_input_ports (fg ! fst ij))"
  by (cases ij) (force simp: all_inputs_def)

lemma distinct_all_inputs: "distinct (all_inputs fg)"
proof -
  have "distinct (concat (map (\<lambda>i. map (Pair i) [0..<f i]) [0..<n]))" for n :: nat and f :: "nat \<Rightarrow> nat"
    by (induction n) (auto simp: distinct_map inj_on_def)
  then show ?thesis by (simp add: all_inputs_def)
qed

lemma normalize_source_keys: "normalize_port_set (sources_at fg ij) = sort (source_keys fg ij)"
  by (simp add: normalize_port_set_def source_keys_def)

lemma source_keys_less:
  assumes "flow_graph_ok fg" "ij \<in> set (all_inputs fg)" "p \<in> set (source_keys fg ij)"
  shows "fst p < length fg"
proof -
  have i: "fst ij < length fg" "snd ij < length (vx_input_ports (fg ! fst ij))" using assms(2) by (simp_all add: all_inputs_iff)
  obtain d where "d \<in> set (sources_at fg ij)" "p = (pd_vertex_id d, pd_port_id d)"
    using assms(3) by (auto simp: source_keys_def)
  moreover from this have "valid_output_descriptor fg d"
    using flow_graph_okD [OF assms(1) i(1)] i(2) by (auto simp: flow_vertex_ok_def edge_ok_def sources_at_def)
  ultimately show ?thesis by (auto simp: valid_output_descriptor_def split: if_splits)
qed

lemma source_keys_edge:
  assumes "flow_graph_ok fg" "ij \<in> set (all_inputs fg)" "p \<in> set (source_keys fg ij)"
  shows "(fst p, fst ij) \<in> flow_edges fg"
proof -
  have i: "fst ij < length fg" "snd ij < length (vx_sources (fg ! fst ij))"
    using assms(2) flow_graph_okD [OF assms(1), of "fst ij"] by (simp_all add: all_inputs_iff flow_vertex_ok_def)
  obtain d where "d \<in> set (vx_sources (fg ! fst ij) ! snd ij)" "fst p = pd_vertex_id d"
    using assms(3) by (auto simp: source_keys_def sources_at_def)
  then have "fst p \<in> set (source_vertices (fg ! fst ij))"
    using i(2) nth_mem unfolding source_vertices_def by fastforce
  then show ?thesis using i(1) by (simp add: flow_edges_def)
qed

subsection \<open>Growing a graph\<close>

text \<open>New tasks at the end, and new producers only at the ports of \<open>X\<close>.\<close>

definition grows :: "(nat \<times> nat) set \<Rightarrow> 'm logical_graph \<Rightarrow> 'm logical_graph \<Rightarrow> bool" where
  "grows X g g' \<longleftrightarrow> (\<exists>bs. bodies g' = bodies g @ bs) \<and>
     (\<forall>c. fst c < length (bodies g) \<longrightarrow> c \<notin> X \<longrightarrow> producers g' c = producers g c)"

lemma length_bodies: "length (bodies g) = length (lg_tasks g)"
  by (simp add: bodies_def)

lemma grows_bodies: "grows X g g' \<Longrightarrow> length (bodies g) \<le> length (bodies g')"
  "grows X g g' \<Longrightarrow> t < length (bodies g) \<Longrightarrow> bodies g' ! t = bodies g ! t"
  by (auto simp: grows_def nth_append)

lemma grows_producers: "grows X g g' \<Longrightarrow> fst c < length (bodies g) \<Longrightarrow> c \<notin> X \<Longrightarrow> producers g' c = producers g c"
  unfolding grows_def by blast

lemma node_is_grows:
  assumes "grows X g g'" "node_is fg g body ps t" "X \<subseteq> {c. fst c < length fg}"
  shows "node_is fg g' body ps t"
  using assms grows_bodies [OF assms(1)] unfolding node_is_def grows_def by force

lemma input_fed_grows:
  assumes gr: "grows X g g'" and X: "X \<subseteq> {c. fst c < length fg}" and ij: "ij \<notin> X" "fst ij < length fg" "length fg \<le> length (bodies g)"
    and fed: "input_fed fg config g ij"
  shows "input_fed fg config g' ij"
proof -
  have p: "producers g' ij = producers g ij" using grows_producers [OF gr, of ij] ij by simp
  note n = node_is_grows [OF gr _ X]
  have sh: "shuffled fg config g' ij" if "shuffled fg config g ij"
    using that n unfolding shuffled_def p by (fastforce split: option.splits)
  show ?thesis
    using fed sh n unfolding input_fed_def p by (fastforce split: Movement.splits)
qed

lemma collector_ok_grows:
  assumes "grows X g g'" "X \<subseteq> {c. fst c < length fg}" "collector_ok fg config g t" "length fg \<le> t" "t < length (bodies g)"
  shows "collector_ok fg config g' t"
proof -
  have "(t, 0) \<notin> X" using assms(2,4) by auto
  then have eq: "producers g' (t, 0) = producers g (t, 0)" "bodies g' ! t = bodies g ! t"
    using assms(5) grows_bodies [OF assms(1)] grows_producers [OF assms(1), of "(t, 0)"] by simp_all
  show ?thesis using assms(3) node_is_grows [OF assms(1) _ assms(2)] unfolding collector_ok_def eq by blast
qed

lemma grows_add_task: "grows X g (snd (add_logical_task t g))"
  by (auto simp: grows_def)

lemma grows_refl: "grows X g g"
  by (simp add: grows_def)

lemma grows_mono: "grows X g g' \<Longrightarrow> X \<subseteq> Y \<Longrightarrow> grows Y g g'"
  unfolding grows_def by blast

lemma grows_trans: "grows X g g' \<Longrightarrow> grows X g' g'' \<Longrightarrow> grows X g g''"
  unfolding grows_def by (auto simp: nth_append)

lemma producers_new: "edges_match g \<Longrightarrow> length (bodies g) \<le> t \<Longrightarrow> producers g (t, p) = []"
  by (force simp: edges_match_def producers_def filter_empty_conv length_bodies)

text \<open>Connecting one end.\<close>

lemma edge_step:
  assumes "edges_match g" "fst p < length (bodies g)" "fst c < length (bodies g)"
  obtains g' where "LogicalGraph.add_edge (make_port (LogicalTaskIdentifier (fst p)) (snd p)) (make_port (LogicalTaskIdentifier (fst c)) (snd c)) s g = ok g'"
    "edges_match g'" "bodies g' = bodies g" "edge_ends g' = edge_ends g @ [(p, c)]"
    "producers g' = (\<lambda>x. if x = c then producers g x @ [p] else producers g x)"
proof -
  let ?p = "make_port (LogicalTaskIdentifier (fst p)) (snd p)" and ?c = "make_port (LogicalTaskIdentifier (fst c)) (snd c)"
  have e: "end_of ?p = p" "end_of ?c = c" by (simp_all add: end_of_def make_port_def)
  obtain g' where g': "LogicalGraph.add_edge ?p ?c s g = ok g'" "bodies g' = bodies g" "edge_ends g' = edge_ends g @ [(p, c)]"
      "producers g' = (\<lambda>x. if x = c then producers g x @ [p] else producers g x)"
    using add_edge_eq [of ?p g ?c s] assms(2,3) unfolding e by (auto simp: make_port_def length_bodies)
  show ?thesis using g' add_edge_match [OF assms(1) g'(1)] by (intro that)
qed

lemma connect_sources_to_ok:
  assumes "\<forall>p\<in>set ps. fst p < length (bodies g)" "t < length (bodies g)" "edges_match g"
  obtains g' where "connect_sources_to (LogicalTaskIdentifier t) s ps g = ok g'" "edges_match g'" "bodies g' = bodies g"
    "set (edge_ends g') \<subseteq> set (edge_ends g) \<union> {e. snd e = (t, 0)}"
    "producers g' = (\<lambda>x. if x = (t, 0) then producers g x @ ps else producers g x)"
proof -
  have "\<exists>g'. connect_sources_to (LogicalTaskIdentifier t) s ps g = ok g' \<and> edges_match g' \<and> bodies g' = bodies g \<and>
    set (edge_ends g') \<subseteq> set (edge_ends g) \<union> {e. snd e = (t, 0)} \<and>
    producers g' = (\<lambda>x. if x = (t, 0) then producers g x @ ps else producers g x)"
    using assms
  proof (induction ps arbitrary: g)
    case (Cons p ps)
    obtain g1 where g1: "LogicalGraph.add_edge (make_port (LogicalTaskIdentifier (fst p)) (snd p)) (make_port (LogicalTaskIdentifier t) 0) s g = ok g1"
        "edges_match g1" "bodies g1 = bodies g" "edge_ends g1 = edge_ends g @ [(p, (t, 0))]"
        "producers g1 = (\<lambda>x. if x = (t, 0) then producers g x @ [p] else producers g x)"
      using edge_step [of g p "(t, 0)" s] Cons.prems by auto
    obtain g2 where g2: "connect_sources_to (LogicalTaskIdentifier t) s ps g1 = ok g2" "edges_match g2" "bodies g2 = bodies g1"
        "set (edge_ends g2) \<subseteq> set (edge_ends g1) \<union> {e. snd e = (t, 0)}"
        "producers g2 = (\<lambda>x. if x = (t, 0) then producers g1 x @ ps else producers g1 x)"
      using Cons.IH [of g1] Cons.prems g1 by auto
    have "set (edge_ends g2) \<subseteq> set (edge_ends g) \<union> {e. snd e = (t, 0)}" using g2(4) g1(4) by auto
    then show ?case using g1 g2 by (auto simp: fun_eq_iff)
  qed (simp add: fun_eq_iff)
  then show ?thesis using that by blast
qed

subsection \<open>Shuffle and gather nodes\<close>

lemma frame_okD:
  "frame_ok fg config g \<Longrightarrow> edges_match g" "frame_ok fg config g \<Longrightarrow> length fg \<le> length (bodies g)"
  by (simp_all add: frame_ok_def)

text \<open>A task appended to the graph together with all edges into its port 0.\<close>

lemma frame_ok_append:
  assumes f: "frame_ok fg config g" and b: "bodies g' = bodies g @ [body]" and m: "edges_match g'"
    and p: "producers g' = (\<lambda>x. if x = (length (bodies g), 0) then ps else producers g x)"
    and e: "set (edge_ends g') \<subseteq> set (edge_ends g) \<union> {e. snd e = (length (bodies g), 0)}"
    and c: "collector_ok fg config g' (length (bodies g))"
  shows "frame_ok fg config g'" "grows {} g g'"
    "node_is fg g' body' ps' t \<longleftrightarrow> node_is fg g body' ps' t \<or> t = length (bodies g) \<and> body' = body \<and> ps' = ps"
proof -
  show gr: "grows {} g g'" using b p by (auto simp: grows_def)
  show "node_is fg g' body' ps' t \<longleftrightarrow> node_is fg g body' ps' t \<or> t = length (bodies g) \<and> body' = body \<and> ps' = ps"
    using b p frame_okD(2) [OF f] by (auto simp: node_is_def nth_append less_Suc_eq)
  have "collector_ok fg config g' t" if "length fg \<le> t" "t < length (bodies g')" for t
  proof (cases "t = length (bodies g)")
    case False
    then have t: "t < length (bodies g)" using that(2) b by simp
    then have "collector_ok fg config g t" using f that(1) by (simp add: frame_ok_def)
    from collector_ok_grows [OF gr _ this that(1) t] show ?thesis by simp
  qed (use c in simp)
  moreover have "snd x \<in> set (all_inputs fg) \<or> length fg \<le> fst (snd x) \<and> snd (snd x) = 0" if "x \<in> set (edge_ends g')" for x
  proof (cases "x \<in> set (edge_ends g)")
    case True
    then show ?thesis using f by (simp add: frame_ok_def)
  next
    case False
    then have "snd x = (length (bodies g), 0)" using e that by auto
    then show ?thesis using frame_okD(2) [OF f] by simp
  qed
  moreover have "bodies g' ! i = create_process_task config (vx_processor (fg ! i))" if "i < length fg" for i
    using f that by (simp add: frame_ok_def b nth_append)
  ultimately show "frame_ok fg config g'" using f m b by (simp add: frame_ok_def)
qed

lemma new_collector:
  assumes f: "frame_ok fg config g" and ps: "\<forall>p\<in>set ps. fst p < length fg" and new: "lt_successors task = []"
    and body: "lt_body task = shuffle_task (partition_count config) \<or> lt_body task = gather_task"
  obtains g' where "connect_sources_to (fst (add_logical_task task g)) s ps (snd (add_logical_task task g)) = ok g'"
    "frame_ok fg config g'" "grows {} g g'" "bodies g' = bodies g @ [lt_body task]"
    "\<And>body' ps' t. node_is fg g' body' ps' t \<longleftrightarrow>
       node_is fg g body' ps' t \<or> t = length (bodies g) \<and> body' = lt_body task \<and> ps' = ps"
proof -
  let ?g = "snd (add_logical_task task g)" and ?t = "length (bodies g)"
  have m: "edges_match ?g" using add_logical_task_match [OF frame_okD(1) [OF f] new] .
  obtain g' where g': "connect_sources_to (LogicalTaskIdentifier ?t) s ps ?g = ok g'" "edges_match g'" "bodies g' = bodies ?g"
      "set (edge_ends g') \<subseteq> set (edge_ends ?g) \<union> {e. snd e = (?t, 0)}"
      "producers g' = (\<lambda>x. if x = (?t, 0) then producers ?g x @ ps else producers ?g x)"
    using connect_sources_to_ok [of ps ?g ?t s] ps m frame_okD(2) [OF f] by force
  have p: "producers g' = (\<lambda>x. if x = (?t, 0) then ps else producers g x)"
    using g'(5) producers_new [OF frame_okD(1) [OF f], of ?t 0] by auto
  have b: "bodies g' = bodies g @ [lt_body task]" using g'(3) by simp
  have c: "collector_ok fg config g' ?t" using body b p ps by (auto simp: collector_ok_def)
  note app = frame_ok_append [OF f b g'(2) p _ c]
  show ?thesis
    using g'(1,4) app b by (intro that) (simp_all add: length_bodies)
qed

definition nodes_ok :: "(port_set \<Rightarrow> LogicalTaskIdentifier option) \<Rightarrow> flow_graph \<Rightarrow> 'm logical_graph \<Rightarrow> 'm task_body \<Rightarrow> bool" where
  "nodes_ok nodes fg g body \<longleftrightarrow> (\<forall>ps t. nodes ps = Some (LogicalTaskIdentifier t) \<longleftrightarrow> node_is fg g body ps t)"

definition builder_ok :: "flow_graph \<Rightarrow> configuration \<Rightarrow> 'm builder \<Rightarrow> bool" where
  "builder_ok fg config b \<longleftrightarrow> frame_ok fg config (bd_graph b) \<and>
     nodes_ok (shuffle_nodes b) fg (bd_graph b) (shuffle_task (partition_count config)) \<and>
     nodes_ok (gather_nodes b) fg (bd_graph b) gather_task"

lemma task_bodies_differ [simp]:
  "shuffle_task n \<noteq> gather_task" "gather_task \<noteq> shuffle_task n" "value_sort_task c \<noteq> gather_task" "gather_task \<noteq> value_sort_task c"
  "value_sort_task c \<noteq> shuffle_task n" "shuffle_task n \<noteq> value_sort_task c"
  by (simp_all add: shuffle_task_def gather_task_def value_sort_task_def)

lemma nodes_ok_new:
  assumes "nodes_ok nodes fg g body" "nodes ps = None"
    and n: "\<And>ps' t. node_is fg g' body ps' t \<longleftrightarrow> node_is fg g body ps' t \<or> t = n \<and> ps' = ps"
  shows "nodes_ok (nodes(ps \<mapsto> LogicalTaskIdentifier n)) fg g' body"
  unfolding nodes_ok_def
proof (intro allI)
  fix ps' t
  have "nodes ps' = Some (LogicalTaskIdentifier t) \<longleftrightarrow> node_is fg g body ps' t" using assms(1) by (simp add: nodes_ok_def)
  then show "(nodes(ps \<mapsto> LogicalTaskIdentifier n)) ps' = Some (LogicalTaskIdentifier t) \<longleftrightarrow> node_is fg g' body ps' t"
    using assms(2) by (cases "ps' = ps") (auto simp: n)
qed

lemma nodes_ok_same:
  assumes "nodes_ok nodes fg g body" "\<And>ps' t. node_is fg g' body ps' t \<longleftrightarrow> node_is fg g body ps' t"
  shows "nodes_ok nodes fg g' body"
  using assms by (simp add: nodes_ok_def)

lemma create_shuffle_node_ok:
  assumes b: "builder_ok fg config b" and ps: "\<forall>p\<in>set ps. fst p < length fg"
  obtains b' where "create_shuffle_node config fg ps b = ok b'" "builder_ok fg config b'" "grows {} (bd_graph b) (bd_graph b')"
    "dom (shuffle_nodes b') = insert ps (dom (shuffle_nodes b))" "gather_nodes b' = gather_nodes b"
proof (cases "shuffle_nodes b ps")
  case (Some t)
  then show ?thesis using b
    by (intro that [of b]) (simp_all add: create_shuffle_node_def grows_refl insert_absorb domI)
next
  case None
  let ?task = "set_task_name (concat_port_names fg ps @ ''.shuffle'') (make_logical_task (shuffle_task (partition_count config)))"
  have task: "lt_successors ?task = []" "lt_body ?task = shuffle_task (partition_count config)"
    by (simp_all add: set_task_name_def make_logical_task_def)
  have f: "frame_ok fg config (bd_graph b)" using b by (simp add: builder_ok_def)
  obtain g' where g': "connect_sources_to (fst (add_logical_task ?task (bd_graph b))) BARRIER ps (snd (add_logical_task ?task (bd_graph b))) = ok g'"
      "frame_ok fg config g'" "grows {} (bd_graph b) g'"
      "\<And>body' ps' t. node_is fg g' body' ps' t \<longleftrightarrow>
         node_is fg (bd_graph b) body' ps' t \<or> t = length (bodies (bd_graph b)) \<and> body' = lt_body ?task \<and> ps' = ps"
    by (rule new_collector [OF f ps task(1) disjI1 [OF task(2)], of BARRIER]) (rule that)
  let ?b = "b\<lparr>bd_graph := g', shuffle_nodes := (shuffle_nodes b)(ps \<mapsto> fst (add_logical_task ?task (bd_graph b)))\<rparr>"
  have old: "nodes_ok (shuffle_nodes b) fg (bd_graph b) (shuffle_task (partition_count config))" using b by (simp add: builder_ok_def)
  have "nodes_ok ((shuffle_nodes b)(ps \<mapsto> LogicalTaskIdentifier (length (bodies (bd_graph b))))) fg g' (shuffle_task (partition_count config))"
    by (rule nodes_ok_new [OF old None]) (simp add: g'(4) task(2))
  then have "nodes_ok (shuffle_nodes ?b) fg g' (shuffle_task (partition_count config))" by (simp add: length_bodies)
  moreover have "nodes_ok (gather_nodes b) fg (bd_graph b) gather_task" using b by (simp add: builder_ok_def)
  then have "nodes_ok (gather_nodes ?b) fg g' gather_task" by (simp, elim nodes_ok_same) (simp add: g'(4) task(2))
  ultimately have "builder_ok fg config ?b" using g'(2) by (simp add: builder_ok_def)
  moreover have "create_shuffle_node config fg ps b = ok ?b"
    using g'(1) None by (simp add: create_shuffle_node_def Let_def split_beta)
  ultimately show ?thesis using g'(3) by (intro that [of ?b]) simp_all
qed

lemma create_gather_node_ok:
  assumes b: "builder_ok fg config b" and ps: "\<forall>p\<in>set ps. fst p < length fg"
  obtains b' where "create_gather_node fg ps b = ok b'" "builder_ok fg config b'" "grows {} (bd_graph b) (bd_graph b')"
    "dom (gather_nodes b') = insert ps (dom (gather_nodes b))" "shuffle_nodes b' = shuffle_nodes b"
proof (cases "gather_nodes b ps")
  case (Some t)
  then show ?thesis using b
    by (intro that [of b]) (simp_all add: create_gather_node_def grows_refl insert_absorb domI)
next
  case None
  let ?task = "set_task_name (concat_port_names fg ps @ ''.gather'') (make_logical_task gather_task)"
  have task: "lt_successors ?task = []" "lt_body ?task = gather_task"
    by (simp_all add: set_task_name_def make_logical_task_def)
  have f: "frame_ok fg config (bd_graph b)" using b by (simp add: builder_ok_def)
  obtain g' where g': "connect_sources_to (fst (add_logical_task ?task (bd_graph b))) ENTRY ps (snd (add_logical_task ?task (bd_graph b))) = ok g'"
      "frame_ok fg config g'" "grows {} (bd_graph b) g'"
      "\<And>body' ps' t. node_is fg g' body' ps' t \<longleftrightarrow>
         node_is fg (bd_graph b) body' ps' t \<or> t = length (bodies (bd_graph b)) \<and> body' = lt_body ?task \<and> ps' = ps"
    by (rule new_collector [OF f ps task(1) disjI2 [OF task(2)], of ENTRY]) (rule that)
  let ?b = "b\<lparr>bd_graph := g', gather_nodes := (gather_nodes b)(ps \<mapsto> fst (add_logical_task ?task (bd_graph b)))\<rparr>"
  have old: "nodes_ok (gather_nodes b) fg (bd_graph b) gather_task" using b by (simp add: builder_ok_def)
  have "nodes_ok ((gather_nodes b)(ps \<mapsto> LogicalTaskIdentifier (length (bodies (bd_graph b))))) fg g' gather_task"
    by (rule nodes_ok_new [OF old None]) (simp add: g'(4) task(2))
  then have "nodes_ok (gather_nodes ?b) fg g' gather_task" by (simp add: length_bodies)
  moreover have "nodes_ok (shuffle_nodes b) fg (bd_graph b) (shuffle_task (partition_count config))" using b by (simp add: builder_ok_def)
  then have "nodes_ok (shuffle_nodes ?b) fg g' (shuffle_task (partition_count config))" by (simp, elim nodes_ok_same) (simp add: g'(4) task(2))
  ultimately have "builder_ok fg config ?b" using g'(2) by (simp add: builder_ok_def)
  moreover have "create_gather_node fg ps b = ok ?b"
    using g'(1) None by (simp add: create_gather_node_def Let_def split_beta)
  ultimately show ?thesis using g'(3) by (intro that [of ?b]) simp_all
qed

subsection \<open>The first two passes\<close>

lemma create_processor_nodes_props:
  "edges_match g \<Longrightarrow>
   edges_match (create_processor_nodes config fg g) \<and> edge_ends (create_processor_nodes config fg g) = edge_ends g \<and>
   bodies (create_processor_nodes config fg g) = bodies g @ map (\<lambda>v. create_process_task config (vx_processor v)) fg"
proof (induction fg arbitrary: g)
  case (Cons v fg)
  let ?t = "set_task_name (vx_name v) (make_logical_task (create_process_task config (vx_processor v)))"
  have t: "lt_successors ?t = []" "lt_body ?t = create_process_task config (vx_processor v)"
    by (simp_all add: set_task_name_def make_logical_task_def)
  show ?case
    using Cons.IH [OF add_logical_task_match [OF Cons.prems t(1)]]
    by (simp add: create_processor_nodes_def create_processor_node_def t(2))
qed (simp add: create_processor_nodes_def)

definition start_builder :: "configuration \<Rightarrow> flow_graph \<Rightarrow> 'm builder" where
  "start_builder config fg = new_builder\<lparr>bd_graph := create_processor_nodes config fg empty_logical_graph\<rparr>"

lemma start_builder_ok:
  fixes b :: "'m builder"
  assumes "b = start_builder config fg"
  shows "builder_ok fg config b" "producers (bd_graph b) c = []" "shuffle_nodes b = (\<lambda>_. None)" "gather_nodes b = (\<lambda>_. None)"
proof -
  have g: "bd_graph b = create_processor_nodes config fg empty_logical_graph" "shuffle_nodes b = (\<lambda>_. None)" "gather_nodes b = (\<lambda>_. None)"
    by (simp_all add: assms start_builder_def new_builder_def)
  have e: "edge_ends (empty_logical_graph :: 'm logical_graph) = []" "bodies (empty_logical_graph :: 'm logical_graph) = []"
    by (simp_all add: empty_logical_graph_def edge_ends_def bodies_def)
  have p: "edges_match (bd_graph b)" "edge_ends (bd_graph b) = []"
    "bodies (bd_graph b) = map (\<lambda>v. create_process_task config (vx_processor v)) fg"
    using create_processor_nodes_props [OF edges_match_empty [where 'a = 'm], of config fg] by (simp_all add: g(1) e)
  show "producers (bd_graph b) c = []" by (simp add: producers_def p)
  show "builder_ok fg config b" using p by (auto simp: builder_ok_def frame_ok_def nodes_ok_def node_is_def g(2,3))
  show "shuffle_nodes b = (\<lambda>_. None)" "gather_nodes b = (\<lambda>_. None)" by (rule g)+
qed

definition group_sets :: "flow_graph \<Rightarrow> Movement \<Rightarrow> (nat \<times> nat) list \<Rightarrow> port_set set" where
  "group_sets fg mv xs = (\<lambda>ij. sort (source_keys fg ij)) ` {ij \<in> set xs. ip_movement (input_at fg ij) = mv}"

lemma group_sets_Cons:
  "group_sets fg mv (x # xs) =
     (if ip_movement (input_at fg x) = mv then insert (sort (source_keys fg x)) (group_sets fg mv xs) else group_sets fg mv xs)"
  by (auto simp: group_sets_def)

lemma intermediate_nodes_ok:
  assumes fg: "flow_graph_ok fg"
  shows "builder_ok fg config b \<Longrightarrow> set xs \<subseteq> set (all_inputs fg) \<Longrightarrow>
    \<exists>b'. for_each (intermediate_node config fg) xs b = ok b' \<and> builder_ok fg config b' \<and> grows {} (bd_graph b) (bd_graph b') \<and>
      dom (shuffle_nodes b') = dom (shuffle_nodes b) \<union> group_sets fg SCATTER_GATHER xs \<and>
      dom (gather_nodes b') = dom (gather_nodes b) \<union> group_sets fg BROADCAST xs"
proof (induction xs arbitrary: b)
  case Nil
  then show ?case by (simp add: grows_refl group_sets_def)
next
  case (Cons ij xs)
  have ps: "\<forall>p\<in>set (sort (source_keys fg ij)). fst p < length fg"
    using source_keys_less [OF fg, of ij] Cons.prems(2) by simp
  have rest: "set xs \<subseteq> set (all_inputs fg)" using Cons.prems(2) by simp
  consider (sg) "ip_movement (input_at fg ij) = SCATTER_GATHER" | (bc) "ip_movement (input_at fg ij) = BROADCAST"
    | (other) "ip_movement (input_at fg ij) \<noteq> SCATTER_GATHER" "ip_movement (input_at fg ij) \<noteq> BROADCAST" by blast
  then show ?case
  proof cases
    case sg
    obtain b1 where b1: "create_shuffle_node config fg (sort (source_keys fg ij)) b = ok b1" "builder_ok fg config b1"
        "grows {} (bd_graph b) (bd_graph b1)" "dom (shuffle_nodes b1) = insert (sort (source_keys fg ij)) (dom (shuffle_nodes b))"
        "gather_nodes b1 = gather_nodes b"
      by (rule create_shuffle_node_ok [OF Cons.prems(1) ps])
    have "intermediate_node config fg ij b = ok b1" by (simp add: intermediate_node_def sg normalize_source_keys b1(1))
    moreover obtain b2 where b2: "for_each (intermediate_node config fg) xs b1 = ok b2" "builder_ok fg config b2"
        "grows {} (bd_graph b1) (bd_graph b2)" "dom (shuffle_nodes b2) = dom (shuffle_nodes b1) \<union> group_sets fg SCATTER_GATHER xs"
        "dom (gather_nodes b2) = dom (gather_nodes b1) \<union> group_sets fg BROADCAST xs"
      using Cons.IH [OF b1(2) rest] by auto
    moreover have "dom (shuffle_nodes b2) = dom (shuffle_nodes b) \<union> group_sets fg SCATTER_GATHER (ij # xs)"
      "dom (gather_nodes b2) = dom (gather_nodes b) \<union> group_sets fg BROADCAST (ij # xs)"
      unfolding b2(4,5) b1(4,5) group_sets_Cons using sg by auto
    ultimately show ?thesis using grows_trans [OF b1(3) b2(3)] by (simp only: for_each.simps andThen_simps) blast
  next
    case bc
    obtain b1 where b1: "create_gather_node fg (sort (source_keys fg ij)) b = ok b1" "builder_ok fg config b1"
        "grows {} (bd_graph b) (bd_graph b1)" "dom (gather_nodes b1) = insert (sort (source_keys fg ij)) (dom (gather_nodes b))"
        "shuffle_nodes b1 = shuffle_nodes b"
      by (rule create_gather_node_ok [OF Cons.prems(1) ps])
    have "intermediate_node config fg ij b = ok b1" by (simp add: intermediate_node_def bc normalize_source_keys b1(1))
    moreover obtain b2 where b2: "for_each (intermediate_node config fg) xs b1 = ok b2" "builder_ok fg config b2"
        "grows {} (bd_graph b1) (bd_graph b2)" "dom (shuffle_nodes b2) = dom (shuffle_nodes b1) \<union> group_sets fg SCATTER_GATHER xs"
        "dom (gather_nodes b2) = dom (gather_nodes b1) \<union> group_sets fg BROADCAST xs"
      using Cons.IH [OF b1(2) rest] by auto
    moreover have "dom (shuffle_nodes b2) = dom (shuffle_nodes b) \<union> group_sets fg SCATTER_GATHER (ij # xs)"
      "dom (gather_nodes b2) = dom (gather_nodes b) \<union> group_sets fg BROADCAST (ij # xs)"
      unfolding b2(4,5) b1(4,5) group_sets_Cons using bc by auto
    ultimately show ?thesis using grows_trans [OF b1(3) b2(3)] by (simp only: for_each.simps andThen_simps) blast
  next
    case other
    then have "intermediate_node config fg ij b = ok b" by (simp add: intermediate_node_def)
    then show ?thesis using Cons.IH [OF Cons.prems(1) rest] other by (simp add: group_sets_Cons)
  qed
qed

subsection \<open>Connecting the inputs\<close>

text \<open>One more producer at an input of the flow graph.\<close>

lemma link_input:
  assumes b: "builder_ok fg config b" and ij: "ij \<in> set (all_inputs fg)" and p: "fst p < length (bodies (bd_graph b))"
  obtains b' where "builder_edge (make_port (LogicalTaskIdentifier (fst p)) (snd p)) (make_port (LogicalTaskIdentifier (fst ij)) (snd ij)) s b = ok b'"
    "builder_ok fg config b'" "grows {ij} (bd_graph b) (bd_graph b')"
    "producers (bd_graph b') ij = producers (bd_graph b) ij @ [p]"
    "shuffle_nodes b' = shuffle_nodes b" "gather_nodes b' = gather_nodes b" "bodies (bd_graph b') = bodies (bd_graph b)"
proof -
  let ?g = "bd_graph b"
  have f: "frame_ok fg config ?g" using b by (simp add: builder_ok_def)
  have i: "fst ij < length fg" "fst ij < length (bodies ?g)" using ij frame_okD(2) [OF f] by (simp_all add: all_inputs_iff)
  obtain g' where g': "LogicalGraph.add_edge (make_port (LogicalTaskIdentifier (fst p)) (snd p)) (make_port (LogicalTaskIdentifier (fst ij)) (snd ij)) s ?g = ok g'"
      "edges_match g'" "bodies g' = bodies ?g" "edge_ends g' = edge_ends ?g @ [(p, ij)]"
      "producers g' = (\<lambda>x. if x = ij then producers ?g x @ [p] else producers ?g x)"
    using edge_step [OF frame_okD(1) [OF f] p i(2)] .
  have node: "node_is fg g' body ps t \<longleftrightarrow> node_is fg ?g body ps t" for body ps t
    using i(1) by (auto simp: node_is_def g'(3,5))
  have gr: "grows {ij} ?g g'" by (simp add: grows_def g'(3,5))
  have X: "{ij} \<subseteq> {c. fst c < length fg}" using i(1) by simp
  have "collector_ok fg config g' t" if "length fg \<le> t" "t < length (bodies g')" for t
    using collector_ok_grows [OF gr X _ that(1)] f that by (auto simp: frame_ok_def g'(3))
  then have "frame_ok fg config g'"
    using f g'(2) ij unfolding frame_ok_def by (auto simp: g'(3,4))
  moreover have "nodes_ok (shuffle_nodes b) fg g' (shuffle_task (partition_count config))" "nodes_ok (gather_nodes b) fg g' gather_task"
    using b by (simp_all add: builder_ok_def nodes_ok_def node)
  ultimately have "builder_ok fg config (b\<lparr>bd_graph := g'\<rparr>)" by (simp add: builder_ok_def)
  then show ?thesis using g' gr by (intro that [of "b\<lparr>bd_graph := g'\<rparr>"]) (simp_all add: builder_edge_def)
qed

definition fed_inv :: "flow_graph \<Rightarrow> configuration \<Rightarrow> (nat \<times> nat) set \<Rightarrow> 'm builder \<Rightarrow> bool" where
  "fed_inv fg config Q b \<longleftrightarrow> builder_ok fg config b \<and>
     (\<forall>ij\<in>set (all_inputs fg). if ij \<in> Q then input_fed fg config (bd_graph b) ij else producers (bd_graph b) ij = [])"

lemma fed_inv_step:
  assumes Q: "fed_inv fg config Q b" and b': "builder_ok fg config b'" "grows {ij} (bd_graph b) (bd_graph b')"
    and ij: "ij \<in> set (all_inputs fg)" "ij \<notin> Q" and fed: "input_fed fg config (bd_graph b') ij"
  shows "fed_inv fg config (insert ij Q) b'"
proof -
  have X: "{ij} \<subseteq> {c. fst c < length fg}" using ij by (simp add: all_inputs_iff)
  have n: "length fg \<le> length (bodies (bd_graph b))" using Q by (simp add: fed_inv_def builder_ok_def frame_ok_def)
  have "if kl \<in> insert ij Q then input_fed fg config (bd_graph b') kl else producers (bd_graph b') kl = []"
    if kl: "kl \<in> set (all_inputs fg)" for kl
  proof (cases "kl = ij")
    case False
    have k: "fst kl < length fg" using kl by (simp add: all_inputs_iff)
    then have "producers (bd_graph b') kl = producers (bd_graph b) kl"
      using grows_producers [OF b'(2), of kl] n False by simp
    moreover have "input_fed fg config (bd_graph b') kl" if "input_fed fg config (bd_graph b) kl"
      using input_fed_grows [OF b'(2) X _ k n that] False by simp
    ultimately show ?thesis using Q kl False by (auto simp: fed_inv_def split: if_splits)
  qed (use fed in simp)
  then show ?thesis using b'(1) by (simp add: fed_inv_def)
qed

lemma link_inputs:
  assumes "ij \<in> set (all_inputs fg)"
  shows "builder_ok fg config b \<Longrightarrow> \<forall>d\<in>set ds. pd_vertex_id d < length (bodies (bd_graph b)) \<Longrightarrow>
    \<exists>b'. for_each (\<lambda>d. builder_edge (make_port (LogicalTaskIdentifier (pd_vertex_id d)) (pd_port_id d))
            (make_port (LogicalTaskIdentifier (fst ij)) (snd ij)) s) ds b = ok b' \<and>
      builder_ok fg config b' \<and> grows {ij} (bd_graph b) (bd_graph b') \<and>
      producers (bd_graph b') ij = producers (bd_graph b) ij @ map (\<lambda>d. (pd_vertex_id d, pd_port_id d)) ds \<and>
      shuffle_nodes b' = shuffle_nodes b \<and> gather_nodes b' = gather_nodes b"
proof (induction ds arbitrary: b)
  case Nil
  then show ?case by (simp add: grows_refl)
next
  case (Cons d ds)
  let ?p = "(pd_vertex_id d, pd_port_id d)"
  have p: "fst ?p < length (bodies (bd_graph b))" using Cons.prems(2) by simp
  obtain b1 where b1: "builder_edge (make_port (LogicalTaskIdentifier (fst ?p)) (snd ?p)) (make_port (LogicalTaskIdentifier (fst ij)) (snd ij)) s b = ok b1"
    "builder_ok fg config b1" "grows {ij} (bd_graph b) (bd_graph b1)" "producers (bd_graph b1) ij = producers (bd_graph b) ij @ [?p]"
    "shuffle_nodes b1 = shuffle_nodes b" "gather_nodes b1 = gather_nodes b" "bodies (bd_graph b1) = bodies (bd_graph b)"
    by (rule link_input [OF Cons.prems(1) assms p])
  have "\<forall>d\<in>set ds. pd_vertex_id d < length (bodies (bd_graph b1))" using Cons.prems(2) b1(7) by simp
  from Cons.IH [OF b1(2) this] show ?case
    using b1 grows_trans [OF b1(3)] by (auto simp: fst_conv snd_conv)
qed

definition input_accepted :: "flow_graph \<Rightarrow> 'm builder \<Rightarrow> nat \<times> nat \<Rightarrow> bool" where
  "input_accepted fg b ij \<longleftrightarrow>
     (case ip_movement (input_at fg ij) of
        ONE_TO_ONE \<Rightarrow> True
      | BROADCAST \<Rightarrow> sort (source_keys fg ij) \<in> dom (gather_nodes b)
      | _ \<Rightarrow> sort (source_keys fg ij) \<in> dom (shuffle_nodes b))"

lemma create_input_edges_throws:
  assumes "\<not> input_accepted fg b ij"
  shows "create_input_edges fg ij b = throw Out_of_range"
  using assms
  by (cases "ip_movement (input_at fg ij)")
    (auto simp: input_accepted_def create_input_edges_def Let_def node_at_def normalize_source_keys domIff split: option.splits)

lemma value_sorter:
  assumes b: "builder_ok fg config b" and t: "node_is fg (bd_graph b) (shuffle_task (partition_count config)) ps t"
    and task: "lt_successors task = []" "lt_body task = value_sort_task (Some c)"
  obtains b' where
    "builder_edge (make_port (LogicalTaskIdentifier t) 0) (make_port (fst (add_logical_task task (bd_graph b))) 0) TERMINAL
       (b\<lparr>bd_graph := snd (add_logical_task task (bd_graph b))\<rparr>) = ok b'"
    "builder_ok fg config b'" "grows {} (bd_graph b) (bd_graph b')" "shuffle_nodes b' = shuffle_nodes b" "gather_nodes b' = gather_nodes b"
    "node_is fg (bd_graph b') (value_sort_task (Some c)) [(t, 0)] (length (bodies (bd_graph b)))"
    "node_is fg (bd_graph b') (shuffle_task (partition_count config)) ps t"
proof -
  let ?g = "bd_graph b" and ?g1 = "snd (add_logical_task task (bd_graph b))" and ?s = "length (bodies (bd_graph b))"
  have f: "frame_ok fg config ?g" using b by (simp add: builder_ok_def)
  have m: "edges_match ?g1" using add_logical_task_match [OF frame_okD(1) [OF f] task(1)] .
  have tl: "t < ?s" using t by (simp add: node_is_def)
  obtain g' where g': "LogicalGraph.add_edge (make_port (LogicalTaskIdentifier t) 0) (make_port (LogicalTaskIdentifier ?s) 0) TERMINAL ?g1 = ok g'"
      "edges_match g'" "bodies g' = bodies ?g1" "edge_ends g' = edge_ends ?g1 @ [((t, 0), (?s, 0))]"
      "producers g' = (\<lambda>x. if x = (?s, 0) then producers ?g1 x @ [(t, 0)] else producers ?g1 x)"
    using edge_step [OF m, of "(t, 0)" "(?s, 0)" TERMINAL] tl by auto
  have p: "producers g' = (\<lambda>x. if x = (?s, 0) then [(t, 0)] else producers ?g x)"
    using g'(5) producers_new [OF frame_okD(1) [OF f], of ?s 0] by auto
  have bo: "bodies g' = bodies ?g @ [value_sort_task (Some c)]" using g'(3) task(2) by simp
  have t': "node_is fg g' (shuffle_task (partition_count config)) ps t"
    using t by (auto simp: node_is_def bo p nth_append)
  have e: "set (edge_ends g') \<subseteq> set (edge_ends ?g) \<union> {e. snd e = (?s, 0)}" using g'(4) by auto
  have c: "collector_ok fg config g' ?s" using t' by (auto simp: collector_ok_def bo p)
  note app = frame_ok_append [OF f bo g'(2) p e c]
  have "nodes_ok (shuffle_nodes b) fg g' (shuffle_task (partition_count config))" "nodes_ok (gather_nodes b) fg g' gather_task"
    using b by (simp_all add: builder_ok_def nodes_ok_def app(3))
  then have "builder_ok fg config (b\<lparr>bd_graph := g'\<rparr>)" using app(1) by (simp add: builder_ok_def)
  then show ?thesis using g'(1) app t'
    by (intro that [of "b\<lparr>bd_graph := g'\<rparr>"]) (simp_all add: builder_edge_def length_bodies)
qed

lemma node_to_task:
  assumes "nodes_ok nodes fg g body" "ps \<in> dom nodes"
  obtains t where "node_at nodes ps = ok (LogicalTaskIdentifier t)" "node_is fg g body ps t"
proof -
  obtain t where t: "nodes ps = Some (LogicalTaskIdentifier t)" using assms(2) by (metis LogicalTaskIdentifier.exhaust domD)
  then have "node_is fg g body ps t" using assms(1) unfolding nodes_ok_def by blast
  moreover have "node_at nodes ps = ok (LogicalTaskIdentifier t)" by (simp add: node_at_def t)
  ultimately show ?thesis by (rule that [rotated])
qed

text \<open>An input fed by one port of another task.\<close>

lemma link_node:
  assumes b: "builder_ok fg config b" and ij: "ij \<in> set (all_inputs fg)" and e: "producers (bd_graph b) ij = []"
    and t: "node_is fg (bd_graph b) body ps t"
  obtains b' where "builder_edge (make_port (LogicalTaskIdentifier t) 0) (make_port (LogicalTaskIdentifier (fst ij)) (snd ij)) s b = ok b'"
    "builder_ok fg config b'" "grows {ij} (bd_graph b) (bd_graph b')" "producers (bd_graph b') ij = [(t, 0)]"
    "shuffle_nodes b' = shuffle_nodes b" "gather_nodes b' = gather_nodes b"
    "\<forall>body' ps' t'. node_is fg (bd_graph b) body' ps' t' \<longrightarrow> node_is fg (bd_graph b') body' ps' t'"
proof -
  have tl: "fst (t, 0 :: nat) < length (bodies (bd_graph b))" using t by (simp add: node_is_def)
  obtain b' where b': "builder_edge (make_port (LogicalTaskIdentifier (fst (t, 0))) (snd (t, 0))) (make_port (LogicalTaskIdentifier (fst ij)) (snd ij)) s b = ok b'"
      "builder_ok fg config b'" "grows {ij} (bd_graph b) (bd_graph b')" "producers (bd_graph b') ij = producers (bd_graph b) ij @ [(t, 0)]"
      "shuffle_nodes b' = shuffle_nodes b" "gather_nodes b' = gather_nodes b" "bodies (bd_graph b') = bodies (bd_graph b)"
    using link_input [OF b ij tl, of s] by auto
  have "{ij} \<subseteq> {c. fst c < length fg}" using ij by (simp add: all_inputs_iff)
  note node = node_is_grows [OF b'(3) _ this]
  show ?thesis by (rule that [of b']) (use b' e node in simp_all)
qed

lemma create_input_edges_ok:
  assumes fg: "flow_graph_ok fg" and Q: "fed_inv fg config Q b" and ij: "ij \<in> set (all_inputs fg)" "ij \<notin> Q"
    and acc: "input_accepted fg b ij"
  shows "\<exists>b'. create_input_edges fg ij b = ok b' \<and> fed_inv fg config (insert ij Q) b' \<and>
    shuffle_nodes b' = shuffle_nodes b \<and> gather_nodes b' = gather_nodes b"
proof -
  have b: "builder_ok fg config b" and e: "producers (bd_graph b) ij = []" using Q ij by (auto simp: fed_inv_def)
  have f: "frame_ok fg config (bd_graph b)" using b by (simp add: builder_ok_def)
  note step = fed_inv_step [OF Q _ _ ij]
  let ?ps = "sort (source_keys fg ij)"
  show ?thesis
  proof (cases "ip_movement (input_at fg ij) = ONE_TO_ONE \<or> ip_movement (input_at fg ij) = BROADCAST")
    case direct: True
    show ?thesis
    proof (cases "ip_movement (input_at fg ij) = ONE_TO_ONE")
      case True
      have "\<forall>d\<in>set (sources_at fg ij). pd_vertex_id d < length (bodies (bd_graph b))"
        using source_keys_less [OF fg ij(1)] frame_okD(2) [OF f] by (fastforce simp: source_keys_def)
      from link_inputs [OF ij(1) b this, of BARRIER] obtain b' where b':
          "create_input_edges fg ij b = ok b'" "builder_ok fg config b'" "grows {ij} (bd_graph b) (bd_graph b')"
          "producers (bd_graph b') ij = source_keys fg ij" "shuffle_nodes b' = shuffle_nodes b" "gather_nodes b' = gather_nodes b"
        using True e by (auto simp: create_input_edges_def source_keys_def)
      have "input_fed fg config (bd_graph b') ij" using True b'(4) by (simp add: input_fed_def)
      then show ?thesis using b' step [OF b'(2,3)] by blast
    next
      case False
      then have bc: "ip_movement (input_at fg ij) = BROADCAST" using direct by simp
      have nodes: "nodes_ok (gather_nodes b) fg (bd_graph b) gather_task" using b by (simp add: builder_ok_def)
      have "?ps \<in> dom (gather_nodes b)" using acc bc by (simp add: input_accepted_def)
      then obtain t where t: "node_at (gather_nodes b) ?ps = ok (LogicalTaskIdentifier t)" "node_is fg (bd_graph b) gather_task ?ps t"
        using node_to_task [OF nodes] by blast
      obtain b' where b': "builder_edge (make_port (LogicalTaskIdentifier t) 0) (make_port (LogicalTaskIdentifier (fst ij)) (snd ij)) ENTRY b = ok b'"
          "builder_ok fg config b'" "grows {ij} (bd_graph b) (bd_graph b')" "producers (bd_graph b') ij = [(t, 0)]"
          "shuffle_nodes b' = shuffle_nodes b" "gather_nodes b' = gather_nodes b"
          "\<forall>body' ps' t'. node_is fg (bd_graph b) body' ps' t' \<longrightarrow> node_is fg (bd_graph b') body' ps' t'"
        by (rule link_node [OF b ij(1) e t(2), where s = ENTRY])
      have "create_input_edges fg ij b = ok b'"
        using bc b'(1) t(1) by (simp add: create_input_edges_def Let_def normalize_source_keys)
      moreover have "input_fed fg config (bd_graph b') ij" using bc b'(4,7) t(2) by (auto simp: input_fed_def)
      ultimately show ?thesis using b' step [OF b'(2,3)] by blast
    qed
  next
    case False
    have nodes: "nodes_ok (shuffle_nodes b) fg (bd_graph b) (shuffle_task (partition_count config))" using b by (simp add: builder_ok_def)
    have "?ps \<in> dom (shuffle_nodes b)" using acc False by (cases "ip_movement (input_at fg ij)") (auto simp: input_accepted_def)
    then obtain t where t: "node_at (shuffle_nodes b) ?ps = ok (LogicalTaskIdentifier t)"
        "node_is fg (bd_graph b) (shuffle_task (partition_count config)) ?ps t"
      using node_to_task [OF nodes] by blast
    have fed: "input_fed fg config g ij" if "shuffled fg config g ij" for g :: "'a logical_graph"
      using that False by (cases "ip_movement (input_at fg ij)") (simp_all add: input_fed_def)
    show ?thesis
    proof (cases "ip_value_comparator (input_at fg ij)")
      case None
      obtain b' where b': "builder_edge (make_port (LogicalTaskIdentifier t) 0) (make_port (LogicalTaskIdentifier (fst ij)) (snd ij)) BARRIER b = ok b'"
          "builder_ok fg config b'" "grows {ij} (bd_graph b) (bd_graph b')" "producers (bd_graph b') ij = [(t, 0)]"
          "shuffle_nodes b' = shuffle_nodes b" "gather_nodes b' = gather_nodes b"
          "\<forall>body' ps' t'. node_is fg (bd_graph b) body' ps' t' \<longrightarrow> node_is fg (bd_graph b') body' ps' t'"
        by (rule link_node [OF b ij(1) e t(2), where s = BARRIER])
      have "create_input_edges fg ij b = ok b'"
        using False None b'(1) t(1) by (simp add: create_input_edges_def Let_def normalize_source_keys)
      moreover have "shuffled fg config (bd_graph b') ij" using b'(4,7) t(2) None by (auto simp: shuffled_def)
      ultimately show ?thesis using b' step [OF b'(2,3)] fed by blast
    next
      case (Some c)
      let ?task = "set_task_name (sort_name fg ij) (make_logical_task (value_sort_task (Some c)))"
      have task: "lt_successors ?task = []" "lt_body ?task = value_sort_task (Some c)"
        by (simp_all add: set_task_name_def make_logical_task_def)
      let ?s = "length (bodies (bd_graph b))"
      obtain b1 where b1: "builder_edge (make_port (LogicalTaskIdentifier t) 0) (make_port (fst (add_logical_task ?task (bd_graph b))) 0) TERMINAL
             (b\<lparr>bd_graph := snd (add_logical_task ?task (bd_graph b))\<rparr>) = ok b1"
          "builder_ok fg config b1" "grows {} (bd_graph b) (bd_graph b1)" "shuffle_nodes b1 = shuffle_nodes b" "gather_nodes b1 = gather_nodes b"
          "node_is fg (bd_graph b1) (value_sort_task (Some c)) [(t, 0)] ?s"
          "node_is fg (bd_graph b1) (shuffle_task (partition_count config)) ?ps t"
        by (rule value_sorter [OF b t(2) task])
      have "fst ij < length (bodies (bd_graph b))" using ij(1) frame_okD(2) [OF f] by (simp add: all_inputs_iff)
      then have e1: "producers (bd_graph b1) ij = []" using grows_producers [OF b1(3), of ij] e by simp
      obtain b' where b': "builder_edge (make_port (LogicalTaskIdentifier ?s) 0) (make_port (LogicalTaskIdentifier (fst ij)) (snd ij)) BARRIER b1 = ok b'"
          "builder_ok fg config b'" "grows {ij} (bd_graph b1) (bd_graph b')" "producers (bd_graph b') ij = [(?s, 0)]"
          "shuffle_nodes b' = shuffle_nodes b1" "gather_nodes b' = gather_nodes b1"
          "\<forall>body' ps' t'. node_is fg (bd_graph b1) body' ps' t' \<longrightarrow> node_is fg (bd_graph b') body' ps' t'"
        by (rule link_node [OF b1(2) ij(1) e1 b1(6), where s = BARRIER])
      have "create_input_edges fg ij b = ok b'"
        using False Some b1(1) b'(1) t(1)
        by (simp add: create_input_edges_def Let_def normalize_source_keys split_beta length_bodies)
      moreover have "shuffled fg config (bd_graph b') ij"
        using b'(4) b'(7) [rule_format, OF b1(6)] b'(7) [rule_format, OF b1(7)] Some unfolding shuffled_def by auto
      moreover have "grows {ij} (bd_graph b) (bd_graph b')"
        using b'(3) by (rule grows_trans [OF grows_mono [OF b1(3) empty_subsetI]])
      ultimately show ?thesis using b'(2,5,6) b1(4,5) step fed by metis
    qed
  qed
qed

lemma create_edges_ok:
  assumes fg: "flow_graph_ok fg"
  shows "fed_inv fg config Q b \<Longrightarrow> set xs \<subseteq> set (all_inputs fg) \<Longrightarrow> distinct xs \<Longrightarrow> set xs \<inter> Q = {} \<Longrightarrow>
    if \<forall>ij\<in>set xs. input_accepted fg b ij
    then \<exists>b'. for_each (create_input_edges fg) xs b = ok b' \<and> fed_inv fg config (set xs \<union> Q) b'
    else for_each (create_input_edges fg) xs b = throw Out_of_range"
proof (induction xs arbitrary: b Q)
  case (Cons ij xs)
  show ?case
  proof (cases "input_accepted fg b ij")
    case True
    have ij: "ij \<in> set (all_inputs fg)" "ij \<notin> Q" using Cons.prems by auto
    obtain b1 where b1: "create_input_edges fg ij b = ok b1" "fed_inv fg config (insert ij Q) b1"
        "shuffle_nodes b1 = shuffle_nodes b" "gather_nodes b1 = gather_nodes b"
      using create_input_edges_ok [OF fg Cons.prems(1) ij True] by blast
    have acc: "input_accepted fg b1 x = input_accepted fg b x" for x 
      unfolding input_accepted_def b1(3,4) ..
    have "set xs \<union> insert ij Q = set (ij # xs) \<union> Q" by auto
    then show ?thesis using Cons.IH [OF b1(2)] Cons.prems b1(1) True by (auto simp: acc)
  next
    case False
    then show ?thesis using create_input_edges_throws [OF False] by simp
  qed
qed simp

subsection \<open>The whole builder\<close>

text \<open>An input without a movement is accepted only if its sources are those of a grouped input.\<close>

definition buildable :: "flow_graph \<Rightarrow> bool" where
  "buildable fg \<longleftrightarrow> (\<forall>ij\<in>set (all_inputs fg). ip_movement (input_at fg ij) = UNDEFINED \<longrightarrow>
     (\<exists>kl\<in>set (all_inputs fg). ip_movement (input_at fg kl) = SCATTER_GATHER \<and> mset (source_keys fg kl) = mset (source_keys fg ij)))"

lemma sort_eq_iff_mset: "sort xs = sort ys \<longleftrightarrow> mset xs = mset (ys :: 'a :: linorder list)"
  by (metis mset_sort properties_for_sort sorted_sort)

lemma group_sets_mem:
  "sort (source_keys fg ij) \<in> group_sets fg mv xs \<longleftrightarrow>
     (\<exists>kl\<in>set xs. ip_movement (input_at fg kl) = mv \<and> mset (source_keys fg kl) = mset (source_keys fg ij))"
proof -
  have "sort (source_keys fg ij) = sort (source_keys fg kl) \<longleftrightarrow> mset (source_keys fg kl) = mset (source_keys fg ij)" for kl
    using sort_eq_iff_mset [of "source_keys fg kl" "source_keys fg ij"] by auto
  then show ?thesis by (auto simp: group_sets_def image_iff)
qed

lemma buildable_iff:
  "buildable fg \<longleftrightarrow> (\<forall>ij\<in>set (all_inputs fg). ip_movement (input_at fg ij) = UNDEFINED \<longrightarrow>
     sort (source_keys fg ij) \<in> group_sets fg SCATTER_GATHER (all_inputs fg))"
  by (simp only: buildable_def group_sets_mem)

lemma build_logical_graph_result:
  assumes fg: "flow_graph_ok fg"
  shows "if buildable fg then \<exists>g :: 'm logical_graph. build_logical_graph fg config = ok g \<and> well_built fg config g
    else build_logical_graph fg config = (throw Out_of_range :: 'm logical_graph result)"
proof -
  let ?b0 = "start_builder config fg :: 'm builder"
  let ?ins = "all_inputs fg"
  have b0: "builder_ok fg config ?b0" "producers (bd_graph ?b0) c = []" "shuffle_nodes ?b0 = (\<lambda>_. None)" "gather_nodes ?b0 = (\<lambda>_. None)" for c
    using start_builder_ok [of ?b0 config fg] by simp_all
  obtain b where b: "for_each (intermediate_node config fg) ?ins ?b0 = ok b" "builder_ok fg config b" "grows {} (bd_graph ?b0) (bd_graph b)"
      "dom (shuffle_nodes b) = group_sets fg SCATTER_GATHER ?ins" "dom (gather_nodes b) = group_sets fg BROADCAST ?ins"
    using intermediate_nodes_ok [OF fg b0(1) subset_refl] by (auto simp: b0(3,4))
  have n: "length fg \<le> length (bodies (bd_graph ?b0))" using b0(1) by (auto simp: builder_ok_def frame_ok_def)
  have "producers (bd_graph b) ij = []" if "ij \<in> set ?ins" for ij
    using grows_producers [OF b(3), of ij] b0(2) n that by (auto simp: all_inputs_iff)
  then have inv: "fed_inv fg config {} b" using b(2) by (simp add: fed_inv_def)
  have acc: "(\<forall>ij\<in>set ?ins. input_accepted fg b ij) \<longleftrightarrow> buildable fg"
    unfolding buildable_iff
  proof (intro ball_cong refl)
    fix ij assume "ij \<in> set ?ins"
    then show "input_accepted fg b ij \<longleftrightarrow> (ip_movement (input_at fg ij) = UNDEFINED \<longrightarrow>
        sort (source_keys fg ij) \<in> group_sets fg SCATTER_GATHER ?ins)"
      unfolding input_accepted_def b(4,5) by (cases "ip_movement (input_at fg ij)") (auto simp: group_sets_def)
  qed
  have build: "build_logical_graph fg config = andThen (for_each (create_input_edges fg) ?ins b) (\<lambda>b. ok (bd_graph b))"
    using b(1) by (simp add: build_logical_graph_def create_intermediate_nodes_def create_edges_def start_builder_def Let_def)
  note res = create_edges_ok [OF fg inv subset_refl distinct_all_inputs Int_empty_right]
  show ?thesis
  proof (cases "buildable fg")
    case True
    then obtain b' where b': "for_each (create_input_edges fg) ?ins b = ok b'" "fed_inv fg config (set ?ins) b'"
      using res acc by auto
    have "well_built fg config (bd_graph b')"
      using b'(2) unfolding well_built_def fed_inv_def builder_ok_def nodes_ok_def by (auto simp: if_bool_eq_conj) (metis LogicalTaskIdentifier.inject option.inject)+
    then show ?thesis using True build b'(1) by simp
  next
    case False
    then show ?thesis using res acc build by auto
  qed
qed

subsection \<open>No new cycles\<close>

definition logical_edges :: "'m logical_graph \<Rightarrow> nat rel" where
  "logical_edges g = (\<lambda>e. (fst (fst e), fst (snd e))) ` set (edge_ends g)"

lemma acyclic_depth:
  assumes "finite r" "acyclic r"
  obtains f :: "'a \<Rightarrow> nat" where "\<And>u v. (u, v) \<in> r \<Longrightarrow> f u < f v"
proof
  fix u v assume uv: "(u, v) \<in> r"
  have fin: "finite {w. (w, x) \<in> r\<^sup>+}" for x
    by (rule finite_subset [of _ "Domain r"]) (use assms(1) in \<open>auto simp: finite_Domain dest: tranclD\<close>)
  have "{w. (w, u) \<in> r\<^sup>+} \<subset> {w. (w, v) \<in> r\<^sup>+}"
    using uv assms(2) by (auto simp: acyclic_def intro: trancl_into_trancl)
  then show "card {w. (w, u) \<in> r\<^sup>+} < card {w. (w, v) \<in> r\<^sup>+}" using fin psubset_card_mono by blast
qed

lemma finite_flow_edges: "finite (flow_edges fg)"
proof -
  have "flow_edges fg \<subseteq> (\<Union>v<length fg. set (source_vertices (fg ! v)) \<times> {v})" by (auto simp: flow_edges_def)
  then show ?thesis by (rule finite_subset) simp
qed

definition collector_rank :: "'m logical_graph \<Rightarrow> (nat \<Rightarrow> nat) \<Rightarrow> nat \<Rightarrow> nat" where
  "collector_rank g f t = 4 * Max (insert 0 ((\<lambda>p. f (fst p) + 1) ` set (producers g (t, 0))))"

definition task_rank :: "flow_graph \<Rightarrow> 'm logical_graph \<Rightarrow> (nat \<Rightarrow> nat) \<Rightarrow> nat \<Rightarrow> nat" where
  "task_rank fg g f t =
     (if t < length fg then 4 * f t + 3
      else if \<exists>c. bodies g ! t = value_sort_task c then collector_rank g f (fst (hd (producers g (t, 0)))) + 1
      else collector_rank g f t)"

lemma collector_rank_bounds:
  "p \<in> set (producers g (t, 0)) \<Longrightarrow> 4 * f (fst p) + 3 < collector_rank g f t"
  "\<forall>p\<in>set (producers g (t, 0)). f (fst p) < k \<Longrightarrow> collector_rank g f t \<le> 4 * k"
proof -
  assume "p \<in> set (producers g (t, 0))"
  then have "f (fst p) + 1 \<le> Max (insert 0 ((\<lambda>p. f (fst p) + 1) ` set (producers g (t, 0))))"
    by (intro Max_ge) auto
  then show "4 * f (fst p) + 3 < collector_rank g f t" by (simp add: collector_rank_def)
next
  assume "\<forall>p\<in>set (producers g (t, 0)). f (fst p) < k"
  then have "Max (insert 0 ((\<lambda>p. f (fst p) + 1) ` set (producers g (t, 0)))) \<le> k"
    by (intro Max.boundedI) (auto simp: Suc_le_eq)
  then show "collector_rank g f t \<le> 4 * k" by (simp add: collector_rank_def)
qed

lemma node_rank:
  "node_is fg g (shuffle_task n) ps t \<Longrightarrow> task_rank fg g f t = collector_rank g f t"
  "node_is fg g gather_task ps t \<Longrightarrow> task_rank fg g f t = collector_rank g f t"
  "node_is fg g (value_sort_task c) [(t', 0)] t \<Longrightarrow> task_rank fg g f t = collector_rank g f t' + 1"
  by (auto simp: node_is_def task_rank_def)

lemma edge_increases_rank:
  assumes fg: "flow_graph_ok fg" and g: "well_built fg config g" and f: "\<And>u v. (u, v) \<in> flow_edges fg \<Longrightarrow> f u < f v"
    and e: "e \<in> set (edge_ends g)"
  shows "task_rank fg g f (fst (fst e)) < task_rank fg g f (fst (snd e))"
proof -
  have p: "fst e \<in> set (producers g (snd e))" using e by (auto simp: producers_def)
  have "snd e \<in> set (all_inputs fg) \<or> length fg \<le> fst (snd e) \<and> snd (snd e) = 0" using g e by (simp add: well_built_def frame_ok_def)
  then show ?thesis
  proof
    assume ij: "snd e \<in> set (all_inputs fg)"
    then have i: "task_rank fg g f (fst (snd e)) = 4 * f (fst (snd e)) + 3" by (simp add: all_inputs_iff task_rank_def)
    have src: "f (fst q) < f (fst (snd e))" "fst q < length fg" if "q \<in> set (source_keys fg (snd e))" for q
      using f source_keys_edge [OF fg ij that] source_keys_less [OF fg ij that] by blast+
    have coll: "collector_rank g f t \<le> 4 * f (fst (snd e))" if "producers g (t, 0) = sort (source_keys fg (snd e))" for t
      by (rule collector_rank_bounds(2)) (use src(1) that in simp)
    have through: ?thesis if "producers g (snd e) = [(s, 0)]" "task_rank fg g f s \<le> 4 * f (fst (snd e)) + 1" for s
      using that p i by simp
    have shuffled: ?thesis if sh: "shuffled fg config g (snd e)"
    proof -
      obtain t where t: "node_is fg g (shuffle_task (partition_count config)) (sort (source_keys fg (snd e))) t"
          "case ip_value_comparator (input_at fg (snd e)) of None \<Rightarrow> producers g (snd e) = [(t, 0)]
           | Some c \<Rightarrow> \<exists>s. producers g (snd e) = [(s, 0)] \<and> node_is fg g (value_sort_task (Some c)) [(t, 0)] s"
        using sh unfolding shuffled_def by blast
      have r: "collector_rank g f t \<le> 4 * f (fst (snd e))" "task_rank fg g f t = collector_rank g f t"
        using coll [of t] t(1) node_rank(1) [OF t(1), of f] by (simp_all add: node_is_def)
      show ?thesis
      proof (cases "ip_value_comparator (input_at fg (snd e))")
        case None
        then show ?thesis using t(2) r through [of t] by simp
      next
        case (Some c)
        then obtain s where s: "producers g (snd e) = [(s, 0)]" "node_is fg g (value_sort_task (Some c)) [(t, 0)] s" using t(2) by auto
        show ?thesis using through [OF s(1)] node_rank(3) [OF s(2), of f] r(1) by simp
      qed
    qed
    have fed: "input_fed fg config g (snd e)" using g ij by (simp add: well_built_def)
    show ?thesis
    proof (cases "ip_movement (input_at fg (snd e))")
      case ONE_TO_ONE
      then have "fst e \<in> set (source_keys fg (snd e))" using fed p by (simp add: input_fed_def)
      then show ?thesis using src i by (simp add: task_rank_def)
    next
      case BROADCAST
      then obtain t where t: "producers g (snd e) = [(t, 0)]" "node_is fg g gather_task (sort (source_keys fg (snd e))) t"
        using fed by (auto simp: input_fed_def)
      then show ?thesis using through [OF t(1)] coll [of t] node_rank(2) [OF t(2), of f] by (simp add: node_is_def)
    next
      case SCATTER_GATHER
      then show ?thesis using fed shuffled by (simp add: input_fed_def)
    next
      case UNDEFINED
      then show ?thesis using fed shuffled by (simp add: input_fed_def)
    qed
  next
    assume t: "length fg \<le> fst (snd e) \<and> snd (snd e) = 0"
    then have s: "snd e = (fst (snd e), 0)" by (simp add: prod_eq_iff)
    have "fst (snd e) < length (bodies g)"
      using g e by (auto simp: well_built_def frame_ok_def edges_match_def length_bodies)
    then have "collector_ok fg config g (fst (snd e))" using g t by (simp add: well_built_def frame_ok_def)
    then consider (coll) "bodies g ! fst (snd e) = shuffle_task (partition_count config) \<or> bodies g ! fst (snd e) = gather_task"
        "fst ` set (producers g (fst (snd e), 0)) \<subseteq> {..<length fg}"
      | (sort) c t' ps where "bodies g ! fst (snd e) = value_sort_task (Some c)" "producers g (fst (snd e), 0) = [(t', 0)]"
        "node_is fg g (shuffle_task (partition_count config)) ps t'"
      unfolding collector_ok_def by blast
    then show ?thesis
    proof cases
      case coll
      have "fst (fst e) < length fg" using coll(2) p s by auto
      moreover have "4 * f (fst (fst e)) + 3 < collector_rank g f (fst (snd e))"
        by (rule collector_rank_bounds(1)) (use p s in metis)
      ultimately show ?thesis using coll(1) t by (auto simp: task_rank_def)
    next
      case sort
      have "fst e = (t', 0)" using sort(2) p s by (metis empty_iff insert_iff list.set)
      then show ?thesis using sort t node_rank(1) [OF sort(3), of f] by (auto simp: task_rank_def)
    qed
  qed
qed

lemma well_built_acyclic:
  assumes "flow_graph_ok fg" "well_built fg config g" "acyclic (flow_edges fg)"
  shows "acyclic (logical_edges g)"
proof -
  obtain f :: "nat \<Rightarrow> nat" where f: "\<And>u v. (u, v) \<in> flow_edges fg \<Longrightarrow> f u < f v"
    using acyclic_depth [OF finite_flow_edges assms(3)] by blast
  have "logical_edges g \<subseteq> measure (task_rank fg g f)"
    using edge_increases_rank [OF assms(1,2) f] by (auto simp: logical_edges_def)
  then show ?thesis using wf_acyclic wf_measure acyclic_subset by blast
qed

subsection \<open>Properties\<close>

text \<open>
  C24: for every graph a user can build, the builder throws std::out_of_range exactly when an input has
  no movement and its sources are not those of a SCATTER_GATHER input. Otherwise every vertex has a process
  task of the kind its inputs ask for; a ONE_TO_ONE input is fed by its sources in order, a
  BROADCAST input by a gather task of its sources, a SCATTER_GATHER input by a shuffle task of its sources,
  through a value sort task of its own when it has a comparator. Equal source sets share their
  shuffle or gather task, and the successors of every task are the edges of the graph.
\<close>
theorem logical_graph_feeds_inputs:
  "case (build_logical_graph (built_graph ops) config :: 'm logical_graph result) of
     Inl e \<Rightarrow> e = Out_of_range \<and> \<not> buildable (built_graph ops)
   | Inr g \<Rightarrow> buildable (built_graph ops) \<and> well_built (built_graph ops) config g"
  using build_logical_graph_result [OF built_graph_ok, where ?'m = 'm, of ops config]
  by (auto simp: ok_def throw_def split: if_splits)

lemma built_logical_graph_ok:
  assumes "build_logical_graph (built_graph ops) config = ok (g :: 'm logical_graph)"
  shows "well_built (built_graph ops) config g"
  using build_logical_graph_result [OF built_graph_ok, where ?'m = 'm, of ops config] assms
  by (auto simp: ok_def throw_def split: if_splits)

lemma built_logical_graph_acyclic:
  assumes "has_cycle (built_graph ops) = Some False"
    and "build_logical_graph (built_graph ops) config = ok (g :: 'm logical_graph)"
  shows "acyclic (logical_edges g)"
proof -
  have "acyclic (flow_edges (built_graph ops))"
    using assms(1) has_cycle_fuel_correct [OF built_graph_ok, of ops "length (built_graph ops) + 1"] by (simp add: has_cycle_def)
  then show ?thesis by (rule well_built_acyclic [OF built_graph_ok built_logical_graph_ok [OF assms(2)]])
qed

text \<open>
  C25: the builder adds no cycle: when the search of the flow graph finds none, no chain of
  dependencies leads from a logical task back to itself, although shuffle and gather tasks are shared
  between vertices.
\<close>
theorem logical_graph_acyclic:
  assumes "has_cycle (built_graph ops) = Some False"
    and "build_logical_graph (built_graph ops) config = ok (g :: 'm logical_graph)"
  shows "acyclic (logical_edges g)"
  by (rule built_logical_graph_acyclic [OF assms])

definition example_ops :: "graph_op list" where
  "example_ops =
     [AddVertex ''source'' (default_processor\<lparr>output_ports := [\<lparr>op_name = ''out'', op_has_key = True\<rparr>]\<rparr>),
      AddVertex ''sink'' (default_processor\<lparr>input_ports := [\<lparr>ip_name = ''in'', ip_movement = SCATTER_GATHER, ip_value_comparator = None\<rparr>]\<rparr>),
      AddEdge (make_port_descriptor 0 0) (make_port_descriptor 1 0)]"

definition example_configuration :: configuration where
  "example_configuration = \<lparr>max_concurrency = 1, partition_count = 2, default_output_buffer_size = 64,
     default_records_per_buffer = 8, affinity = AffinityNONE, profile_log = []\<rparr>"

lemma example_graph:
  "built_graph example_ops =
     [\<lparr>vx_name = ''source'', vx_processor = default_processor\<lparr>output_ports := [\<lparr>op_name = ''out'', op_has_key = True\<rparr>]\<rparr>, vx_sources = []\<rparr>,
      \<lparr>vx_name = ''sink'', vx_processor = default_processor\<lparr>input_ports := [\<lparr>ip_name = ''in'', ip_movement = SCATTER_GATHER, ip_value_comparator = None\<rparr>]\<rparr>,
       vx_sources = [[\<lparr>pd_vertex_id = 0, pd_port_id = 0\<rparr>]]\<rparr>]"
  by (simp add: built_graph_def example_ops_def add_vertex_def FlowGraph.add_edge_def make_flow_vertex_def default_processor_def
      valid_output_descriptor_def valid_input_descriptor_def make_port_descriptor_def vx_input_ports_def vx_output_ports_def
      connect_def Let_def ok_def)

lemma example_build:
  obtains g :: "'m logical_graph" where "build_logical_graph (built_graph example_ops) example_configuration = ok g"
    "edge_ends g = [((0, 0), (2, 0)), ((2, 0), (1, 0))]" "length (lg_tasks g) = 3"
proof -
  have ins: "all_inputs (built_graph example_ops) = [(1, 0)]"
    by (simp add: example_graph all_inputs_def vx_input_ports_def default_processor_def)
  have "case (build_logical_graph (built_graph example_ops) example_configuration :: 'm logical_graph result) of
      Inl _ \<Rightarrow> False | Inr g \<Rightarrow> edge_ends g = [((0, 0), (2, 0)), ((2, 0), (1, 0))] \<and> length (lg_tasks g) = 3"
    by (simp add: build_logical_graph_def create_intermediate_nodes_def create_edges_def ins)
      (simp add: example_graph create_processor_nodes_def create_processor_node_def
      intermediate_node_def create_input_edges_def input_at_def sources_at_def vx_input_ports_def default_processor_def
      create_shuffle_node_def normalize_port_set_def LogicalGraph.add_edge_def add_logical_task_def builder_edge_def node_at_def
      make_port_def end_of_def edge_ends_def make_edge_def new_builder_def empty_logical_graph_def Let_def ok_def)
  then show ?thesis using that by (auto simp: ok_def split: sum.splits)
qed

lemma example_has_no_cycle: "has_cycle (built_graph example_ops) = Some False"
  by (simp add: example_graph has_cycle_def has_cycle_fuel_def numeral_eq_Suc source_vertices_def Let_def)

theorem logical_graph_acyclic_witness:
  "\<exists>g :: nat logical_graph. build_logical_graph (built_graph example_ops) example_configuration = ok g \<and>
     logical_edges g = {(0, 2), (2, 1)} \<and> acyclic (logical_edges g)"
proof -
  obtain g :: "nat logical_graph" where g: "build_logical_graph (built_graph example_ops) example_configuration = ok g"
    "edge_ends g = [((0, 0), (2, 0)), ((2, 0), (1, 0))]" "length (lg_tasks g) = 3"
    by (rule example_build)
  from logical_graph_acyclic [OF example_has_no_cycle g(1)] show ?thesis using g by (auto simp: logical_edges_def)
qed

end
