(* ===== verification/TaskGraph.thy ===== *)
theory TaskGraph
  imports LogicalGraphProperties SchedulerMachine
begin

text \<open>
  The physical tasks every logical task starts with: \<open>create_physical_tasks\<close> and
  \<open>commit_physical_tasks\<close> of the process, shuffle, gather and value sort tasks, and
  \<open>LogicalGraph::create_physical_tasks\<close> (graph/logical_graph.cpp). A command is one of the command
  classes with its fields; the logical task it points to is the one its physical task is created for,
  and inputs are held unlocked until the command is prepared.
\<close>

subsection \<open>Commands\<close>

datatype 'm process_command =
    ThreadLocalFinalizeCommand
  | InputProcessRunCommand identifier_type
  | OneToOneProcessRunCommand 'm identifier_type
  | ScatterGatherProcessRunCommand "'m option list" identifier_type

datatype 'm command =
    PhysicalTaskCommandBase
  | GlobalInitializeCommand
  | GlobalFinalizeCommand
  | ProcessBarrierCommand
  | ProcessCommandWrapper "'m process_command"
  | ShufflePartitionCommand 'm
  | ShuffleSortCommand identifier_type "'m list"
  | ShuffleBarrierCommand
  | GatherPhysicalCommand
  | ValueSortCommand 'm identifier_type

subsection \<open>Creation\<close>

text \<open>The entry task before the barrier task before the terminal task.\<close>

definition create_three_tasks ::
  "'m command \<Rightarrow> 'm command \<Rightarrow> 'm command \<Rightarrow> 'm logical_task \<Rightarrow> 'm command scheduler \<Rightarrow>
    ('m logical_task \<times> 'm command scheduler) option" where
  "create_three_tasks entry barrier terminal t s =
     (let (entry_id, s) = create_physical_task (lt_task_id t) entry no_locality_option s;
          (barrier_id, s) = create_physical_task (lt_task_id t) barrier no_locality_option s;
          (terminal_id, s) = create_physical_task (lt_task_id t) terminal no_locality_option s
      in do {
        s \<leftarrow> add_dependency entry_id barrier_id s;
        s \<leftarrow> add_dependency barrier_id terminal_id s;
        Some (set_terminal_task terminal_id (set_barrier_task barrier_id (set_entry_task entry_id t)), s)
      })"

definition process_create_tasks :: "'m logical_task \<Rightarrow> 'm command scheduler \<Rightarrow> ('m logical_task \<times> 'm command scheduler) option" where
  "process_create_tasks = create_three_tasks GlobalInitializeCommand ProcessBarrierCommand GlobalFinalizeCommand"

definition shuffle_create_tasks :: "'m logical_task \<Rightarrow> 'm command scheduler \<Rightarrow> ('m logical_task \<times> 'm command scheduler) option" where
  "shuffle_create_tasks = create_three_tasks PhysicalTaskCommandBase ShuffleBarrierCommand PhysicalTaskCommandBase"

definition gather_create_tasks :: "'m logical_task \<Rightarrow> 'm command scheduler \<Rightarrow> ('m logical_task \<times> 'm command scheduler) option" where
  "gather_create_tasks t s =
     (let (physical_task_id, s) = create_physical_task (lt_task_id t) GatherPhysicalCommand no_locality_option s
      in Some (set_terminal_task physical_task_id (set_barrier_task physical_task_id (set_entry_task physical_task_id t)), s))"

definition value_sort_create_tasks :: "'m logical_task \<Rightarrow> 'm command scheduler \<Rightarrow> ('m logical_task \<times> 'm command scheduler) option" where
  "value_sort_create_tasks t s =
     (let (entry_id, s) = create_physical_task (lt_task_id t) PhysicalTaskCommandBase no_locality_option s;
          (terminal_id, s) = create_physical_task (lt_task_id t) PhysicalTaskCommandBase no_locality_option s
      in do {
        s \<leftarrow> add_dependency entry_id terminal_id s;
        Some (set_terminal_task terminal_id (set_barrier_task entry_id (set_entry_task entry_id t)), s)
      })"

definition create_tasks_of :: "'m logical_task \<Rightarrow> 'm command scheduler \<Rightarrow> ('m logical_task \<times> 'm command scheduler) option" where
  "create_tasks_of t =
     (case lt_body t of
        Shuffle _ _ \<Rightarrow> shuffle_create_tasks t
      | Gather _ \<Rightarrow> gather_create_tasks t
      | ValueSort _ \<Rightarrow> value_sort_create_tasks t
      | _ \<Rightarrow> process_create_tasks t)"

subsection \<open>Commit\<close>

fun commit_tasks :: "(nat \<Rightarrow> nat \<Rightarrow> nat) \<Rightarrow> PhysicalTaskIdentifier list \<Rightarrow> 'c scheduler \<Rightarrow> 'c scheduler option" where
  "commit_tasks draw [] s = Some s"
| "commit_tasks draw (v # vs) s = do { s \<leftarrow> commit_task draw v s; commit_tasks draw vs s }"

definition process_commit_tasks :: "(nat \<Rightarrow> nat \<Rightarrow> nat) \<Rightarrow> 'm logical_task \<Rightarrow> 'm command scheduler \<Rightarrow> 'm command scheduler option" where
  "process_commit_tasks draw t = commit_tasks draw [lt_entry_task t, lt_barrier_task t, lt_terminal_task t]"

definition shuffle_commit_tasks :: "(nat \<Rightarrow> nat \<Rightarrow> nat) \<Rightarrow> 'm logical_task \<Rightarrow> 'm command scheduler \<Rightarrow> 'm command scheduler option" where
  "shuffle_commit_tasks draw t = commit_tasks draw [lt_entry_task t, lt_barrier_task t, lt_terminal_task t]"

definition gather_commit_tasks :: "(nat \<Rightarrow> nat \<Rightarrow> nat) \<Rightarrow> 'm logical_task \<Rightarrow> 'm command scheduler \<Rightarrow> 'm command scheduler option" where
  "gather_commit_tasks draw t = commit_tasks draw [lt_entry_task t]"

definition value_sort_commit_tasks :: "(nat \<Rightarrow> nat \<Rightarrow> nat) \<Rightarrow> 'm logical_task \<Rightarrow> 'm command scheduler \<Rightarrow> 'm command scheduler option" where
  "value_sort_commit_tasks draw t = commit_tasks draw [lt_entry_task t, lt_terminal_task t]"

definition commit_tasks_of :: "(nat \<Rightarrow> nat \<Rightarrow> nat) \<Rightarrow> 'm logical_task \<Rightarrow> 'm command scheduler \<Rightarrow> 'm command scheduler option" where
  "commit_tasks_of draw t =
     (case lt_body t of
        Shuffle _ _ \<Rightarrow> shuffle_commit_tasks draw t
      | Gather _ \<Rightarrow> gather_commit_tasks draw t
      | ValueSort _ \<Rightarrow> value_sort_commit_tasks draw t
      | _ \<Rightarrow> process_commit_tasks draw t)"

subsection \<open>The whole graph\<close>

fun create_all :: "'m logical_task list \<Rightarrow> 'm command scheduler \<Rightarrow> ('m logical_task list \<times> 'm command scheduler) option" where
  "create_all [] s = Some ([], s)"
| "create_all (t # ts) s = do {
     (t, s) \<leftarrow> create_tasks_of t s;
     (ts, s) \<leftarrow> create_all ts s;
     Some (t # ts, s)
   }"

definition successor_task :: "PhysicalSuccessor \<Rightarrow> 'm logical_task \<Rightarrow> PhysicalTaskIdentifier" where
  "successor_task p t = (case p of ENTRY \<Rightarrow> lt_entry_task t | BARRIER \<Rightarrow> lt_barrier_task t | TERMINAL \<Rightarrow> lt_terminal_task t)"

text \<open>The dependency of an edge; the builder's edges name tasks of the graph.\<close>

definition edge_dependency :: "'m logical_task list \<Rightarrow> lg_edge \<Rightarrow> PhysicalTaskIdentifier \<times> PhysicalTaskIdentifier" where
  "edge_dependency ts e =
     (let producer = ts ! logical_id (port_task (edge_producer e)); consumer = ts ! logical_id (port_task (edge_consumer e))
      in (lt_terminal_task producer, successor_task (edge_successor e) consumer))"

fun link_edges :: "'m logical_task list \<Rightarrow> lg_edge list \<Rightarrow> 'm command scheduler \<Rightarrow> 'm command scheduler option" where
  "link_edges ts [] s = Some s"
| "link_edges ts (e # es) s = do {
     s \<leftarrow> add_dependency (fst (edge_dependency ts e)) (snd (edge_dependency ts e)) s;
     link_edges ts es s
   }"

fun commit_all :: "(nat \<Rightarrow> nat \<Rightarrow> nat) \<Rightarrow> 'm logical_task list \<Rightarrow> 'm command scheduler \<Rightarrow> 'm command scheduler option" where
  "commit_all draw [] s = Some s"
| "commit_all draw (t # ts) s = do { s \<leftarrow> commit_tasks_of draw t s; commit_all draw ts s }"

definition create_physical_tasks ::
  "(nat \<Rightarrow> nat \<Rightarrow> nat) \<Rightarrow> 'm logical_graph \<Rightarrow> 'm command scheduler \<Rightarrow> ('m logical_graph \<times> 'm command scheduler) option" where
  "create_physical_tasks draw g s = do {
     (ts, s) \<leftarrow> create_all (lg_tasks g) s;
     s \<leftarrow> link_edges ts (lg_edges g) s;
     s \<leftarrow> commit_all draw ts s;
     Some (g\<lparr>lg_tasks := ts\<rparr>, s)
   }"

end
