(* ===== verification/TaskGraphProperties.thy ===== *)
theory TaskGraphProperties
  imports TaskGraph SchedulerProperties
begin

text \<open>
  The graph of physical tasks of a fresh execution: \<open>create_physical_tasks\<close> is a run of the prologue
  of the scheduler's machine, at whose end every task has been committed and the dependencies have
  no cycle. This discharges, for the tasks the library itself creates first, what the properties of
  the scheduler ask of its client.
\<close>

subsection \<open>Building the graph of tasks\<close>

text \<open>Nothing is committed yet, and no predecessor count is above \<open>k + 1\<close>.\<close>

definition building :: "locality_manager \<Rightarrow> nat \<Rightarrow> 'c machine \<Rightarrow> bool" where
  "building lm k m \<longleftrightarrow> reachable lm False m \<and> uncommitted m = {v. physical_id v < created_task_count (sch m)} \<and>
     (\<forall>v x. vertices (sch m) v = Some x \<longrightarrow> 0 < predecessor_count x \<and> predecessor_count x \<le> k + 1)"

lemma building_mono: "building lm k m \<Longrightarrow> k \<le> l \<Longrightarrow> building lm l m"
  by (fastforce simp: building_def)

lemma reachable_prologue_inv: "reachable lm False m \<Longrightarrow> prologue_inv m"
  using reachable_inv by blast

lemma building_initial:
  assumes "shape_ok (make_scheduler lm :: 'c scheduler)"
  shows "building lm 0 (initial lm :: 'c machine)" "sch (initial lm :: 'c machine) = make_scheduler lm"
    "depends (initial lm :: 'c machine) = {}" "created_task_count (make_scheduler lm :: 'c scheduler) = 0"
  using reachable.start [OF assms] by (simp_all add: building_def initial_def make_scheduler_def)

lemma building_vertex:
  assumes "building lm k m" "physical_id v < created_task_count (sch m)"
  obtains x where "vertices (sch m) v = Some x" "0 < predecessor_count x" "predecessor_count x \<le> k + 1"
proof -
  have "v \<in> dom (vertices (sch m))"
    using assms reachable_prologue_inv by (auto simp: building_def prologue_inv_def)
  then show thesis using assms(1) that by (auto simp: building_def)
qed

lemma uniform_draw_lo: "uniform_draw (\<lambda>lo hi. lo)"
  by (simp add: uniform_draw_def)

lemma building_create:
  fixes m :: "'c machine"
  assumes b: "building lm k m"
  obtains m' where "create_physical_task l c no_locality_option (sch m) = (PhysicalTaskIdentifier (created_task_count (sch m)), sch m')"
    "building lm k m'" "depends m' = depends m" "created_task_count (sch m') = created_task_count (sch m) + 1"
proof -
  let ?tid = "PhysicalTaskIdentifier (created_task_count (sch m))"
  obtain s where c: "create_physical_task l c no_locality_option (sch m) = (?tid, s)"
    "created_task_count s = created_task_count (sch m) + 1"
    "vertices s = (vertices (sch m))(?tid \<mapsto> make_vertex no_locality_option (make_physical_task l ?tid c))"
    by (simp add: create_physical_task_def Let_def)
  let ?m = "m\<lparr>sch := s, uncommitted := insert ?tid (uncommitted m)\<rparr>"
  have "lo_ok (worker_count m) no_locality_option" by (simp add: lo_ok_def no_locality_option_def has_recommendation_def)
  then have "reachable lm False ?m"
    using b c reachable.prologue [of lm m "\<lambda>lo hi. lo" "SCreate l c no_locality_option" ?m]
    by (simp add: building_def uniform_draw_lo)
  moreover have "insert ?tid (uncommitted m) = {v. physical_id v < created_task_count s}"
    using b c(2) by (auto simp: building_def less_Suc_eq intro: PhysicalTaskIdentifier.expand)
  ultimately have "building lm k ?m" using b c(3) by (auto simp: building_def make_vertex_def)
  with c show thesis by (intro that [of ?m]) simp_all
qed

lemma building_depend:
  fixes m :: "'c machine"
  assumes b: "building lm k m" and pv: "physical_id p < created_task_count (sch m)" "physical_id v < created_task_count (sch m)"
    and k: "k + 2 < size_modulus"
  obtains m' where "add_dependency p v (sch m) = Some (sch m')" "building lm (k + 1) m'" "depends m' = insert (p, v) (depends m)"
    "created_task_count (sch m') = created_task_count (sch m)"
proof -
  obtain x where x: "vertices (sch m) v = Some x" "0 < predecessor_count x" "predecessor_count x \<le> k + 1"
    by (rule building_vertex [OF b pv(2)])
  obtain y where y: "vertices (sch m) p = Some y" by (rule building_vertex [OF b pv(1)])
  have t: "tasks_inv m" using b reachable_prologue_inv by (auto simp: building_def prologue_inv_def)
  have al: "allowed (AddDependency p v) m" using x k by simp
  obtain s where s: "add_dependency p v (sch m) = Some s" "created_task_count s = created_task_count (sch m)"
    using tasks_inv_depend [OF t al] by blast
  let ?m = "m\<lparr>sch := s, depends := insert (p, v) (depends m)\<rparr>"
  have "prologue_step (\<lambda>lo hi. lo) (SDepend p v) m = Some ?m" using s y by simp
  then have "reachable lm False ?m"
    using b al reachable.prologue [of lm m "\<lambda>lo hi. lo" "SDepend p v" ?m] by (simp add: building_def uniform_draw_lo)
  moreover have "0 < predecessor_count z \<and> predecessor_count z \<le> k + 2" if "vertices s u = Some z" for u z
  proof -
    have "\<exists>x. vertices (sch m) u = Some x \<and> predecessor_count x \<le> predecessor_count z \<and> predecessor_count z \<le> predecessor_count x + 1"
      using s(1) that x(1,3) y k by (auto simp: add_dependency_def Let_def sz_add_def split: if_splits)
    then show ?thesis using b by (fastforce simp: building_def)
  qed
  ultimately have "building lm (k + 1) ?m" using b s(2) by (simp add: building_def)
  with s show thesis by (intro that [of ?m]) simp_all
qed

subsection \<open>One logical task\<close>

text \<open>The tasks a logical task commits, in this order.\<close>

definition commit_ids :: "'m logical_task \<Rightarrow> PhysicalTaskIdentifier list" where
  "commit_ids t =
     (case lt_body t of
        Gather _ \<Rightarrow> [lt_entry_task t]
      | ValueSort _ \<Rightarrow> [lt_entry_task t, lt_terminal_task t]
      | _ \<Rightarrow> [lt_entry_task t, lt_barrier_task t, lt_terminal_task t])"

definition own_tasks :: "'m logical_task \<Rightarrow> bool" where
  "own_tasks t \<longleftrightarrow> {lt_entry_task t, lt_barrier_task t, lt_terminal_task t} \<subseteq> set (commit_ids t)"

text \<open>Entry before barrier before terminal, where they differ.\<close>

definition stages_linked :: "'m logical_task \<Rightarrow> PhysicalTaskIdentifier rel \<Rightarrow> bool" where
  "stages_linked t D \<longleftrightarrow>
     (lt_entry_task t = lt_barrier_task t \<or> (lt_entry_task t, lt_barrier_task t) \<in> D) \<and>
     (lt_barrier_task t = lt_terminal_task t \<or> (lt_barrier_task t, lt_terminal_task t) \<in> D)"

lemma stages_linked_mono: "stages_linked t D \<Longrightarrow> D \<subseteq> D' \<Longrightarrow> stages_linked t D'"
  by (auto simp: stages_linked_def)

definition inner_edges :: "'m logical_task \<Rightarrow> PhysicalTaskIdentifier rel" where
  "inner_edges t = {(a, b). a \<in> set (commit_ids t) \<and> b \<in> set (commit_ids t) \<and> a < b}"

lemma commit_tasks_of_ids: "commit_tasks_of draw t = commit_tasks draw (commit_ids t)"
  by (simp add: commit_tasks_of_def commit_ids_def process_commit_tasks_def shuffle_commit_tasks_def gather_commit_tasks_def
      value_sort_commit_tasks_def split: task_body.split)

lemma commit_tasks_append: "commit_tasks draw (vs @ ws) s = Option.bind (commit_tasks draw vs s) (commit_tasks draw ws)"
  by (induction vs arbitrary: s) (auto split: bind_splits)

lemma commit_all_ids: "commit_all draw ts s = commit_tasks draw (concat (map commit_ids ts)) s"
  by (induction ts arbitrary: s) (auto simp: commit_tasks_of_ids commit_tasks_append split: bind_splits)

abbreviation nth_id :: "nat \<Rightarrow> PhysicalTaskIdentifier" where
  "nth_id \<equiv> PhysicalTaskIdentifier"

text \<open>What the creation of one logical task does to the graph.\<close>

definition task_created :: "locality_manager \<Rightarrow> nat \<Rightarrow> 'm command machine \<Rightarrow> 'm logical_task \<Rightarrow> 'm logical_task \<Rightarrow> 'm command machine \<Rightarrow> bool" where
  "task_created lm k m t t' m' \<longleftrightarrow> building lm (k + 2) m' \<and> lt_body t' = lt_body t \<and> own_tasks t' \<and>
     commit_ids t' = map nth_id [created_task_count (sch m)..<created_task_count (sch m')] \<and>
     created_task_count (sch m) \<le> created_task_count (sch m') \<and> created_task_count (sch m') \<le> created_task_count (sch m) + 3 \<and>
     depends m \<subseteq> depends m' \<and> depends m' \<subseteq> depends m \<union> inner_edges t' \<and> stages_linked t' (depends m')"

lemma id_less: "nth_id a < nth_id b \<longleftrightarrow> a < b"
  by (simp add: less_PhysicalTaskIdentifier_def)

lemma create_three_tasks_ok:
  assumes b: "building lm k m" and k: "k + 3 < size_modulus"
    and body: "\<forall>x. lt_body t \<noteq> Gather x" "\<forall>x. lt_body t \<noteq> ValueSort x"
  shows "\<exists>t' m'. create_three_tasks ec bc tc t (sch m) = Some (t', sch m') \<and> task_created lm k m t t' m'"
proof -
  let ?n = "created_task_count (sch m)"
  obtain m1 where m1: "create_physical_task (lt_task_id t) ec no_locality_option (sch m) = (nth_id ?n, sch m1)"
    "building lm k m1" "depends m1 = depends m" "created_task_count (sch m1) = ?n + 1"
    by (rule building_create [OF b])
  obtain m2 where m2: "create_physical_task (lt_task_id t) bc no_locality_option (sch m1) = (nth_id (created_task_count (sch m1)), sch m2)"
    "building lm k m2" "depends m2 = depends m1" "created_task_count (sch m2) = created_task_count (sch m1) + 1"
    by (rule building_create [OF m1(2)])
  obtain m3 where m3: "create_physical_task (lt_task_id t) tc no_locality_option (sch m2) = (nth_id (created_task_count (sch m2)), sch m3)"
    "building lm k m3" "depends m3 = depends m2" "created_task_count (sch m3) = created_task_count (sch m2) + 1"
    by (rule building_create [OF m2(2)])
  have l1: "physical_id (nth_id ?n) < created_task_count (sch m3)" "physical_id (nth_id (?n + 1)) < created_task_count (sch m3)"
    using m1 m2 m3 by simp_all
  obtain m4 where m4: "add_dependency (nth_id ?n) (nth_id (?n + 1)) (sch m3) = Some (sch m4)" "building lm (k + 1) m4"
    "depends m4 = insert (nth_id ?n, nth_id (?n + 1)) (depends m3)" "created_task_count (sch m4) = created_task_count (sch m3)"
    by (rule building_depend [OF m3(2) l1]) (use k in simp)
  have l2: "physical_id (nth_id (?n + 1)) < created_task_count (sch m4)" "physical_id (nth_id (?n + 2)) < created_task_count (sch m4)"
    using m1 m2 m3 m4 by simp_all
  obtain m5 where m5: "add_dependency (nth_id (?n + 1)) (nth_id (?n + 2)) (sch m4) = Some (sch m5)" "building lm (k + 1 + 1) m5"
    "depends m5 = insert (nth_id (?n + 1), nth_id (?n + 2)) (depends m4)" "created_task_count (sch m5) = created_task_count (sch m4)"
    by (rule building_depend [OF m4(2) l2]) (use k in simp)
  let ?t = "set_terminal_task (nth_id (?n + 2)) (set_barrier_task (nth_id (?n + 1)) (set_entry_task (nth_id ?n) t))"
  have t: "lt_body ?t = lt_body t" "lt_entry_task ?t = nth_id ?n" "lt_barrier_task ?t = nth_id (?n + 1)" "lt_terminal_task ?t = nth_id (?n + 2)"
    by (simp_all add: set_terminal_task_def set_barrier_task_def set_entry_task_def)
  have ids: "commit_ids ?t = [nth_id ?n, nth_id (?n + 1), nth_id (?n + 2)]"
    using body t by (auto simp: commit_ids_def split: task_body.split)
  have cnt: "created_task_count (sch m5) = ?n + 3" using m1 m2 m3 m4 m5 by simp
  have "task_created lm k m t ?t m5"
    using m1(3) m2(3) m3(3) m4(3) m5(2,3) t ids cnt
    by (auto simp: task_created_def own_tasks_def stages_linked_def inner_edges_def id_less upt_rec numeral_3_eq_3)
  moreover have "create_three_tasks ec bc tc t (sch m) = Some (?t, sch m5)"
    using m1 m2 m3 m4(1) m5(1) by (simp add: create_three_tasks_def Let_def numeral_2_eq_2)
  ultimately show ?thesis by blast
qed

lemma gather_create_tasks_ok:
  assumes b: "building lm k m" and body: "lt_body t = Gather x"
  shows "\<exists>t' m'. gather_create_tasks t (sch m) = Some (t', sch m') \<and> task_created lm k m t t' m'"
proof -
  let ?n = "created_task_count (sch m)"
  obtain m1 where m1: "create_physical_task (lt_task_id t) GatherPhysicalCommand no_locality_option (sch m) = (nth_id ?n, sch m1)"
    "building lm k m1" "depends m1 = depends m" "created_task_count (sch m1) = ?n + 1"
    by (rule building_create [OF b])
  let ?t = "set_terminal_task (nth_id ?n) (set_barrier_task (nth_id ?n) (set_entry_task (nth_id ?n) t))"
  have t: "lt_body ?t = Gather x" "lt_entry_task ?t = nth_id ?n" "lt_barrier_task ?t = nth_id ?n" "lt_terminal_task ?t = nth_id ?n"
    using body by (simp_all add: set_terminal_task_def set_barrier_task_def set_entry_task_def)
  have "task_created lm k m t ?t m1"
    using m1 t body building_mono [OF m1(2), of "k + 2"]
    by (auto simp: task_created_def own_tasks_def stages_linked_def inner_edges_def commit_ids_def)
  then show ?thesis using m1(1) by (auto simp: gather_create_tasks_def Let_def)
qed

lemma value_sort_create_tasks_ok:
  assumes b: "building lm k m" and body: "lt_body t = ValueSort x" and k: "k + 3 < size_modulus"
  shows "\<exists>t' m'. value_sort_create_tasks t (sch m) = Some (t', sch m') \<and> task_created lm k m t t' m'"
proof -
  let ?n = "created_task_count (sch m)"
  obtain m1 where m1: "create_physical_task (lt_task_id t) PhysicalTaskCommandBase no_locality_option (sch m) = (nth_id ?n, sch m1)"
    "building lm k m1" "depends m1 = depends m" "created_task_count (sch m1) = ?n + 1"
    by (rule building_create [OF b])
  obtain m2 where m2: "create_physical_task (lt_task_id t) PhysicalTaskCommandBase no_locality_option (sch m1) = (nth_id (created_task_count (sch m1)), sch m2)"
    "building lm k m2" "depends m2 = depends m1" "created_task_count (sch m2) = created_task_count (sch m1) + 1"
    by (rule building_create [OF m1(2)])
  have l: "physical_id (nth_id ?n) < created_task_count (sch m2)" "physical_id (nth_id (?n + 1)) < created_task_count (sch m2)"
    using m1 m2 by simp_all
  obtain m3 where m3: "add_dependency (nth_id ?n) (nth_id (?n + 1)) (sch m2) = Some (sch m3)" "building lm (k + 1) m3"
    "depends m3 = insert (nth_id ?n, nth_id (?n + 1)) (depends m2)" "created_task_count (sch m3) = created_task_count (sch m2)"
    by (rule building_depend [OF m2(2) l]) (use k in simp)
  let ?t = "set_terminal_task (nth_id (?n + 1)) (set_barrier_task (nth_id ?n) (set_entry_task (nth_id ?n) t))"
  have t: "lt_body ?t = ValueSort x" "lt_entry_task ?t = nth_id ?n" "lt_barrier_task ?t = nth_id ?n" "lt_terminal_task ?t = nth_id (?n + 1)"
    using body by (simp_all add: set_terminal_task_def set_barrier_task_def set_entry_task_def)
  have "task_created lm k m t ?t m3"
    using m1 m2 m3 t body building_mono [OF m3(2), of "k + 2"]
    by (auto simp: task_created_def own_tasks_def stages_linked_def inner_edges_def commit_ids_def id_less upt_rec)
  moreover have "value_sort_create_tasks t (sch m) = Some (?t, sch m3)"
    using m1 m2 m3(1) by (simp add: value_sort_create_tasks_def Let_def)
  ultimately show ?thesis by blast
qed

lemma create_tasks_of_ok:
  assumes b: "building lm k m" and k: "k + 3 < size_modulus"
  shows "\<exists>t' m'. create_tasks_of t (sch m) = Some (t', sch m') \<and> task_created lm k m t t' m'"
proof (cases "lt_body t")
  case (Gather x)
  then show ?thesis using gather_create_tasks_ok [OF b] by (simp add: create_tasks_of_def)
next
  case (ValueSort x)
  then show ?thesis using value_sort_create_tasks_ok [OF b _ k] by (simp add: create_tasks_of_def)
qed (use create_three_tasks_ok [OF b k] in \<open>simp_all add: create_tasks_of_def process_create_tasks_def shuffle_create_tasks_def\<close>)

subsection \<open>All tasks, all edges, all commits\<close>

definition tasks_created :: "locality_manager \<Rightarrow> nat \<Rightarrow> 'm command machine \<Rightarrow> 'm logical_task list \<Rightarrow> 'm logical_task list \<Rightarrow>
    'm command machine \<Rightarrow> bool" where
  "tasks_created lm k m ts ts' m' \<longleftrightarrow> building lm (k + 2 * length ts) m' \<and> map lt_body ts' = map lt_body ts \<and>
     (\<forall>t\<in>set ts'. own_tasks t \<and> stages_linked t (depends m')) \<and>
     concat (map commit_ids ts') = map nth_id [created_task_count (sch m)..<created_task_count (sch m')] \<and>
     created_task_count (sch m) \<le> created_task_count (sch m') \<and>
     created_task_count (sch m') \<le> created_task_count (sch m) + 3 * length ts \<and>
     depends m \<subseteq> depends m' \<and> depends m' \<subseteq> depends m \<union> (\<Union>t\<in>set ts'. inner_edges t)"

lemma upt_split: "i \<le> j \<Longrightarrow> j \<le> k \<Longrightarrow> [i..<k] = [i..<j] @ [j..<k]"
  using upt_add_eq_append [of i j "k - j"] by simp

lemma tasks_created_Cons:
  assumes "task_created lm k m t t' m1" "tasks_created lm (k + 2) m1 ts ts' m2"
  shows "tasks_created lm k m (t # ts) (t' # ts') m2"
proof -
  let ?a = "created_task_count (sch m)" and ?b = "created_task_count (sch m1)" and ?c = "created_task_count (sch m2)"
  have 1: "building lm (k + 2) m1" "lt_body t' = lt_body t" "own_tasks t'" "commit_ids t' = map nth_id [?a..<?b]"
    "?a \<le> ?b" "?b \<le> ?a + 3" "depends m \<subseteq> depends m1" "depends m1 \<subseteq> depends m \<union> inner_edges t'" "stages_linked t' (depends m1)"
    using assms(1) unfolding task_created_def by blast+
  have 2: "building lm (k + 2 + 2 * length ts) m2" "map lt_body ts' = map lt_body ts"
    "\<forall>t\<in>set ts'. own_tasks t \<and> stages_linked t (depends m2)" "concat (map commit_ids ts') = map nth_id [?b..<?c]"
    "?b \<le> ?c" "?c \<le> ?b + 3 * length ts" "depends m1 \<subseteq> depends m2" "depends m2 \<subseteq> depends m1 \<union> (\<Union>t\<in>set ts'. inner_edges t)"
    using assms(2) unfolding tasks_created_def by blast+
  have ids: "concat (map commit_ids (t' # ts')) = map nth_id [?a..<?c]"
    using 1(4) 2(4) by (simp add: upt_split [OF 1(5) 2(5)])
  have linked: "stages_linked t' (depends m2)" by (rule stages_linked_mono [OF 1(9) 2(7)])
  have "depends m2 \<subseteq> depends m \<union> (\<Union>t\<in>set (t' # ts'). inner_edges t)" using 1(8) 2(8) by auto
  moreover have "building lm (k + 2 * length (t # ts)) m2" using 2(1) by (simp add: add.commute)
  ultimately show ?thesis
    unfolding tasks_created_def using 1(2,3,5-7) 2(2,3,5-7) ids linked by simp
qed

lemma create_all_ok:
  "building lm k m \<Longrightarrow> k + 2 * length ts + 3 < size_modulus \<Longrightarrow>
    \<exists>ts' m'. create_all ts (sch m) = Some (ts', sch m') \<and> tasks_created lm k m ts ts' m'"
proof (induction ts arbitrary: k m)
  case Nil
  then show ?case by (intro exI [of _ "[]"] exI [of _ m]) (simp add: tasks_created_def)
next
  case (Cons t ts)
  obtain t' m1 where t': "create_tasks_of t (sch m) = Some (t', sch m1)" "task_created lm k m t t' m1"
    using create_tasks_of_ok [OF Cons.prems(1)] Cons.prems(2) by fastforce
  then have "building lm (k + 2) m1" by (simp add: task_created_def)
  then obtain ts' m2 where ts': "create_all ts (sch m1) = Some (ts', sch m2)" "tasks_created lm (k + 2) m1 ts ts' m2"
    using Cons.IH [of "k + 2" m1] Cons.prems(2) by auto
  show ?case
    using t'(1) ts'(1) tasks_created_Cons [OF t'(2) ts'(2)] by auto
qed

lemma link_edges_ok:
  fixes m :: "'m command machine"
  shows "building lm k m \<Longrightarrow> k + length es + 2 < size_modulus \<Longrightarrow>
    \<forall>e\<in>set es. physical_id (fst (edge_dependency ts e)) < created_task_count (sch m) \<and>
      physical_id (snd (edge_dependency ts e)) < created_task_count (sch m) \<Longrightarrow>
    \<exists>m'. link_edges ts es (sch m) = Some (sch m') \<and> building lm (k + length es) m' \<and>
      depends m' = depends m \<union> edge_dependency ts ` set es \<and> created_task_count (sch m') = created_task_count (sch m)"
proof (induction es arbitrary: k m)
  case (Cons e es)
  obtain m1 where m1: "add_dependency (fst (edge_dependency ts e)) (snd (edge_dependency ts e)) (sch m) = Some (sch m1)"
    "building lm (k + 1) m1" "depends m1 = insert (fst (edge_dependency ts e), snd (edge_dependency ts e)) (depends m)"
    "created_task_count (sch m1) = created_task_count (sch m)"
    by (rule building_depend [OF Cons.prems(1), of "fst (edge_dependency ts e)" "snd (edge_dependency ts e)"])
      (use Cons.prems(2,3) in simp_all)
  obtain m2 where m2: "link_edges ts es (sch m1) = Some (sch m2)" "building lm (k + 1 + length es) m2"
    "depends m2 = depends m1 \<union> edge_dependency ts ` set es" "created_task_count (sch m2) = created_task_count (sch m1)"
    using Cons.IH [OF m1(2)] Cons.prems(2,3) m1(4) by auto
  show ?case using m1 m2 by (intro exI [of _ m2]) auto
qed auto

lemma commit_task_ok:
  fixes m :: "'c machine"
  assumes r: "reachable lm False m" and draw: "uniform_draw draw" and v: "v \<in> uncommitted m" and n: "created_task_count (sch m) < size_modulus"
  obtains m' where "commit_task draw v (sch m) = Some (sch m')" "reachable lm False m'" "uncommitted m' = uncommitted m - {v}"
    "depends m' = depends m" "created_task_count (sch m') = created_task_count (sch m)"
proof -
  have inv: "tasks_inv m" "quiet m" using reachable_prologue_inv [OF r] by (simp_all add: prologue_inv_def)
  note q = quiet_nothing(1-3) [OF inv(2)]
  have g: "graph_inv (sch m) (uncommitted m) (depends m) {#} {#} 0" using inv(1) q by (simp add: tasks_inv_def)
  let ?D = "dom (vertices (sch m))"
  have "?D \<subseteq> nth_id ` {..<created_task_count (sch m)}"
  proof
    fix u assume "u \<in> ?D"
    then have "physical_id u < created_task_count (sch m)" using graph_invD(5) [OF g] by (auto simp: vertex_ok_def)
    then show "u \<in> nth_id ` {..<created_task_count (sch m)}" by (intro image_eqI [of _ _ "physical_id u"]) simp_all
  qed
  then have "card ?D \<le> created_task_count (sch m)" using surj_card_le [OF finite_lessThan] by fastforce
  moreover have "card (?D - uncommitted m) < card ?D"
    using graph_invD(2,3) [OF g] v by (intro psubset_card_mono) auto
  ultimately have u: "unfinished_task_count (sch m) + 1 < size_modulus" using graph_invD(7) [OF g] n by simp
  obtain ws s where s: "decrement draw v (begin_commit (sch m)) = Some (ws, s)"
    "created_task_count s = created_task_count (begin_commit (sch m))"
    using decrement_inv [OF begin_commit_inv [OF g v u] draw] by blast
  let ?s = "case ws of None \<Rightarrow> s | Some ws \<Rightarrow> notify_first ws s"
  let ?m = "m\<lparr>sch := ?s, uncommitted := uncommitted m - {v}\<rparr>"
  have c: "commit_task draw v (sch m) = Some ?s"
    using s(1) by (auto simp: commit_task_def decrement_predecessor_count_alt)
  have "reachable lm False ?m"
    using reachable.prologue [OF r draw, of "SCommit v" ?m] v u c by simp
  with c s(2) show thesis by (intro that [of ?m]) (auto simp: begin_commit_def split: option.split)
qed

lemma commit_tasks_ok:
  fixes m :: "'m command machine"
  assumes "uniform_draw draw"
  shows "reachable lm False m \<Longrightarrow> distinct vs \<Longrightarrow> set vs \<subseteq> uncommitted m \<Longrightarrow> created_task_count (sch m) < size_modulus \<Longrightarrow>
    \<exists>m'. commit_tasks draw vs (sch m) = Some (sch m') \<and> reachable lm False m' \<and> uncommitted m' = uncommitted m - set vs \<and>
      depends m' = depends m"
proof (induction vs arbitrary: m)
  case (Cons v vs)
  have v: "v \<in> uncommitted m" using Cons.prems(3) by auto
  obtain m1 where m1: "commit_task draw v (sch m) = Some (sch m1)" "reachable lm False m1" "uncommitted m1 = uncommitted m - {v}"
    "depends m1 = depends m" "created_task_count (sch m1) = created_task_count (sch m)"
    by (rule commit_task_ok [OF Cons.prems(1) assms v Cons.prems(4)])
  have "set vs \<subseteq> uncommitted m1" using Cons.prems(2,3) m1(3) by auto
  then obtain m2 where m2: "commit_tasks draw vs (sch m1) = Some (sch m2)" "reachable lm False m2"
    "uncommitted m2 = uncommitted m1 - set vs" "depends m2 = depends m1"
    using Cons.IH [OF m1(2)] Cons.prems m1(5) by auto
  then show ?case using m1 by (intro exI [of _ m2]) auto
qed auto

subsection \<open>The dependencies have no cycle\<close>

lemma position_unique:
  "distinct (concat (map f ts)) \<Longrightarrow> i < length ts \<Longrightarrow> j < length ts \<Longrightarrow> x \<in> set (f (ts ! i)) \<Longrightarrow> x \<in> set (f (ts ! j)) \<Longrightarrow> i = j"
proof (induction ts arbitrary: i j)
  case (Cons t ts)
  have d: "x \<notin> set (f t)" if "x \<in> set (f (ts ! n))" "n < length ts" for n
    using Cons.prems(1) that nth_mem by fastforce
  show ?case using Cons.IH [of "i - 1" "j - 1"] Cons.prems d by (cases i; cases j) auto
qed simp

text \<open>
  A relation on physical tasks whose pairs either stay in one logical task and go up in the order of
  creation, or follow an edge between logical tasks.
\<close>

lemma acyclic_of_owners:
  assumes d: "distinct (concat (map f ts))" and r: "finite r" "acyclic r"
    and D: "D \<subseteq> {(a, b). \<exists>i j. i < length ts \<and> j < length ts \<and> a \<in> set (f (ts ! i)) \<and> b \<in> set (f (ts ! j)) \<and>
        (i = j \<and> a < b \<or> (i, j) \<in> r)}"
  shows "acyclic (D :: PhysicalTaskIdentifier rel)"
proof -
  obtain h :: "nat \<Rightarrow> nat" where h: "\<And>i j. (i, j) \<in> r \<Longrightarrow> h i < h j" using acyclic_depth [OF r] by blast
  define owner where "owner x = (THE i. i < length ts \<and> x \<in> set (f (ts ! i)))" for x
  have owner: "owner x = i" if "i < length ts" "x \<in> set (f (ts ! i))" for x i
    unfolding owner_def using that position_unique [OF d] by (intro the_equality) auto
  have "D \<subseteq> inv_image (less_than <*lex*> less_than) (\<lambda>x. (h (owner x), physical_id x))"
    using D owner h by (fastforce simp: less_PhysicalTaskIdentifier_def)
  moreover have "wf (inv_image (less_than <*lex*> less_than) (\<lambda>x. (h (owner x), physical_id x)))" by auto
  ultimately show ?thesis using wf_acyclic wf_subset by blast
qed

lemma edge_dependency_mem:
  assumes "own_tasks (ts ! logical_id (port_task (edge_producer e)))" "own_tasks (ts ! logical_id (port_task (edge_consumer e)))"
  shows "fst (edge_dependency ts e) \<in> set (commit_ids (ts ! logical_id (port_task (edge_producer e))))"
    "snd (edge_dependency ts e) \<in> set (commit_ids (ts ! logical_id (port_task (edge_consumer e))))"
  using assms by (auto simp: edge_dependency_def Let_def successor_task_def own_tasks_def split: PhysicalSuccessor.split)

lemma finite_logical_edges: "finite (logical_edges g)"
  by (simp add: logical_edges_def)

lemma edge_ends_mem:
  "e \<in> set (lg_edges g) \<Longrightarrow> (logical_id (port_task (edge_producer e)), logical_id (port_task (edge_consumer e))) \<in> logical_edges g"
  by (force simp: logical_edges_def edge_ends_def end_of_def image_iff)

lemma create_physical_tasks_ok:
  fixes g :: "'m logical_graph"
  assumes acyc: "acyclic (logical_edges g)" and ends: "edges_match g"
    and shape: "shape_ok (make_scheduler lm :: 'm command scheduler)" and draw: "uniform_draw draw"
    and small: "3 * length (lg_tasks g) + length (lg_edges g) + 3 < size_modulus"
  shows "\<exists>g' m. create_physical_tasks draw g (make_scheduler lm) = Some (g', sch m) \<and> reachable lm False m \<and>
    uncommitted m = {} \<and> acyclic (depends m) \<and> bodies g' = bodies g \<and> lg_edges g' = lg_edges g \<and>
    (\<forall>t\<in>set (lg_tasks g'). stages_linked t (depends m)) \<and> edge_dependency (lg_tasks g') ` set (lg_edges g) \<subseteq> depends m"
proof -
  let ?m0 = "initial lm :: 'm command machine" and ?n = "length (lg_tasks g)"
  note i = building_initial [OF shape]
  obtain ts m1 where c: "create_all (lg_tasks g) (sch ?m0) = Some (ts, sch m1)" "tasks_created lm 0 ?m0 (lg_tasks g) ts m1"
    using create_all_ok [OF i(1), of "lg_tasks g"] small by auto
  let ?N = "created_task_count (sch m1)"
  have m1: "building lm (2 * ?n) m1" "map lt_body ts = map lt_body (lg_tasks g)"
    "\<forall>t\<in>set ts. own_tasks t \<and> stages_linked t (depends m1)" "concat (map commit_ids ts) = map nth_id [0..<?N]"
    "?N \<le> 3 * ?n" "depends m1 \<subseteq> (\<Union>t\<in>set ts. inner_edges t)"
    using c(2) i(2-4) by (simp_all add: tasks_created_def)
  have len: "length ts = ?n" using m1(2) map_eq_imp_length_eq by blast
  have range: "logical_id (port_task (edge_producer e)) < length ts \<and> logical_id (port_task (edge_consumer e)) < length ts"
    if "e \<in> set (lg_edges g)" for e
    using ends that len by (auto simp: edges_match_def edge_ends_def end_of_def)
  have mem: "x \<in> set (commit_ids t) \<Longrightarrow> t \<in> set ts \<Longrightarrow> physical_id x < ?N" for x t
  proof -
    assume "x \<in> set (commit_ids t)" "t \<in> set ts"
    then have "x \<in> set (concat (map commit_ids ts))" by auto
    then show ?thesis by (auto simp: m1(4))
  qed
  have dep: "fst (edge_dependency ts e) \<in> set (commit_ids (ts ! logical_id (port_task (edge_producer e))))"
    "snd (edge_dependency ts e) \<in> set (commit_ids (ts ! logical_id (port_task (edge_consumer e))))" if "e \<in> set (lg_edges g)" for e
    using edge_dependency_mem range [OF that] m1(3) nth_mem by blast+
  have "\<forall>e\<in>set (lg_edges g). physical_id (fst (edge_dependency ts e)) < ?N \<and> physical_id (snd (edge_dependency ts e)) < ?N"
    using dep range mem nth_mem by blast
  then obtain m2 where m2: "link_edges ts (lg_edges g) (sch m1) = Some (sch m2)" "building lm (2 * ?n + length (lg_edges g)) m2"
    "depends m2 = depends m1 \<union> edge_dependency ts ` set (lg_edges g)" "created_task_count (sch m2) = ?N"
    using link_edges_ok [OF m1(1), of "lg_edges g" ts] small by auto
  have d: "distinct (concat (map commit_ids ts))" unfolding m1(4) by (simp add: distinct_map inj_on_def)
  have un: "uncommitted m2 = set (concat (map commit_ids ts))"
  proof -
    have "v \<in> nth_id ` {0..<?N} \<longleftrightarrow> physical_id v < ?N" for v by (cases v) auto
    then show ?thesis using m2(2,4) unfolding m1(4) by (auto simp: building_def)
  qed
  have r: "reachable lm False m2" "created_task_count (sch m2) < size_modulus" using m2(2,4) m1(5) small by (simp_all add: building_def)
  obtain m3 where m3: "commit_all draw ts (sch m2) = Some (sch m3)" "reachable lm False m3" "uncommitted m3 = {}" "depends m3 = depends m2"
    using commit_tasks_ok [OF draw r(1) d _ r(2)] un by (auto simp: commit_all_ids)
  let ?g = "g\<lparr>lg_tasks := ts\<rparr>"
  have "create_physical_tasks draw g (make_scheduler lm) = Some (?g, sch m3)"
    using c(1) m2(1) m3(1) i(2) by (simp add: create_physical_tasks_def)
  moreover have "acyclic (depends m3)"
  proof (rule acyclic_of_owners [OF d finite_logical_edges acyc], clarsimp)
    fix a b assume "(a, b) \<in> depends m3"
    then consider (inner) t where "t \<in> set ts" "(a, b) \<in> inner_edges t"
      | (edge) e where "e \<in> set (lg_edges g)" "(a, b) = edge_dependency ts e"
      using m1(6) unfolding m3(4) m2(3) by blast
    then show "\<exists>i<length ts. \<exists>j<length ts. a \<in> set (commit_ids (ts ! i)) \<and> b \<in> set (commit_ids (ts ! j)) \<and>
        (i = j \<and> a < b \<or> (i, j) \<in> logical_edges g)"
    proof cases
      case inner
      then obtain i where "i < length ts" "ts ! i = t" by (auto simp: in_set_conv_nth)
      then show ?thesis using inner(2) by (auto simp: inner_edges_def)
    next
      case edge
      then show ?thesis using dep [OF edge(1)] range [OF edge(1)] edge_ends_mem [OF edge(1)] by (metis fst_conv snd_conv)
    qed
  qed
  moreover have "\<forall>t\<in>set ts. stages_linked t (depends m3)"
    using m1(3) stages_linked_mono [of _ "depends m1" "depends m3"] m2(3) m3(4) by auto
  moreover have "bodies ?g = bodies g" "edge_dependency ts ` set (lg_edges g) \<subseteq> depends m3"
    using m1(2) m2(3) m3(4) by (auto simp: bodies_def)
  ultimately show ?thesis using m3(2,3) by (intro exI [of _ ?g] exI [of _ m3]) simp
qed

subsection \<open>Property\<close>

text \<open>
  C26: creating the physical tasks of a graph without a cycle never fails an assertion and leaves the
  scheduler in a state its workers can start from: every task has been committed and the
  dependencies have no cycle (the two conditions under which the workers are never stuck), entry,
  barrier and terminal task of a logical task follow each other, and every edge of the logical graph is a
  dependency.
\<close>
theorem physical_tasks_start_scheduler:
  fixes g :: "'m logical_graph"
  assumes "has_cycle (built_graph ops) = Some False" "build_logical_graph (built_graph ops) config = ok g"
    and "shape_ok (make_scheduler lm :: 'm command scheduler)" "uniform_draw draw"
    and "3 * length (lg_tasks g) + length (lg_edges g) + 3 < size_modulus"
  shows "\<exists>g' m. create_physical_tasks draw g (make_scheduler lm) = Some (g', sch m) \<and> reachable lm False m \<and>
    uncommitted m = {} \<and> acyclic (depends m) \<and> bodies g' = bodies g \<and> lg_edges g' = lg_edges g \<and>
    (\<forall>t\<in>set (lg_tasks g'). stages_linked t (depends m)) \<and> edge_dependency (lg_tasks g') ` set (lg_edges g) \<subseteq> depends m"
proof (rule create_physical_tasks_ok [OF _ _ assms(3-5)])
  have w: "well_built (built_graph ops) config g" by (rule built_logical_graph_ok [OF assms(2)])
  then show "edges_match g" by (simp add: well_built_def frame_ok_def)
  show "acyclic (logical_edges g)" by (rule built_logical_graph_acyclic [OF assms(1,2)])
qed

theorem physical_tasks_start_scheduler_witness:
  "\<exists>g g' m. build_logical_graph (built_graph example_ops) example_configuration = ok (g :: nat logical_graph) \<and>
     create_physical_tasks (\<lambda>lo hi. lo) g (make_scheduler two_workers) = Some (g', sch m) \<and> reachable two_workers False m \<and>
     uncommitted m = {} \<and> acyclic (depends m)"
proof -
  obtain g :: "nat logical_graph" where g: "build_logical_graph (built_graph example_ops) example_configuration = ok g"
    "edge_ends g = [((0, 0), (2, 0)), ((2, 0), (1, 0))]" "length (lg_tasks g) = 3"
    by (rule example_build)
  have "length (lg_edges g) = length (edge_ends g)" by (simp add: edge_ends_def)
  then have small: "3 * length (lg_tasks g) + length (lg_edges g) + 3 < size_modulus" using g by (simp add: size_modulus_def)
  have shape: "shape_ok (make_scheduler two_workers :: nat command scheduler)"
    by (simp add: shape_ok_def make_scheduler_def two_workers_def default_locality_manager_def thread_mapping_def size_modulus_def)
  show ?thesis
    using physical_tasks_start_scheduler [OF example_has_no_cycle g(1) shape uniform_draw_lo small] g(1) by blast
qed

end
