(* ===== verification/TaskBuffers.thy ===== *)
theory TaskBuffers
  imports Processor SerializedBuffer Locality
begin

text \<open>
  What a task reads and writes: \<open>InputBufferImpl\<close>, \<open>InputReaderImpl\<close>, \<open>OutputBufferImpl\<close> and
  \<open>OutputWriterImpl\<close> (api/internal/*_impl.hpp) and the public classes in front of them
  (api/input_buffer.cpp, input_reader.cpp, output_buffer.cpp, output_writer.cpp). A buffer
  object is a \<open>serialized_buffer\<close> over the memory \<open>m\<close>; a locked memory reference is its slot. A pointer
  that may be null is an option.
\<close>

subsection \<open>InputBufferImpl\<close>

definition ib_new :: serialized_buffer where
  "ib_new = null_buffer"

definition ib_key_buffer_size :: "mem \<Rightarrow> serialized_buffer \<Rightarrow> size_type" where
  "ib_key_buffer_size m b =
     (if \<not> buffer_valid b then 0
      else if is_grouped b then ar_get m (keys_offsets m b) (group_count m b)
      else ar_get m (values_offsets m b) (record_count m b))"

definition ib_value_buffer_size :: "mem \<Rightarrow> serialized_buffer \<Rightarrow> size_type" where
  "ib_value_buffer_size m b =
     (if \<not> buffer_valid b \<or> \<not> is_grouped b then 0 else ar_get m (values_offsets m b) (record_count m b))"

definition ib_record_count :: "mem \<Rightarrow> serialized_buffer \<Rightarrow> size_type" where
  "ib_record_count m b =
     (if \<not> buffer_valid b then 0 else if is_grouped b then group_count m b else record_count m b)"

definition ib_key_buffer :: "serialized_buffer \<Rightarrow> addr option" where
  "ib_key_buffer b =
     (if \<not> buffer_valid b then None else if is_grouped b then Some (keys_data b) else Some (values_data b))"

text \<open>\<open>None\<close> stands for the static table of the single offset 0.\<close>

definition ib_key_offset_table :: "mem \<Rightarrow> serialized_buffer \<Rightarrow> addr option" where
  "ib_key_offset_table m b =
     (if \<not> buffer_valid b then None
      else if is_grouped b then Some (m_first (keys_offsets m b)) else Some (m_first (values_offsets m b)))"

definition ib_value_buffer :: "serialized_buffer \<Rightarrow> addr option" where
  "ib_value_buffer b = (if \<not> buffer_valid b \<or> \<not> is_grouped b then None else Some (values_data b))"

definition ib_value_offset_table :: "mem \<Rightarrow> serialized_buffer \<Rightarrow> addr option" where
  "ib_value_offset_table m b =
     (if \<not> buffer_valid b \<or> \<not> is_grouped b then None else Some (m_first (value_group_offsets m b)))"

definition ib_bind :: "bool \<Rightarrow> mem \<Rightarrow> nat \<Rightarrow> mem_state \<Rightarrow> serialized_buffer" where
  "ib_bind nd m slot ms = make_serialized_buffer m (Some slot) (lmr_pointer nd slot ms)"

subsection \<open>InputReaderImpl\<close>

text \<open>The slot of \<open>m_reference\<close>; \<open>raw_buffer\<close> copies the reference into the slot of the new buffer.\<close>

type_synonym input_reader = nat

definition reader_set_fragment :: "bool \<Rightarrow> nat \<Rightarrow> input_reader \<Rightarrow> mem_state \<Rightarrow> mem_state option" where
  "reader_set_fragment nd reference r ms = lmr_assign_move nd r reference ms"

definition reader_raw_buffer :: "bool \<Rightarrow> mem \<Rightarrow> nat \<Rightarrow> input_reader \<Rightarrow> mem_state \<Rightarrow> serialized_buffer \<times> mem_state" where
  "reader_raw_buffer nd m slot r ms = (let ms = lmr_copy slot r ms in (ib_bind nd m slot ms, ms))"

subsection \<open>OutputBufferImpl\<close>

definition ob_new :: serialized_buffer where
  "ob_new = null_buffer"

definition ob_data_buffer_size :: "mem \<Rightarrow> serialized_buffer \<Rightarrow> size_type" where
  "ob_data_buffer_size m b = (if \<not> buffer_valid b then 0 else values_data_size m b)"

definition ob_max_record_count :: "mem \<Rightarrow> serialized_buffer \<Rightarrow> size_type" where
  "ob_max_record_count m b = (if \<not> buffer_valid b then 0 else maximum_record_count m b)"

definition ob_data_buffer :: "serialized_buffer \<Rightarrow> addr option" where
  "ob_data_buffer b = (if \<not> buffer_valid b then None else Some (values_data b))"

definition ob_offset_table :: "mem \<Rightarrow> serialized_buffer \<Rightarrow> addr option" where
  "ob_offset_table m b = (if \<not> buffer_valid b then None else Some (m_first (values_offsets m b)))"

text \<open>\<open>key_lengths().data()\<close> is the pointer itself, null when the buffer has no key lengths.\<close>

definition ob_key_length_table :: "serialized_buffer \<Rightarrow> addr option" where
  "ob_key_length_table b = (if \<not> buffer_valid b then None else values_key_lengths b)"

definition ob_bind_fragment :: "serialized_buffer \<Rightarrow> serialized_buffer" where
  "ob_bind_fragment fragment = fragment"

definition ob_unbind_fragment :: "serialized_buffer \<Rightarrow> serialized_buffer \<times> serialized_buffer" where
  "ob_unbind_fragment b = (b, null_buffer)"

subsection \<open>OutputWriterImpl\<close>

text \<open>The context is present or not; the logical task is the one that receives the fragments.\<close>

record output_writer =
  ow_context :: bool
  ow_locality :: locality
  ow_task :: "nat option"
  ow_port :: identifier_type
  ow_has_keys :: bool
  ow_buffer_size :: size_type
  ow_records :: size_type

definition ow_new :: output_writer where
  "ow_new = \<lparr>ow_context = False, ow_locality = \<lparr>self_thread_id = 0, self_node_id = 0\<rparr>, ow_task = None, ow_port = 0,
     ow_has_keys = False, ow_buffer_size = push_bit 20 4, ow_records = push_bit 20 1\<rparr>"

definition ow_set_context :: "bool \<Rightarrow> output_writer \<Rightarrow> output_writer" where
  "ow_set_context c w = w\<lparr>ow_context := c\<rparr>"

definition ow_set_locality :: "locality \<Rightarrow> output_writer \<Rightarrow> output_writer" where
  "ow_set_locality l w = w\<lparr>ow_locality := l\<rparr>"

definition ow_set_task :: "nat option \<Rightarrow> output_writer \<Rightarrow> output_writer" where
  "ow_set_task t w = w\<lparr>ow_task := t\<rparr>"

definition ow_set_port :: "identifier_type \<Rightarrow> output_writer \<Rightarrow> output_writer" where
  "ow_set_port p w = w\<lparr>ow_port := p\<rparr>"

definition ow_set_has_keys :: "bool \<Rightarrow> output_writer \<Rightarrow> output_writer" where
  "ow_set_has_keys b w = w\<lparr>ow_has_keys := b\<rparr>"

definition ow_set_buffer_size :: "size_type \<Rightarrow> output_writer \<Rightarrow> output_writer" where
  "ow_set_buffer_size n w = w\<lparr>ow_buffer_size := n\<rparr>"

definition ow_set_records :: "size_type \<Rightarrow> output_writer \<Rightarrow> output_writer" where
  "ow_set_records n w = w\<lparr>ow_records := n\<rparr>"

text \<open>
  As for the allocation of buffers, \<open>tmp\<close> and \<open>slot\<close> are the slots of the references and \<open>p\<close> the
  memory that was returned.
\<close>

definition ow_allocate_buffer ::
  "bool \<Rightarrow> nat \<Rightarrow> nat \<Rightarrow> addr \<Rightarrow> size_type \<Rightarrow> size_type \<Rightarrow> output_writer \<Rightarrow> mem_state \<times> mem \<Rightarrow>
   (serialized_buffer \<times> mem_state \<times> mem) result" where
  "ow_allocate_buffer nd tmp slot p min_data_size min_record_count w st =
     (if \<not> ow_context w then throw Runtime_error
      else (let records = max min_record_count (ow_records w); size = max min_data_size (ow_buffer_size w);
                node = self_node_id (ow_locality w)
            in case (if ow_has_keys w then allocate_key_value_buffer nd tmp slot p records size node st
                     else allocate_value_only_buffer nd tmp slot p records size node st) of
                 None \<Rightarrow> throw Undefined
               | Some (sb, st) \<Rightarrow> ok (ob_bind_fragment sb, st)))"

definition ow_allocate_default ::
  "bool \<Rightarrow> nat \<Rightarrow> nat \<Rightarrow> addr \<Rightarrow> output_writer \<Rightarrow> mem_state \<times> mem \<Rightarrow> (serialized_buffer \<times> mem_state \<times> mem) result" where
  "ow_allocate_default nd tmp slot p w st = ow_allocate_buffer nd tmp slot p (ow_buffer_size w) (ow_records w) w st"

definition of_option :: "'a option \<Rightarrow> 'a result" where
  "of_option r = (case r of None \<Rightarrow> throw Undefined | Some x \<Rightarrow> ok x)"

text \<open>
  \<open>commit port partition reference\<close> is \<open>commit_fragment\<close> of the logical task; the reference in slot \<open>i\<close>
  is made from a copy in slot \<open>t\<close> of the buffer's locked reference. The buffer is destroyed when the
  function ends, which unlocks and releases its reference.
\<close>

definition ow_flush_buffer ::
  "bool \<Rightarrow> nat \<Rightarrow> nat \<Rightarrow> (identifier_type \<Rightarrow> identifier_type \<Rightarrow> nat \<Rightarrow> mem_state \<times> mem \<Rightarrow> (mem_state \<times> mem) result) \<Rightarrow>
   serialized_buffer \<Rightarrow> size_type \<Rightarrow> output_writer \<Rightarrow> mem_state \<times> mem \<Rightarrow> (mem_state \<times> mem) result" where
  "ow_flush_buffer nd t i commit buffer n w st =
     (if \<not> ow_context w then throw Runtime_error
      else case sb_slot buffer of
             None \<Rightarrow> (if 0 < n then throw Undefined else ok st)
           | Some slot \<Rightarrow>
               if 0 < n then
                 (let m = set_record_count (fst (ob_unbind_fragment buffer)) n (snd st)
                  in andThen (of_option (mr_from_locked_move nd i t (lmr_copy t slot (fst st))))
                       (\<lambda>ms. andThen (commit (ow_port w) 0 i (ms, m))
                         (\<lambda>(ms, m). andThen (of_option (lmr_destroy nd slot ms)) (\<lambda>ms. ok (ms, m)))))
               else andThen (of_option (lmr_destroy nd slot (fst st))) (\<lambda>ms. ok (ms, snd st)))"

subsection \<open>The public classes\<close>

text \<open>All but \<open>OutputBuffer\<close> dereference their implementation without a check.\<close>

type_synonym buffer_handle = "serialized_buffer handle"

definition InputBuffer_new :: buffer_handle where
  "InputBuffer_new = Some ib_new"

definition InputBuffer_key_buffer_size :: "mem \<Rightarrow> buffer_handle \<Rightarrow> size_type option" where
  "InputBuffer_key_buffer_size m = handle_get (ib_key_buffer_size m)"

definition InputBuffer_value_buffer_size :: "mem \<Rightarrow> buffer_handle \<Rightarrow> size_type option" where
  "InputBuffer_value_buffer_size m = handle_get (ib_value_buffer_size m)"

definition InputBuffer_record_count :: "mem \<Rightarrow> buffer_handle \<Rightarrow> size_type option" where
  "InputBuffer_record_count m = handle_get (ib_record_count m)"

definition InputBuffer_key_buffer :: "buffer_handle \<Rightarrow> addr option option" where
  "InputBuffer_key_buffer = handle_get ib_key_buffer"

definition InputBuffer_key_offset_table :: "mem \<Rightarrow> buffer_handle \<Rightarrow> addr option option" where
  "InputBuffer_key_offset_table m = handle_get (ib_key_offset_table m)"

definition InputBuffer_value_buffer :: "buffer_handle \<Rightarrow> addr option option" where
  "InputBuffer_value_buffer = handle_get ib_value_buffer"

definition InputBuffer_value_offset_table :: "mem \<Rightarrow> buffer_handle \<Rightarrow> addr option option" where
  "InputBuffer_value_offset_table m = handle_get (ib_value_offset_table m)"

definition InputReader_raw_buffer ::
  "bool \<Rightarrow> mem \<Rightarrow> nat \<Rightarrow> input_reader handle \<Rightarrow> mem_state \<Rightarrow> (serialized_buffer \<times> mem_state) option" where
  "InputReader_raw_buffer nd m slot h ms = handle_get (\<lambda>r. reader_raw_buffer nd m slot r ms) h"

definition OutputBuffer_new :: buffer_handle where
  "OutputBuffer_new = Some ob_new"

definition OutputBuffer_data_buffer_size :: "mem \<Rightarrow> buffer_handle \<Rightarrow> size_type" where
  "OutputBuffer_data_buffer_size m h = (case h of None \<Rightarrow> 0 | Some b \<Rightarrow> ob_data_buffer_size m b)"

definition OutputBuffer_max_record_count :: "mem \<Rightarrow> buffer_handle \<Rightarrow> size_type" where
  "OutputBuffer_max_record_count m h = (case h of None \<Rightarrow> 0 | Some b \<Rightarrow> ob_max_record_count m b)"

definition OutputBuffer_data_buffer :: "buffer_handle \<Rightarrow> addr option" where
  "OutputBuffer_data_buffer h = (case h of None \<Rightarrow> None | Some b \<Rightarrow> ob_data_buffer b)"

definition OutputBuffer_offset_table :: "mem \<Rightarrow> buffer_handle \<Rightarrow> addr option" where
  "OutputBuffer_offset_table m h = (case h of None \<Rightarrow> None | Some b \<Rightarrow> ob_offset_table m b)"

definition OutputBuffer_key_length_table :: "buffer_handle \<Rightarrow> addr option" where
  "OutputBuffer_key_length_table h = (case h of None \<Rightarrow> None | Some b \<Rightarrow> ob_key_length_table b)"

definition OutputWriter_new :: "output_writer handle" where
  "OutputWriter_new = Some ow_new"

definition OutputWriter_allocate_default ::
  "bool \<Rightarrow> nat \<Rightarrow> nat \<Rightarrow> addr \<Rightarrow> output_writer handle \<Rightarrow> mem_state \<times> mem \<Rightarrow> (serialized_buffer \<times> mem_state \<times> mem) result" where
  "OutputWriter_allocate_default nd tmp slot p h st =
     (case h of None \<Rightarrow> throw Undefined | Some w \<Rightarrow> ow_allocate_default nd tmp slot p w st)"

definition OutputWriter_allocate_buffer ::
  "bool \<Rightarrow> nat \<Rightarrow> nat \<Rightarrow> addr \<Rightarrow> size_type \<Rightarrow> size_type \<Rightarrow> output_writer handle \<Rightarrow> mem_state \<times> mem \<Rightarrow>
   (serialized_buffer \<times> mem_state \<times> mem) result" where
  "OutputWriter_allocate_buffer nd tmp slot p min_data_size min_record_count h st =
     (case h of None \<Rightarrow> throw Undefined | Some w \<Rightarrow> ow_allocate_buffer nd tmp slot p min_data_size min_record_count w st)"

definition OutputWriter_flush_buffer ::
  "bool \<Rightarrow> nat \<Rightarrow> nat \<Rightarrow> (identifier_type \<Rightarrow> identifier_type \<Rightarrow> nat \<Rightarrow> mem_state \<times> mem \<Rightarrow> (mem_state \<times> mem) result) \<Rightarrow>
   serialized_buffer \<Rightarrow> size_type \<Rightarrow> output_writer handle \<Rightarrow> mem_state \<times> mem \<Rightarrow> (mem_state \<times> mem) result" where
  "OutputWriter_flush_buffer nd t i commit buffer n h st =
     (case h of None \<Rightarrow> throw Undefined | Some w \<Rightarrow> ow_flush_buffer nd t i commit buffer n w st)"

end
