(* ===== verification/TaskBufferProperties.thy ===== *)
theory TaskBufferProperties
  imports TaskBuffers
begin

text \<open>
  What a task writes into an output buffer is what the consumer of the flushed fragment reads: the
  round trip through the writer, the memory object and the input buffer.
\<close>

subsection \<open>Allocation by a writer\<close>

definition writer_layout :: "output_writer \<Rightarrow> size_type \<Rightarrow> size_type \<Rightarrow> value_layout" where
  "writer_layout w mx tot = (if ow_has_keys w then key_value_layout mx tot else value_only_layout mx tot)"

definition writer_size :: "output_writer \<Rightarrow> size_type \<Rightarrow> size_type \<Rightarrow> size_type" where
  "writer_size w mx tot = 48 + ceil8 tot + 8 * (mx + 1) + (if ow_has_keys w then 8 * mx else 0)"

lemma writer_size_less: "fits tot mx \<Longrightarrow> writer_size w mx tot < size_modulus"
  using ceil8_bounds(2) [of tot] unfolding fits_def writer_size_def distrib_left
  by (split if_split) (intro conjI impI; linarith)

lemma writer_layout_exact:
  "fits tot mx \<Longrightarrow> writer_layout w mx tot = \<lparr>values_header_pos = 16, values_data_pos = 48, values_offsets_pos = 48 + ceil8 tot,
      layout_size = writer_size w mx tot\<rparr>"
  by (simp add: writer_layout_def writer_size_def value_only_layout_exact key_value_layout_exact)

text \<open>The buffer object of a writer's allocation at \<open>p\<close>, in every memory with the same headers.\<close>

definition writer_buffer :: "output_writer \<Rightarrow> size_type \<Rightarrow> size_type \<Rightarrow> nat option \<Rightarrow> addr \<Rightarrow> serialized_buffer" where
  "writer_buffer w mx tot slot p =
     null_buffer\<lparr>sb_slot := slot, common_header := Some p, values_header := Some (p + 16),
      values_data_ptr := Some (p + 48), values_offsets_ptr := Some (p + (48 + ceil8 tot)),
      values_key_lengths := (if ow_has_keys w \<and> mx \<noteq> 0 then Some (p + (48 + ceil8 tot + 8 * (mx + 1))) else None)\<rparr>"

definition writer_headers :: "output_writer \<Rightarrow> size_type \<Rightarrow> size_type \<Rightarrow> addr \<Rightarrow> mem \<Rightarrow> bool" where
  "writer_headers w mx tot p m \<longleftrightarrow> load_size m p = 0 \<and> load_size m (p + 8) = writer_size w mx tot - 16 \<and>
     load_size m (p + 16) = ceil8 tot \<and> load_size m (p + 24) = mx"

lemma writer_buffer_parsed:
  assumes "fits tot mx" "writer_headers w mx tot p m"
  shows "make_serialized_buffer m slot (Some p) = writer_buffer w mx tot slot p"
proof -
  have sz: "writer_size w mx tot < size_modulus" "16 < writer_size w mx tot"
    "48 + ceil8 tot + 8 * (mx + 1) \<le> writer_size w mx tot"
    using writer_size_less [OF assms(1)] by (simp_all add: writer_size_def)
  show ?thesis
    using parse_values_only_header [of m p "writer_size w mx tot" "ceil8 tot" mx slot] sz assms(2)
    by (auto simp: writer_headers_def writer_buffer_def writer_size_def)
qed

lemma writer_headers_init:
  fixes m :: mem
  assumes "fits tot mx"
  shows "writer_headers w mx tot p (init_values p (writer_layout w mx tot) mx m)"
    "load_size (init_values p (writer_layout w mx tot) mx m) (p + 32) = 0"
proof -
  have sz: "writer_size w mx tot < size_modulus" "48 + ceil8 tot < size_modulus" "16 \<le> writer_size w mx tot" "mx < size_modulus"
    using writer_size_less [OF assms, of w] by (simp_all add: writer_size_def split: if_splits)
  let ?m = "init_values p (writer_layout w mx tot) mx m"
  have "load_size ?m p = 0" "load_size ?m (p + 8) = writer_size w mx tot - 16" "load_size ?m (p + 16) = ceil8 tot"
    "load_size ?m (p + 24) = mx" "load_size ?m (p + 32) = 0"
    by (rule init_values_loads [of "writer_layout w mx tot" "ceil8 tot" "writer_size w mx tot"]; use sz in \<open>simp add: writer_layout_exact [OF assms]\<close>)+
  then show "writer_headers w mx tot p ?m" "load_size ?m (p + 32) = 0" by (simp_all add: writer_headers_def)
qed

lemma allocate_locked_mrefs:
  assumes "fresh_mref tmp ms" "allocate_locked False tmp slot p sz node ms = Some ms'"
  shows "mrefs ms' = (mrefs ms)[tmp := null_reference]"
proof -
  have "mrefs (mr_lock slot tmp s) = mrefs s" for s
    by (simp add: mr_lock_def lmr_from_object_def Let_def lock_opt_def share_opt_def object_lock_def share_def update_object_def split: option.split)
  moreover have "mrefs s' = (mrefs s)[tmp := null_reference]" if "mr_destroy False tmp s = Some s'" for s s'
    using that by (auto simp: mr_destroy_def drop_opt_def drop_share_def destroy_object_def notify_release_def update_object_def check_def
        Let_def split: option.splits if_splits bind_splits)
  ultimately show ?thesis
    using assms by (auto simp: allocate_locked_def allocate_def allocate_on_node_def allocate_object_def mr_from_object_def Let_def split: if_splits)
qed

lemma allocate_buffer_ok:
  assumes inv: "mem_inv ms" "fresh_mref tmp ms" "fresh_locked slot ms" "next_identifier ms < invalid_id"
    and w: "ow_context w" and tot: "tot = max d (ow_buffer_size w)" "mx = max r (ow_records w)" and fits: "fits tot mx"
  obtains ms' m' where "ow_allocate_buffer False tmp slot p d r w (ms, m) = ok (writer_buffer w mx tot (Some slot) p, ms', m')"
    "mem_inv ms'" "locked ms' = (locked ms)[slot := Some (next_identifier ms)]"
    "\<exists>ob. objects ms' (next_identifier ms) = Some ob \<and> lock_count ob = 1 \<and> use_count ob = 1 \<and> object_pointer ob = p \<and>
       buffer_size ob = writer_size w mx tot \<and> self_identifier ob = next_identifier ms"
    "writer_headers w mx tot p m'" "mrefs ms' = (mrefs ms)[tmp := null_reference]"
proof -
  let ?node = "self_node_id (ow_locality w)" and ?m = "init_values p (writer_layout w mx tot) mx m"
  obtain ms' where ms': "allocate_locked False tmp slot p (writer_size w mx tot) ?node ms = Some ms'" "mem_inv ms'"
    "locked ms' = (locked ms)[slot := Some (next_identifier ms)]"
    "\<exists>ob. objects ms' (next_identifier ms) = Some ob \<and> lock_count ob = 1 \<and> use_count ob = 1 \<and> object_pointer ob = p \<and>
       buffer_size ob = writer_size w mx tot \<and> self_identifier ob = next_identifier ms"
    using allocate_locked_ok [OF inv writer_size_less [OF fits]] by force
  have "ow_allocate_buffer False tmp slot p d r w (ms, m) = ok (make_serialized_buffer ?m (Some slot) (Some p), ms', ?m)"
    using w ms'(1) writer_layout_exact [OF fits, of w]
    by (simp add: ow_allocate_buffer_def Let_def allocate_key_value_buffer_def allocate_value_only_buffer_def writer_layout_def
        ob_bind_fragment_def flip: tot split: if_splits)
  moreover have "mrefs ms' = (mrefs ms)[tmp := null_reference]" by (rule allocate_locked_mrefs [OF inv(2) ms'(1)])
  ultimately show thesis
    using that ms' writer_headers_init [OF fits] writer_buffer_parsed [OF fits writer_headers_init(1) [OF fits]] by metis
qed

subsection \<open>Flushing\<close>

lemma flush_references:
  assumes inv: "mem_inv ms" and s: "slot < length (locked ms)" "locked ms ! slot = Some k"
    and t: "fresh_locked t ms" and i: "fresh_mref i ms"
  obtains ms1 where "mr_from_locked_move False i t (lmr_copy t slot ms) = Some ms1" "mem_inv ms1" "slot < length (locked ms1)"
    "locked ms1 ! slot = Some k" "i < length (mrefs ms1)" "mr_object (mrefs ms1 ! i) = Some k"
proof -
  have tl: "t < length (locked ms)" "locked ms ! t = None" and il: "i < length (mrefs ms)" "mr_object (mrefs ms ! i) = None"
    using t i by (simp_all add: fresh_locked_def fresh_mref_def)
  then have ne: "t \<noteq> slot" using s by auto
  let ?c = "lmr_copy t slot ms"
  have c: "mem_inv ?c" by (rule lmr_copy_ok [OF inv tl(1) s(1) tl(2)])
  have fr: "length (locked ?c) = length (locked ms)" "mrefs ?c = mrefs ms" "locked ?c ! slot = Some k" "locked ?c ! t = Some k"
    using s tl ne by (simp_all add: lmr_copy_def Let_def)
  obtain ms1 where ms1: "mr_from_locked_move False i t ?c = Some ms1" "mem_inv ms1"
    using mr_from_locked_move_ok [OF c, of i t] fr tl il by auto
  have "locked ms1 = (locked ?c)[t := None] \<and> mr_object (mrefs ms1 ! i) = Some k \<and> length (mrefs ms1) = length (mrefs ms)"
    using ms1(1) fr il tl
    by (auto simp: mr_from_locked_move_def Let_def mr_from_object_def unlock_opt_def object_unlock_def update_object_def
        split: option.splits if_splits)
  then show thesis using that ms1 fr s il ne by simp
qed

lemma reread_headers:
  assumes h: "writer_headers w mx tot p m'" and same: "\<forall>x. p \<le> x \<and> x < p + 40 \<longrightarrow> m2 x = m' x"
    and m1: "m1 = store_size m2 (p + 32) n" and n: "n < size_modulus"
  shows "writer_headers w mx tot p m1" "load_size m1 (p + 32) = n" "\<forall>x. p + 40 \<le> x \<longrightarrow> m1 x = m2 x"
proof -
  have ld: "load_size m2 (p + c) = load_size m' (p + c)" if "c \<le> 32" for c
    using same that by (intro load_size_cong) simp
  then have "load_size m2 p = load_size m' p" "load_size m2 (p + 8) = load_size m' (p + 8)" "load_size m2 (p + 16) = load_size m' (p + 16)"
    "load_size m2 (p + 24) = load_size m' (p + 24)"
    using ld [of 0] ld [of 8] ld [of 16] ld [of 24] by simp_all
  then show "writer_headers w mx tot p m1" "load_size m1 (p + 32) = n"
    using h n unfolding m1 writer_headers_def by (simp_all add: mem_simps)
  show "\<forall>x. p + 40 \<le> x \<longrightarrow> m1 x = m2 x" by (simp add: m1 store_size_def store_bytes_def)
qed

text \<open>What the input buffer of the consumer shows.\<close>

definition reads_records :: "mem \<Rightarrow> serialized_buffer \<Rightarrow> size_type \<Rightarrow> addr \<Rightarrow> addr \<Rightarrow> size_type \<Rightarrow> bool" where
  "reads_records m c n data offsets len \<longleftrightarrow> ib_record_count m c = n \<and> ib_key_buffer c = Some data \<and>
     ib_key_offset_table m c = Some offsets \<and> ib_key_buffer_size m c = len \<and>
     ib_value_buffer_size m c = 0 \<and> ib_value_buffer c = None \<and> ib_value_offset_table m c = None"

lemma writer_buffer_reads:
  assumes "fits tot mx" "writer_headers w mx tot p m" "load_size m (p + 32) = n"
  shows "reads_records m (make_serialized_buffer m slot (Some p)) n (p + 48) (p + 48 + ceil8 tot)
    (load_size m (p + 48 + ceil8 tot + 8 * n))"
  unfolding writer_buffer_parsed [OF assms(1,2)] using assms(2,3)
  by (simp add: reads_records_def writer_buffer_def null_buffer_def ib_record_count_def ib_key_buffer_def ib_key_offset_table_def
      ib_key_buffer_size_def ib_value_buffer_size_def ib_value_buffer_def ib_value_offset_table_def buffer_valid_def is_grouped_def
      record_count_def values_data_def values_offsets_def maximum_record_count_def writer_headers_def add.assoc)

subsection \<open>Properties\<close>

text \<open>
  C27: a buffer allocated by a writer has at least the requested space, and a key length table exactly when its
  port has keys. However the task fills it, as long as it leaves the header alone, flushing \<open>n\<close>
  records commits to the writer's port one reference to the buffer's object, in which every
  consumer's input buffer shows \<open>n\<close> records with the data and offsets the task wrote.
\<close>
theorem written_records_are_read:
  assumes inv: "mem_inv ms" "fresh_mref tmp ms" "fresh_locked slot ms" "next_identifier ms < invalid_id"
    and t: "fresh_locked t ms" "t \<noteq> slot" and i: "fresh_mref i ms"
    and w: "ow_context w" and fits: "fits (max d (ow_buffer_size w)) (max r (ow_records w))"
    and n: "0 < n" "n < size_modulus" and fill: "\<forall>m x. p \<le> x \<and> x < p + 40 \<longrightarrow> fill m x = m x"
  shows "\<exists>b ms' m' data offsets ms1 m1. ow_allocate_buffer False tmp slot p d r w (ms, m) = ok (b, ms', m') \<and>
    ob_data_buffer b = Some data \<and> ob_offset_table m' b = Some offsets \<and> d \<le> ob_data_buffer_size m' b \<and> r \<le> ob_max_record_count m' b \<and>
    data + ob_data_buffer_size m' b = offsets \<and>
    (ob_key_length_table b = (if ow_has_keys w \<and> 0 < ob_max_record_count m' b
       then Some (offsets + 8 * (ob_max_record_count m' b + 1)) else None)) \<and>
    ow_flush_buffer False t i commit b n w (ms', fill m') =
      andThen (commit (ow_port w) 0 i (ms1, m1)) (\<lambda>(ms, m). andThen (of_option (lmr_destroy False slot ms)) (\<lambda>ms. ok (ms, m))) \<and>
    mem_inv ms1 \<and> mr_object (mrefs ms1 ! i) = Some (next_identifier ms) \<and> (\<forall>x. p + 40 \<le> x \<longrightarrow> m1 x = fill m' x) \<and>
    reads_records m1 (make_serialized_buffer m1 s (Some p)) n data offsets (load_size (fill m') (offsets + 8 * n))"
proof -
  let ?tot = "max d (ow_buffer_size w)" and ?mx = "max r (ow_records w)"
  obtain ms' m' where a: "ow_allocate_buffer False tmp slot p d r w (ms, m) = ok (writer_buffer w ?mx ?tot (Some slot) p, ms', m')"
    "mem_inv ms'" "locked ms' = (locked ms)[slot := Some (next_identifier ms)]"
    "\<exists>ob. objects ms' (next_identifier ms) = Some ob \<and> lock_count ob = 1 \<and> use_count ob = 1 \<and> object_pointer ob = p \<and>
       buffer_size ob = writer_size w ?mx ?tot \<and> self_identifier ob = next_identifier ms"
    "writer_headers w ?mx ?tot p m'" "mrefs ms' = (mrefs ms)[tmp := null_reference]"
    by (rule allocate_buffer_ok [OF inv w refl refl fits])
  let ?b = "writer_buffer w ?mx ?tot (Some slot) p"
  have slot: "slot < length (locked ms')" "locked ms' ! slot = Some (next_identifier ms)"
    using a(3) inv(3) by (simp_all add: fresh_locked_def)
  have fresh: "fresh_locked t ms'" "fresh_mref i ms'"
    using t i a(3,6) inv(2,3) by (auto simp: fresh_locked_def fresh_mref_def nth_list_update null_reference_def)
  have acc: "ob_data_buffer ?b = Some (p + 48)" "ob_offset_table m' ?b = Some (p + 48 + ceil8 ?tot)"
    "ob_data_buffer_size m' ?b = ceil8 ?tot" "ob_max_record_count m' ?b = ?mx"
    "ob_key_length_table ?b = (if ow_has_keys w \<and> 0 < ?mx then Some (p + 48 + ceil8 ?tot + 8 * (?mx + 1)) else None)"
    using a(5) by (simp_all add: ob_data_buffer_def ob_offset_table_def ob_data_buffer_size_def ob_max_record_count_def
        ob_key_length_table_def writer_buffer_def null_buffer_def buffer_valid_def values_data_def values_offsets_def
        values_data_size_def maximum_record_count_def writer_headers_def add.assoc)
  obtain ms1 where ms1: "mr_from_locked_move False i t (lmr_copy t slot ms') = Some ms1" "mem_inv ms1" "slot < length (locked ms1)"
    "locked ms1 ! slot = Some (next_identifier ms)" "i < length (mrefs ms1)" "mr_object (mrefs ms1 ! i) = Some (next_identifier ms)"
    by (rule flush_references [OF a(2) slot fresh])
  let ?m2 = "fill m'" and ?m1 = "store_size (fill m') (p + 32) n"
  have same: "\<forall>x. p \<le> x \<and> x < p + 40 \<longrightarrow> ?m2 x = m' x" using fill by blast
  note rr = reread_headers [OF a(5) same refl n(2)]
  have flush: "ow_flush_buffer False t i commit ?b n w (ms', ?m2) =
      andThen (commit (ow_port w) 0 i (ms1, ?m1)) (\<lambda>(ms, m). andThen (of_option (lmr_destroy False slot ms)) (\<lambda>ms. ok (ms, m)))"
    using w n(1) ms1(1)
    by (simp add: ow_flush_buffer_def ob_unbind_fragment_def set_record_count_def of_option_def writer_buffer_def null_buffer_def Let_def add.assoc)
  have len: "load_size ?m1 (p + 48 + ceil8 ?tot + 8 * n) = load_size ?m2 (p + 48 + ceil8 ?tot + 8 * n)"
    using rr(3) by (intro load_size_cong) simp
  show ?thesis
  proof (rule exI [of _ ?b], rule exI [of _ ms'], rule exI [of _ m'], rule exI [of _ "p + 48"],
      rule exI [of _ "p + 48 + ceil8 ?tot"], rule exI [of _ ms1], rule exI [of _ ?m1], intro conjI)
    show "d \<le> ob_data_buffer_size m' ?b" "r \<le> ob_max_record_count m' ?b" "p + 48 + ob_data_buffer_size m' ?b = p + 48 + ceil8 ?tot"
      unfolding acc using ceil8_bounds(1) [of ?tot] by linarith+
    show "ob_key_length_table ?b = (if ow_has_keys w \<and> 0 < ob_max_record_count m' ?b
        then Some (p + 48 + ceil8 ?tot + 8 * (ob_max_record_count m' ?b + 1)) else None)"
      unfolding acc ..
    show "reads_records ?m1 (make_serialized_buffer ?m1 s (Some p)) n (p + 48) (p + 48 + ceil8 ?tot)
        (load_size ?m2 (p + 48 + ceil8 ?tot + 8 * n))"
      using writer_buffer_reads [OF fits rr(1,2), of s] unfolding len .
  qed (fact a(1) acc(1,2) flush ms1(2,6) rr(3))+
qed

definition sample_writer :: output_writer where
  "sample_writer = ow_set_buffer_size 16 (ow_set_records 2 (ow_set_has_keys True (ow_set_context True ow_new)))"

theorem written_records_are_read_witness:
  "\<exists>b ms' m' data offsets ms1 m1. ow_allocate_buffer False 0 0 4096 20 1 sample_writer (new_memory_manager AffinityNONE 2 2, \<lambda>_. 0) = ok (b, ms', m') \<and>
     ob_data_buffer b = Some data \<and> 20 \<le> ob_data_buffer_size m' b \<and>
     ow_flush_buffer False 1 1 (\<lambda>port partition r st. ok st) b 1 sample_writer (ms', store_size m' 4176 7) =
       andThen (of_option (lmr_destroy False 0 ms1)) (\<lambda>ms. ok (ms, m1)) \<and>
     reads_records m1 (make_serialized_buffer m1 None (Some 4096)) 1 data offsets (load_size (store_size m' 4176 7) (offsets + 8))"
proof -
  have fresh: "fresh_mref 0 (new_memory_manager AffinityNONE 2 2)" "fresh_locked 0 (new_memory_manager AffinityNONE 2 2)"
    "next_identifier (new_memory_manager AffinityNONE 2 2) < invalid_id" "fresh_locked 1 (new_memory_manager AffinityNONE 2 2)"
    "fresh_mref 1 (new_memory_manager AffinityNONE 2 2)"
    by (simp_all add: fresh_mref_def fresh_locked_def new_memory_manager_def null_reference_def invalid_id_def)
  have w: "ow_context sample_writer" "fits (max 20 (ow_buffer_size sample_writer)) (max 1 (ow_records sample_writer))"
    "(0 :: nat) < 1" "(1 :: nat) < size_modulus"
    by (simp_all add: sample_writer_def ow_set_buffer_size_def ow_set_records_def ow_set_has_keys_def ow_set_context_def ow_new_def
        fits_def size_modulus_def)
  have fill: "\<forall>m x. 4096 \<le> x \<and> x < 4096 + 40 \<longrightarrow> store_size m 4176 7 x = m x" by (simp add: store_size_def store_bytes_def)
  from written_records_are_read [OF new_memory_manager_ok fresh(1-3) fresh(4) _ fresh(5) w(1,2) w(3,4) fill,
      where commit = "\<lambda>port partition r st. ok st" and s = None and m = "\<lambda>_. 0"]
  show ?thesis by simp blast
qed

end
