(* ===== verification/TaskObject.thy ===== *)
theory TaskObject
  imports TaskBuffers Configuration PhysicalTask
begin

text \<open>
  \<open>TaskImpl\<close> (api/internal/task_impl.hpp) and \<open>Task\<close> (api/task.cpp): the object every method of a user's
  processor gets. A locked memory reference is a value of the type parameter; a null reference is
  \<open>None\<close>. The logical task is its position in the logical graph.
\<close>

subsection \<open>TaskImpl\<close>

text \<open>\<open>TaskInput\<close> is its memory object, \<open>TaskOutput\<close> its flag.\<close>

type_synonym 'm task_input = "'m option"
type_synonym task_output = bool

definition no_task_input :: "'m task_input" where
  "no_task_input = None"

definition make_task_input :: "'m option \<Rightarrow> 'm task_input" where
  "make_task_input m = m"

definition default_task_output :: task_output where
  "default_task_output = False"

definition make_task_output :: "bool \<Rightarrow> task_output" where
  "make_task_output has_keys = has_keys"

record 'm task_impl =
  ti_logical_task_id :: identifier_type
  ti_physical_task_id :: identifier_type
  ti_context :: "configuration option"
  ti_process_logical_task :: "nat option"
  ti_current_locality :: locality
  ti_inputs :: "'m task_input list"
  ti_outputs :: "task_output list"
  ti_is_cancelled :: bool

definition ti_new :: "'m task_impl" where
  "ti_new = \<lparr>ti_logical_task_id = 0, ti_physical_task_id = 0, ti_context = None, ti_process_logical_task = None,
     ti_current_locality = default_locality, ti_inputs = [], ti_outputs = [], ti_is_cancelled = False\<rparr>"

definition ti_set_context :: "configuration option \<Rightarrow> 'm task_impl \<Rightarrow> 'm task_impl" where
  "ti_set_context c t = t\<lparr>ti_context := c\<rparr>"

definition ti_set_process_logical_task :: "nat option \<Rightarrow> 'm task_impl \<Rightarrow> 'm task_impl" where
  "ti_set_process_logical_task p t = t\<lparr>ti_process_logical_task := p\<rparr>"

definition ti_set_current_locality :: "locality \<Rightarrow> 'm task_impl \<Rightarrow> 'm task_impl" where
  "ti_set_current_locality l t = t\<lparr>ti_current_locality := l\<rparr>"

definition ti_set_logical_task_id :: "identifier_type \<Rightarrow> 'm task_impl \<Rightarrow> 'm task_impl" where
  "ti_set_logical_task_id i t = t\<lparr>ti_logical_task_id := i\<rparr>"

definition ti_set_physical_task_id :: "identifier_type \<Rightarrow> 'm task_impl \<Rightarrow> 'm task_impl" where
  "ti_set_physical_task_id i t = t\<lparr>ti_physical_task_id := i\<rparr>"

text \<open>\<open>vector::resize\<close> keeps what is there and fills up with default elements.\<close>

definition ti_set_input_count :: "size_type \<Rightarrow> 'm task_impl \<Rightarrow> 'm task_impl" where
  "ti_set_input_count n t = t\<lparr>ti_inputs := take n (ti_inputs t) @ replicate (n - length (ti_inputs t)) no_task_input\<rparr>"

definition ti_set_output_count :: "size_type \<Rightarrow> 'm task_impl \<Rightarrow> 'm task_impl" where
  "ti_set_output_count n t = t\<lparr>ti_outputs := take n (ti_outputs t) @ replicate (n - length (ti_outputs t)) default_task_output\<rparr>"

text \<open>The reader holds a copy of the reference of the input.\<close>

definition ti_input :: "identifier_type \<Rightarrow> 'm task_impl \<Rightarrow> 'm option result" where
  "ti_input port t = (if length (ti_inputs t) \<le> port then throw Out_of_range else ok (ti_inputs t ! port))"

definition ti_set_input :: "identifier_type \<Rightarrow> 'm task_input \<Rightarrow> 'm task_impl \<Rightarrow> 'm task_impl result" where
  "ti_set_input port x t =
     (if port < length (ti_inputs t) then ok (t\<lparr>ti_inputs := (ti_inputs t)[port := x]\<rparr>) else throw Undefined)"

definition ti_output :: "identifier_type \<Rightarrow> 'm task_impl \<Rightarrow> output_writer result" where
  "ti_output port t =
     (if length (ti_outputs t) \<le> port then throw Out_of_range
      else case ti_context t of
             None \<Rightarrow> throw Undefined
           | Some config \<Rightarrow>
               ok (ow_set_records (default_records_per_buffer config)
                 (ow_set_buffer_size (default_output_buffer_size config)
                   (ow_set_has_keys (ti_outputs t ! port)
                     (ow_set_port port
                       (ow_set_locality (ti_current_locality t)
                         (ow_set_task (ti_process_logical_task t) (ow_set_context True ow_new))))))))"

definition ti_set_output :: "identifier_type \<Rightarrow> task_output \<Rightarrow> 'm task_impl \<Rightarrow> 'm task_impl result" where
  "ti_set_output port x t =
     (if port < length (ti_outputs t) then ok (t\<lparr>ti_outputs := (ti_outputs t)[port := x]\<rparr>) else throw Undefined)"

definition ti_set_is_cancelled :: "bool \<Rightarrow> 'm task_impl \<Rightarrow> 'm task_impl" where
  "ti_set_is_cancelled flag t = t\<lparr>ti_is_cancelled := flag\<rparr>"

subsection \<open>Task\<close>

definition Task_new :: "'m task_impl handle" where
  "Task_new = Some ti_new"

definition Task_logical_task_id :: "'m task_impl handle \<Rightarrow> identifier_type option" where
  "Task_logical_task_id = handle_get ti_logical_task_id"

definition Task_physical_task_id :: "'m task_impl handle \<Rightarrow> identifier_type option" where
  "Task_physical_task_id = handle_get ti_physical_task_id"

definition Task_input :: "identifier_type \<Rightarrow> 'm task_impl handle \<Rightarrow> 'm option result" where
  "Task_input port h = (case h of None \<Rightarrow> throw Undefined | Some t \<Rightarrow> ti_input port t)"

definition Task_output :: "identifier_type \<Rightarrow> 'm task_impl handle \<Rightarrow> output_writer result" where
  "Task_output port h = (case h of None \<Rightarrow> throw Undefined | Some t \<Rightarrow> ti_output port t)"

definition Task_is_cancelled :: "'m task_impl handle \<Rightarrow> bool option" where
  "Task_is_cancelled = handle_get ti_is_cancelled"

subsection \<open>The objects of a process task\<close>

text \<open>
  \<open>ProcessLogicalTaskBase::create_task_object\<close> (tasks/process/process_task_base.cpp): the loops over the
  ports. An input vector shorter than the input ports is read out of bounds.
\<close>

fun set_task_inputs :: "nat list \<Rightarrow> 'm option list \<Rightarrow> 'm task_impl \<Rightarrow> 'm task_impl result" where
  "set_task_inputs [] buffers t = ok t"
| "set_task_inputs (i # is) buffers t =
     (if length buffers \<le> i then throw Undefined
      else andThen (if buffers ! i \<noteq> None then ti_set_input i (make_task_input (buffers ! i)) t else ok t)
             (set_task_inputs is buffers))"

fun set_task_outputs :: "nat list \<Rightarrow> output_port list \<Rightarrow> 'm task_impl \<Rightarrow> 'm task_impl result" where
  "set_task_outputs [] ports t = ok t"
| "set_task_outputs (i # is) ports t =
     andThen (ti_set_output i (make_task_output (op_has_key (ports ! i))) t) (set_task_outputs is ports)"

definition create_task_object ::
  "configuration \<Rightarrow> nat \<Rightarrow> LogicalTaskIdentifier \<Rightarrow> processor \<Rightarrow> 'm option list \<Rightarrow> identifier_type \<Rightarrow> bool \<Rightarrow> locality \<Rightarrow>
    'm task_impl result" where
  "create_task_object config this task_id p buffers physical_task_id cancelled l =
     (let t = ti_set_is_cancelled cancelled
               (ti_set_output_count (length (output_ports p))
                 (ti_set_input_count (length (input_ports p))
                   (ti_set_physical_task_id physical_task_id
                     (ti_set_logical_task_id (logical_id task_id)
                       (ti_set_current_locality l
                         (ti_set_process_logical_task (Some this) (ti_set_context (Some config) ti_new)))))))
      in andThen (set_task_inputs [0..<length (input_ports p)] buffers t)
           (set_task_outputs [0..<length (output_ports p)] (output_ports p)))"

subsection \<open>What the task object shows\<close>

lemma set_task_inputs_ok:
  assumes "\<forall>i\<in>set is. i < length buffers \<and> i < length (ti_inputs t)"
  shows "\<exists>xs. set_task_inputs is buffers t = ok (t\<lparr>ti_inputs := xs\<rparr>) \<and> length xs = length (ti_inputs t) \<and>
    (\<forall>i<length xs. xs ! i = (if i \<in> set is \<and> buffers ! i \<noteq> None then buffers ! i else ti_inputs t ! i))"
  using assms
proof (induction "is" arbitrary: t)
  case Nil
  then show ?case by (intro exI [of _ "ti_inputs t"]) simp
next
  case (Cons i "is")
  let ?ys = "if buffers ! i \<noteq> None then (ti_inputs t)[i := buffers ! i] else ti_inputs t"
  let ?t = "t\<lparr>ti_inputs := ?ys\<rparr>"
  have "\<forall>j\<in>set is. j < length buffers \<and> j < length (ti_inputs ?t)" using Cons.prems by simp
  from Cons.IH [OF this] obtain xs where xs: "set_task_inputs is buffers ?t = ok (?t\<lparr>ti_inputs := xs\<rparr>)"
      "length xs = length (ti_inputs ?t)"
      "\<forall>j<length xs. xs ! j = (if j \<in> set is \<and> buffers ! j \<noteq> None then buffers ! j else ti_inputs ?t ! j)"
    by blast
  have "set_task_inputs (i # is) buffers t = set_task_inputs is buffers ?t"
    using Cons.prems by (auto simp: ti_set_input_def make_task_input_def)
  moreover have "xs ! j = (if j \<in> set (i # is) \<and> buffers ! j \<noteq> None then buffers ! j else ti_inputs t ! j)" if "j < length xs" for j
    using xs(2,3) that Cons.prems by (auto simp: nth_list_update)
  ultimately show ?case using xs(1,2) by (intro exI [of _ xs]) auto
qed

lemma set_task_outputs_ok:
  assumes "\<forall>i\<in>set is. i < length (ti_outputs t)"
  shows "\<exists>xs. set_task_outputs is ports t = ok (t\<lparr>ti_outputs := xs\<rparr>) \<and> length xs = length (ti_outputs t) \<and>
    (\<forall>i<length xs. xs ! i = (if i \<in> set is then op_has_key (ports ! i) else ti_outputs t ! i))"
  using assms
proof (induction "is" arbitrary: t)
  case Nil
  then show ?case by (intro exI [of _ "ti_outputs t"]) simp
next
  case (Cons i "is")
  let ?t = "t\<lparr>ti_outputs := (ti_outputs t)[i := op_has_key (ports ! i)]\<rparr>"
  obtain xs where xs: "set_task_outputs is ports ?t = ok (?t\<lparr>ti_outputs := xs\<rparr>)" "length xs = length (ti_outputs ?t)"
      "\<forall>j<length xs. xs ! j = (if j \<in> set is then op_has_key (ports ! j) else ti_outputs ?t ! j)"
    using Cons.IH [of ?t] Cons.prems by auto
  have "set_task_outputs (i # is) ports t = ok (t\<lparr>ti_outputs := xs\<rparr>)"
    using Cons.prems xs(1) by (simp add: ti_set_output_def make_task_output_def)
  then show ?case
    using Cons.prems xs(2,3) by (intro exI [of _ xs]) (auto simp: nth_list_update)
qed

definition task_object_ok ::
  "configuration \<Rightarrow> nat \<Rightarrow> LogicalTaskIdentifier \<Rightarrow> processor \<Rightarrow> 'm option list \<Rightarrow> identifier_type \<Rightarrow> bool \<Rightarrow> locality \<Rightarrow>
    'm task_impl \<Rightarrow> bool" where
  "task_object_ok config this task_id p buffers pid cancelled l t \<longleftrightarrow>
     t = \<lparr>ti_logical_task_id = logical_id task_id, ti_physical_task_id = pid, ti_context = Some config, ti_process_logical_task = Some this,
       ti_current_locality = l, ti_inputs = take (length (input_ports p)) buffers,
       ti_outputs = map op_has_key (output_ports p), ti_is_cancelled = cancelled\<rparr>"

lemma create_task_object_ok:
  assumes "length (input_ports p) \<le> length buffers"
  shows "\<exists>t. create_task_object config this task_id p buffers pid cancelled l = ok t \<and> task_object_ok config this task_id p buffers pid cancelled l t"
proof -
  let ?n = "length (input_ports p)" and ?k = "length (output_ports p)"
  let ?t = "\<lparr>ti_logical_task_id = logical_id task_id, ti_physical_task_id = pid, ti_context = Some config, ti_process_logical_task = Some this,
       ti_current_locality = l, ti_inputs = replicate ?n None, ti_outputs = replicate ?k False, ti_is_cancelled = cancelled\<rparr>"
  have base: "ti_set_is_cancelled cancelled (ti_set_output_count ?k (ti_set_input_count ?n
      (ti_set_physical_task_id pid (ti_set_logical_task_id (logical_id task_id) (ti_set_current_locality l
        (ti_set_process_logical_task (Some this) (ti_set_context (Some config) ti_new))))))) = ?t"
    by (simp add: ti_set_is_cancelled_def ti_set_output_count_def ti_set_input_count_def ti_set_physical_task_id_def
        ti_set_logical_task_id_def ti_set_current_locality_def ti_set_process_logical_task_def ti_set_context_def ti_new_def
        no_task_input_def default_task_output_def)
  obtain xs where xs: "set_task_inputs [0..<?n] buffers ?t = ok (?t\<lparr>ti_inputs := xs\<rparr>)" "length xs = ?n"
      "\<forall>i<?n. xs ! i = (if buffers ! i \<noteq> None then buffers ! i else None)"
    using set_task_inputs_ok [of "[0..<?n]" buffers ?t] assms by auto
  have xs_eq: "xs = take ?n buffers" using xs(2,3) assms by (intro nth_equalityI) auto
  let ?u = "?t\<lparr>ti_inputs := xs\<rparr>"
  obtain ys where ys: "set_task_outputs [0..<?k] (output_ports p) ?u = ok (?u\<lparr>ti_outputs := ys\<rparr>)" "length ys = ?k"
      "\<forall>i<?k. ys ! i = op_has_key (output_ports p ! i)"
    using set_task_outputs_ok [of "[0..<?k]" ?u "output_ports p"] by auto
  have ys_eq: "ys = map op_has_key (output_ports p)" using ys(2,3) by (intro nth_equalityI) auto
  have "create_task_object config this task_id p buffers pid cancelled l = ok (?u\<lparr>ti_outputs := ys\<rparr>)"
    unfolding create_task_object_def base Let_def xs(1) andThen_simps by (rule ys(1))
  then show ?thesis by (simp add: task_object_ok_def xs_eq ys_eq)
qed

lemma create_task_object_short:
  assumes "length buffers < length (input_ports p)"
  shows "create_task_object config this task_id p buffers pid cancelled l = throw Undefined"
proof -
  have "set_task_inputs is buffers t = throw Undefined"
    if "\<exists>i\<in>set is. length buffers \<le> i" "\<forall>i\<in>set is. i < length (ti_inputs t)" for "is" and t :: "'a task_impl"
    using that
  proof (induction "is" arbitrary: t)
    case (Cons i "is")
    show ?case
    proof (cases "length buffers \<le> i")
      case False
      have "set_task_inputs is buffers u = throw Undefined" if "length (ti_inputs u) = length (ti_inputs t)" for u
        by (rule Cons.IH) (use Cons.prems that False in auto)
      then show ?thesis using Cons.prems(2) by (simp add: ti_set_input_def)
    qed simp
  qed simp
  moreover have "\<exists>i\<in>set [0..<length (input_ports p)]. length buffers \<le> i"
    using assms by (intro bexI [of _ "length buffers"]) auto
  ultimately show ?thesis
    by (simp add: create_task_object_def Let_def ti_set_is_cancelled_def ti_set_output_count_def ti_set_input_count_def
        ti_set_physical_task_id_def ti_set_logical_task_id_def ti_set_current_locality_def ti_set_process_logical_task_def
        ti_set_context_def ti_new_def)
qed

subsection \<open>Property\<close>

text \<open>
  C28: the task object handed to a processor shows each input port the buffer delivered to it and throws
  std::out_of_range beyond the last port; an output writer carries the port, the worker's locality, whether
  the port has keys, and the sizes of the configuration. With fewer buffers than input ports the
  code reads out of bounds.
\<close>
theorem task_object_ports:
  "case create_task_object config this task_id p buffers pid cancelled l of
     Inl e \<Rightarrow> e = Undefined \<and> length buffers < length (input_ports p)
   | Inr t \<Rightarrow> length (input_ports p) \<le> length buffers \<and> ti_is_cancelled t = cancelled \<and> ti_physical_task_id t = pid \<and>
       ti_input i t = (if i < length (input_ports p) then ok (buffers ! i) else throw Out_of_range) \<and>
       ti_output k t = (if length (output_ports p) \<le> k then throw Out_of_range
         else ok \<lparr>ow_context = True, ow_locality = l, ow_task = Some this, ow_port = k, ow_has_keys = op_has_key (output_ports p ! k),
           ow_buffer_size = default_output_buffer_size config, ow_records = default_records_per_buffer config\<rparr>)"
proof (cases "length (input_ports p) \<le> length buffers")
  case True
  then obtain t where t: "create_task_object config this task_id p buffers pid cancelled l = ok t" "task_object_ok config this task_id p buffers pid cancelled l t"
    using create_task_object_ok by blast
  then show ?thesis
    using True by (simp add: ok_def task_object_ok_def ti_input_def ti_output_def ow_set_records_def ow_set_buffer_size_def
        ow_set_has_keys_def ow_set_port_def ow_set_locality_def ow_set_task_def ow_set_context_def ow_new_def)
next
  case False
  then show ?thesis using create_task_object_short [of buffers p] by (simp add: throw_def)
qed

end
