(* ===== verification/ProcessTask.thy ===== *)
theory ProcessTask
  imports TaskObject TaskGraph
begin

text \<open>
  \<open>ProcessLogicalTaskBase\<close> (tasks/process/process_task_base.cpp): the life cycle of a process task, the limit
  on its concurrency, its task objects and its finalizers. An operation is an effect on the state of
  the program: it changes the state and may throw; what it changed before it threw stays
  changed. The user's processor is a parameter whose methods are effects themselves. A failed
  assertion or an access out of bounds is the exception \<open>Undefined\<close>.
\<close>

subsection \<open>Effects on the program\<close>

record ('m, 'u) program =
  pg_tasks :: "'m logical_task list"
  pg_scheduler :: "'m command scheduler"
  pg_user :: 'u

type_synonym ('m, 'u) effect = "('m, 'u) program \<Rightarrow> exn option \<times> ('m, 'u) program"

definition skip :: "('m, 'u) effect" where
  "skip pg = (None, pg)"

definition fail :: "exn \<Rightarrow> ('m, 'u) effect" where
  "fail e pg = (Some e, pg)"

definition then_do :: "('m, 'u) effect \<Rightarrow> ('m, 'u) effect \<Rightarrow> ('m, 'u) effect" where
  "then_do f g pg = (case f pg of (None, pg) \<Rightarrow> g pg | (Some e, pg) \<Rightarrow> (Some e, pg))"

fun each_do :: "('a \<Rightarrow> ('m, 'u) effect) \<Rightarrow> 'a list \<Rightarrow> ('m, 'u) effect" where
  "each_do f [] = skip"
| "each_do f (x # xs) = then_do (f x) (each_do f xs)"

definition assuming :: "bool \<Rightarrow> ('m, 'u) effect \<Rightarrow> ('m, 'u) effect" where
  "assuming c f = (if c then f else fail Undefined)"

definition on_scheduler :: "('m command scheduler \<Rightarrow> 'm command scheduler option) \<Rightarrow> ('m, 'u) effect" where
  "on_scheduler f pg = (case f (pg_scheduler pg) of None \<Rightarrow> (Some Undefined, pg) | Some s \<Rightarrow> (None, pg\<lparr>pg_scheduler := s\<rparr>))"

definition from_scheduler :: "('m command scheduler \<Rightarrow> ('a \<times> 'm command scheduler) option) \<Rightarrow> ('a \<Rightarrow> ('m, 'u) effect) \<Rightarrow> ('m, 'u) effect" where
  "from_scheduler f k pg =
     (case f (pg_scheduler pg) of None \<Rightarrow> (Some Undefined, pg) | Some (x, s) \<Rightarrow> k x (pg\<lparr>pg_scheduler := s\<rparr>))"

text \<open>The fields of the base class in the three kinds of process tasks.\<close>

fun process_of :: "'m task_body \<Rightarrow> 'm process_task option" where
  "process_of (InputProcess p) = Some p"
| "process_of (OneToOneProcess p n) = Some p"
| "process_of (ScatterGatherProcess p pool counters) = Some p"
| "process_of b = None"

fun update_process :: "('m process_task \<Rightarrow> 'm process_task) \<Rightarrow> 'm task_body \<Rightarrow> 'm task_body" where
  "update_process f (InputProcess p) = InputProcess (f p)"
| "update_process f (OneToOneProcess p n) = OneToOneProcess (f p) n"
| "update_process f (ScatterGatherProcess p pool counters) = ScatterGatherProcess (f p) pool counters"
| "update_process f b = b"

definition the_task :: "nat \<Rightarrow> ('m, 'u) program \<Rightarrow> 'm logical_task" where
  "the_task this pg = pg_tasks pg ! this"

definition set_body :: "nat \<Rightarrow> 'm task_body \<Rightarrow> ('m, 'u) effect" where
  "set_body this b pg = (None, pg\<lparr>pg_tasks := (pg_tasks pg)[this := (the_task this pg)\<lparr>lt_body := b\<rparr>]\<rparr>)"

definition with_process :: "nat \<Rightarrow> ('m process_task \<Rightarrow> ('m, 'u) effect) \<Rightarrow> ('m, 'u) effect" where
  "with_process this k pg =
     (case process_of (lt_body (the_task this pg)) of None \<Rightarrow> (Some Undefined, pg) | Some p \<Rightarrow> k p pg)"

definition change_process :: "nat \<Rightarrow> ('m process_task \<Rightarrow> 'm process_task) \<Rightarrow> ('m, 'u) effect" where
  "change_process this f pg = set_body this (update_process f (lt_body (the_task this pg))) pg"

subsection \<open>The environment\<close>

text \<open>
  The context's configuration and locality manager, the random choice of the scheduler, the node of a
  memory object, and the operations on fragments (modelled on memory in the theories ShufflePartition
  and ShuffleSort), which may run out of memory.
\<close>

record 'm environment =
  env_draw :: "nat \<Rightarrow> nat \<Rightarrow> nat"
  env_config :: configuration
  env_locality :: locality_manager
  env_node :: "'m \<Rightarrow> identifier_type"
  env_partition_fragment :: "nat \<Rightarrow> locality \<Rightarrow> 'm \<Rightarrow> 'm result"
  env_sort_records :: "nat \<Rightarrow> identifier_type \<Rightarrow> 'm list \<Rightarrow> 'm result"
  env_gather :: "nat \<Rightarrow> 'm list \<Rightarrow> 'm result"
  env_value_sort :: "nat \<Rightarrow> comparator option \<Rightarrow> 'm \<Rightarrow> 'm result"

text \<open>The methods of a processor.\<close>

record ('m, 'u) callbacks =
  cb_global_initialize :: "'m task_impl \<Rightarrow> ('m, 'u) effect"
  cb_global_finalize :: "'m task_impl \<Rightarrow> ('m, 'u) effect"
  cb_thread_local_initialize :: "'m task_impl \<Rightarrow> ('m, 'u) effect"
  cb_thread_local_finalize :: "'m task_impl \<Rightarrow> ('m, 'u) effect"
  cb_run :: "'m task_impl \<Rightarrow> ('m, 'u) effect"

type_synonym ('m, 'u) processors = "nat \<Rightarrow> ('m, 'u) callbacks"

subsection \<open>The limit on concurrency\<close>

text \<open>
  \<open>commit_process_command\<close> and \<open>notify_completion\<close> hold the mutex of the local queue; what they decide
  is a function of the task's fields. The result is the list of tasks they commit.
\<close>

definition limiter_commit :: "PhysicalTaskIdentifier \<Rightarrow> 'm process_task \<Rightarrow> PhysicalTaskIdentifier list \<times> 'm process_task" where
  "limiter_commit t p =
     (if remaining_concurrency p = 0 then ([], p\<lparr>task_queue := task_queue p @ [t]\<rparr>)
      else ([t], p\<lparr>remaining_concurrency := sz_sub (remaining_concurrency p) 1\<rparr>))"

fun drain :: "PhysicalTaskIdentifier list \<Rightarrow> size_type \<Rightarrow> PhysicalTaskIdentifier list \<times> PhysicalTaskIdentifier list \<times> size_type" where
  "drain [] r = ([], [], r)"
| "drain (t # q) r = (if 0 < r then (let (ts, q, r) = drain q (sz_sub r 1) in (t # ts, q, r)) else ([], t # q, r))"

definition limiter_complete :: "'m process_task \<Rightarrow> PhysicalTaskIdentifier list \<times> 'm process_task" where
  "limiter_complete p =
     (let (ts, q, r) = drain (task_queue p) (sz_add (remaining_concurrency p) 1)
      in (ts, p\<lparr>remaining_concurrency := r, task_queue := q\<rparr>))"

definition commit_process_command :: "'m environment \<Rightarrow> nat \<Rightarrow> PhysicalTaskIdentifier \<Rightarrow> ('m, 'u) effect" where
  "commit_process_command env this t =
     with_process this (\<lambda>p. then_do (change_process this (\<lambda>_. snd (limiter_commit t p)))
       (on_scheduler (commit_tasks (env_draw env) (fst (limiter_commit t p)))))"

definition notify_completion :: "'m environment \<Rightarrow> nat \<Rightarrow> ('m, 'u) effect" where
  "notify_completion env this =
     with_process this (\<lambda>p. then_do (change_process this (\<lambda>_. snd (limiter_complete p)))
       (on_scheduler (commit_tasks (env_draw env) (fst (limiter_complete p)))))"

subsection \<open>Calls of the processor\<close>

definition call_processor ::
  "'m environment \<Rightarrow> ('m, 'u) processors \<Rightarrow> (('m, 'u) callbacks \<Rightarrow> 'm task_impl \<Rightarrow> ('m, 'u) effect) \<Rightarrow> nat \<Rightarrow>
   'm option list \<Rightarrow> identifier_type \<Rightarrow> bool \<Rightarrow> locality \<Rightarrow> ('m, 'u) effect" where
  "call_processor env procs f this buffers pid cancelled l pg =
     with_process this (\<lambda>p.
       case create_task_object (env_config env) this (lt_task_id (the_task this pg)) (pr_processor p) buffers pid cancelled l of
         Inl e \<Rightarrow> fail e
       | Inr t \<Rightarrow> f (procs this) t) pg"

text \<open>A command between the entry and the barrier task.\<close>

definition create_between ::
  "LogicalTaskIdentifier \<Rightarrow> 'm command \<Rightarrow> locality_option \<Rightarrow> PhysicalTaskIdentifier \<Rightarrow> PhysicalTaskIdentifier \<Rightarrow>
   'm command scheduler \<Rightarrow> (PhysicalTaskIdentifier \<times> 'm command scheduler) option" where
  "create_between l c lo entry barrier s =
     (let (pid, s) = create_physical_task l c lo s
      in do { s \<leftarrow> add_dependency entry pid s; s \<leftarrow> add_dependency pid barrier s; Some (pid, s) })"

definition create_process_command ::
  "'m environment \<Rightarrow> nat \<Rightarrow> 'm process_command \<Rightarrow> locality_option \<Rightarrow> ('m, 'u) effect" where
  "create_process_command env this c lo pg =
     from_scheduler (create_between (lt_task_id (the_task this pg)) (ProcessCommandWrapper c) lo
         (lt_entry_task (the_task this pg)) (lt_barrier_task (the_task this pg)))
       (commit_process_command env this) pg"

text \<open>Only an input process has something to do after \<open>global_initialize\<close>: one task for each of \<open>task_count\<close>.\<close>

definition after_global_initialize :: "'m environment \<Rightarrow> nat \<Rightarrow> ('m, 'u) effect" where
  "after_global_initialize env this pg =
     (case lt_body (the_task this pg) of
        InputProcess p \<Rightarrow>
          each_do (\<lambda>i. create_process_command env this (InputProcessRunCommand i) no_locality_option)
            [0..<task_count (pr_processor p)] pg
      | _ \<Rightarrow> skip pg)"

subsection \<open>Life cycle\<close>

definition global_initialize :: "'m environment \<Rightarrow> ('m, 'u) processors \<Rightarrow> nat \<Rightarrow> locality \<Rightarrow> 'm option list \<Rightarrow> ('m, 'u) effect" where
  "global_initialize env procs this l mobjs =
     with_process this (\<lambda>p.
       if global_initialized p then skip
       else then_do (call_processor env procs cb_global_initialize this mobjs 0 False l)
             (then_do (change_process this (global_initialized_update (\<lambda>_. True)))
               (after_global_initialize env this)))"

definition global_finalize :: "'m environment \<Rightarrow> ('m, 'u) processors \<Rightarrow> nat \<Rightarrow> locality \<Rightarrow> 'm option list \<Rightarrow> ('m, 'u) effect" where
  "global_finalize env procs this l mobjs =
     with_process this (\<lambda>p.
       if \<not> global_initialized p then skip
       else then_do (change_process this (global_initialized_update (\<lambda>_. False)))
             (then_do (call_processor env procs cb_global_finalize this mobjs 0 False l)
               (change_process this (broadcast_inputs_update (\<lambda>_. [])))))"

definition set_thread_initialized :: "nat \<Rightarrow> nat \<Rightarrow> bool \<Rightarrow> ('m, 'u) effect" where
  "set_thread_initialized this tid b = change_process this (thread_local_initialized_update (\<lambda>fs. fs[tid := b]))"

definition thread_local_initialize :: "'m environment \<Rightarrow> ('m, 'u) processors \<Rightarrow> nat \<Rightarrow> locality \<Rightarrow> 'm option list \<Rightarrow> ('m, 'u) effect" where
  "thread_local_initialize env procs this l mobjs =
     with_process this (\<lambda>p. let tid = self_thread_id l in
       assuming (tid < length (thread_local_initialized p))
         (if thread_local_initialized p ! tid then skip
          else then_do (call_processor env procs cb_thread_local_initialize this mobjs 0 False l)
                (set_thread_initialized this tid True)))"

definition thread_local_finalize :: "'m environment \<Rightarrow> ('m, 'u) processors \<Rightarrow> nat \<Rightarrow> locality \<Rightarrow> 'm option list \<Rightarrow> ('m, 'u) effect" where
  "thread_local_finalize env procs this l mobjs =
     with_process this (\<lambda>p. let tid = self_thread_id l in
       assuming (tid < length (thread_local_initialized p))
         (if \<not> thread_local_initialized p ! tid then skip
          else then_do (set_thread_initialized this tid False)
                (call_processor env procs cb_thread_local_finalize this mobjs 0 False l)))"

text \<open>Cancellation: the same finalizers with empty inputs and the flag \<open>is_cancelled\<close>.\<close>

definition process_thread_local_cancel :: "'m environment \<Rightarrow> ('m, 'u) processors \<Rightarrow> nat \<Rightarrow> locality \<Rightarrow> ('m, 'u) effect" where
  "process_thread_local_cancel env procs this l =
     with_process this (\<lambda>p. let tid = self_thread_id l in
       assuming (tid < length (thread_local_initialized p))
         (if \<not> thread_local_initialized p ! tid then skip
          else then_do (set_thread_initialized this tid False)
                (call_processor env procs cb_thread_local_finalize this (replicate (length (broadcast_inputs p)) None) 0 True l)))"

definition process_global_cancel :: "'m environment \<Rightarrow> ('m, 'u) processors \<Rightarrow> nat \<Rightarrow> ('m, 'u) effect" where
  "process_global_cancel env procs this =
     with_process this (\<lambda>p.
       if \<not> global_initialized p then skip
       else then_do (change_process this (global_initialized_update (\<lambda>_. False)))
             (then_do (call_processor env procs cb_global_finalize this (replicate (length (broadcast_inputs p)) None) 0 True default_locality)
               (change_process this (broadcast_inputs_update (\<lambda>_. [])))))"

text \<open>The virtual functions of the base class do nothing for the other kinds of tasks.\<close>

definition thread_local_cancel :: "'m environment \<Rightarrow> ('m, 'u) processors \<Rightarrow> nat \<Rightarrow> locality \<Rightarrow> ('m, 'u) effect" where
  "thread_local_cancel env procs this l pg =
     (if process_of (lt_body (the_task this pg)) = None then skip pg else process_thread_local_cancel env procs this l pg)"

definition global_cancel :: "'m environment \<Rightarrow> ('m, 'u) processors \<Rightarrow> nat \<Rightarrow> ('m, 'u) effect" where
  "global_cancel env procs this pg =
     (if process_of (lt_body (the_task this pg)) = None then skip pg else process_global_cancel env procs this pg)"

subsection \<open>Finalizers of the worker threads\<close>

definition create_finalizer :: "LogicalTaskIdentifier \<Rightarrow> nat \<Rightarrow> PhysicalTaskIdentifier \<Rightarrow>
    'm command scheduler \<Rightarrow> (PhysicalTaskIdentifier \<times> 'm command scheduler) option" where
  "create_finalizer l i terminal s =
     (let (pid, s) = create_physical_task l (ProcessCommandWrapper ThreadLocalFinalizeCommand) (make_locality_option i False) s
      in do { s \<leftarrow> add_dependency pid terminal s; Some (pid, s) })"

definition create_thread_local_finalizers :: "'m environment \<Rightarrow> nat \<Rightarrow> ('m, 'u) effect" where
  "create_thread_local_finalizers env this =
     with_process this (\<lambda>p.
       each_do (\<lambda>i. with_process this (\<lambda>p.
           if \<not> thread_local_initialized p ! i then skip
           else (\<lambda>pg. from_scheduler (create_finalizer (lt_task_id (the_task this pg)) i (lt_terminal_task (the_task this pg)))
                       (commit_process_command env this) pg)))
         [0..<length (thread_local_initialized p)])"

subsection \<open>Run and the commands\<close>

definition process_run ::
  "'m environment \<Rightarrow> ('m, 'u) processors \<Rightarrow> nat \<Rightarrow> locality \<Rightarrow> 'm option list \<Rightarrow> identifier_type \<Rightarrow> ('m, 'u) effect" where
  "process_run env procs this l inputs pid =
     then_do (thread_local_initialize env procs this l inputs) (call_processor env procs cb_run this inputs pid False l)"

text \<open>The next physical id is taken when the task object is made.\<close>

definition one_to_one_run :: "'m environment \<Rightarrow> ('m, 'u) processors \<Rightarrow> nat \<Rightarrow> locality \<Rightarrow> 'm option list \<Rightarrow> ('m, 'u) effect" where
  "one_to_one_run env procs this l inputs =
     then_do (thread_local_initialize env procs this l inputs)
       (\<lambda>pg. case lt_body (the_task this pg) of
          OneToOneProcess p n \<Rightarrow>
            then_do (set_body this (OneToOneProcess p (n + 1))) (call_processor env procs cb_run this inputs n False l) pg
        | _ \<Rightarrow> fail Undefined pg)"

text \<open>The broadcast inputs are locked when a command is prepared; null references stay null.\<close>

definition lock_broadcast_inputs :: "('m \<Rightarrow> 'l) \<Rightarrow> 'm option list \<Rightarrow> 'l option list" where
  "lock_broadcast_inputs lock xs = map (map_option lock) xs"

fun merge_inputs :: "'m option list \<Rightarrow> 'm option list \<Rightarrow> 'm option list option" where
  "merge_inputs [] [] = Some []"
| "merge_inputs (x # xs) (y # ys) =
     (if x \<noteq> None \<and> y \<noteq> None then None else map_option (\<lambda>zs. (if x \<noteq> None then x else y) # zs) (merge_inputs xs ys))"
| "merge_inputs _ _ = None"

fun run_process_command ::
  "'m environment \<Rightarrow> ('m, 'u) processors \<Rightarrow> nat \<Rightarrow> locality \<Rightarrow> 'm process_command \<Rightarrow> 'm option list \<Rightarrow> ('m, 'u) effect" where
  "run_process_command env procs this l ThreadLocalFinalizeCommand mobjs = thread_local_finalize env procs this l mobjs"
| "run_process_command env procs this l (InputProcessRunCommand i) mobjs = process_run env procs this l mobjs i"
| "run_process_command env procs this l (OneToOneProcessRunCommand m port) mobjs =
     assuming (port < length mobjs) (one_to_one_run env procs this l (mobjs[port := Some m]))"
| "run_process_command env procs this l (ScatterGatherProcessRunCommand inputs part) mobjs =
     (case merge_inputs mobjs inputs of
        None \<Rightarrow> fail Undefined
      | Some mobjs \<Rightarrow> process_run env procs this l mobjs part)"

text \<open>\<open>ProcessCommandWrapper::prepare\<close> and \<open>run\<close>: a command that throws gives back no concurrency.\<close>

definition prepare_process_command :: "nat \<Rightarrow> ('m, 'u) program \<Rightarrow> 'm option list" where
  "prepare_process_command this pg =
     (case process_of (lt_body (the_task this pg)) of None \<Rightarrow> [] | Some p \<Rightarrow> lock_broadcast_inputs (\<lambda>m. m) (broadcast_inputs p))"

definition run_wrapper ::
  "'m environment \<Rightarrow> ('m, 'u) processors \<Rightarrow> nat \<Rightarrow> locality \<Rightarrow> 'm process_command \<Rightarrow> 'm option list \<Rightarrow> ('m, 'u) effect" where
  "run_wrapper env procs this l c mobjs =
     then_do (run_process_command env procs this l c mobjs) (notify_completion env this)"

end
