(* ===== verification/TaskExecution.thy ===== *)
theory TaskExecution
  imports ProcessTask
begin

text \<open>
  How fragments travel between logical tasks and what commands do when a worker runs them:
  \<open>receive_fragment\<close> of the six kinds of tasks, \<open>LogicalTaskBase::commit_fragment\<close>, and the \<open>run\<close> of
  every command (tasks/process/*.cpp, tasks/shuffle/shuffle_logical_task.cpp,
  tasks/gather/gather_logical_task.cpp, tasks/value_sort/value_sort_logical_task.cpp).
\<close>

subsection \<open>Receiving a fragment\<close>

text \<open>A worker near the fragment.\<close>

definition with_worker_near :: "'m environment \<Rightarrow> identifier_type \<Rightarrow> (locality_option \<Rightarrow> ('m, 'u) effect) \<Rightarrow> ('m, 'u) effect" where
  "with_worker_near env node k =
     (case random_worker_from_node (env_draw env) (env_locality env) node of
        None \<Rightarrow> fail Undefined
      | Some w \<Rightarrow> k (make_locality_option w True))"

definition movement_of :: "'m process_task \<Rightarrow> identifier_type \<Rightarrow> Movement" where
  "movement_of p port = ip_movement (input_ports (pr_processor p) ! port)"

definition one_to_one_receive :: "'m environment \<Rightarrow> nat \<Rightarrow> identifier_type \<Rightarrow> identifier_type \<Rightarrow> 'm \<Rightarrow> ('m, 'u) effect" where
  "one_to_one_receive env this port part mobj =
     with_process this (\<lambda>p. assuming (part = 0 \<and> movement_of p port = ONE_TO_ONE)
       (with_worker_near env (env_node env mobj) (create_process_command env this (OneToOneProcessRunCommand mobj port))))"

text \<open>
  The pool and the counters of a scatter-gather task. When the last fragment of a partition arrives,
  its row is moved out; a moved-from vector is empty.
\<close>

definition sg_deliver ::
  "identifier_type \<Rightarrow> identifier_type \<Rightarrow> 'm \<Rightarrow> 'm option list list \<Rightarrow> size_type list \<Rightarrow>
   'm option list option \<times> 'm option list list \<times> size_type list" where
  "sg_deliver port part mobj pool counters =
     (let row = (pool ! part)[port := Some mobj];
          n = sz_sub (counters ! part) 1;
          counters = counters[part := n]
      in if n = 0 then (Some row, pool[part := []], counters) else (None, pool[part := row], counters))"

definition scatter_gather_receive :: "'m environment \<Rightarrow> nat \<Rightarrow> identifier_type \<Rightarrow> identifier_type \<Rightarrow> 'm \<Rightarrow> ('m, 'u) effect" where
  "scatter_gather_receive env this port part mobj pg =
     (case lt_body (the_task this pg) of
        ScatterGatherProcess p pool counters \<Rightarrow>
          assuming (part < length pool \<and> port < length (pool ! part) \<and> movement_of p port = SCATTER_GATHER)
            (let (inputs, pool, counters) = sg_deliver port part mobj pool counters
             in then_do (set_body this (ScatterGatherProcess p pool counters))
                  (case inputs of
                     None \<Rightarrow> skip
                   | Some inputs \<Rightarrow>
                       with_worker_near env (partition_mapping (env_locality env) part)
                         (create_process_command env this (ScatterGatherProcessRunCommand inputs part)))) pg
      | _ \<Rightarrow> fail Undefined pg)"

definition receive_non_broadcast_fragment :: "'m environment \<Rightarrow> nat \<Rightarrow> identifier_type \<Rightarrow> identifier_type \<Rightarrow> 'm \<Rightarrow> ('m, 'u) effect" where
  "receive_non_broadcast_fragment env this port part mobj pg =
     (case lt_body (the_task this pg) of
        OneToOneProcess _ _ \<Rightarrow> one_to_one_receive env this port part mobj pg
      | ScatterGatherProcess _ _ _ \<Rightarrow> scatter_gather_receive env this port part mobj pg
      | _ \<Rightarrow> skip pg)"

definition process_receive :: "'m environment \<Rightarrow> nat \<Rightarrow> identifier_type \<Rightarrow> identifier_type \<Rightarrow> 'm \<Rightarrow> ('m, 'u) effect" where
  "process_receive env this port part mobj =
     with_process this (\<lambda>p. assuming (port < length (input_ports (pr_processor p)))
       (if movement_of p port = BROADCAST
        then assuming (\<not> global_initialized p \<and> port < length (broadcast_inputs p))
               (change_process this (broadcast_inputs_update (\<lambda>bs. bs[port := Some mobj])))
        else receive_non_broadcast_fragment env this port part mobj))"

text \<open>A command between entry and barrier task, committed at once.\<close>

definition create_and_commit ::
  "'m environment \<Rightarrow> LogicalTaskIdentifier \<Rightarrow> 'm command \<Rightarrow> PhysicalTaskIdentifier \<Rightarrow> PhysicalTaskIdentifier \<Rightarrow> locality_option \<Rightarrow> ('m, 'u) effect" where
  "create_and_commit env l c pre post lo =
     from_scheduler (create_between l c lo pre post) (\<lambda>pid. on_scheduler (commit_task (env_draw env) pid))"

definition shuffle_receive :: "'m environment \<Rightarrow> nat \<Rightarrow> identifier_type \<Rightarrow> identifier_type \<Rightarrow> 'm \<Rightarrow> ('m, 'u) effect" where
  "shuffle_receive env this port part mobj pg =
     (let t = the_task this pg
      in assuming (port = 0 \<and> part = 0)
           (with_worker_near env (env_node env mobj)
             (create_and_commit env (lt_task_id t) (ShufflePartitionCommand mobj) (lt_entry_task t) (lt_barrier_task t))) pg)"

definition gather_receive :: "nat \<Rightarrow> identifier_type \<Rightarrow> identifier_type \<Rightarrow> 'm \<Rightarrow> ('m, 'u) effect" where
  "gather_receive this port part mobj pg =
     (case lt_body (the_task this pg) of
        Gather inputs \<Rightarrow> assuming (port = 0 \<and> part = 0) (set_body this (Gather (inputs @ [mobj]))) pg
      | _ \<Rightarrow> fail Undefined pg)"

definition value_sort_receive :: "'m environment \<Rightarrow> nat \<Rightarrow> identifier_type \<Rightarrow> identifier_type \<Rightarrow> 'm \<Rightarrow> ('m, 'u) effect" where
  "value_sort_receive env this port part mobj pg =
     (let t = the_task this pg
      in assuming (port = 0)
           (with_worker_near env (env_node env mobj)
             (create_and_commit env (lt_task_id t) (ValueSortCommand mobj part) (lt_entry_task t) (lt_terminal_task t))) pg)"

definition receive_fragment :: "'m environment \<Rightarrow> nat \<Rightarrow> identifier_type \<Rightarrow> identifier_type \<Rightarrow> 'm \<Rightarrow> ('m, 'u) effect" where
  "receive_fragment env this port part mobj pg =
     (case lt_body (the_task this pg) of
        Shuffle _ _ \<Rightarrow> shuffle_receive env this port part mobj pg
      | Gather _ \<Rightarrow> gather_receive this port part mobj pg
      | ValueSort _ \<Rightarrow> value_sort_receive env this port part mobj pg
      | _ \<Rightarrow> process_receive env this port part mobj pg)"

definition commit_fragment :: "'m environment \<Rightarrow> nat \<Rightarrow> identifier_type \<Rightarrow> identifier_type \<Rightarrow> 'm \<Rightarrow> ('m, 'u) effect" where
  "commit_fragment env this port part mobj pg =
     each_do (\<lambda>(dst, dst_port). receive_fragment env dst dst_port part mobj) (fragment_receivers port (the_task this pg)) pg"

subsection \<open>Shuffle, gather and value sort commands\<close>

text \<open>A result of an operation on fragments, or its exception.\<close>

definition with_result :: "'a result \<Rightarrow> ('a \<Rightarrow> ('m, 'u) effect) \<Rightarrow> ('m, 'u) effect" where
  "with_result r k = (case r of Inl e \<Rightarrow> fail e | Inr x \<Rightarrow> k x)"

definition run_partition :: "'m environment \<Rightarrow> nat \<Rightarrow> locality \<Rightarrow> 'm \<Rightarrow> ('m, 'u) effect" where
  "run_partition env this l mobj =
     with_result (env_partition_fragment env this l mobj)
       (\<lambda>buffer pg. case lt_body (the_task this pg) of
          Shuffle n buffers \<Rightarrow> set_body this (Shuffle n (buffers @ [buffer])) pg
        | _ \<Rightarrow> fail Undefined pg)"

definition create_sort_tasks :: "'m environment \<Rightarrow> nat \<Rightarrow> ('m, 'u) effect" where
  "create_sort_tasks env this pg =
     (case lt_body (the_task this pg) of
        Shuffle n buffers \<Rightarrow>
          (let t = the_task this pg
           in then_do (each_do (\<lambda>p. create_and_commit env (lt_task_id t) (ShuffleSortCommand p buffers)
                                     (lt_barrier_task t) (lt_terminal_task t) no_locality_option) [0..<n])
                (set_body this (Shuffle n []))) pg
      | _ \<Rightarrow> fail Undefined pg)"

definition run_sort :: "'m environment \<Rightarrow> nat \<Rightarrow> identifier_type \<Rightarrow> 'm list \<Rightarrow> ('m, 'u) effect" where
  "run_sort env this part mobjs =
     with_result (env_sort_records env this part mobjs) (commit_fragment env this 0 part)"

definition run_gather :: "'m environment \<Rightarrow> nat \<Rightarrow> 'm list \<Rightarrow> ('m, 'u) effect" where
  "run_gather env this inputs =
     with_result (env_gather env this inputs)
       (\<lambda>m. then_do (commit_fragment env this 0 0 m) (set_body this (Gather [])))"

definition run_value_sort :: "'m environment \<Rightarrow> nat \<Rightarrow> 'm \<Rightarrow> identifier_type \<Rightarrow> ('m, 'u) effect" where
  "run_value_sort env this mobj part pg =
     (case lt_body (the_task this pg) of
        ValueSort c \<Rightarrow> with_result (env_value_sort env this c mobj) (commit_fragment env this 0 part) pg
      | _ \<Rightarrow> fail Undefined pg)"

subsection \<open>Prepare and run\<close>

text \<open>
  What \<open>prepare\<close> locks: the broadcast inputs for the commands of a process task and the inputs of a
  gather task; the fragments of the other commands are their fields.
\<close>

datatype 'm prepared = Nothing | Broadcast "'m option list" | Inputs "'m list"

definition prepare_command :: "nat \<Rightarrow> 'm command \<Rightarrow> ('m, 'u) program \<Rightarrow> 'm prepared" where
  "prepare_command this c pg =
     (case c of
        GlobalInitializeCommand \<Rightarrow> Broadcast (prepare_process_command this pg)
      | GlobalFinalizeCommand \<Rightarrow> Broadcast (prepare_process_command this pg)
      | ProcessCommandWrapper _ \<Rightarrow> Broadcast (prepare_process_command this pg)
      | GatherPhysicalCommand \<Rightarrow> (case lt_body (the_task this pg) of Gather inputs \<Rightarrow> Inputs inputs | _ \<Rightarrow> Nothing)
      | _ \<Rightarrow> Nothing)"

fun run_command ::
  "'m environment \<Rightarrow> ('m, 'u) processors \<Rightarrow> nat \<Rightarrow> locality \<Rightarrow> 'm command \<Rightarrow> 'm prepared \<Rightarrow> ('m, 'u) effect" where
  "run_command env procs this l PhysicalTaskCommandBase x = skip"
| "run_command env procs this l GlobalInitializeCommand (Broadcast mobjs) = global_initialize env procs this l mobjs"
| "run_command env procs this l GlobalFinalizeCommand (Broadcast mobjs) = global_finalize env procs this l mobjs"
| "run_command env procs this l ProcessBarrierCommand x = create_thread_local_finalizers env this"
| "run_command env procs this l (ProcessCommandWrapper c) (Broadcast mobjs) = run_wrapper env procs this l c mobjs"
| "run_command env procs this l (ShufflePartitionCommand m) x = run_partition env this l m"
| "run_command env procs this l (ShuffleSortCommand p ms) x = run_sort env this p ms"
| "run_command env procs this l ShuffleBarrierCommand x = create_sort_tasks env this"
| "run_command env procs this l GatherPhysicalCommand (Inputs ms) = run_gather env this ms"
| "run_command env procs this l (ValueSortCommand m p) x = run_value_sort env this m p"
| "run_command env procs this l c x = fail Undefined"

definition execute_task :: "'m environment \<Rightarrow> ('m, 'u) processors \<Rightarrow> locality \<Rightarrow> 'm command physical_task \<Rightarrow> ('m, 'u) effect" where
  "execute_task env procs l t pg =
     (case pt_command t of
        None \<Rightarrow> fail Undefined pg
      | Some c \<Rightarrow> (let this = logical_id (pt_logical t) in run_command env procs this l c (prepare_command this c pg) pg))"

end
