(* ===== verification/ProcessTaskProperties.thy ===== *)
theory ProcessTaskProperties
  imports TaskExecution
begin

text \<open>
  Process tasks: the limit on concurrency releases tasks first in, first out; initialisation and
  finalisation come in pairs whatever the user's methods throw; a scatter-gather task makes
  one command for each partition, when the last of its fragments arrives.
\<close>

subsection \<open>The limit on concurrency\<close>

datatype limiter_op = Submit PhysicalTaskIdentifier | Completion

text \<open>The fields, what was submitted, what was released to the scheduler, and how many of those have completed.\<close>

type_synonym 'm limiter_state = "'m process_task \<times> PhysicalTaskIdentifier list \<times> PhysicalTaskIdentifier list \<times> nat"

fun limiter_step :: "limiter_op \<Rightarrow> 'm limiter_state \<Rightarrow> 'm limiter_state" where
  "limiter_step (Submit t) (p, subs, rel, c) = (let (ts, p) = limiter_commit t p in (p, subs @ [t], rel @ ts, c))"
| "limiter_step Completion (p, subs, rel, c) =
     (if c < length rel then (let (ts, p) = limiter_complete p in (p, subs, rel @ ts, c + 1)) else (p, subs, rel, c))"

definition limiter_inv :: "nat \<Rightarrow> 'm limiter_state \<Rightarrow> bool" where
  "limiter_inv n s \<longleftrightarrow> (case s of (p, subs, rel, c) \<Rightarrow>
     rel = take (n + c) subs \<and> task_queue p = drop (n + c) subs \<and> c \<le> length rel \<and> length rel - c \<le> n \<and>
     remaining_concurrency p + (length rel - c) = n)"

lemma drain_eq: "r < size_modulus \<Longrightarrow> drain q r = (take r q, drop r q, r - length q)"
proof (induction q arbitrary: r)
  case (Cons t q)
  show ?case
  proof (cases r)
    case (Suc k)
    have "sz_sub r 1 = k" using Cons.prems Suc sz_sub_exact [of 1 r] by simp
    then show ?thesis using Cons.IH [of k] Cons.prems Suc by simp
  qed simp
qed simp

lemma limiter_step_inv:
  assumes inv: "limiter_inv n s" and n: "n < size_modulus"
  shows "limiter_inv n (limiter_step x s)"
proof -
  obtain p subs rel c where s: "s = (p, subs, rel, c)" by (cases s)
  have i: "rel = take (n + c) subs" "task_queue p = drop (n + c) subs" "c \<le> length rel" "length rel - c \<le> n"
    "remaining_concurrency p + (length rel - c) = n"
    using inv unfolding limiter_inv_def s prod.case by blast+
  show ?thesis
  proof (cases x)
    case (Submit t)
    show ?thesis
    proof (cases "remaining_concurrency p = 0")
      case True
      then have "n + c \<le> length subs" using i by simp
      then show ?thesis using True i by (auto simp: limiter_inv_def s Submit limiter_commit_def)
    next
      case False
      have sub: "sz_sub (remaining_concurrency p) 1 = remaining_concurrency p - 1"
        by (rule sz_sub_exact) (use False i(5) n in auto)
      have "length rel < n + c" using False i(3,5) by linarith
      then have "length subs < n + c" using i(1) by (auto simp: min_def split: if_splits)
      then show ?thesis using False i sub by (auto simp: limiter_inv_def s Submit limiter_commit_def)
    qed
  next
    case Completion
    show ?thesis
    proof (cases "c < length rel")
      case True
      let ?r = "remaining_concurrency p + 1"
      have r: "?r < size_modulus" "?r \<le> n" using True i(5) n by linarith+
      have add: "sz_add (remaining_concurrency p) 1 = ?r" by (rule sz_add_exact) (use r in simp)
      have len: "length rel + ?r = n + (c + 1)" using True i(5) by linarith
      have tk: "take (n + (c + 1)) subs = rel @ take ?r (drop (n + c) subs)"
      proof (cases "n + c \<le> length subs")
        case True
        then have "?r = 1" using len i(1) by simp
        then show ?thesis using i(1) take_add [of "n + c" 1 subs] by (simp add: add.assoc)
      qed (use i(1) in simp)
      have dr: "drop (n + (c + 1)) subs = drop ?r (drop (n + c) subs)"
      proof (cases "n + c \<le> length subs")
        case True
        then have "?r = 1" using len i(1) by simp
        then show ?thesis by (simp add: add.commute)
      qed simp
      let ?p = "p\<lparr>remaining_concurrency := ?r - length (drop (n + c) subs), task_queue := drop (n + (c + 1)) subs\<rparr>"
      have st: "limiter_step x s = (?p, subs, take (n + (c + 1)) subs, c + 1)"
        unfolding s Completion limiter_step.simps limiter_complete_def Let_def add i(2) drain_eq [OF r(1)] prod.case tk dr
        using True by simp
      have "c + 1 \<le> length (take (n + (c + 1)) subs)" using True i(1) by simp
      moreover have "remaining_concurrency ?p + (length (take (n + (c + 1)) subs) - (c + 1)) = n"
        using len i(1) True by (simp add: min_def split: if_splits)
      ultimately show ?thesis unfolding st limiter_inv_def prod.case by simp
    qed (use inv in \<open>simp add: s Completion\<close>)
  qed
qed

text \<open>
  C29: whatever the order of submissions and completions, the tasks a process task has released to the
  scheduler are the first \<open>max_concurrency\<close> plus the number of completions of those
  submitted, in order: never more than \<open>max_concurrency\<close> run at a time, none waits while fewer run, and with a
  limit of zero none is ever released.
\<close>
theorem concurrency_limit:
  "let n = k mod size_modulus;
       (p, subs, rel, c) = fold limiter_step ops (make_process_task (pr\<lparr>processor_concurrency := n\<rparr>) workers, [], [], 0)
   in rel = take (n + c) subs \<and> task_queue p = drop (n + c) subs \<and> c \<le> length rel \<and> length rel - c \<le> n \<and>
      remaining_concurrency p + (length rel - c) = n"
proof -
  let ?n = "k mod size_modulus"
  have n: "?n < size_modulus" by (simp add: size_modulus_def)
  have start: "limiter_inv ?n (make_process_task (pr\<lparr>processor_concurrency := ?n\<rparr>) workers, [], [], 0)"
    by (simp add: limiter_inv_def make_process_task_def)
  have "limiter_inv ?n (fold limiter_step ops s)" if "limiter_inv ?n s" for s :: "'a limiter_state"
    using that by (induction ops arbitrary: s) (simp_all add: limiter_step_inv [OF _ n])
  from this [OF start] show ?thesis unfolding limiter_inv_def Let_def .
qed

subsection \<open>Scatter-gather deliveries\<close>

text \<open>A delivery is a port, a partition and a fragment. \<open>None\<close> is a failed assertion of the receiver.\<close>

type_synonym 'm delivery = "nat \<times> nat \<times> 'm"
type_synonym 'm sg_state = "'m option list list \<times> size_type list \<times> (nat \<times> 'm option list) list"

definition deliver :: "processor \<Rightarrow> 'm delivery \<Rightarrow> 'm sg_state \<Rightarrow> 'm sg_state option" where
  "deliver pr d s =
     (let (port, q, m) = d; (pool, counters, rel) = s
      in if q < length pool \<and> port < length (pool ! q) \<and> ip_movement (input_ports pr ! port) = SCATTER_GATHER
         then (let (inputs, pool, counters) = sg_deliver port q m pool counters
               in Some (pool, counters, rel @ (case inputs of None \<Rightarrow> [] | Some r \<Rightarrow> [(q, r)])))
         else None)"

fun deliver_all :: "processor \<Rightarrow> 'm delivery list \<Rightarrow> 'm sg_state \<Rightarrow> 'm sg_state option" where
  "deliver_all pr [] s = Some s"
| "deliver_all pr (d # ds) s = Option.bind (deliver pr d s) (deliver_all pr ds)"

definition delivered :: "'m delivery list \<Rightarrow> nat \<Rightarrow> nat \<rightharpoonup> 'm" where
  "delivered ds q = map_of (map (\<lambda>(port, _, m). (port, m)) (filter (\<lambda>(_, q', _). q' = q) ds))"

definition delivered_row :: "processor \<Rightarrow> 'm delivery list \<Rightarrow> nat \<Rightarrow> 'm option list" where
  "delivered_row pr ds q = map (delivered ds q) [0..<length (input_ports pr)]"

definition grouped_ports :: "processor \<Rightarrow> nat set" where
  "grouped_ports pr = {i. i < length (input_ports pr) \<and> ip_movement (input_ports pr ! i) = SCATTER_GATHER}"

definition sg_inv :: "processor \<Rightarrow> nat \<Rightarrow> 'm delivery list \<Rightarrow> 'm sg_state \<Rightarrow> bool" where
  "sg_inv pr n ds s \<longleftrightarrow> (case s of (pool, counters, rel) \<Rightarrow>
     length pool = n \<and> length counters = n \<and>
     (\<forall>q<n. dom (delivered ds q) \<subseteq> grouped_ports pr \<and> counters ! q = card (grouped_ports pr - dom (delivered ds q)) \<and>
        (dom (delivered ds q) \<noteq> grouped_ports pr \<longrightarrow> pool ! q = delivered_row pr ds q)) \<and>
     distinct (map fst rel) \<and>
     (\<forall>q r. (q, r) \<in> set rel \<longleftrightarrow> q < n \<and> grouped_ports pr \<noteq> {} \<and> dom (delivered ds q) = grouped_ports pr \<and> r = delivered_row pr ds q))"

lemma delivered_snoc:
  assumes "(port, q) \<notin> (\<lambda>(port, q, m). (port, q)) ` set ds"
  shows "delivered (ds @ [(port, q, m)]) q' = (if q' = q then (delivered ds q)(port \<mapsto> m) else delivered ds q')"
    "port \<notin> dom (delivered ds q)"
proof -
  have "(port, m') \<notin> set (map (\<lambda>(port, _, m). (port, m)) (filter (\<lambda>(_, q', _). q' = q) ds))" for m'
    using assms by (auto simp: image_iff split: prod.splits)
  then show n: "port \<notin> dom (delivered ds q)" unfolding delivered_def using map_of_SomeD by fastforce
  show "delivered (ds @ [(port, q, m)]) q' = (if q' = q then (delivered ds q)(port \<mapsto> m) else delivered ds q')"
    using n by (auto simp: delivered_def map_add_def fun_eq_iff split: option.split)
qed

lemma finite_grouped_ports: "finite (grouped_ports pr)"
  by (simp add: grouped_ports_def)

lemma sg_inv_deliver:
  assumes inv: "sg_inv pr n ds s" and new: "(port, q) \<notin> (\<lambda>(port, q, m). (port, q)) ` set ds"
    and q: "q < n" and port: "port \<in> grouped_ports pr" and small: "length (input_ports pr) < size_modulus"
  shows "\<exists>s'. deliver pr (port, q, m) s = Some s' \<and> sg_inv pr n (ds @ [(port, q, m)]) s'"
proof -
  obtain pool counters rel where s: "s = (pool, counters, rel)" by (cases s)
  let ?G = "grouped_ports pr" and ?D = "dom (delivered ds q)" and ?ds = "ds @ [(port, q, m)]"
  have i: "length pool = n" "length counters = n" "\<forall>q<n. dom (delivered ds q) \<subseteq> ?G"
    "\<forall>q<n. counters ! q = card (?G - dom (delivered ds q))"
    "\<forall>q<n. dom (delivered ds q) \<noteq> ?G \<longrightarrow> pool ! q = delivered_row pr ds q" "distinct (map fst rel)"
    "\<And>q r. (q, r) \<in> set rel \<longleftrightarrow> q < n \<and> ?G \<noteq> {} \<and> dom (delivered ds q) = ?G \<and> r = delivered_row pr ds q"
    using inv unfolding sg_inv_def s prod.case by blast+
  note snoc = delivered_snoc [OF new]
  have ne: "?D \<noteq> ?G" using snoc(2) port by blast
  have row: "pool ! q = delivered_row pr ds q" using i(5) q ne by blast
  have p: "port < length (input_ports pr)" "ip_movement (input_ports pr ! port) = SCATTER_GATHER"
    using port by (simp_all add: grouped_ports_def)
  have row': "(delivered_row pr ds q)[port := Some m] = delivered_row pr ?ds q"
    using p(1) by (intro nth_equalityI) (auto simp: delivered_row_def snoc(1) nth_list_update)
  have same: "delivered_row pr ?ds q' = delivered_row pr ds q'" if "q' \<noteq> q" for q'
    using that by (simp add: delivered_row_def snoc(1))
  have card: "0 < counters ! q" "card (?G - dom (delivered ?ds q)) = counters ! q - 1"
  proof -
    have "?G - dom (delivered ?ds q) = (?G - ?D) - {port}" by (auto simp: snoc(1))
    then show "card (?G - dom (delivered ?ds q)) = counters ! q - 1" "0 < counters ! q"
      using i(4) q port snoc(2) finite_grouped_ports [of pr] by (auto simp: card_gt_0_iff)
  qed
  have "counters ! q \<le> card ?G" using i(4) q card_mono [OF finite_grouped_ports] by auto
  also have "card ?G \<le> length (input_ports pr)"
    using card_mono [of "{..<length (input_ports pr)}" ?G] by (auto simp: grouped_ports_def)
  finally have sub: "sz_sub (counters ! q) 1 = counters ! q - 1" using small card(1) by (intro sz_sub_exact) auto
  have full: "counters ! q - 1 = 0 \<longleftrightarrow> dom (delivered ?ds q) = ?G"
  proof -
    have sub: "dom (delivered ?ds q) \<subseteq> ?G" using i(3) q port by (auto simp: snoc(1))
    have "card (?G - dom (delivered ?ds q)) = 0 \<longleftrightarrow> ?G - dom (delivered ?ds q) = {}" using finite_grouped_ports by simp
    then show ?thesis unfolding card(2) using sub by blast
  qed
  let ?pool = "pool[q := if counters ! q - 1 = 0 then [] else delivered_row pr ?ds q]" and ?cs = "counters[q := counters ! q - 1]"
  let ?rel = "rel @ (if counters ! q - 1 = 0 then [(q, delivered_row pr ?ds q)] else [])"
  have st: "deliver pr (port, q, m) s = Some (?pool, ?cs, ?rel)"
    using q p i(1) row row' sub by (simp add: s deliver_def sg_deliver_def Let_def delivered_row_def)
  have "q \<notin> fst ` set rel" using i(7) ne by force
  then have d: "distinct (map fst ?rel)" using i(6) by simp
  have doms: "dom (delivered ?ds q') \<subseteq> ?G \<and> ?cs ! q' = card (?G - dom (delivered ?ds q')) \<and>
        (dom (delivered ?ds q') \<noteq> ?G \<longrightarrow> ?pool ! q' = delivered_row pr ?ds q')" if "q' < n" for q'
  proof (cases "q' = q")
    case True
    have "dom (delivered ?ds q) \<subseteq> ?G" using i(3) q port by (auto simp: snoc(1))
    then show ?thesis using True q i(1,2) card(2) full by simp
  next
    case False
    then show ?thesis using that i(3-5) same [OF False] by (simp add: snoc(1))
  qed
  have mem: "(q', r) \<in> set ?rel \<longleftrightarrow> q' < n \<and> ?G \<noteq> {} \<and> dom (delivered ?ds q') = ?G \<and> r = delivered_row pr ?ds q'" for q' r
  proof (cases "q' = q")
    case True
    have "(q, r) \<notin> set rel" using i(7) ne by blast
    then show ?thesis using True full q port by auto
  next
    case False
    then show ?thesis using i(7) [of q' r] same [OF False] by (simp add: snoc(1))
  qed
  have "sg_inv pr n ?ds (?pool, ?cs, ?rel)"
    unfolding sg_inv_def prod.case using i(1,2) doms d mem by simp
  then show ?thesis using st by blast
qed

lemma scatter_gather_count_card: "scatter_gather_count pr = card (grouped_ports pr)"
proof -
  have "fold (\<lambda>ip n. if ip_movement ip = SCATTER_GATHER then n + 1 else n) ips k =
      k + card {i. i < length ips \<and> ip_movement (ips ! i) = SCATTER_GATHER}" for ips and k :: nat
  proof (induction ips arbitrary: k)
    case (Cons ip ips)
    have "{i. i < length (ip # ips) \<and> ip_movement ((ip # ips) ! i) = SCATTER_GATHER} =
        (if ip_movement ip = SCATTER_GATHER then {0} else {}) \<union> Suc ` {i. i < length ips \<and> ip_movement (ips ! i) = SCATTER_GATHER}"
      by (auto simp: less_Suc_eq_0_disj image_iff nth_Cons' elim: gr0_implies_Suc)
    moreover have "card (Suc ` {i. i < length ips \<and> ip_movement (ips ! i) = SCATTER_GATHER}) =
        card {i. i < length ips \<and> ip_movement (ips ! i) = SCATTER_GATHER}"
      by (rule card_image) simp
    ultimately show ?case using Cons.IH by (auto simp: card_insert_if)
  qed simp
  from this [of "input_ports pr" 0] show ?thesis by (simp add: scatter_gather_count_def grouped_ports_def)
qed

definition sg_start :: "processor \<Rightarrow> nat \<Rightarrow> nat \<Rightarrow> 'm sg_state" where
  "sg_start pr workers n =
     (case scatter_gather_process pr workers n of ScatterGatherProcess p pool counters \<Rightarrow> (pool, counters, []) | _ \<Rightarrow> ([], [], []))"

lemma sg_inv_start: "sg_inv pr n [] (sg_start pr workers n)"
  by (auto simp: sg_inv_def sg_start_def scatter_gather_process_def delivered_def delivered_row_def scatter_gather_count_card
      map_replicate_trivial)

lemma deliver_all_snoc: "deliver_all pr (ds @ [d]) s = Option.bind (deliver_all pr ds s) (deliver pr d)"
  by (induction ds arbitrary: s) (auto split: bind_splits)

text \<open>
  C31: deliver fragments to the grouped input ports of a scatter-gather task in any order, each port and partition
  once. No assertion fails, and a run command is created for a partition exactly when every
  grouped port has received its fragment of it: once, with each port's own fragment.
\<close>
theorem scatter_gather_waits_for_all_ports:
  assumes "distinct (map (\<lambda>(port, q, m). (port, q)) ds)"
    and "\<forall>(port, q, m)\<in>set ds. q < n \<and> port \<in> grouped_ports pr" and "length (input_ports pr) < size_modulus"
  shows "\<exists>pool counters rel. deliver_all pr ds (sg_start pr workers n) = Some (pool, counters, rel) \<and> distinct (map fst rel) \<and>
    (\<forall>q inputs. (q, inputs) \<in> set rel \<longleftrightarrow> q < n \<and> grouped_ports pr \<noteq> {} \<and>
       dom (delivered ds q) = grouped_ports pr \<and> inputs = delivered_row pr ds q)"
proof -
  have "\<exists>s. deliver_all pr ds (sg_start pr workers n) = Some s \<and> sg_inv pr n ds s"
    using assms(1,2)
  proof (induction ds rule: rev_induct)
    case Nil
    then show ?case using sg_inv_start by auto
  next
    case (snoc d ds)
    obtain port q m where d: "d = (port, q, m)" by (cases d)
    obtain s where s: "deliver_all pr ds (sg_start pr workers n) = Some s" "sg_inv pr n ds s" using snoc by auto
    have "(port, q) \<notin> (\<lambda>(port, q, m). (port, q)) ` set ds" "q < n" "port \<in> grouped_ports pr" using snoc.prems d by auto
    from sg_inv_deliver [OF s(2) this assms(3), of m] show ?case using s(1) d by (auto simp: deliver_all_snoc)
  qed
  then show ?thesis unfolding sg_inv_def by (auto split: prod.splits)
qed

definition join_processor :: processor where
  "join_processor = default_processor\<lparr>input_ports :=
     [\<lparr>ip_name = ''left'', ip_movement = SCATTER_GATHER, ip_value_comparator = None\<rparr>,
      \<lparr>ip_name = ''table'', ip_movement = BROADCAST, ip_value_comparator = None\<rparr>,
      \<lparr>ip_name = ''right'', ip_movement = SCATTER_GATHER, ip_value_comparator = None\<rparr>]\<rparr>"

theorem scatter_gather_waits_for_all_ports_witness:
  "\<exists>pool counters rel. deliver_all join_processor [(0, 1, ''a''), (2, 0, ''b''), (2, 1, ''c'')] (sg_start join_processor 1 2) =
     Some (pool, counters, rel) \<and> distinct (map fst rel) \<and> (1, [Some ''a'', None, Some ''c'']) \<in> set rel"
proof -
  let ?ds = "[(0, 1, ''a''), (2, 0, ''b''), (2, 1, ''c'')]"
  have g: "grouped_ports join_processor = {0, 2}"
    by (auto simp: grouped_ports_def join_processor_def less_Suc_eq numeral_3_eq_3)
  have "length (input_ports join_processor) < size_modulus" by (simp add: join_processor_def size_modulus_def)
  from scatter_gather_waits_for_all_ports [of ?ds 2 join_processor 1, OF _ _ this] obtain pool counters rel where
    r: "deliver_all join_processor ?ds (sg_start join_processor 1 2) = Some (pool, counters, rel)" "distinct (map fst rel)"
      "\<forall>q inputs. (q, inputs) \<in> set rel \<longleftrightarrow> q < 2 \<and> grouped_ports join_processor \<noteq> {} \<and>
       dom (delivered ?ds q) = grouped_ports join_processor \<and> inputs = delivered_row join_processor ?ds q"
    by (auto simp: g)
  have "delivered_row join_processor ?ds 1 = [Some ''a'', None, Some ''c'']" "dom (delivered ?ds 1) = {0, 2}"
    by (auto simp: delivered_row_def delivered_def join_processor_def upt_rec)
  then show ?thesis using r g by (intro exI [of _ pool] exI [of _ counters] exI [of _ rel]) simp
qed

end
