(* ===== verification/EventLog.thy ===== *)
theory EventLog
  imports Memory PhysicalTask
begin

text \<open>
  \<open>ProfileEventLogger\<close> (logging/profile_event_logger.cpp): every thread writes its profile events as binary
  records into a chain of blocks; \<open>to_json\<close> reads them again and prints them in the
  order they were logged. Time stamps are parameters. What a fresh block holds before it is written is
  not initialised: it is the parameter \<open>junk\<close>.
\<close>

subsection \<open>The kinds of records\<close>

datatype EventMagic =
    CREATE_PHYSICAL_TASK
  | PHYSICAL_DEPENDENCY
  | BEGIN_PREPARATION
  | END_PREPARATION
  | BEGIN_EXECUTION
  | END_EXECUTION
  | ALLOCATE_MEMORY
  | RELEASE_MEMORY
  | LOCK_MEMORY
  | UNLOCK_MEMORY
  | MAGIC_KINDS

text \<open>The value of an enumerator, an int of four bytes.\<close>

fun magic_value :: "EventMagic \<Rightarrow> nat" where
  "magic_value CREATE_PHYSICAL_TASK = 0"
| "magic_value PHYSICAL_DEPENDENCY = 1"
| "magic_value BEGIN_PREPARATION = 2"
| "magic_value END_PREPARATION = 3"
| "magic_value BEGIN_EXECUTION = 4"
| "magic_value END_EXECUTION = 5"
| "magic_value ALLOCATE_MEMORY = 6"
| "magic_value RELEASE_MEMORY = 7"
| "magic_value LOCK_MEMORY = 8"
| "magic_value UNLOCK_MEMORY = 9"
| "magic_value MAGIC_KINDS = 10"

text \<open>The template parameters of \<open>BinaryLogger\<close>. All fields have eight bytes.\<close>

record binary_logger =
  bl_magic :: EventMagic
  bl_type :: string
  bl_fields :: "string list"

definition CreatePhysicalTaskLogger :: binary_logger where
  "CreatePhysicalTaskLogger = \<lparr>bl_magic = CREATE_PHYSICAL_TASK, bl_type = ''create_physical_task'',
     bl_fields = [''timestamp'', ''physical_id'', ''logical_id'']\<rparr>"

definition PhysicalDependencyLogger :: binary_logger where
  "PhysicalDependencyLogger = \<lparr>bl_magic = PHYSICAL_DEPENDENCY, bl_type = ''physical_dependency'',
     bl_fields = [''timestamp'', ''producer'', ''consumer'']\<rparr>"

definition BeginPreparationLogger :: binary_logger where
  "BeginPreparationLogger = \<lparr>bl_magic = BEGIN_PREPARATION, bl_type = ''begin_preparation'', bl_fields = [''timestamp'', ''task_id'']\<rparr>"

definition EndPreparationLogger :: binary_logger where
  "EndPreparationLogger = \<lparr>bl_magic = END_PREPARATION, bl_type = ''end_preparation'', bl_fields = [''timestamp'', ''task_id'']\<rparr>"

definition BeginExecutionLogger :: binary_logger where
  "BeginExecutionLogger = \<lparr>bl_magic = BEGIN_EXECUTION, bl_type = ''begin_execution'', bl_fields = [''timestamp'', ''task_id'']\<rparr>"

definition EndExecutionLogger :: binary_logger where
  "EndExecutionLogger = \<lparr>bl_magic = END_EXECUTION, bl_type = ''end_execution'', bl_fields = [''timestamp'', ''task_id'']\<rparr>"

definition AllocateMemoryLogger :: binary_logger where
  "AllocateMemoryLogger = \<lparr>bl_magic = ALLOCATE_MEMORY, bl_type = ''allocate_memory'',
     bl_fields = [''timestamp'', ''object_id'', ''size'', ''numa_node'']\<rparr>"

definition ReleaseMemoryLogger :: binary_logger where
  "ReleaseMemoryLogger = \<lparr>bl_magic = RELEASE_MEMORY, bl_type = ''release_memory'', bl_fields = [''timestamp'', ''object_id'']\<rparr>"

definition LockMemoryLogger :: binary_logger where
  "LockMemoryLogger = \<lparr>bl_magic = LOCK_MEMORY, bl_type = ''lock_memory'', bl_fields = [''timestamp'', ''object_id'']\<rparr>"

definition UnlockMemoryLogger :: binary_logger where
  "UnlockMemoryLogger = \<lparr>bl_magic = UNLOCK_MEMORY, bl_type = ''unlock_memory'', bl_fields = [''timestamp'', ''object_id'']\<rparr>"

subsection \<open>Binary records\<close>

fun fields_size :: "string list \<Rightarrow> size_type" where
  "fields_size [] = 0"
| "fields_size (f # fs) = 8 + fields_size fs"

definition logger_size :: "binary_logger \<Rightarrow> size_type" where
  "logger_size l = 4 + fields_size (bl_fields l)"

text \<open>The number of arguments is checked by the compiler.\<close>

fun fields_write :: "string list \<Rightarrow> addr \<Rightarrow> size_type list \<Rightarrow> mem \<Rightarrow> mem" where
  "fields_write (f # fs) dst (x # xs) m = fields_write fs (dst + 8) xs (store_size m dst x)"
| "fields_write fs dst xs m = m"

definition logger_write :: "binary_logger \<Rightarrow> addr \<Rightarrow> size_type list \<Rightarrow> mem \<Rightarrow> mem" where
  "logger_write l dst args m =
     fields_write (bl_fields l) (dst + 4) args (store_bytes m dst (le_bytes 4 (magic_value (bl_magic l))))"

subsection \<open>JSON\<close>

fun show_size :: "size_type \<Rightarrow> string" where
  "show_size n = (if n < 10 then [char_of (48 + n)] else show_size (n div 10) @ [char_of (48 + n mod 10)])"

declare show_size.simps [simp del]

definition quoted :: "string \<Rightarrow> string" where
  "quoted s = [CHR 0x22] @ s @ [CHR 0x22]"

fun fields_json :: "string list \<Rightarrow> addr \<Rightarrow> mem \<Rightarrow> string" where
  "fields_json [] src m = []"
| "fields_json (f # fs) src m = '','' @ quoted f @ '':'' @ show_size (load_size m src) @ fields_json fs (src + 8) m"

definition logger_json :: "binary_logger \<Rightarrow> addr \<Rightarrow> mem \<Rightarrow> string result" where
  "logger_json l src m =
     (if le_val (load_bytes m src 4) = magic_value (bl_magic l)
      then ok (''{'' @ quoted ''type'' @ '':'' @ quoted (bl_type l) @ fields_json (bl_fields l) (src + 4) m @ ''}'')
      else throw Undefined)"

subsection \<open>Blocks\<close>

definition LOG_BLOCK_SIZE :: size_type where
  "LOG_BLOCK_SIZE = 2 ^ 20"

record log_block =
  lb_written_bytes :: size_type
  lb_log_buffer :: mem

definition new_log_block :: "mem \<Rightarrow> log_block" where
  "new_log_block junk = \<lparr>lb_written_bytes = 0, lb_log_buffer = junk\<rparr>"

definition block_write :: "binary_logger \<Rightarrow> size_type list \<Rightarrow> log_block \<Rightarrow> log_block option" where
  "block_write l args b =
     (let remains = sz_sub LOG_BLOCK_SIZE (lb_written_bytes b)
      in if remains < logger_size l then None
         else Some \<lparr>lb_written_bytes = sz_add (lb_written_bytes b) (logger_size l),
           lb_log_buffer = logger_write l (lb_written_bytes b) args (lb_log_buffer b)\<rparr>)"

text \<open>
  The current block and, through \<open>m_prev_block\<close>, the blocks before it. The empty list is the
  null pointer: nothing is logged.
\<close>

type_synonym event_logger = "log_block list"

definition new_event_logger :: event_logger where
  "new_event_logger = []"

definition enable :: "mem \<Rightarrow> event_logger \<Rightarrow> event_logger" where
  "enable junk bs = [new_log_block junk]"

text \<open>\<open>release\<close> gives up the pointer without deleting the blocks.\<close>

definition disable :: "event_logger \<Rightarrow> event_logger" where
  "disable bs = []"

text \<open>The loop of \<open>write_binary\<close>; \<open>None\<close> is a loop that does not end.\<close>

partial_function (option) write_loop :: "mem \<Rightarrow> binary_logger \<Rightarrow> size_type list \<Rightarrow> log_block \<Rightarrow> log_block list \<Rightarrow> event_logger option" where
  "write_loop junk l args cur prev =
     (case block_write l args cur of
        Some b \<Rightarrow> Some (b # prev)
      | None \<Rightarrow> write_loop junk l args (new_log_block junk) (cur # prev))"

declare write_loop.simps [code]

definition write_binary :: "mem \<Rightarrow> binary_logger \<Rightarrow> size_type list \<Rightarrow> event_logger \<Rightarrow> event_logger option" where
  "write_binary junk l args bs = (case bs of [] \<Rightarrow> Some [] | cur # prev \<Rightarrow> write_loop junk l args cur prev)"

subsection \<open>Events\<close>

text \<open>The functions of the logger; \<open>now\<close> is what \<open>current_timestamp\<close> returns.\<close>

definition log_create_physical_task ::
  "mem \<Rightarrow> size_type \<Rightarrow> PhysicalTaskIdentifier \<Rightarrow> LogicalTaskIdentifier \<Rightarrow> event_logger \<Rightarrow> event_logger option" where
  "log_create_physical_task junk now p l = write_binary junk CreatePhysicalTaskLogger [now, physical_id p, logical_id l]"

definition log_physical_dependency ::
  "mem \<Rightarrow> size_type \<Rightarrow> PhysicalTaskIdentifier \<Rightarrow> PhysicalTaskIdentifier \<Rightarrow> event_logger \<Rightarrow> event_logger option" where
  "log_physical_dependency junk now producer consumer =
     write_binary junk PhysicalDependencyLogger [now, physical_id producer, physical_id consumer]"

definition log_begin_preparation :: "mem \<Rightarrow> size_type \<Rightarrow> PhysicalTaskIdentifier \<Rightarrow> event_logger \<Rightarrow> event_logger option" where
  "log_begin_preparation junk now t = write_binary junk BeginPreparationLogger [now, physical_id t]"

definition log_end_preparation :: "mem \<Rightarrow> size_type \<Rightarrow> PhysicalTaskIdentifier \<Rightarrow> event_logger \<Rightarrow> event_logger option" where
  "log_end_preparation junk now t = write_binary junk EndPreparationLogger [now, physical_id t]"

definition log_begin_execution :: "mem \<Rightarrow> size_type \<Rightarrow> PhysicalTaskIdentifier \<Rightarrow> event_logger \<Rightarrow> event_logger option" where
  "log_begin_execution junk now t = write_binary junk BeginExecutionLogger [now, physical_id t]"

definition log_end_execution :: "mem \<Rightarrow> size_type \<Rightarrow> PhysicalTaskIdentifier \<Rightarrow> event_logger \<Rightarrow> event_logger option" where
  "log_end_execution junk now t = write_binary junk EndExecutionLogger [now, physical_id t]"

text \<open>Without a node, the argument -1 becomes the greatest \<open>identifier_type\<close>.\<close>

definition log_allocate_memory :: "mem \<Rightarrow> size_type \<Rightarrow> identifier_type \<Rightarrow> size_type \<Rightarrow> event_logger \<Rightarrow> event_logger option" where
  "log_allocate_memory junk now m sz = write_binary junk AllocateMemoryLogger [now, m, sz, size_modulus - 1]"

definition log_allocate_memory_on ::
  "mem \<Rightarrow> size_type \<Rightarrow> identifier_type \<Rightarrow> size_type \<Rightarrow> identifier_type \<Rightarrow> event_logger \<Rightarrow> event_logger option" where
  "log_allocate_memory_on junk now m sz node = write_binary junk AllocateMemoryLogger [now, m, sz, node]"

definition log_release_memory :: "mem \<Rightarrow> size_type \<Rightarrow> identifier_type \<Rightarrow> event_logger \<Rightarrow> event_logger option" where
  "log_release_memory junk now m = write_binary junk ReleaseMemoryLogger [now, m]"

definition log_lock_memory :: "mem \<Rightarrow> size_type \<Rightarrow> memory_reference \<Rightarrow> event_logger \<Rightarrow> event_logger option" where
  "log_lock_memory junk now r = write_binary junk LockMemoryLogger [now, mr_identifier r]"

definition log_unlock_memory :: "mem \<Rightarrow> size_type \<Rightarrow> memory_reference \<Rightarrow> event_logger \<Rightarrow> event_logger option" where
  "log_unlock_memory junk now r = write_binary junk UnlockMemoryLogger [now, mr_identifier r]"

subsection \<open>Printing\<close>

text \<open>The switch of \<open>to_json\<close>. Another value fails the assertion of the default case.\<close>

definition logger_of_magic :: "nat \<Rightarrow> binary_logger option" where
  "logger_of_magic k =
     (if k = magic_value CREATE_PHYSICAL_TASK then Some CreatePhysicalTaskLogger
      else if k = magic_value PHYSICAL_DEPENDENCY then Some PhysicalDependencyLogger
      else if k = magic_value BEGIN_PREPARATION then Some BeginPreparationLogger
      else if k = magic_value END_PREPARATION then Some EndPreparationLogger
      else if k = magic_value BEGIN_EXECUTION then Some BeginExecutionLogger
      else if k = magic_value END_EXECUTION then Some EndExecutionLogger
      else if k = magic_value ALLOCATE_MEMORY then Some AllocateMemoryLogger
      else if k = magic_value RELEASE_MEMORY then Some ReleaseMemoryLogger
      else if k = magic_value LOCK_MEMORY then Some LockMemoryLogger
      else if k = magic_value UNLOCK_MEMORY then Some UnlockMemoryLogger
      else None)"

function block_json :: "log_block \<Rightarrow> size_type \<Rightarrow> string result" where
  "block_json b p =
     (if lb_written_bytes b \<le> p then ok []
      else case logger_of_magic (le_val (load_bytes (lb_log_buffer b) p 4)) of
             None \<Rightarrow> throw Undefined
           | Some l \<Rightarrow>
               andThen (logger_json l p (lb_log_buffer b))
                 (\<lambda>x. andThen (block_json b (p + logger_size l)) (\<lambda>xs. ok ((if p \<noteq> 0 then '','' else []) @ x @ xs))))"
  by pat_completeness auto
termination
  by (relation "measure (\<lambda>(b, p). lb_written_bytes b - p)") (auto simp: logger_size_def)

declare block_json.simps [simp del]

text \<open>The blocks from the newest to the oldest; \<open>json_blocks\<close> is filled in this order and popped from its end.\<close>

fun collect_blocks :: "log_block list \<Rightarrow> string list \<Rightarrow> string list result" where
  "collect_blocks [] acc = ok acc"
| "collect_blocks (b # bs) acc =
     andThen (block_json b 0) (\<lambda>s. collect_blocks bs (if 0 < length s then acc @ [s] else acc))"

function pop_blocks :: "string list \<Rightarrow> string" where
  "pop_blocks blocks =
     (if blocks = [] then [] else last blocks @ (if butlast blocks \<noteq> [] then '','' else []) @ pop_blocks (butlast blocks))"
  by pat_completeness auto
termination
  by (relation "measure length") auto

declare pop_blocks.simps [simp del]

definition to_json :: "event_logger \<Rightarrow> string result" where
  "to_json bs = andThen (collect_blocks bs []) (\<lambda>blocks. ok (''['' @ pop_blocks blocks @ '']''))"

end
