(* ===== verification/ProfileLog.thy ===== *)
theory ProfileLog
  imports EventLog LogicalGraph Configuration
begin

text \<open>
  \<open>ProfileLogger\<close> (logging/profile_logger.cpp): the JSON text of a profile, made of the configuration, the
  logical graph and the event logs that the threads flush.
\<close>

record profile_logger =
  pl_configuration_json :: string
  pl_logical_tasks_json :: string
  pl_logical_dependencies_json :: string
  pl_event_jsons :: "(identifier_type \<times> string) list"

definition empty_profile_logger :: profile_logger where
  "empty_profile_logger =
     \<lparr>pl_configuration_json = ''{}'', pl_logical_tasks_json = ''[]'', pl_logical_dependencies_json = ''[]'', pl_event_jsons = []\<rparr>"

text \<open>A quoted name and a colon.\<close>

definition named :: "string \<Rightarrow> string" where
  "named f = quoted f @ '':''"

definition set_configuration :: "configuration \<Rightarrow> profile_logger \<Rightarrow> profile_logger" where
  "set_configuration config l = l\<lparr>pl_configuration_json :=
     ''{'' @
     named ''max_concurrency'' @ show_size (Configuration.max_concurrency config) @ '','' @
     named ''partition_count'' @ show_size (partition_count config) @ '','' @
     named ''default_output_buffer_size'' @ show_size (default_output_buffer_size config) @ '','' @
     named ''default_records_per_buffer'' @ show_size (default_records_per_buffer config) @
     ''}''\<rparr>"

text \<open>The two loops with their flags. Names are printed as they are.\<close>

fun tasks_json :: "bool \<Rightarrow> 'm logical_task list \<Rightarrow> string" where
  "tasks_json is_first [] = []"
| "tasks_json is_first (t # ts) =
     (if \<not> is_first then '','' else []) @
     ''{'' @ named ''task_id'' @ show_size (logical_id (lt_task_id t)) @ '','' @
     named ''task_name'' @ quoted (lt_task_name t) @ ''}'' @ tasks_json False ts"

fun edges_json :: "bool \<Rightarrow> lg_edge list \<Rightarrow> string" where
  "edges_json is_first [] = []"
| "edges_json is_first (e # es) =
     (let p = edge_producer e; c = edge_consumer e
      in (if \<not> is_first then '','' else []) @
         ''{'' @ named ''producer'' @ ''{'' @
         named ''id'' @ show_size (logical_id (port_task p)) @ '','' @
         named ''port'' @ show_size (port_id p) @ ''},'' @
         named ''consumer'' @ ''{'' @
         named ''id'' @ show_size (logical_id (port_task c)) @ '','' @
         named ''port'' @ show_size (port_id c) @ ''}'' @ ''}'' @ edges_json False es)"

definition set_logical_graph :: "'m logical_graph \<Rightarrow> profile_logger \<Rightarrow> profile_logger" where
  "set_logical_graph g l =
     l\<lparr>pl_logical_tasks_json := ''['' @ tasks_json True (lg_tasks g) @ '']'',
       pl_logical_dependencies_json := ''['' @ edges_json True (lg_edges g) @ '']''\<rparr>"

definition make_profile_logger :: "configuration \<Rightarrow> 'm logical_graph \<Rightarrow> profile_logger" where
  "make_profile_logger config g = set_logical_graph g (set_configuration config empty_profile_logger)"

text \<open>\<open>std::map::emplace\<close> keeps the order of the keys and an entry that is there.\<close>

fun map_emplace :: "identifier_type \<Rightarrow> 'a \<Rightarrow> (identifier_type \<times> 'a) list \<Rightarrow> (identifier_type \<times> 'a) list" where
  "map_emplace k v [] = [(k, v)]"
| "map_emplace k v ((k', v') # m) =
     (if k < k' then (k, v) # (k', v') # m else if k = k' then (k', v') # m else (k', v') # map_emplace k v m)"

text \<open>The calling thread's event logger is the second argument.\<close>

definition flush_thread_local_log :: "identifier_type \<Rightarrow> event_logger \<Rightarrow> profile_logger \<Rightarrow> profile_logger result" where
  "flush_thread_local_log worker_id events l =
     andThen (to_json events) (\<lambda>log_json. ok (l\<lparr>pl_event_jsons := map_emplace worker_id log_json (pl_event_jsons l)\<rparr>))"

fun events_json :: "bool \<Rightarrow> (identifier_type \<times> string) list \<Rightarrow> string" where
  "events_json is_first [] = []"
| "events_json is_first (p # ps) =
     (if \<not> is_first then '','' else []) @ quoted (show_size (fst p)) @ '':'' @ snd p @ events_json False ps"

text \<open>What \<open>dump\<close> writes, up to the newline at the end.\<close>

definition dump :: "profile_logger \<Rightarrow> string" where
  "dump l =
     ''{'' @
     named ''configuration'' @ pl_configuration_json l @ '','' @
     named ''logical_tasks'' @ pl_logical_tasks_json l @ '','' @
     named ''logical_dependencies'' @ '' '' @ pl_logical_dependencies_json l @ '','' @
     named ''events'' @ ''{'' @ events_json True (pl_event_jsons l) @ ''}'' @ ''}''"

end
