(* ===== verification/WorkerThread.thy ===== *)
theory WorkerThread
  imports TaskExecution ProfileLog
begin

text \<open>
  The worker threads of an execution (context/worker_thread.cpp). A step is one call the thread
  makes: of an observer, of the scheduler, of a task, of a cancellation. Steps of different workers
  interleave in any order; what happens inside the scheduler's calls, and how a worker without
  a task sleeps, is in the theory SchedulerMachine: here it asks again.
\<close>

record ('m, 'u) thread_observer =
  on_initialize :: "('m, 'u) effect"
  on_finalize :: "('m, 'u) effect"

text \<open>
  Where a worker is: before its first step, at the observer to be initialised next, in the task
  loop, at the completion of a task, at the second test of \<open>is_cancelled\<close>, at the logical task to be
  cancelled next, at the observers to be finalised, at the flush of its log; the last
  states but one are the same loops in the handler of exceptions.
\<close>

datatype worker_state =
    Entering
  | Starting nat
  | Looping
  | Completing PhysicalTaskIdentifier
  | AfterLoop
  | Cancelling nat
  | Finalizing
  | Flushing
  | CatchCancelling nat
  | CatchFinalizing
  | Left

text \<open>The calls of observers, for the record.\<close>

datatype observer_call = Initialized nat | Finalized nat

text \<open>\<open>initialized_observers\<close> is kept with its back first.\<close>

record worker =
  wk_id :: identifier_type
  wk_state :: worker_state
  wk_initialized :: "nat list"
  wk_events :: event_logger
  wk_calls :: "observer_call list"

definition make_worker :: "identifier_type \<Rightarrow> worker" where
  "make_worker w = \<lparr>wk_id = w, wk_state = Entering, wk_initialized = [], wk_events = new_event_logger, wk_calls = []\<rparr>"

record ('m, 'u) execution =
  ex_program :: "('m, 'u) program"
  ex_workers :: "worker list"
  ex_profile :: "profile_logger option"

subsection \<open>The parts of a step\<close>

definition self_locality :: "'m environment \<Rightarrow> identifier_type \<Rightarrow> locality" where
  "self_locality env w = \<lparr>self_thread_id = w, self_node_id = thread_mapping (env_locality env) w\<rparr>"

text \<open>The exception is handed to the scheduler.\<close>

definition notify_program :: "exn \<Rightarrow> ('m, 'u) program \<Rightarrow> ('m, 'u) program" where
  "notify_program e pg = pg\<lparr>pg_scheduler := notify_exception e (pg_scheduler pg)\<rparr>"

text \<open>A call inside the try block, and one with a handler of its own.\<close>

definition attempt :: "('m, 'u) effect \<Rightarrow> worker_state \<Rightarrow> ('m, 'u) program \<Rightarrow> worker_state \<times> ('m, 'u) program" where
  "attempt f next pg = (case f pg of (None, pg) \<Rightarrow> (next, pg) | (Some e, pg) \<Rightarrow> (CatchCancelling 0, notify_program e pg))"

definition protect :: "('m, 'u) effect \<Rightarrow> ('m, 'u) program \<Rightarrow> ('m, 'u) program" where
  "protect f pg = (case f pg of (None, pg) \<Rightarrow> pg | (Some e, pg) \<Rightarrow> notify_program e pg)"

text \<open>
  A log call of the worker; all of them end (\<open>event_log_roundtrip\<close>). \<open>now\<close> gives the time of each call
  and \<open>junk\<close> the contents of fresh memory.
\<close>

definition log_with :: "(event_logger \<Rightarrow> event_logger option) \<Rightarrow> event_logger \<Rightarrow> event_logger" where
  "log_with f evs = (case f evs of None \<Rightarrow> evs | Some evs' \<Rightarrow> evs')"

definition begin_events :: "mem \<Rightarrow> (nat \<Rightarrow> size_type) \<Rightarrow> PhysicalTaskIdentifier \<Rightarrow> event_logger \<Rightarrow> event_logger" where
  "begin_events junk now t evs =
     log_with (log_begin_execution junk (now 2) t)
       (log_with (log_end_preparation junk (now 1) t) (log_with (log_begin_preparation junk (now 0) t) evs))"

text \<open>
  One round of the task loop that found the task \<open>t\<close>. \<open>execute_task\<close> is its \<open>prepare\<close> and then its \<open>run\<close>; the events
  around them are logged together, since a thread that leaves through the handler never flushes its log.
\<close>

definition run_worker_task ::
  "'m environment \<Rightarrow> ('m, 'u) processors \<Rightarrow> mem \<Rightarrow> (nat \<Rightarrow> size_type) \<Rightarrow> worker \<Rightarrow> 'm command physical_task \<Rightarrow>
   ('m, 'u) program \<Rightarrow> worker \<times> ('m, 'u) program" where
  "run_worker_task env procs junk now wk t pg =
     (let tid = pt_physical t; evs = begin_events junk now tid (wk_events wk)
      in case execute_task env procs (self_locality env (wk_id wk)) t pg of
           (Some e, pg) \<Rightarrow> (wk\<lparr>wk_events := evs, wk_state := CatchCancelling 0\<rparr>, notify_program e pg)
         | (None, pg) \<Rightarrow> (wk\<lparr>wk_events := log_with (log_end_execution junk (now 3) tid) evs, wk_state := Completing tid\<rparr>, pg))"

definition take_task ::
  "'m environment \<Rightarrow> ('m, 'u) processors \<Rightarrow> mem \<Rightarrow> (nat \<Rightarrow> size_type) \<Rightarrow> worker \<Rightarrow> ('m, 'u) program \<Rightarrow> worker \<times> ('m, 'u) program" where
  "take_task env procs junk now wk pg =
     (case take_without_sleep (self_locality env (wk_id wk)) (pg_scheduler pg) of
        (None, s) \<Rightarrow> (wk, pg\<lparr>pg_scheduler := s\<rparr>)
      | (Some t, s) \<Rightarrow> run_worker_task env procs junk now wk t (pg\<lparr>pg_scheduler := s\<rparr>))"

text \<open>The finaliser at the back of the list, in the try block and in the handler.\<close>

definition finalize_observer ::
  "('m, 'u) thread_observer list \<Rightarrow> (('m, 'u) effect \<Rightarrow> ('m, 'u) program \<Rightarrow> worker_state \<times> ('m, 'u) program) \<Rightarrow> worker_state \<Rightarrow>
   worker \<Rightarrow> ('m, 'u) program \<Rightarrow> worker \<times> ('m, 'u) program" where
  "finalize_observer obs call done_state wk pg =
     (case wk_initialized wk of
        [] \<Rightarrow> (wk\<lparr>wk_state := done_state\<rparr>, pg)
      | k # ks \<Rightarrow>
          (let (st, pg) = call (on_finalize (obs ! k)) pg
           in (wk\<lparr>wk_state := st, wk_initialized := ks, wk_calls := wk_calls wk @ [Finalized k]\<rparr>, pg)))"

definition flush_worker :: "worker \<Rightarrow> profile_logger option \<Rightarrow> ('m, 'u) program \<Rightarrow> worker \<times> profile_logger option \<times> ('m, 'u) program" where
  "flush_worker wk profile pg =
     (case profile of
        None \<Rightarrow> (wk\<lparr>wk_state := Left\<rparr>, None, pg)
      | Some l \<Rightarrow>
          (case flush_thread_local_log (wk_id wk) (wk_events wk) l of
             Inr l \<Rightarrow> (wk\<lparr>wk_state := Left\<rparr>, Some l, pg)
           | Inl e \<Rightarrow> (wk\<lparr>wk_state := CatchCancelling 0\<rparr>, Some l, notify_program e pg)))"

subsection \<open>A step\<close>

definition worker_step ::
  "'m environment \<Rightarrow> ('m, 'u) processors \<Rightarrow> ('m, 'u) thread_observer list \<Rightarrow> mem \<Rightarrow> (nat \<Rightarrow> size_type) \<Rightarrow>
   worker \<Rightarrow> profile_logger option \<Rightarrow> ('m, 'u) program \<Rightarrow> worker \<times> profile_logger option \<times> ('m, 'u) program" where
  "worker_step env procs obs junk now wk profile pg =
     (let l = self_locality env (wk_id wk); n = length (pg_tasks pg)
      in case wk_state wk of
           Entering \<Rightarrow>
             (wk\<lparr>wk_state := Starting 0, wk_events := (if profile \<noteq> None then enable junk (wk_events wk) else disable (wk_events wk))\<rparr>,
              profile, pg)
         | Starting k \<Rightarrow>
             (if k < length obs
              then (case on_initialize (obs ! k) pg of
                      (None, pg) \<Rightarrow> (wk\<lparr>wk_state := Starting (k + 1), wk_initialized := k # wk_initialized wk,
                                        wk_calls := wk_calls wk @ [Initialized k]\<rparr>, profile, pg)
                    | (Some e, pg) \<Rightarrow> (wk\<lparr>wk_state := CatchCancelling 0\<rparr>, profile, notify_program e pg))
              else (wk\<lparr>wk_state := Looping\<rparr>, profile, pg))
         | Looping \<Rightarrow>
             (if is_cancelled (pg_scheduler pg) \<or> is_finished (pg_scheduler pg) then (wk\<lparr>wk_state := AfterLoop\<rparr>, profile, pg)
              else (let (wk, pg) = take_task env procs junk now wk pg in (wk, profile, pg)))
         | Completing tid \<Rightarrow>
             (let (st, pg) = attempt (on_scheduler (notify_task_completion (env_draw env) tid)) Looping pg
              in (wk\<lparr>wk_state := st\<rparr>, profile, pg))
         | AfterLoop \<Rightarrow> (wk\<lparr>wk_state := (if is_cancelled (pg_scheduler pg) then Cancelling 0 else Finalizing)\<rparr>, profile, pg)
         | Cancelling k \<Rightarrow>
             (if k < n then (let (st, pg) = attempt (thread_local_cancel env procs k l) (Cancelling (k + 1)) pg
                             in (wk\<lparr>wk_state := st\<rparr>, profile, pg))
              else (wk\<lparr>wk_state := Finalizing\<rparr>, profile, pg))
         | Finalizing \<Rightarrow> (let (wk, pg) = finalize_observer obs (\<lambda>f. attempt f Finalizing) Flushing wk pg in (wk, profile, pg))
         | Flushing \<Rightarrow> flush_worker wk profile pg
         | CatchCancelling k \<Rightarrow>
             (if k < n then (wk\<lparr>wk_state := CatchCancelling (k + 1)\<rparr>, profile, protect (thread_local_cancel env procs k l) pg)
              else (wk\<lparr>wk_state := CatchFinalizing\<rparr>, profile, pg))
         | CatchFinalizing \<Rightarrow>
             (let (wk, pg) = finalize_observer obs (\<lambda>f pg. (CatchFinalizing, protect f pg)) Left wk pg in (wk, profile, pg))
         | Left \<Rightarrow> (wk, profile, pg))"

text \<open>A step of the worker \<open>w\<close> of an execution.\<close>

definition execution_step ::
  "'m environment \<Rightarrow> ('m, 'u) processors \<Rightarrow> ('m, 'u) thread_observer list \<Rightarrow> nat \<times> mem \<times> (nat \<Rightarrow> size_type) \<Rightarrow>
   ('m, 'u) execution \<Rightarrow> ('m, 'u) execution" where
  "execution_step env procs obs x ex =
     (let (w, junk, now) = x
      in if w < length (ex_workers ex)
         then (let (wk, profile, pg) = worker_step env procs obs junk now (ex_workers ex ! w) (ex_profile ex) (ex_program ex)
               in \<lparr>ex_program = pg, ex_workers = (ex_workers ex)[w := wk], ex_profile = profile\<rparr>)
         else ex)"

definition run_workers ::
  "'m environment \<Rightarrow> ('m, 'u) processors \<Rightarrow> ('m, 'u) thread_observer list \<Rightarrow> (nat \<times> mem \<times> (nat \<Rightarrow> size_type)) list \<Rightarrow>
   ('m, 'u) execution \<Rightarrow> ('m, 'u) execution" where
  "run_workers env procs obs xs ex = fold (execution_step env procs obs) xs ex"

text \<open>The executor may join the workers.\<close>

definition all_left :: "('m, 'u) execution \<Rightarrow> bool" where
  "all_left ex \<longleftrightarrow> list_all (\<lambda>wk. wk_state wk = Left) (ex_workers ex)"

end
