(* ===== verification/Executor.thy ===== *)
theory Executor
  imports WorkerThread LogicalGraphBuilder
begin

text \<open>
  Executions: \<open>ExecutionContext\<close> (context/execution_context.*), the thread of the executor
  (context/executor.*) and the public \<open>Context\<close> (api/context.cpp, api/internal/context_impl.hpp). What the
  machine answers about its topology, the order in which the workers make their steps, the clock
  and fresh memory are arguments.
\<close>

subsection \<open>ExecutionContext\<close>

text \<open>The memory manager is behind the operations on fragments of the environment.\<close>

record 'm execution_context =
  xc_configuration :: configuration
  xc_logical_graph :: "'m logical_graph"
  xc_locality_manager :: locality_manager
  xc_scheduler :: "'m command scheduler"
  xc_profile_logger :: "profile_logger option"

text \<open>The part all constructors share; \<open>None\<close> when the locality manager cannot place the threads.\<close>

definition build_context :: "topology \<Rightarrow> configuration \<Rightarrow> 'm logical_graph \<Rightarrow> 'm execution_context option" where
  "build_context topo config g =
     map_option (\<lambda>lm. \<lparr>xc_configuration = config, xc_logical_graph = g, xc_locality_manager = lm, xc_scheduler = make_scheduler lm,
         xc_profile_logger = (if profile_log config \<noteq> [] then Some (make_profile_logger config g) else None)\<rparr>)
       (make_locality_manager config topo)"

definition default_context :: "topology \<Rightarrow> 'm execution_context option" where
  "default_context topo = build_context topo (default_configuration topo) empty_logical_graph"

definition configured_context :: "topology \<Rightarrow> configuration \<Rightarrow> 'm execution_context option" where
  "configured_context topo config = build_context topo config empty_logical_graph"

definition make_context :: "topology \<Rightarrow> configuration \<Rightarrow> flow_graph \<Rightarrow> 'm execution_context result option" where
  "make_context topo config fg =
     (case build_logical_graph fg config of
        Inl e \<Rightarrow> Some (throw e)
      | Inr g \<Rightarrow> map_option ok (build_context topo config g))"

subsection \<open>The thread of the executor\<close>

text \<open>The physical tasks are created before any worker starts; a failed assertion is \<open>Undefined\<close>.\<close>

definition prepare_program :: "(nat \<Rightarrow> nat \<Rightarrow> nat) \<Rightarrow> 'u \<Rightarrow> 'm execution_context \<Rightarrow> ('m, 'u) program result" where
  "prepare_program draw u ctx =
     (case create_physical_tasks draw (xc_logical_graph ctx) (xc_scheduler ctx) of
        None \<Rightarrow> throw Undefined
      | Some (g, s) \<Rightarrow> ok \<lparr>pg_tasks = lg_tasks g, pg_scheduler = s, pg_user = u\<rparr>)"

definition start_workers :: "'m execution_context \<Rightarrow> ('m, 'u) program \<Rightarrow> ('m, 'u) execution" where
  "start_workers ctx pg =
     \<lparr>ex_program = pg, ex_workers = map make_worker [0..<Configuration.max_concurrency (xc_configuration ctx)],
      ex_profile = xc_profile_logger ctx\<rparr>"

text \<open>The cancellation of the logical tasks, one after the other, each in a handler of its own.\<close>

fun cancel_tasks :: "'m environment \<Rightarrow> ('m, 'u) processors \<Rightarrow> nat list \<Rightarrow> ('m, 'u) program \<Rightarrow> ('m, 'u) program" where
  "cancel_tasks env procs [] pg = pg"
| "cancel_tasks env procs (this # ts) pg = cancel_tasks env procs ts (protect (global_cancel env procs this) pg)"

text \<open>
  What the thread does after it has joined the workers: the exception it stores, or the text it writes
  to the file of the profile. \<open>events\<close> is the log of the executor's own thread.
\<close>

definition finish_execution ::
  "'m environment \<Rightarrow> ('m, 'u) processors \<Rightarrow> event_logger \<Rightarrow> ('m, 'u) execution \<Rightarrow> string option result \<times> ('m, 'u) program" where
  "finish_execution env procs events ex =
     (let pg = ex_program ex
      in if is_cancelled (pg_scheduler pg)
         then (let pg = cancel_tasks env procs [0..<length (pg_tasks pg)] pg
               in (andThen (rethrow_exception (pg_scheduler pg)) (\<lambda>_. ok None), pg))
         else (case ex_profile ex of
                 None \<Rightarrow> (ok None, pg)
               | Some l \<Rightarrow> (andThen (flush_thread_local_log (length (ex_workers ex)) events l) (\<lambda>l. ok (Some (dump l))), pg)))"

text \<open>
  One execution with its schedule: the exception or the profile, with the program at the end. It is
  \<open>None\<close> while a worker has not left: the executor's thread waits in \<open>join\<close>.
\<close>

definition execute_graph ::
  "(locality_manager \<Rightarrow> 'm environment) \<Rightarrow> ('m, 'u) processors \<Rightarrow> ('m, 'u) thread_observer list \<Rightarrow> topology \<Rightarrow> event_logger \<Rightarrow>
   (nat \<times> mem \<times> (nat \<Rightarrow> size_type)) list \<Rightarrow> configuration \<Rightarrow> flow_graph \<Rightarrow> 'u \<Rightarrow> (string option result \<times> 'u) option" where
  "execute_graph env procs obs topo events xs config fg u =
     (case make_context topo config fg of
        None \<Rightarrow> None
      | Some (Inl e) \<Rightarrow> Some (throw e, u)
      | Some (Inr ctx) \<Rightarrow>
          (let env = env (xc_locality_manager ctx)
           in case prepare_program (env_draw env) u ctx of
                Inl e \<Rightarrow> Some (throw e, u)
              | Inr pg \<Rightarrow>
                  (let ex = run_workers env procs obs xs (start_workers ctx pg)
                   in if all_left ex
                      then (let (r, pg) = finish_execution env procs events ex in Some (r, pg_user pg))
                      else None)))"

subsection \<open>Executor\<close>

text \<open>
  The thread of an executor is absent, running until it ends with a result, or ended and not yet
  joined. \<open>m_thrown_exception\<close> is written by the thread and read after it was joined.
\<close>

datatype thread_state = No_thread | Executing | Ended

record ('m, 'u) executor =
  xr_configuration :: configuration
  xr_flow_graph :: flow_graph
  xr_observers :: "('m, 'u) thread_observer list"
  xr_thread :: thread_state
  xr_thrown_exception :: "exn option"

definition make_executor :: "topology \<Rightarrow> ('m, 'u) executor" where
  "make_executor topo = \<lparr>xr_configuration = default_configuration topo, xr_flow_graph = [], xr_observers = [],
     xr_thread = No_thread, xr_thrown_exception = None\<rparr>"

definition set_flow_graph :: "flow_graph \<Rightarrow> ('m, 'u) executor \<Rightarrow> ('m, 'u) executor" where
  "set_flow_graph g x = x\<lparr>xr_flow_graph := g\<rparr>"

definition executor_set_configuration :: "configuration \<Rightarrow> ('m, 'u) executor \<Rightarrow> ('m, 'u) executor" where
  "executor_set_configuration c x = x\<lparr>xr_configuration := c\<rparr>"

definition add_thread_observer :: "('m, 'u) thread_observer \<Rightarrow> ('m, 'u) executor \<Rightarrow> ('m, 'u) executor" where
  "add_thread_observer ob x = x\<lparr>xr_observers := xr_observers x @ [ob]\<rparr>"

text \<open>A thread that has ended is joinable until it is joined.\<close>

definition execute :: "('m, 'u) executor \<Rightarrow> ('m, 'u) executor result" where
  "execute x = (if xr_thread x \<noteq> No_thread then throw Runtime_error else ok (x\<lparr>xr_thrown_exception := None, xr_thread := Executing\<rparr>))"

text \<open>The end of the thread with the result of \<open>execute_graph\<close>.\<close>

definition thread_ends :: "string option result \<Rightarrow> ('m, 'u) executor \<Rightarrow> ('m, 'u) executor" where
  "thread_ends r x = x\<lparr>xr_thread := Ended, xr_thrown_exception := (case r of Inl e \<Rightarrow> Some e | Inr _ \<Rightarrow> xr_thrown_exception x)\<rparr>"

text \<open>
  \<open>wait\<close> blocks while the thread runs: \<open>None\<close>. Joining without a thread throws \<open>std::system_error\<close>.
\<close>

definition wait :: "('m, 'u) executor \<Rightarrow> (unit result \<times> ('m, 'u) executor) option" where
  "wait x =
     (case xr_thread x of
        No_thread \<Rightarrow> Some (throw System_error, x)
      | Executing \<Rightarrow> None
      | Ended \<Rightarrow>
          (let x = x\<lparr>xr_thread := No_thread\<rparr>
           in Some (case xr_thrown_exception x of None \<Rightarrow> ok () | Some e \<Rightarrow> throw e, x)))"

subsection \<open>Context\<close>

text \<open>Only graphs without a cycle are accepted. The first \<open>None\<close> is a search that does not end.\<close>

definition context_set_flow_graph :: "flow_graph \<Rightarrow> ('m, 'u) executor \<Rightarrow> ('m, 'u) executor result option" where
  "context_set_flow_graph g x = map_option (\<lambda>c. if c then throw RoutingError else ok (set_flow_graph g x)) (has_cycle g)"

type_synonym ('m, 'u) context_handle = "('m, 'u) executor handle"

definition Context_new :: "topology \<Rightarrow> ('m, 'u) context_handle" where
  "Context_new topo = Some (make_executor topo)"

definition Context_set_flow_graph :: "flow_graph handle \<Rightarrow> ('m, 'u) context_handle \<Rightarrow> ('m, 'u) context_handle result option" where
  "Context_set_flow_graph g h =
     (case (g, h) of
        (Some g, Some x) \<Rightarrow> map_option (\<lambda>r. andThen r (\<lambda>x. ok (Some x))) (context_set_flow_graph g x)
      | _ \<Rightarrow> Some (throw Undefined))"

definition Context_set_configuration :: "configuration_handle \<Rightarrow> ('m, 'u) context_handle \<Rightarrow> ('m, 'u) context_handle result" where
  "Context_set_configuration c h =
     (case (c, h) of (Some c, Some x) \<Rightarrow> ok (Some (executor_set_configuration c x)) | _ \<Rightarrow> throw Undefined)"

definition Context_add_thread_observer :: "('m, 'u) thread_observer \<Rightarrow> ('m, 'u) context_handle \<Rightarrow> ('m, 'u) context_handle result" where
  "Context_add_thread_observer ob h = (case h of None \<Rightarrow> throw Undefined | Some x \<Rightarrow> ok (Some (add_thread_observer ob x)))"

definition Context_execute :: "('m, 'u) context_handle \<Rightarrow> ('m, 'u) context_handle result" where
  "Context_execute h = (case h of None \<Rightarrow> throw Undefined | Some x \<Rightarrow> andThen (execute x) (\<lambda>x. ok (Some x)))"

definition Context_wait :: "('m, 'u) context_handle \<Rightarrow> (unit result \<times> ('m, 'u) context_handle) option" where
  "Context_wait h = (case h of None \<Rightarrow> Some (throw Undefined, h) | Some x \<Rightarrow> map_option (\<lambda>(r, x). (r, Some x)) (wait x))"

end
