(* ===== verification/EffectContract.thy ===== *)
theory EffectContract
  imports ProcessTask
begin

text \<open>
  The contract of effects: a property of the program that does not depend on the fields of the
  logical tasks is kept by every cancellation of a process task as long as the user's finalisers keep it.
  WorkerThreadProperties and ExecutorProperties interpret it.
\<close>

definition keeps :: "(('m, 'u) program \<Rightarrow> bool) \<Rightarrow> ('m, 'u) effect \<Rightarrow> bool" where
  "keeps good f \<longleftrightarrow> (\<forall>pg. good pg \<longrightarrow> good (snd (f pg)))"

lemma keepsI: "(\<And>pg. good pg \<Longrightarrow> good (snd (f pg))) \<Longrightarrow> keeps good f"
  unfolding keeps_def by blast

lemma keepsD: "keeps good f \<Longrightarrow> good pg \<Longrightarrow> f pg = (r, pg') \<Longrightarrow> good pg'"
  unfolding keeps_def by (metis snd_conv)

lemma keeps_basic: "keeps good skip" "keeps good (fail e)"
  by (simp_all add: keeps_def skip_def fail_def)

lemma keeps_then_do:
  assumes "keeps good f" "keeps good g"
  shows "keeps good (then_do f g)"
proof (rule keepsI)
  fix pg assume pg: "good pg"
  obtain r pg' where f: "f pg = (r, pg')" by fastforce
  then have "good pg'" using assms(1) pg by (blast dest: keepsD)
  then show "good (snd (then_do f g pg))" using assms(2) f by (simp add: then_do_def keeps_def split: option.split)
qed

lemma keeps_assuming: "keeps good f \<Longrightarrow> keeps good (assuming c f)"
  by (simp add: assuming_def keeps_basic)

lemma keeps_with_process: "(\<And>p. keeps good (k p)) \<Longrightarrow> keeps good (with_process this k)"
  unfolding keeps_def with_process_def by (simp split: option.split)

lemma keeps_call_processor:
  assumes "\<And>t. keeps good (f (procs this) t)"
  shows "keeps good (call_processor env procs f this buffers pid c l)"
  using assms by (simp add: keeps_def call_processor_def with_process_def fail_def split: option.split sum.split)

lemmas keeps_intros = keeps_basic keeps_then_do keeps_assuming keeps_with_process keeps_call_processor

locale task_invariant =
  fixes good :: "('m, 'u) program \<Rightarrow> bool"
  assumes change_task: "good pg \<Longrightarrow> good (pg\<lparr>pg_tasks := (pg_tasks pg)[i := t]\<rparr>)"
begin

lemma keeps_change_process: "keeps good (change_process this f)"
  by (rule keepsI) (simp add: change_process_def set_body_def change_task)

lemma keeps_thread_local_cancel:
  assumes "\<And>t. keeps good (cb_thread_local_finalize (procs this) t)"
  shows "keeps good (thread_local_cancel env procs this l)"
proof -
  have "keeps good (process_thread_local_cancel env procs this l)"
    unfolding process_thread_local_cancel_def Let_def set_thread_initialized_def
    by (auto intro!: keeps_intros keeps_change_process assms)
  then show ?thesis by (simp add: keeps_def thread_local_cancel_def skip_def)
qed

lemma keeps_global_cancel:
  assumes "\<And>t. keeps good (cb_global_finalize (procs this) t)"
  shows "keeps good (global_cancel env procs this)"
proof -
  have "keeps good (process_global_cancel env procs this)"
    unfolding process_global_cancel_def by (auto intro!: keeps_intros keeps_change_process assms)
  then show ?thesis by (simp add: keeps_def global_cancel_def skip_def)
qed

end

end
