(* ===== verification/WorkerThreadProperties.thy ===== *)
theory WorkerThreadProperties
  imports WorkerThread EffectContract
begin

text \<open>
  A worker finalises the observers it initialised, the last one first and each once; and once the
  execution is cancelled, every worker leaves after a bounded number of its own steps, whatever the
  others do.
\<close>

subsection \<open>Observers\<close>

definition initialized_upto :: "nat \<Rightarrow> observer_call list" where
  "initialized_upto k = map Initialized [0..<k]"

definition finalized_from :: "nat list \<Rightarrow> observer_call list" where
  "finalized_from ks = map Finalized ks"

text \<open>The calls of a worker that has initialised \<open>k\<close> observers and finalised \<open>j\<close> of them.\<close>

definition observer_calls :: "nat \<Rightarrow> nat \<Rightarrow> observer_call list" where
  "observer_calls k j = initialized_upto k @ finalized_from (take j (rev [0..<k]))"

fun stage :: "nat \<Rightarrow> nat \<Rightarrow> nat \<Rightarrow> worker_state \<Rightarrow> bool" where
  "stage m k j Entering \<longleftrightarrow> k = 0 \<and> j = 0"
| "stage m k j (Starting i) \<longleftrightarrow> k = i \<and> j = 0"
| "stage m k j Finalizing \<longleftrightarrow> True"
| "stage m k j (CatchCancelling i) \<longleftrightarrow> True"
| "stage m k j CatchFinalizing \<longleftrightarrow> True"
| "stage m k j Flushing \<longleftrightarrow> j = k"
| "stage m k j Left \<longleftrightarrow> j = k"
| "stage m k j s \<longleftrightarrow> j = 0"

definition worker_inv :: "nat \<Rightarrow> worker \<Rightarrow> bool" where
  "worker_inv m wk \<longleftrightarrow> (\<exists>k j. k \<le> m \<and> j \<le> k \<and> wk_initialized wk = drop j (rev [0..<k]) \<and> wk_calls wk = observer_calls k j \<and>
     stage m k j (wk_state wk))"

lemma worker_invI:
  "k \<le> m \<Longrightarrow> j \<le> k \<Longrightarrow> wk_initialized wk = drop j (rev [0..<k]) \<Longrightarrow> wk_calls wk = observer_calls k j \<Longrightarrow> stage m k j (wk_state wk) \<Longrightarrow>
    worker_inv m wk"
  unfolding worker_inv_def by blast

lemma observer_calls_Suc:
  "observer_calls k 0 @ [Initialized k] = observer_calls (Suc k) 0"
  "j < k \<Longrightarrow> observer_calls k j @ [Finalized (k - 1 - j)] = observer_calls k (Suc j)"
  by (simp_all add: observer_calls_def initialized_upto_def finalized_from_def take_Suc_conv_app_nth rev_nth)

lemma drop_rev_upt:
  "j < k \<Longrightarrow> drop j (rev [0..<k]) = (k - 1 - j) # drop (Suc j) (rev [0..<k])"
  by (subst Cons_nth_drop_Suc [symmetric]) (simp_all add: rev_nth)

lemma worker_inv_finalize:
  assumes inv: "worker_inv m wk" and st: "wk_state wk \<in> {Finalizing, CatchFinalizing}"
    and call: "\<And>f pg. fst (call f pg) \<in> {Finalizing, CatchFinalizing, CatchCancelling 0}"
    and s: "s \<in> {Flushing, Left}"
  shows "worker_inv m (fst (finalize_observer obs call s wk pg))"
proof -
  obtain k j where i: "k \<le> m" "j \<le> k" "wk_initialized wk = drop j (rev [0..<k])" "wk_calls wk = observer_calls k j"
    using inv unfolding worker_inv_def by blast
  show ?thesis
  proof (cases "j = k")
    case True
    show ?thesis
      by (rule worker_invI [of k _ j]) (use i True s in \<open>auto simp: finalize_observer_def\<close>)
  next
    case False
    then have d: "drop j (rev [0..<k]) = (k - 1 - j) # drop (Suc j) (rev [0..<k])" using i(2) by (intro drop_rev_upt) simp
    obtain st pg' where c: "call (on_finalize (obs ! (k - 1 - j))) pg = (st, pg')" by fastforce
    have "st \<in> {Finalizing, CatchFinalizing, CatchCancelling 0}" using call [of "on_finalize (obs ! (k - 1 - j))" pg] c by simp
    then have "stage m k (Suc j) st" by auto
    then show ?thesis
      by (intro worker_invI [of k _ "Suc j"])
        (use i False c d observer_calls_Suc(2) [of j k] in \<open>auto simp: finalize_observer_def\<close>)
  qed
qed

lemma run_worker_task_inv:
  "wk_initialized (fst (run_worker_task env procs junk now wk t pg)) = wk_initialized wk"
  "wk_calls (fst (run_worker_task env procs junk now wk t pg)) = wk_calls wk"
  "wk_state (fst (run_worker_task env procs junk now wk t pg)) \<in> {CatchCancelling 0, Completing (pt_physical t)}"
  "wk_id (fst (run_worker_task env procs junk now wk t pg)) = wk_id wk"
  by (auto simp: run_worker_task_def Let_def split: prod.split option.split)

lemma take_task_inv:
  "wk_initialized (fst (take_task env procs junk now wk pg)) = wk_initialized wk"
  "wk_calls (fst (take_task env procs junk now wk pg)) = wk_calls wk"
  "wk_state (fst (take_task env procs junk now wk pg)) \<in> insert (wk_state wk) (insert (CatchCancelling 0) (range Completing))"
proof -
  have state: "wk_state (fst (run_worker_task env procs junk now wk t pg)) \<in> insert (CatchCancelling 0) (range Completing)" for t pg
    using run_worker_task_inv(3) [of env procs junk now wk t pg] by blast
  obtain r s where r: "take_without_sleep (self_locality env (wk_id wk)) (pg_scheduler pg) = (r, s)" by fastforce
  show "wk_initialized (fst (take_task env procs junk now wk pg)) = wk_initialized wk"
    "wk_calls (fst (take_task env procs junk now wk pg)) = wk_calls wk"
    "wk_state (fst (take_task env procs junk now wk pg)) \<in> insert (wk_state wk) (insert (CatchCancelling 0) (range Completing))"
    using state r run_worker_task_inv(1,2) [of env procs junk now wk] by (cases r; simp add: take_task_def)+
qed

lemma attempt_state: "fst (attempt f next pg) \<in> {next, CatchCancelling 0}"
  by (auto simp: attempt_def split: prod.split option.split)

lemma worker_step_inv:
  assumes inv: "worker_inv m wk" and m: "m = length obs"
  shows "worker_inv m (fst (worker_step env procs obs junk now wk profile pg))"
proof -
  obtain k j where i: "k \<le> m" "j \<le> k" "wk_initialized wk = drop j (rev [0..<k])" "wk_calls wk = observer_calls k j"
      "stage m k j (wk_state wk)"
    using inv unfolding worker_inv_def by blast
  have keep: "worker_inv m wk'" if "wk_initialized wk' = wk_initialized wk" "wk_calls wk' = wk_calls wk" "stage m k j (wk_state wk')" for wk'
    by (rule worker_invI [of k _ j]) (use i that in auto)
  show ?thesis
  proof (cases "wk_state wk")
    case (Starting n)
    then have k: "k = n" "j = 0" using i(5) by auto
    show ?thesis
    proof (cases "n < length obs \<and> fst (on_initialize (obs ! n) pg) = None")
      case True
      then obtain pg' where c: "on_initialize (obs ! n) pg = (None, pg')" by (cases "on_initialize (obs ! n) pg") auto
      show ?thesis
        by (rule worker_invI [of "Suc n" _ 0])
          (use True i k m Starting c observer_calls_Suc(1) [of n] in \<open>auto simp: worker_step_def Let_def\<close>)
    next
      case False
      then show ?thesis using Starting k by (intro keep) (auto simp: worker_step_def Let_def split: prod.splits option.splits)
    qed
  next
    case Looping
    then have j: "j = 0" using i(5) by simp
    obtain wk' pg' where t: "take_task env procs junk now wk pg = (wk', pg')" by fastforce
    have "wk_state wk' \<in> {Looping, CatchCancelling 0} \<union> range Completing"
      using take_task_inv(3) [of env procs junk now wk pg] t Looping by simp
    then have "stage m k j (wk_state wk')" using j by auto
    moreover have "wk_initialized wk' = wk_initialized wk" "wk_calls wk' = wk_calls wk"
      using take_task_inv(1,2) [of env procs junk now wk pg] t by simp_all
    ultimately show ?thesis using Looping j t by (intro keep) (auto simp: worker_step_def Let_def)
  next
    case (Completing tid)
    obtain st pg' where c: "attempt (on_scheduler (notify_task_completion (env_draw env) tid)) (Looping) pg = (st, pg')" by fastforce
    have "stage m k j st" using attempt_state [of "on_scheduler (notify_task_completion (env_draw env) tid)" "Looping" pg] c i(5) Completing by auto
    then show ?thesis using i(5) c Completing by (intro keep) (auto simp: worker_step_def Let_def)
  next
    case (Cancelling n)
    obtain st pg' where c: "attempt (thread_local_cancel env procs n (self_locality env (wk_id wk))) (Cancelling (n + 1)) pg = (st, pg')" by fastforce
    have "stage m k j st" using attempt_state [of "thread_local_cancel env procs n (self_locality env (wk_id wk))" "Cancelling (n + 1)" pg] c i(5) Cancelling by auto
    then show ?thesis using i(5) c Cancelling by (intro keep) (auto simp: worker_step_def Let_def)
  next
    case Finalizing
    have "worker_inv m (fst (finalize_observer obs (\<lambda>f. attempt f Finalizing) Flushing wk pg))"
      by (rule worker_inv_finalize [OF inv]) (use Finalizing attempt_state in auto)
    moreover obtain wk' pg' where "finalize_observer obs (\<lambda>f. attempt f Finalizing) Flushing wk pg = (wk', pg')" by fastforce
    ultimately show ?thesis using Finalizing by (simp add: worker_step_def Let_def)
  next
    case CatchFinalizing
    have "worker_inv m (fst (finalize_observer obs (\<lambda>f pg. (CatchFinalizing, protect f pg)) Left wk pg))"
      by (rule worker_inv_finalize [OF inv]) (use CatchFinalizing in auto)
    moreover obtain wk' pg' where "finalize_observer obs (\<lambda>f pg. (CatchFinalizing, protect f pg)) Left wk pg = (wk', pg')" by fastforce
    ultimately show ?thesis using CatchFinalizing by (simp add: worker_step_def Let_def)
  next
    case Flushing
    then show ?thesis using i(5)
      by (intro keep) (auto simp: worker_step_def Let_def flush_worker_def split: option.splits sum.splits)
  qed (use i(5) in \<open>intro keep; auto simp: worker_step_def Let_def\<close>)+
qed

definition start_execution :: "nat \<Rightarrow> profile_logger option \<Rightarrow> ('m, 'u) program \<Rightarrow> ('m, 'u) execution" where
  "start_execution n profile pg = \<lparr>ex_program = pg, ex_workers = map make_worker [0..<n], ex_profile = profile\<rparr>"

lemma execution_step_workers:
  assumes "list_all (worker_inv (length obs)) (ex_workers ex)"
  shows "list_all (worker_inv (length obs)) (ex_workers (execution_step env procs obs x ex))"
proof (cases "fst x < length (ex_workers ex)")
  case True
  obtain w junk now where x: "x = (w, junk, now)" by (cases x)
  have "worker_inv (length obs) (fst (worker_step env procs obs junk now (ex_workers ex ! w) (ex_profile ex) (ex_program ex)))"
    using assms True x by (intro worker_step_inv) (auto simp: list_all_length)
  then show ?thesis using assms True x
    by (auto simp: execution_step_def list_all_length nth_list_update split: prod.split)
qed (use assms in \<open>auto simp: execution_step_def split: prod.split\<close>)

lemma run_workers_inv:
  "list_all (worker_inv (length obs)) (ex_workers (run_workers env procs obs xs (start_execution n profile pg)))"
proof -
  have start: "list_all (worker_inv (length obs)) (ex_workers (start_execution n profile pg))"
  proof -
    have "worker_inv (length obs) (make_worker w)" for w
      by (rule worker_invI [of 0 _ 0]) (auto simp: make_worker_def observer_calls_def initialized_upto_def finalized_from_def)
    then show ?thesis by (simp add: start_execution_def list_all_iff)
  qed
  have "list_all (worker_inv (length obs)) (ex_workers (run_workers env procs obs xs ex))"
    if "list_all (worker_inv (length obs)) (ex_workers ex)" for ex
    using that by (induction xs arbitrary: ex) (simp_all add: run_workers_def execution_step_workers)
  from this [OF start] show ?thesis .
qed

subsection \<open>Calls that keep the cancellation\<close>

definition cancelled_with :: "nat \<Rightarrow> ('m, 'u) program \<Rightarrow> bool" where
  "cancelled_with n pg \<longleftrightarrow> is_cancelled (pg_scheduler pg) \<and> length (pg_tasks pg) = n"

text \<open>A call does not take the cancellation back and makes no logical tasks.\<close>

definition benign :: "('m, 'u) effect \<Rightarrow> bool" where
  "benign f \<longleftrightarrow> (\<forall>n. keeps (cancelled_with n) f)"

lemma benignD: "benign f \<Longrightarrow> cancelled_with n pg \<Longrightarrow> cancelled_with n (snd (f pg))"
  by (simp add: benign_def keeps_def)

interpretation cancelled: task_invariant "cancelled_with n" for n
  by unfold_locales (simp add: cancelled_with_def)

lemma notify_worker_cancellation: "cancellation (snd (notify_worker w s)) = cancellation s"
  by simp

lemma notify_all_cancellation: "cancellation (notify_all s) = cancellation s"
proof -
  have "cancellation (fold (\<lambda>w s. snd (notify_worker w s)) ws s) = cancellation s" for ws
    by (induction ws arbitrary: s) simp_all
  then show ?thesis by (simp add: notify_all_def)
qed

lemma notify_first_cancellation: "cancellation (notify_first ws s) = cancellation s"
proof (induction ws arbitrary: s)
  case (Cons w ws)
  obtain b s1 where "notify_worker w s = (b, s1)" by fastforce
  then show ?case using Cons notify_worker_cancellation [of w s] by simp
qed simp

lemma decrement_cancellation: "decrement_predecessor_count draw v s = Some s' \<Longrightarrow> cancellation s' = cancellation s"
  by (auto simp: decrement_predecessor_count_def drop_predecessor_def enqueue_def notify_first_cancellation Let_def
      simp del: notify_first.simps split: bind_splits if_splits)

lemma completion_cancellation:
  fixes s :: "'c scheduler"
  shows "notify_task_completion draw tid s = Some s' \<Longrightarrow> cancellation s' = cancellation s"
proof -
  have "cancellation s' = cancellation s" if "fold (\<lambda>v s. Option.bind s (decrement_predecessor_count draw v)) vs (Some s) = Some s'"
    for vs and s s' :: "'c scheduler"
    using that
  proof (induction vs arbitrary: s)
    case (Cons v vs)
    have "fold (\<lambda>v s. Option.bind s (decrement_predecessor_count draw v)) xs (None :: 'c scheduler option) = None" for xs
      by (induction xs) simp_all
    then obtain s1 where "decrement_predecessor_count draw v s = Some s1"
        "fold (\<lambda>v s. Option.bind s (decrement_predecessor_count draw v)) vs (Some s1) = Some s'"
      using Cons.prems by (cases "decrement_predecessor_count draw v s") auto
    then show ?case using Cons.IH decrement_cancellation by metis
  qed simp
  then show "notify_task_completion draw tid s = Some s' \<Longrightarrow> cancellation s' = cancellation s"
    by (fastforce simp: notify_task_completion_def erase_vertex_def count_completion_def notify_all_cancellation Let_def
        split: bind_splits if_splits)
qed

lemma benign_completion: "benign (on_scheduler (notify_task_completion draw tid))"
  using completion_cancellation
  by (fastforce simp: benign_def keeps_def on_scheduler_def cancelled_with_def is_cancelled_def split: option.split)

lemma cancelled_notify_program: "length (pg_tasks pg) = n \<Longrightarrow> cancelled_with n (notify_program e pg)"
  by (simp add: notify_program_def cancelled_with_def notify_exception_def is_cancelled_def notify_all_cancellation
      cm_is_cancelled_def cm_notify_exception_def)

lemma benign_thread_local_cancel:
  "(\<And>t. benign (cb_thread_local_finalize (procs this) t)) \<Longrightarrow> benign (thread_local_cancel env procs this l)"
  by (simp add: benign_def cancelled.keeps_thread_local_cancel)

lemma cancelled_notify: "cancelled_with n pg \<Longrightarrow> cancelled_with n (notify_program e pg)"
  by (rule cancelled_notify_program) (simp add: cancelled_with_def)

lemma attempt_cancelled:
  assumes "benign f" "cancelled_with n pg"
  shows "cancelled_with n (snd (attempt f next pg))" "cancelled_with n (protect f pg)"
  using benignD [OF assms] cancelled_notify by (auto simp: attempt_def protect_def split: prod.split option.split)

subsection \<open>Leaving after a cancellation\<close>

text \<open>A bound on the steps a worker still does, for \<open>n\<close> logical tasks and \<open>m\<close> observers.\<close>

fun steps_left :: "nat \<Rightarrow> nat \<Rightarrow> nat \<Rightarrow> worker_state \<Rightarrow> nat" where
  "steps_left n m s Left = 0"
| "steps_left n m s CatchFinalizing = 1 + s"
| "steps_left n m s (CatchCancelling k) = 2 + (n - k) + s"
| "steps_left n m s Flushing = 3 + n + s"
| "steps_left n m s Finalizing = 4 + n + s"
| "steps_left n m s (Cancelling k) = 5 + n + (n - k) + s"
| "steps_left n m s AfterLoop = 6 + 2 * n + s"
| "steps_left n m s Looping = 7 + 2 * n + s"
| "steps_left n m s (Completing t) = 8 + 2 * n + s"
| "steps_left n m s (Starting k) = 9 + 2 * n + 2 * (m - k) + s"
| "steps_left n m s Entering = 10 + 2 * n + 2 * m + s"

definition worker_rank :: "nat \<Rightarrow> nat \<Rightarrow> worker \<Rightarrow> nat" where
  "worker_rank n m wk = steps_left n m (length (wk_initialized wk)) (wk_state wk)"

definition benign_observers :: "('m, 'u) thread_observer list \<Rightarrow> bool" where
  "benign_observers obs \<longleftrightarrow> list_all (\<lambda>x. benign (on_initialize x) \<and> benign (on_finalize x)) obs"

lemma finalize_observer_rank:
  assumes st: "wk_state wk \<in> {Finalizing, CatchFinalizing}" and c: "cancelled_with n pg" and obs: "benign_observers obs"
    and stack: "set (wk_initialized wk) \<subseteq> {..<length obs}"
    and call: "call = (\<lambda>f. attempt f Finalizing) \<and> s = Flushing \<and> wk_state wk = Finalizing \<or>
      call = (\<lambda>f pg. (CatchFinalizing, protect f pg)) \<and> s = Left \<and> wk_state wk = CatchFinalizing"
  shows "case finalize_observer obs call s wk pg of (wk', pg') \<Rightarrow> cancelled_with n pg' \<and> worker_rank n m wk' < worker_rank n m wk"
proof (cases "wk_initialized wk")
  case Nil
  then show ?thesis using call c by (auto simp: finalize_observer_def worker_rank_def)
next
  case (Cons k ks)
  have "k < length obs" using stack Cons by simp
  then have "benign (on_finalize (obs ! k))" using obs by (simp add: benign_observers_def list_all_length)
  note b = attempt_cancelled [OF this c]
  show ?thesis using call
  proof
    assume call: "call = (\<lambda>f. attempt f Finalizing) \<and> s = Flushing \<and> wk_state wk = Finalizing"
    obtain st pg' where a: "attempt (on_finalize (obs ! k)) Finalizing pg = (st, pg')" by fastforce
    have "st \<in> {Finalizing, CatchCancelling 0}" using attempt_state [of "on_finalize (obs ! k)" Finalizing pg] a by simp
    then show ?thesis using call Cons a b(1) [of Finalizing] by (auto simp: finalize_observer_def worker_rank_def)
  next
    assume "call = (\<lambda>f pg. (CatchFinalizing, protect f pg)) \<and> s = Left \<and> wk_state wk = CatchFinalizing"
    then show ?thesis using Cons b(2) by (auto simp: finalize_observer_def worker_rank_def)
  qed
qed

lemma worker_step_rank:
  assumes c: "cancelled_with n pg" and obs: "benign_observers obs" and inv: "worker_inv (length obs) wk"
    and procs: "\<And>this t. benign (cb_thread_local_finalize (procs this) t)"
  shows "case worker_step env procs obs junk now wk profile pg of (wk', profile', pg') \<Rightarrow>
    cancelled_with n pg' \<and> worker_rank n (length obs) wk' \<le> worker_rank n (length obs) wk - 1"
proof -
  let ?m = "length obs"
  obtain k j where kj: "k \<le> ?m" "wk_initialized wk = drop j (rev [0..<k])" using inv unfolding worker_inv_def by blast
  have stack: "set (wk_initialized wk) \<subseteq> {..<?m}" using kj by (auto dest: in_set_dropD)
  have n: "length (pg_tasks pg) = n" "is_cancelled (pg_scheduler pg)" using c by (simp_all add: cancelled_with_def)
  have cancel: "benign (thread_local_cancel env procs i l)" for i l by (rule benign_thread_local_cancel [OF procs])
  show ?thesis
  proof (cases "wk_state wk")
    case (Starting i)
    show ?thesis
    proof (cases "i < ?m")
      case True
      then have "benign (on_initialize (obs ! i))" using obs by (simp add: benign_observers_def list_all_length)
      note b = benignD [OF this c]
      obtain r pg' where r: "on_initialize (obs ! i) pg = (r, pg')" by fastforce
      show ?thesis
      proof (cases r)
        case None
        then show ?thesis using True r b Starting by (simp add: worker_step_def Let_def worker_rank_def)
      next
        case (Some e)
        have "cancelled_with n (notify_program e pg')" using b r by (intro cancelled_notify) simp
        then show ?thesis using Some True r Starting by (simp add: worker_step_def Let_def worker_rank_def)
      qed
    next
      case False
      then show ?thesis using c Starting by (simp add: worker_step_def Let_def worker_rank_def)
    qed
  next
    case (Completing tid)
    obtain st pg' where a: "attempt (on_scheduler (notify_task_completion (env_draw env) tid)) Looping pg = (st, pg')" by fastforce
    have "st \<in> {Looping, CatchCancelling 0}" "cancelled_with n pg'"
      using attempt_state [of "on_scheduler (notify_task_completion (env_draw env) tid)" Looping pg] a
        attempt_cancelled(1) [OF benign_completion c, of "env_draw env" tid Looping] by simp_all
    then show ?thesis using a Completing by (auto simp: worker_step_def Let_def worker_rank_def)
  next
    case (Cancelling i)
    let ?f = "thread_local_cancel env procs i (self_locality env (wk_id wk))"
    obtain st pg' where a: "attempt ?f (Cancelling (i + 1)) pg = (st, pg')" by fastforce
    have "st \<in> {Cancelling (i + 1), CatchCancelling 0}" "cancelled_with n pg'"
      using attempt_state [of ?f "Cancelling (i + 1)" pg] a attempt_cancelled(1) [OF cancel c, of i _ "Cancelling (i + 1)"]
      by (simp_all, metis snd_conv)
    then show ?thesis using a Cancelling c n by (auto simp: worker_step_def Let_def worker_rank_def)
  next
    case Finalizing
    then show ?thesis using finalize_observer_rank [of wk n pg obs "\<lambda>f. attempt f Finalizing" Flushing ?m] c obs stack
      by (auto simp: worker_step_def Let_def split: prod.splits)
  next
    case CatchFinalizing
    then show ?thesis using finalize_observer_rank [of wk n pg obs "\<lambda>f pg. (CatchFinalizing, protect f pg)" Left ?m] c obs stack
      by (auto simp: worker_step_def Let_def split: prod.splits)
  next
    case Flushing
    then show ?thesis using c cancelled_notify
      by (auto simp: worker_step_def Let_def worker_rank_def flush_worker_def split: option.split sum.split)
  next
    case (CatchCancelling i)
    then show ?thesis using c n attempt_cancelled(2) [OF cancel c]
      by (auto simp: worker_step_def Let_def worker_rank_def)
  qed (use c n in \<open>auto simp: worker_step_def Let_def worker_rank_def\<close>)
qed

lemma worker_rank_bound: "worker_inv m wk \<Longrightarrow> worker_rank n m wk \<le> 2 * n + 3 * m + 10"
proof -
  assume "worker_inv m wk"
  then have "length (wk_initialized wk) \<le> m" unfolding worker_inv_def by auto
  then show ?thesis by (cases "wk_state wk") (simp_all add: worker_rank_def)
qed

lemma run_workers_rank:
  assumes "cancelled_with n (ex_program ex)" "benign_observers obs" "list_all (worker_inv (length obs)) (ex_workers ex)"
    "\<And>this t. benign (cb_thread_local_finalize (procs this) t)" "w < length (ex_workers ex)"
  shows "worker_rank n (length obs) (ex_workers (run_workers env procs obs ys ex) ! w) \<le>
    worker_rank n (length obs) (ex_workers ex ! w) - length (filter (\<lambda>y. fst y = w) ys)"
  using assms
proof (induction ys arbitrary: ex)
  case (Cons y ys)
  obtain v junk now where y: "y = (v, junk, now)" by (cases y)
  let ?ex = "execution_step env procs obs y ex"
  have step: "cancelled_with n (ex_program ?ex) \<and> length (ex_workers ?ex) = length (ex_workers ex) \<and>
      worker_rank n (length obs) (ex_workers ?ex ! w) \<le> worker_rank n (length obs) (ex_workers ex ! w) - (if v = w then 1 else 0)"
  proof (cases "v < length (ex_workers ex)")
    case True
    have "worker_inv (length obs) (ex_workers ex ! v)" using Cons.prems(3) True by (simp add: list_all_length)
    from worker_step_rank [where procs = procs and env = env and junk = junk and now = now and profile = "ex_profile ex",
        OF Cons.prems(1,2) this Cons.prems(4)] show ?thesis
      using True Cons.prems(5) y by (auto simp: execution_step_def split: prod.splits)
  next
    case False
    then show ?thesis using Cons.prems y by (auto simp: execution_step_def)
  qed
  have "worker_rank n (length obs) (ex_workers (run_workers env procs obs ys ?ex) ! w) \<le>
      worker_rank n (length obs) (ex_workers ?ex ! w) - length (filter (\<lambda>y. fst y = w) ys)"
    using step Cons.prems by (intro Cons.IH execution_step_workers) auto
  then show ?case using step y by (auto simp: run_workers_def)
qed (simp add: run_workers_def)

subsection \<open>Properties\<close>

text \<open>
  C34: in every interleaving of the workers, each worker has initialised the first observers in their order and
  finalised some of them, the last one first and each once; when it has left, it has finalised all it
  initialised. Calls may throw at any place.
\<close>
theorem observers_finalised_in_reverse:
  "list_all (\<lambda>wk. \<exists>k j. k \<le> length obs \<and> j \<le> k \<and>
       wk_calls wk = map Initialized [0..<k] @ map Finalized (take j (rev [0..<k])) \<and> (if wk_state wk = Left then j = k else True))
     (ex_workers (run_workers env procs obs xs (start_execution n profile pg)))"
proof -
  have "\<exists>k j. k \<le> m \<and> j \<le> k \<and> wk_calls wk = map Initialized [0..<k] @ map Finalized (take j (rev [0..<k])) \<and>
      (if wk_state wk = Left then j = k else True)" if "worker_inv m wk" for m wk
    using that unfolding worker_inv_def observer_calls_def initialized_upto_def finalized_from_def
    by (elim exE conjE) (rule exI, rule exI, intro conjI, assumption+, auto)
  then show ?thesis using run_workers_inv [of obs env procs xs n profile pg] by (auto simp: list_all_iff)
qed

text \<open>
  C35: once the execution is cancelled, a worker leaves after a bounded number of its own steps, whatever the
  other workers do: at most two for each logical task and three for each observer, and ten. The
  finalisers and observers of the user may throw, but must not take the cancellation back.
\<close>
theorem workers_leave_after_cancellation:
  assumes "is_cancelled (pg_scheduler (ex_program ex))" and "ex = run_workers env procs obs xs (start_execution n profile pg)"
    and "benign_observers obs" and "\<forall>this t. benign (cb_thread_local_finalize (procs this) t)" and "w < n"
    and "2 * length (pg_tasks (ex_program ex)) + 3 * length obs + 10 \<le> length (filter (\<lambda>y. fst y = w) ys)"
  shows "wk_state (ex_workers (run_workers env procs obs ys ex) ! w) = Left"
proof -
  have inv: "list_all (worker_inv (length obs)) (ex_workers ex)" unfolding assms(2) by (rule run_workers_inv)
  have "length (ex_workers (run_workers env procs obs zs e)) = length (ex_workers e)" for zs and e :: "('a, 'b) execution"
    by (induction zs arbitrary: e) (auto simp: run_workers_def execution_step_def split: prod.splits)
  then have w: "w < length (ex_workers ex)" using assms(2,5) by (simp add: start_execution_def)
  have "worker_rank (length (pg_tasks (ex_program ex))) (length obs) (ex_workers (run_workers env procs obs ys ex) ! w) \<le>
      worker_rank (length (pg_tasks (ex_program ex))) (length obs) (ex_workers ex ! w) - length (filter (\<lambda>y. fst y = w) ys)"
    by (rule run_workers_rank) (use assms inv w in \<open>auto simp: cancelled_with_def\<close>)
  also have "\<dots> = 0"
    using worker_rank_bound [of "length obs" "ex_workers ex ! w" "length (pg_tasks (ex_program ex))"] inv w assms(6)
    by (simp add: list_all_length)
  finally show ?thesis by (cases "wk_state (ex_workers (run_workers env procs obs ys ex) ! w)") (simp_all add: worker_rank_def)
qed

definition idle_environment :: "unit environment" where
  "idle_environment = \<lparr>env_draw = (\<lambda>lo hi. lo), env_config = default_configuration (plain_topology 1),
     env_locality = default_locality_manager\<lparr>lm_max_concurrency := 1\<rparr>, env_node = (\<lambda>_. 0),
     env_partition_fragment = (\<lambda>_ _ _. throw Bad_alloc), env_sort_records = (\<lambda>_ _ _. throw Bad_alloc),
     env_gather = (\<lambda>_ _. throw Bad_alloc), env_value_sort = (\<lambda>_ _ _. throw Bad_alloc)\<rparr>"

definition idle_callbacks :: "(unit, nat) callbacks" where
  "idle_callbacks = \<lparr>cb_global_initialize = (\<lambda>_. skip), cb_global_finalize = (\<lambda>_. skip), cb_thread_local_initialize = (\<lambda>_. skip),
     cb_thread_local_finalize = (\<lambda>_. skip), cb_run = (\<lambda>_. skip)\<rparr>"

text \<open>An observer that counts, and throws when it is finalised.\<close>

definition counting_observer :: "(unit, nat) thread_observer" where
  "counting_observer = \<lparr>on_initialize = (\<lambda>pg. (None, pg\<lparr>pg_user := pg_user pg + 1\<rparr>)), on_finalize = fail (User_exception 0)\<rparr>"

definition failed_program :: "(unit, nat) program" where
  "failed_program = \<lparr>pg_tasks = [make_logical_task (Gather [])],
     pg_scheduler = notify_exception (User_exception 1) (make_scheduler (default_locality_manager\<lparr>lm_max_concurrency := 1\<rparr>)), pg_user = 0\<rparr>"

theorem workers_leave_after_cancellation_witness:
  "wk_state (ex_workers (run_workers idle_environment (\<lambda>_. idle_callbacks) [counting_observer] (replicate 15 (0, (\<lambda>_. 0), (\<lambda>_. 0)))
     (run_workers idle_environment (\<lambda>_. idle_callbacks) [counting_observer] [] (start_execution 1 None failed_program))) ! 0) = Left"
proof (rule workers_leave_after_cancellation [where xs = "[]" and n = 1 and profile = None and pg = failed_program])
  show "is_cancelled (pg_scheduler (ex_program (run_workers idle_environment (\<lambda>_. idle_callbacks) [counting_observer] []
      (start_execution 1 None failed_program))))"
    by (simp add: run_workers_def start_execution_def failed_program_def notify_exception_def is_cancelled_def
        notify_all_cancellation cm_is_cancelled_def cm_notify_exception_def)
  show "benign_observers [counting_observer]"
    by (simp add: benign_observers_def counting_observer_def benign_def keeps_basic) (simp add: keeps_def cancelled_with_def)
  show "\<forall>this t. benign (cb_thread_local_finalize idle_callbacks t)" by (simp add: idle_callbacks_def benign_def keeps_basic)
qed (simp_all add: run_workers_def start_execution_def failed_program_def)

end
