(* ===== verification/ProcessLifecycle.thy ===== *)
theory ProcessLifecycle
  imports Executor WorkerThreadProperties
begin

text \<open>
  Initialisation and finalisation of a processor of any of the three kinds of process tasks, while workers
  run the commands of its task, fragments arrive, calls throw and workers leave: what the log of the calls
  looks like at any time, and when the executor has cancelled the task. The processor here records its
  calls and throws when \<open>d\<close> says so.
\<close>

subsection \<open>A processor that records its calls\<close>

datatype call = GlobalInit | GlobalFinal | ThreadInit nat | ThreadFinal nat | Run

text \<open>A call and whether it returned.\<close>

type_synonym call_log = "(call \<times> bool) list"

definition record_call :: "(call \<Rightarrow> call_log \<Rightarrow> exn option) \<Rightarrow> call \<Rightarrow> ('m, call_log) effect" where
  "record_call d c pg = (let r = d c (pg_user pg) in (r, pg\<lparr>pg_user := pg_user pg @ [(c, r = None)]\<rparr>))"

definition recording :: "(call \<Rightarrow> call_log \<Rightarrow> exn option) \<Rightarrow> ('m, call_log) callbacks" where
  "recording d = \<lparr>cb_global_initialize = (\<lambda>t. record_call d GlobalInit), cb_global_finalize = (\<lambda>t. record_call d GlobalFinal),
     cb_thread_local_initialize = (\<lambda>t. record_call d (ThreadInit (self_thread_id (ti_current_locality t)))),
     cb_thread_local_finalize = (\<lambda>t. record_call d (ThreadFinal (self_thread_id (ti_current_locality t)))),
     cb_run = (\<lambda>t. record_call d Run)\<rparr>"

subsection \<open>The operations of the life cycle\<close>

text \<open>
  What can happen to a process task, here the task 0: a worker runs one of its commands (\<open>prepare\<close> and then
  \<open>run\<close>), a fragment arrives, or a worker that leaves cancels the task for its thread. An exception ends the
  operation and is handed to the scheduler (\<open>protect\<close>); the next operation goes on from the state it left.
\<close>

datatype 'm lifecycle_op =
    OpGlobalInitialize locality
  | OpBarrier locality
  | OpGlobalFinalize locality
  | OpProcess locality "'m process_command"
  | OpReceive identifier_type identifier_type 'm
  | OpThreadCancel locality

definition run_prepared :: "'m environment \<Rightarrow> ('m, 'u) processors \<Rightarrow> locality \<Rightarrow> 'm command \<Rightarrow> ('m, 'u) effect" where
  "run_prepared env procs l c pg = run_command env procs 0 l c (prepare_command 0 c pg) pg"

fun lifecycle_effect :: "'m environment \<Rightarrow> ('m, 'u) processors \<Rightarrow> 'm lifecycle_op \<Rightarrow> ('m, 'u) effect" where
  "lifecycle_effect env procs (OpGlobalInitialize l) = run_prepared env procs l GlobalInitializeCommand"
| "lifecycle_effect env procs (OpBarrier l) = run_prepared env procs l ProcessBarrierCommand"
| "lifecycle_effect env procs (OpGlobalFinalize l) = run_prepared env procs l GlobalFinalizeCommand"
| "lifecycle_effect env procs (OpProcess l c) = run_prepared env procs l (ProcessCommandWrapper c)"
| "lifecycle_effect env procs (OpReceive port part m) = receive_fragment env 0 port part m"
| "lifecycle_effect env procs (OpThreadCancel l) = thread_local_cancel env procs 0 l"

definition lifecycle_step ::
  "'m environment \<Rightarrow> (call \<Rightarrow> call_log \<Rightarrow> exn option) \<Rightarrow> 'm lifecycle_op \<Rightarrow> ('m, call_log) program \<Rightarrow> ('m, call_log) program" where
  "lifecycle_step env d x = protect (lifecycle_effect env (\<lambda>_. recording d) x)"

definition lifecycle_run ::
  "'m environment \<Rightarrow> (call \<Rightarrow> call_log \<Rightarrow> exn option) \<Rightarrow> 'm lifecycle_op list \<Rightarrow> ('m, call_log) program \<Rightarrow> ('m, call_log) program" where
  "lifecycle_run env d ops pg = fold (lifecycle_step env d) ops pg"

definition lifecycle_start :: "'m logical_task \<Rightarrow> 'm task_body \<Rightarrow> 'm command scheduler \<Rightarrow> ('m, call_log) program" where
  "lifecycle_start t b s = \<lparr>pg_tasks = [t\<lparr>lt_body := b\<rparr>], pg_scheduler = s, pg_user = []\<rparr>"

text \<open>
  A condition on runs, not part of a step: the global finaliser of a processor with input ports runs while no worker
  is initialised. In an execution it comes from the scheduler: the barrier command makes the terminal task,
  which runs the finaliser, wait for the finalizer of every initialised worker
  (\<open>create_thread_local_finalizers\<close>).
\<close>

definition threads_closed :: "('m, 'u) program \<Rightarrow> bool" where
  "threads_closed pg \<longleftrightarrow>
     (case process_of (lt_body (the_task 0 pg)) of None \<Rightarrow> True
      | Some p \<Rightarrow> input_ports (pr_processor p) = [] \<or> True \<notin> set (thread_local_initialized p))"

fun in_order :: "'m lifecycle_op \<Rightarrow> ('m, 'u) program \<Rightarrow> bool" where
  "in_order (OpGlobalFinalize l) pg = threads_closed pg"
| "in_order x pg = True"

fun ordered_run ::
  "'m environment \<Rightarrow> (call \<Rightarrow> call_log \<Rightarrow> exn option) \<Rightarrow> 'm lifecycle_op list \<Rightarrow> ('m, call_log) program \<Rightarrow> bool" where
  "ordered_run env d [] pg = True"
| "ordered_run env d (x # ops) pg \<longleftrightarrow> in_order x pg \<and> ordered_run env d ops (lifecycle_step env d x pg)"

text \<open>The workers whose last operation is their cancellation of the task.\<close>

fun leave_op :: "'m lifecycle_op \<Rightarrow> nat set \<Rightarrow> nat set" where
  "leave_op (OpThreadCancel l) W = insert (self_thread_id l) W"
| "leave_op (OpReceive port part m) W = W"
| "leave_op (OpGlobalInitialize l) W = W - {self_thread_id l}"
| "leave_op (OpBarrier l) W = W - {self_thread_id l}"
| "leave_op (OpGlobalFinalize l) W = W - {self_thread_id l}"
| "leave_op (OpProcess l c) W = W - {self_thread_id l}"

definition left_workers :: "'m lifecycle_op list \<Rightarrow> nat set" where
  "left_workers ops = fold leave_op ops {}"

subsection \<open>Counting calls\<close>

definition opened :: "call \<Rightarrow> call_log \<Rightarrow> nat" where
  "opened c log = length (filter (\<lambda>e. e = (c, True)) log)"

definition closed :: "call \<Rightarrow> call_log \<Rightarrow> nat" where
  "closed c log = length (filter (\<lambda>e. fst e = c) log)"

text \<open>Successful openings and attempted closings alternate, and the flag tells whether one is open.\<close>

definition alternate :: "call \<Rightarrow> call \<Rightarrow> call_log \<Rightarrow> bool \<Rightarrow> bool" where
  "alternate a b log f \<longleftrightarrow> opened a log = closed b log + of_bool f \<and>
     (\<forall>k. closed b (take k log) \<le> opened a (take k log) \<and> opened a (take k log) \<le> closed b (take k log) + 1)"

text \<open>No closing without an opening of its own.\<close>

definition at_most_once :: "call \<Rightarrow> call \<Rightarrow> call_log \<Rightarrow> bool" where
  "at_most_once a b log \<longleftrightarrow> (\<forall>k. closed b (take k log) \<le> opened a (take k log))"

lemma counts_append [simp]:
  "opened c (log @ log') = opened c log + opened c log'" "closed c (log @ log') = closed c log + closed c log'"
  "opened c [] = 0" "closed c [] = 0" "opened c [e] = of_bool (e = (c, True))" "closed c [e] = of_bool (fst e = c)"
  by (simp_all add: opened_def closed_def)

lemma alternate_append:
  assumes "a \<noteq> b"
  shows alternate_other: "alternate a b log f \<Longrightarrow> c \<noteq> a \<Longrightarrow> c \<noteq> b \<Longrightarrow> alternate a b (log @ [(c, r)]) f"
    and alternate_open: "alternate a b log False \<Longrightarrow> alternate a b (log @ [(a, r)]) r"
    and alternate_close: "alternate a b log True \<Longrightarrow> alternate a b (log @ [(b, r)]) False"
proof -
  have take: "take k (log @ [e]) = (if k \<le> length log then take k log else log @ [e])" for k e by simp
  show "alternate a b log f \<Longrightarrow> c \<noteq> a \<Longrightarrow> c \<noteq> b \<Longrightarrow> alternate a b (log @ [(c, r)]) f"
    unfolding alternate_def take by auto
  show "alternate a b log False \<Longrightarrow> alternate a b (log @ [(a, r)]) r"
    using assms unfolding alternate_def take by auto
  show "alternate a b log True \<Longrightarrow> alternate a b (log @ [(b, r)]) False"
    using assms unfolding alternate_def take by auto
qed

text \<open>What holds of the calls of a worker with and without the condition on the order.\<close>

definition paired :: "bool \<Rightarrow> call \<Rightarrow> call \<Rightarrow> call_log \<Rightarrow> bool \<Rightarrow> bool" where
  "paired ordered a b log f \<longleftrightarrow>
     (if ordered then alternate a b log f else at_most_once a b log \<and> closed b log + of_bool f \<le> opened a log)"

lemma paired_append:
  assumes "a \<noteq> b"
  shows paired_other: "paired ordered a b log f \<Longrightarrow> c \<noteq> a \<Longrightarrow> c \<noteq> b \<Longrightarrow> paired ordered a b (log @ [(c, r)]) f"
    and paired_open: "paired ordered a b log False \<Longrightarrow> paired ordered a b (log @ [(a, r)]) r"
    and paired_close: "paired ordered a b log True \<Longrightarrow> paired ordered a b (log @ [(b, r)]) False"
proof -
  have take: "take k (log @ [e]) = (if k \<le> length log then take k log else log @ [e])" for k e by simp
  show "paired ordered a b log f \<Longrightarrow> c \<noteq> a \<Longrightarrow> c \<noteq> b \<Longrightarrow> paired ordered a b (log @ [(c, r)]) f"
    using assms unfolding paired_def at_most_once_def take by (auto simp: alternate_other)
  show "paired ordered a b log False \<Longrightarrow> paired ordered a b (log @ [(a, r)]) r"
    using assms unfolding paired_def at_most_once_def take by (auto simp: alternate_open)
  show "paired ordered a b log True \<Longrightarrow> paired ordered a b (log @ [(b, r)]) False"
    using assms unfolding paired_def at_most_once_def take by (auto simp: alternate_close)
qed

lemma paired_lost: "paired False a b log True \<Longrightarrow> paired False a b log False"
  by (simp add: paired_def)

lemma paired_at_most_once: "paired ordered a b log f \<Longrightarrow> at_most_once a b log"
  by (auto simp: paired_def alternate_def at_most_once_def split: if_splits)

subsection \<open>The state of the program\<close>

text \<open>The three kinds of process tasks around the fields of their base class.\<close>

datatype 'm shape = InputShape | OneToOneShape identifier_type | ScatterGatherShape "'m option list list" "size_type list"

fun body_of :: "'m shape \<Rightarrow> 'm process_task \<Rightarrow> 'm task_body" where
  "body_of InputShape p = InputProcess p"
| "body_of (OneToOneShape n) p = OneToOneProcess p n"
| "body_of (ScatterGatherShape pool counters) p = ScatterGatherProcess p pool counters"

lemma body_of_simps [simp]: "process_of (body_of k p) = Some p" "update_process f (body_of k p) = body_of k (f p)"
  by (cases k; simp)+

definition at_task :: "'m logical_task \<Rightarrow> 'm shape \<Rightarrow> 'm process_task \<Rightarrow> 'm command scheduler \<Rightarrow> 'u \<Rightarrow> ('m, 'u) program" where
  "at_task t k p s u = \<lparr>pg_tasks = [t\<lparr>lt_body := body_of k p\<rparr>], pg_scheduler = s, pg_user = u\<rparr>"

lemma map_same_option [simp]: "map (map_option (\<lambda>m. m)) xs = xs"
  by (induction xs) (simp_all add: option.map_ident)

lemma process_updates:
  "thread_local_initialized_update f p = p\<lparr>thread_local_initialized := f (thread_local_initialized p)\<rparr>"
  "broadcast_inputs_update g p = p\<lparr>broadcast_inputs := g (broadcast_inputs p)\<rparr>"
  for p :: "'m process_task"
  by (cases p; simp)+

lemma at_task_simps [simp]:
  "lt_body (the_task 0 (at_task t k p s u)) = body_of k p" "lt_task_id (the_task 0 (at_task t k p s u)) = lt_task_id t"
  "lt_entry_task (the_task 0 (at_task t k p s u)) = lt_entry_task t" "lt_barrier_task (the_task 0 (at_task t k p s u)) = lt_barrier_task t"
  "pg_user (at_task t k p s u) = u" "pg_scheduler (at_task t k p s u) = s" "length (pg_tasks (at_task t k p s u)) = 1"
  "with_process 0 q (at_task t k p s u) = q p (at_task t k p s u)"
  "change_process 0 f (at_task t k p s u) = (None, at_task t k (f p) s u)"
  "set_body 0 (body_of k' p') (at_task t k p s u) = (None, at_task t k' p' s u)"
  "set_thread_initialized 0 w b (at_task t k p s u) =
     (None, at_task t k (p\<lparr>thread_local_initialized := (thread_local_initialized p)[w := b]\<rparr>) s u)"
  "on_scheduler g (at_task t k p s u) = (case g s of None \<Rightarrow> (Some Undefined, at_task t k p s u) | Some s \<Rightarrow> (None, at_task t k p s u))"
  "from_scheduler h q' (at_task t k p s u) = (case h s of None \<Rightarrow> (Some Undefined, at_task t k p s u) | Some (x, s) \<Rightarrow> q' x (at_task t k p s u))"
  "record_call d c (at_task t k p s v) = (d c v, at_task t k p s (v @ [(c, d c v = None)]))"
  "prepare_process_command 0 (at_task t k p s u) = broadcast_inputs p"
  "threads_closed (at_task t k p s u) \<longleftrightarrow> input_ports (pr_processor p) = [] \<or> True \<notin> set (thread_local_initialized p)"
  "notify_program e (at_task t k p s u) = at_task t k p (notify_exception e s) u"
  by (simp_all add: at_task_def the_task_def with_process_def change_process_def set_body_def set_thread_initialized_def on_scheduler_def
      from_scheduler_def record_call_def prepare_process_command_def lock_broadcast_inputs_def threads_closed_def notify_program_def
      Let_def option.map_ident process_updates(1) [of "\<lambda>fs. fs[w := b]"] split: option.split prod.split)

lemma effect_simps [simp]:
  "skip pg = (None, pg)" "fail e pg = (Some e, pg)" "then_do f g pg = (case f pg of (None, pg) \<Rightarrow> g pg | (Some e, pg) \<Rightarrow> (Some e, pg))"
  "assuming c f pg = (if c then f pg else (Some Undefined, pg))"
  by (simp_all add: skip_def fail_def then_do_def assuming_def)

lemma call_recorded:
  assumes "\<And>x :: 'm task_impl. ti_current_locality x = l \<Longrightarrow> f (recording d) x = record_call d c"
  shows "call_processor env (\<lambda>_. recording d) f 0 buffers pid b l (at_task t k p s u) =
    (if length (input_ports (pr_processor p)) \<le> length buffers then record_call d c (at_task t k p s u)
     else (Some Undefined, at_task t k p s u :: ('m, call_log) program))"
proof (cases "length (input_ports (pr_processor p)) \<le> length buffers")
  case True
  obtain x where x: "create_task_object (env_config env) 0 (lt_task_id t) (pr_processor p) buffers pid b l = ok x"
    "task_object_ok (env_config env) 0 (lt_task_id t) (pr_processor p) buffers pid b l x"
    using create_task_object_ok [OF True] by blast
  then have "ti_current_locality x = l" by (simp add: task_object_ok_def)
  then show ?thesis using True x(1) assms by (simp add: call_processor_def ok_def)
next
  case False
  then show ?thesis using create_task_object_short [of buffers "pr_processor p"] by (simp add: call_processor_def throw_def)
qed

lemma recorded_calls:
  "call_processor env (\<lambda>_. recording d) cb_global_initialize 0 buffers pid b l (at_task t k p s u) =
    (if length (input_ports (pr_processor p)) \<le> length buffers then record_call d GlobalInit (at_task t k p s u)
     else (Some Undefined, at_task t k p s u))"
  "call_processor env (\<lambda>_. recording d) cb_global_finalize 0 buffers pid b l (at_task t k p s u) =
    (if length (input_ports (pr_processor p)) \<le> length buffers then record_call d GlobalFinal (at_task t k p s u)
     else (Some Undefined, at_task t k p s u))"
  "call_processor env (\<lambda>_. recording d) cb_thread_local_initialize 0 buffers pid b l (at_task t k p s u) =
    (if length (input_ports (pr_processor p)) \<le> length buffers then record_call d (ThreadInit (self_thread_id l)) (at_task t k p s u)
     else (Some Undefined, at_task t k p s u))"
  "call_processor env (\<lambda>_. recording d) cb_thread_local_finalize 0 buffers pid b l (at_task t k p s u) =
    (if length (input_ports (pr_processor p)) \<le> length buffers then record_call d (ThreadFinal (self_thread_id l)) (at_task t k p s u)
     else (Some Undefined, at_task t k p s u))"
  "call_processor env (\<lambda>_. recording d) cb_run 0 buffers pid b l (at_task t k p s u) =
    (if length (input_ports (pr_processor p)) \<le> length buffers then record_call d Run (at_task t k p s u)
     else (Some Undefined, at_task t k p s u))"
  by (rule call_recorded, simp add: recording_def)+

subsection \<open>The invariant\<close>

text \<open>
  A process task between two operations: there are broadcast inputs for all ports while it is initialised
  globally and, in an ordered run, while a worker is; the flags say which initialisations are open, and
  those of the workers \<open>W\<close> are not.
\<close>

definition life_ok :: "bool \<Rightarrow> processor \<Rightarrow> nat \<Rightarrow> nat \<Rightarrow> nat set \<Rightarrow> 'm process_task \<Rightarrow> call_log \<Rightarrow> bool" where
  "life_ok ordered pr workers n W p u \<longleftrightarrow> pr_processor p = pr \<and> length (thread_local_initialized p) = workers \<and>
     length (broadcast_inputs p) = n \<and> n \<le> length (input_ports pr) \<and>
     (global_initialized p \<longrightarrow> n = length (input_ports pr)) \<and>
     (ordered \<and> True \<in> set (thread_local_initialized p) \<longrightarrow> n = length (input_ports pr)) \<and>
     (\<forall>w\<in>W. w < workers \<longrightarrow> \<not> thread_local_initialized p ! w) \<and>
     alternate GlobalInit GlobalFinal u (global_initialized p) \<and>
     (\<forall>w. paired ordered (ThreadInit w) (ThreadFinal w) u (w < workers \<and> thread_local_initialized p ! w))"

definition steady :: "bool \<Rightarrow> processor \<Rightarrow> nat \<Rightarrow> nat \<Rightarrow> nat set \<Rightarrow> 'm logical_task \<Rightarrow> ('m, call_log) program \<Rightarrow> bool" where
  "steady ordered pr workers n W t pg \<longleftrightarrow> (\<exists>k p s u. pg = at_task t k p s u \<and> life_ok ordered pr workers n W p u)"

lemma steadyI: "life_ok ordered pr workers n W p u \<Longrightarrow> steady ordered pr workers n W t (at_task t k p s u)"
  unfolding steady_def by blast

lemma steadyE:
  assumes "steady ordered pr workers n W t pg"
  obtains k p s u where "pg = at_task t k p s u" "life_ok ordered pr workers n W p u"
  using assms unfolding steady_def by blast

lemma life_ok_mono: "life_ok ordered pr workers n W p u \<Longrightarrow> V \<subseteq> W \<Longrightarrow> life_ok ordered pr workers n V p u"
  unfolding life_ok_def by blast

lemma steady_mono: "steady ordered pr workers n W t pg \<Longrightarrow> V \<subseteq> W \<Longrightarrow> steady ordered pr workers n V t pg"
  unfolding steady_def using life_ok_mono by blast

lemma keeps_steadyI:
  assumes "\<And>k p s u. life_ok ordered pr workers n W p u \<Longrightarrow> steady ordered pr workers n W t (snd (f (at_task t k p s u)))"
  shows "keeps (steady ordered pr workers n W t) f"
  by (rule keepsI) (use assms in \<open>auto elim!: steadyE\<close>)

text \<open>The calls: global ones, those of a worker, and a finalisation that is lost.\<close>

lemma life_ok_global:
  assumes "life_ok ordered pr workers n W p u"
  shows "\<not> global_initialized p \<Longrightarrow> n = length (input_ports pr) \<Longrightarrow>
      life_ok ordered pr workers n W (p\<lparr>global_initialized := b\<rparr>) (u @ [(GlobalInit, b)])"
    "global_initialized p \<Longrightarrow> life_ok ordered pr workers n W (p\<lparr>global_initialized := False\<rparr>) (u @ [(GlobalFinal, b)])"
    "global_initialized p \<Longrightarrow> (ordered \<Longrightarrow> input_ports pr = [] \<or> True \<notin> set (thread_local_initialized p)) \<Longrightarrow>
      life_ok ordered pr workers 0 W (p\<lparr>global_initialized := False, broadcast_inputs := []\<rparr>) (u @ [(GlobalFinal, b)])"
    "life_ok ordered pr workers n W p (u @ [(Run, b)])"
  using assms by (auto simp: life_ok_def alternate_open alternate_close alternate_other paired_other)

lemma life_ok_flag:
  assumes ok: "life_ok ordered pr workers n W p u" and w: "w < workers"
    and W: "W' \<subseteq> (if b then W - {w} else insert w W)" and full: "b \<Longrightarrow> n = length (input_ports pr)"
    and G: "alternate GlobalInit GlobalFinal u' (global_initialized p)"
    and other: "\<And>v. v \<noteq> w \<Longrightarrow> paired ordered (ThreadInit v) (ThreadFinal v) u' (v < workers \<and> thread_local_initialized p ! v)"
    and self: "paired ordered (ThreadInit w) (ThreadFinal w) u' b"
  shows "life_ok ordered pr workers n W' (p\<lparr>thread_local_initialized := (thread_local_initialized p)[w := b]\<rparr>) u'"
proof -
  have len: "length (thread_local_initialized p) = workers" using ok by (simp add: life_ok_def)
  have "paired ordered (ThreadInit v) (ThreadFinal v) u' (v < workers \<and> (thread_local_initialized p)[w := b] ! v)" for v
    using other [of v] self w len by (cases "v = w") simp_all
  moreover have "\<not> (thread_local_initialized p)[w := b] ! v" if "v \<in> W'" "v < workers" for v
    using that W ok w len by (cases "v = w") (auto simp: life_ok_def split: if_splits)
  moreover have "True \<in> set ((thread_local_initialized p)[w := b]) \<Longrightarrow> b \<or> True \<in> set (thread_local_initialized p)"
    using set_update_subset_insert [of "thread_local_initialized p" w b] by blast
  ultimately show ?thesis using ok full G by (auto simp: life_ok_def)
qed

lemma life_ok_thread:
  assumes ok: "life_ok ordered pr workers n W p u" and w: "w < workers"
  shows "\<not> thread_local_initialized p ! w \<Longrightarrow> n = length (input_ports pr) \<Longrightarrow> w \<notin> W \<Longrightarrow>
      life_ok ordered pr workers n W (p\<lparr>thread_local_initialized := (thread_local_initialized p)[w := b]\<rparr>) (u @ [(ThreadInit w, b)])"
    "thread_local_initialized p ! w \<Longrightarrow>
      life_ok ordered pr workers n (insert w W) (p\<lparr>thread_local_initialized := (thread_local_initialized p)[w := False]\<rparr>) (u @ [(ThreadFinal w, b)])"
    "\<not> ordered \<Longrightarrow> thread_local_initialized p ! w \<Longrightarrow>
      life_ok ordered pr workers n (insert w W) (p\<lparr>thread_local_initialized := (thread_local_initialized p)[w := False]\<rparr>) u"
proof -
  have i: "alternate GlobalInit GlobalFinal u (global_initialized p)"
    "\<And>v. paired ordered (ThreadInit v) (ThreadFinal v) u (v < workers \<and> thread_local_initialized p ! v)"
    using ok unfolding life_ok_def by blast+
  show "\<not> thread_local_initialized p ! w \<Longrightarrow> n = length (input_ports pr) \<Longrightarrow> w \<notin> W \<Longrightarrow>
      life_ok ordered pr workers n W (p\<lparr>thread_local_initialized := (thread_local_initialized p)[w := b]\<rparr>) (u @ [(ThreadInit w, b)])"
    using i(1) i(2) i(2) [of w] by (intro life_ok_flag [OF ok w]) (auto simp: alternate_other paired_other paired_open)
  show "thread_local_initialized p ! w \<Longrightarrow>
      life_ok ordered pr workers n (insert w W) (p\<lparr>thread_local_initialized := (thread_local_initialized p)[w := False]\<rparr>) (u @ [(ThreadFinal w, b)])"
    using i(1) i(2) i(2) [of w] w by (intro life_ok_flag [OF ok w]) (auto simp: alternate_other paired_other paired_close)
  show "\<not> ordered \<Longrightarrow> thread_local_initialized p ! w \<Longrightarrow>
      life_ok ordered pr workers n (insert w W) (p\<lparr>thread_local_initialized := (thread_local_initialized p)[w := False]\<rparr>) u"
    using i(1) i(2) i(2) [of w] w by (intro life_ok_flag [OF ok w]) (auto simp: paired_lost)
qed

subsection \<open>Operations that leave the calls alone\<close>

lemma keeps_on_scheduler: "keeps (steady ordered pr workers n W t) (on_scheduler g)"
  by (rule keeps_steadyI) (simp add: steadyI split: option.split)

lemma keeps_from_scheduler:
  fixes t :: "'m logical_task"
  assumes "\<And>x. keeps (steady ordered pr workers n W t) (q x)"
  shows "keeps (steady ordered pr workers n W t) (from_scheduler h q)"
proof (rule keeps_steadyI)
  fix k and p :: "'m process_task" and s and u assume "life_ok ordered pr workers n W p u"
  then have "steady ordered pr workers n W t (snd (q x (at_task t k p s' u)))" for x s'
    using assms steadyI unfolding keeps_def by blast
  then show "steady ordered pr workers n W t (snd (from_scheduler h q (at_task t k p s u)))"
    using \<open>life_ok ordered pr workers n W p u\<close> by (simp add: steadyI split: option.split)
qed

lemma keeps_each_do: "(\<And>x. keeps good (f x)) \<Longrightarrow> keeps good (each_do f xs)"
  by (induction xs) (simp_all add: keeps_basic keeps_then_do)

text \<open>The limit on concurrency and the arrival of a broadcast fragment change other fields.\<close>

definition same_life :: "'m process_task \<Rightarrow> 'm process_task \<Rightarrow> bool" where
  "same_life p q \<longleftrightarrow> pr_processor q = pr_processor p \<and> global_initialized q = global_initialized p \<and>
     thread_local_initialized q = thread_local_initialized p \<and> length (broadcast_inputs q) = length (broadcast_inputs p)"

lemma life_ok_same: "life_ok ordered pr workers n W p u \<Longrightarrow> same_life p q \<Longrightarrow> life_ok ordered pr workers n W q u"
  by (simp add: life_ok_def same_life_def)

lemma keeps_commit_process_command:
  fixes t :: "'m logical_task"
  shows "keeps (steady ordered pr workers n W t) (commit_process_command env 0 x)"
proof (rule keeps_steadyI)
  fix k and p :: "'m process_task" and s and u assume "life_ok ordered pr workers n W p u"
  moreover have "same_life p (snd (limiter_commit x p))" by (simp add: same_life_def limiter_commit_def)
  ultimately have "life_ok ordered pr workers n W (snd (limiter_commit x p)) u" by (rule life_ok_same)
  then show "steady ordered pr workers n W t (snd (commit_process_command env 0 x (at_task t k p s u)))"
    by (simp add: commit_process_command_def steadyI split: option.split)
qed

lemma keeps_notify_completion:
  fixes t :: "'m logical_task"
  shows "keeps (steady ordered pr workers n W t) (notify_completion env 0)"
proof (rule keeps_steadyI)
  fix k and p :: "'m process_task" and s and u assume "life_ok ordered pr workers n W p u"
  moreover have "same_life p (snd (limiter_complete p))" by (simp add: same_life_def limiter_complete_def split: prod.split)
  ultimately have "life_ok ordered pr workers n W (snd (limiter_complete p)) u" by (rule life_ok_same)
  then show "steady ordered pr workers n W t (snd (notify_completion env 0 (at_task t k p s u)))"
    by (simp add: notify_completion_def steadyI split: option.split)
qed

lemma keeps_applied: "(\<And>pg. f pg = g pg pg) \<Longrightarrow> (\<And>pg. keeps good (g pg)) \<Longrightarrow> keeps good f"
  unfolding keeps_def by simp

lemma keeps_create_process_command: "keeps (steady ordered pr workers n W t) (create_process_command env 0 c lo)"
  by (rule keeps_applied [OF create_process_command_def]) (intro keeps_from_scheduler keeps_commit_process_command)

lemma keeps_after_global_initialize:
  fixes t :: "'m logical_task"
  shows "keeps (steady ordered pr workers n W t) (after_global_initialize env 0)"
proof (rule keeps_steadyI)
  fix k and p :: "'m process_task" and s and u assume ok: "life_ok ordered pr workers n W p u"
  have "keeps (steady ordered pr workers n W t)
      (each_do (\<lambda>i. create_process_command env 0 (InputProcessRunCommand i) no_locality_option) [0..<task_count (pr_processor p)])"
    by (intro keeps_each_do keeps_create_process_command)
  then show "steady ordered pr workers n W t (snd (after_global_initialize env 0 (at_task t k p s u)))"
    using steadyI [OF ok] by (cases k) (simp_all add: after_global_initialize_def keeps_def)
qed

lemma keeps_create_thread_local_finalizers: "keeps (steady ordered pr workers n W t) (create_thread_local_finalizers env 0)"
proof -
  have "keeps (steady ordered pr workers n W t)
      (\<lambda>pg. from_scheduler (create_finalizer (lt_task_id (the_task 0 pg)) i (lt_terminal_task (the_task 0 pg))) (commit_process_command env 0) pg)" for i
    by (rule keeps_applied [OF refl]) (intro keeps_from_scheduler keeps_commit_process_command)
  then show ?thesis
    unfolding create_thread_local_finalizers_def by (intro keeps_with_process keeps_each_do) (simp add: keeps_basic)
qed

text \<open>Fragments.\<close>

lemma keeps_with_worker_near:
  "(\<And>lo. keeps good (k lo)) \<Longrightarrow> keeps good (with_worker_near env node k)"
  by (simp add: with_worker_near_def keeps_basic split: option.split)

lemma keeps_scatter_gather_receive:
  fixes t :: "'m logical_task"
  shows "keeps (steady ordered pr workers n W t) (scatter_gather_receive env 0 port part m)"
proof (rule keeps_steadyI)
  fix k and p :: "'m process_task" and s and u assume ok: "life_ok ordered pr workers n W p u"
  let ?S = "steady ordered pr workers n W t"
  show "?S (snd (scatter_gather_receive env 0 port part m (at_task t k p s u)))"
  proof (cases k)
    case (ScatterGatherShape pool counters)
    obtain x pool' counters' where d: "sg_deliver port part m pool counters = (x, pool', counters')" by (metis prod_cases3)
    have "?S (at_task t (ScatterGatherShape pool' counters') p s u)" using ok by (rule steadyI)
    moreover have "keeps ?S (with_worker_near env j (create_process_command env 0 c))" for j c
      by (intro keeps_with_worker_near keeps_create_process_command)
    ultimately have "?S (snd (with_worker_near env j (create_process_command env 0 c) (at_task t (ScatterGatherShape pool' counters') p s u)))" for j c
      unfolding keeps_def by blast
    moreover have "set_body 0 (ScatterGatherProcess p pool' counters') (at_task t k p s u) =
        (None, at_task t (ScatterGatherShape pool' counters') p s u)"
      using at_task_simps(10) [of "ScatterGatherShape pool' counters'" p t k p s u] by simp
    ultimately show ?thesis
      using ok by (auto simp: scatter_gather_receive_def ScatterGatherShape d steadyI split: option.split)
  qed (use ok in \<open>simp_all add: scatter_gather_receive_def steadyI\<close>)
qed

lemma keeps_receive_fragment:
  fixes t :: "'m logical_task"
  shows "keeps (steady ordered pr workers n W t) (receive_fragment env 0 port part m)"
proof (rule keeps_steadyI)
  fix k and p :: "'m process_task" and s and u assume ok: "life_ok ordered pr workers n W p u"
  let ?S = "steady ordered pr workers n W t"
  have "keeps ?S (one_to_one_receive env 0 port part m)"
    unfolding one_to_one_receive_def
    by (intro keeps_with_process keeps_assuming keeps_with_worker_near keeps_create_process_command)
  then have "?S (snd (receive_non_broadcast_fragment env 0 port part m (at_task t k p s u)))"
    using steadyI [OF ok] keeps_scatter_gather_receive [of ordered pr workers n W t env port part m]
    by (cases k) (simp_all add: receive_non_broadcast_fragment_def keeps_def)
  moreover have "life_ok ordered pr workers n W (p\<lparr>broadcast_inputs := (broadcast_inputs p)[port := Some m]\<rparr>) u"
    by (rule life_ok_same [OF ok]) (simp add: same_life_def)
  ultimately have "?S (snd (process_receive env 0 port part m (at_task t k p s u)))"
    using ok by (simp add: process_receive_def process_updates(2) [of "\<lambda>bs. bs[port := Some m]"] steadyI)
  then show "?S (snd (receive_fragment env 0 port part m (at_task t k p s u)))"
    by (cases k) (simp_all add: receive_fragment_def)
qed

subsection \<open>Operations that call the processor\<close>

lemma keeps_global_initialize:
  fixes t :: "'m logical_task"
  assumes n: "length mobjs = n"
  shows "keeps (steady ordered pr workers n W t) (global_initialize env (\<lambda>_. recording d) 0 l mobjs)"
proof (rule keeps_steadyI)
  fix k and p :: "'m process_task" and s and u assume ok: "life_ok ordered pr workers n W p u"
  let ?S = "steady ordered pr workers n W t" and ?b = "d GlobalInit u = None"
  have pr: "pr_processor p = pr" "n \<le> length (input_ports pr)" using ok by (simp_all add: life_ok_def)
  show "?S (snd (global_initialize env (\<lambda>_. recording d) 0 l mobjs (at_task t k p s u)))"
  proof (cases "\<not> global_initialized p \<and> n = length (input_ports pr)")
    case True
    then have new: "\<not> global_initialized p" "n = length (input_ports pr)" by blast+
    note step = life_ok_global(1) [OF ok new, of ?b]
    show ?thesis
    proof (cases ?b)
      case True
      then have "?S (at_task t k (p\<lparr>global_initialized := True\<rparr>) s (u @ [(GlobalInit, True)]))"
        using step by (simp add: steadyI)
      then have "?S (snd (after_global_initialize env 0 (at_task t k (p\<lparr>global_initialized := True\<rparr>) s (u @ [(GlobalInit, True)]))))"
        using keeps_after_global_initialize unfolding keeps_def by blast
      then show ?thesis using True new n pr by (simp add: global_initialize_def recorded_calls)
    next
      case False
      then have "p\<lparr>global_initialized := ?b\<rparr> = p" using new(1) by (cases p) simp
      then have "life_ok ordered pr workers n W p (u @ [(GlobalInit, ?b)])" using step by simp
      then show ?thesis using False new n pr by (auto simp: global_initialize_def recorded_calls steadyI)
    qed
  next
    case False
    then show ?thesis using ok n pr by (auto simp: global_initialize_def recorded_calls steadyI)
  qed
qed

lemma keeps_thread_local_initialize:
  fixes t :: "'m logical_task"
  assumes n: "length mobjs = n" and W: "self_thread_id l \<notin> W"
  shows "keeps (steady ordered pr workers n W t) (thread_local_initialize env (\<lambda>_. recording d) 0 l mobjs)"
proof (rule keeps_steadyI)
  fix k and p :: "'m process_task" and s and u assume ok: "life_ok ordered pr workers n W p u"
  let ?S = "steady ordered pr workers n W t" and ?w = "self_thread_id l"
  let ?b = "d (ThreadInit ?w) u = None"
  have pr: "pr_processor p = pr" "n \<le> length (input_ports pr)" "length (thread_local_initialized p) = workers"
    using ok by (simp_all add: life_ok_def)
  show "?S (snd (thread_local_initialize env (\<lambda>_. recording d) 0 l mobjs (at_task t k p s u)))"
  proof (cases "?w < workers \<and> \<not> thread_local_initialized p ! ?w \<and> n = length (input_ports pr)")
    case True
    then have new: "?w < workers" "\<not> thread_local_initialized p ! ?w" "n = length (input_ports pr)" by blast+
    note step = life_ok_thread(1) [OF ok new W, of ?b]
    show ?thesis
    proof (cases ?b)
      case True
      then show ?thesis using step new n pr by (simp add: thread_local_initialize_def recorded_calls Let_def steadyI)
    next
      case False
      then have "p\<lparr>thread_local_initialized := (thread_local_initialized p)[?w := ?b]\<rparr> = p"
        using new(1,2) pr(3) by (cases p) (simp add: list_update_same_conv)
      then have "life_ok ordered pr workers n W p (u @ [(ThreadInit ?w, ?b)])" using step by simp
      then show ?thesis using False new n pr by (auto simp: thread_local_initialize_def recorded_calls Let_def steadyI)
    qed
  next
    case False
    then show ?thesis using ok n pr by (auto simp: thread_local_initialize_def recorded_calls Let_def steadyI)
  qed
qed

text \<open>The finaliser of a worker and its cancellation leave the worker closed; without the order a call may be lost.\<close>

lemma thread_final_closes:
  fixes t :: "'m logical_task"
  assumes ok: "life_ok ordered pr workers n W p u" and n: "length mobjs = n"
    and f: "f \<in> {thread_local_finalize env (\<lambda>_. recording d) 0 l mobjs, thread_local_cancel env (\<lambda>_. recording d) 0 l}"
  shows "steady ordered pr workers n (insert (self_thread_id l) W) t (snd (f (at_task t k p s u)))"
proof -
  let ?w = "self_thread_id l" and ?S = "steady ordered pr workers n (insert (self_thread_id l) W) t"
  have pr: "pr_processor p = pr" "length (broadcast_inputs p) = n" "length (thread_local_initialized p) = workers"
    using ok by (simp_all add: life_ok_def)
  note defs = thread_local_finalize_def thread_local_cancel_def process_thread_local_cancel_def recorded_calls Let_def
  show ?thesis
  proof (cases "?w < workers \<and> thread_local_initialized p ! ?w")
    case True
    then have w: "?w < workers" "thread_local_initialized p ! ?w" by blast+
    show ?thesis
    proof (cases "length (input_ports pr) \<le> n")
      case True
      then show ?thesis using f w pr n life_ok_thread(2) [OF ok w] by (auto simp: defs steadyI)
    next
      case False
      have "True \<in> set (thread_local_initialized p)" using w pr(3) by (metis nth_mem)
      then have "\<not> ordered" using ok False by (auto simp: life_ok_def)
      then show ?thesis using f w False pr n life_ok_thread(3) [OF ok w(1) _ w(2)] by (auto simp: defs steadyI)
    qed
  next
    case False
    then have "life_ok ordered pr workers n (insert ?w W) p u" using ok by (simp add: life_ok_def)
    then show ?thesis using f False pr n by (auto simp: defs steadyI)
  qed
qed

lemma global_final_closes:
  fixes t :: "'m logical_task"
  assumes ok: "life_ok ordered pr workers n W p u" and n: "length mobjs = n"
    and f: "f \<in> {global_finalize env (\<lambda>_. recording d) 0 l mobjs, global_cancel env (\<lambda>_. recording d) 0}"
    and threads: "ordered \<Longrightarrow> input_ports pr = [] \<or> True \<notin> set (thread_local_initialized p)"
  shows "\<exists>r q v n'. f (at_task t k p s u) = (r, at_task t k q s v) \<and> life_ok ordered pr workers n' W q v \<and> \<not> global_initialized q"
proof (cases "global_initialized p")
  case True
  have pr: "pr_processor p = pr" "length (broadcast_inputs p) = n" "n = length (input_ports pr)"
    using ok True by (simp_all add: life_ok_def)
  let ?b = "d GlobalFinal u = None"
  let ?q = "if ?b then p\<lparr>global_initialized := False, broadcast_inputs := []\<rparr> else p\<lparr>global_initialized := False\<rparr>"
  have "f (at_task t k p s u) = (d GlobalFinal u, at_task t k ?q s (u @ [(GlobalFinal, ?b)]))"
    using f True pr n by (auto simp: global_finalize_def global_cancel_def process_global_cancel_def recorded_calls split: option.split)
  moreover have "life_ok ordered pr workers (if ?b then 0 else n) W ?q (u @ [(GlobalFinal, ?b)])"
    using life_ok_global(2) [OF ok True, of ?b] life_ok_global(3) [OF ok True threads, of ?b]
    by (cases "d GlobalFinal u") simp_all
  moreover have "\<not> global_initialized ?q" by simp
  ultimately show ?thesis by blast
next
  case False
  then have "f (at_task t k p s u) = (None, at_task t k p s u)"
    using f by (auto simp: global_finalize_def global_cancel_def process_global_cancel_def)
  then show ?thesis using ok False by blast
qed

text \<open>The commands that run the processor.\<close>

lemma keeps_call_run:
  "keeps (steady ordered pr workers n W t) (call_processor env (\<lambda>_. recording d) cb_run 0 inputs pid b l)"
proof (rule keeps_call_processor)
  show "keeps (steady ordered pr workers n W t) (cb_run (recording d) x)" for x
    by (rule keeps_steadyI) (simp add: recording_def steadyI life_ok_global(4))
qed

lemma keeps_process_run:
  "length inputs = n \<Longrightarrow> self_thread_id l \<notin> W \<Longrightarrow>
     keeps (steady ordered pr workers n W t) (process_run env (\<lambda>_. recording d) 0 l inputs pid)"
  unfolding process_run_def by (intro keeps_then_do keeps_thread_local_initialize keeps_call_run)

lemma keeps_one_to_one_run:
  fixes t :: "'m logical_task"
  assumes "length inputs = n" "self_thread_id l \<notin> W"
  shows "keeps (steady ordered pr workers n W t) (one_to_one_run env (\<lambda>_. recording d) 0 l inputs)"
  unfolding one_to_one_run_def
proof (intro keeps_then_do keeps_thread_local_initialize assms, rule keeps_steadyI)
  fix k and p :: "'m process_task" and s and u assume ok: "life_ok ordered pr workers n W p u"
  let ?S = "steady ordered pr workers n W t"
  let ?call = "\<lambda>j. call_processor env (\<lambda>_. recording d) cb_run 0 inputs j False l"
  have "set_body 0 (OneToOneProcess p j) (at_task t k p s u) = (None, at_task t (OneToOneShape j) p s u)" for j
    using at_task_simps(10) [of "OneToOneShape j" p t k p s u] by simp
  moreover have "?S (snd (?call j (at_task t (OneToOneShape (j + 1)) p s u)))" for j
    using keeps_call_run steadyI [OF ok] unfolding keeps_def by blast
  ultimately show "?S (snd ((\<lambda>pg. case lt_body (the_task 0 pg) of
      OneToOneProcess p n \<Rightarrow> then_do (set_body 0 (OneToOneProcess p (n + 1))) (?call n) pg
    | _ \<Rightarrow> fail Undefined pg) (at_task t k p s u)))"
    using steadyI [OF ok] by (cases k) simp_all
qed

lemma merge_inputs_length: "merge_inputs xs ys = Some zs \<Longrightarrow> length zs = length xs"
  by (induction xs ys arbitrary: zs rule: merge_inputs.induct) (auto split: if_splits)

lemma keeps_run_wrapper:
  fixes t :: "'m logical_task"
  assumes n: "length mobjs = n" and W: "self_thread_id l \<notin> W"
  shows "keeps (steady ordered pr workers n W t) (run_wrapper env (\<lambda>_. recording d) 0 l c mobjs)"
proof -
  let ?S = "steady ordered pr workers n W t"
  have final: "keeps ?S (thread_local_finalize env (\<lambda>_. recording d) 0 l mobjs)"
  proof (rule keeps_steadyI)
    fix k and p :: "'m process_task" and s and u assume ok: "life_ok ordered pr workers n W p u"
    show "?S (snd (thread_local_finalize env (\<lambda>_. recording d) 0 l mobjs (at_task t k p s u)))"
      by (rule steady_mono [OF thread_final_closes [OF ok n]]) auto
  qed
  have "keeps ?S (run_process_command env (\<lambda>_. recording d) 0 l c mobjs)"
    using final W n
    by (cases c) (auto intro!: keeps_assuming keeps_one_to_one_run keeps_process_run keeps_basic split: option.split
        dest: merge_inputs_length)
  then show ?thesis unfolding run_wrapper_def by (intro keeps_then_do keeps_notify_completion)
qed

text \<open>One operation.\<close>

lemma lifecycle_effect_steady:
  fixes t :: "'m logical_task"
  assumes pg: "steady ordered pr workers n W t pg" and order: "ordered \<Longrightarrow> in_order x pg"
  shows "\<exists>n'. steady ordered pr workers n' (leave_op x W) t (snd (lifecycle_effect env (\<lambda>_. recording d) x pg))"
proof -
  obtain k p s u where p: "pg = at_task t k p s u" and ok: "life_ok ordered pr workers n W p u"
    using pg by (rule steadyE)
  have n: "length (broadcast_inputs p) = n" and pr: "pr_processor p = pr" using ok by (simp_all add: life_ok_def)
  have kept: ?thesis if "keeps (steady ordered pr workers n (leave_op x W) t) (lifecycle_effect env (\<lambda>_. recording d) x)" "leave_op x W \<subseteq> W"
    using that(1) steady_mono [OF pg that(2)] unfolding keeps_def by blast
  have command: ?thesis if "keeps (steady ordered pr workers n (leave_op x W) t) f" "leave_op x W \<subseteq> W"
    "lifecycle_effect env (\<lambda>_. recording d) x pg = f pg" for f
    using that(1) steady_mono [OF pg that(2)] unfolding keeps_def that(3) by blast
  show ?thesis
  proof (cases x)
    case (OpGlobalInitialize l)
    show ?thesis
      by (rule command [OF keeps_global_initialize [OF n]]) (auto simp: OpGlobalInitialize run_prepared_def prepare_command_def p)
  next
    case (OpBarrier l)
    show ?thesis
      by (rule command [OF keeps_create_thread_local_finalizers]) (auto simp: OpBarrier run_prepared_def)
  next
    case (OpGlobalFinalize l)
    have "ordered \<Longrightarrow> input_ports pr = [] \<or> True \<notin> set (thread_local_initialized p)"
      using order pr by (simp add: OpGlobalFinalize p)
    then obtain r q v n' where fin: "global_finalize env (\<lambda>_. recording d) 0 l (broadcast_inputs p) (at_task t k p s u) = (r, at_task t k q s v)"
      "life_ok ordered pr workers n' W q v"
      using global_final_closes [OF ok n, of _ env d l t k s] by blast
    from fin have "snd (lifecycle_effect env (\<lambda>_. recording d) x pg) = at_task t k q s v"
      by (simp add: OpGlobalFinalize run_prepared_def prepare_command_def p)
    moreover have "steady ordered pr workers n' (leave_op x W) t (at_task t k q s v)"
      by (rule steady_mono [OF steadyI [OF \<open>life_ok ordered pr workers n' W q v\<close>]]) (auto simp: OpGlobalFinalize)
    ultimately show ?thesis by metis
  next
    case (OpProcess l c)
    show ?thesis
      by (rule command [OF keeps_run_wrapper [OF n]]) (auto simp: OpProcess run_prepared_def prepare_command_def p)
  next
    case (OpReceive port part m)
    show ?thesis by (rule kept) (simp_all add: OpReceive keeps_receive_fragment)
  next
    case (OpThreadCancel l)
    show ?thesis using thread_final_closes [OF ok n, of _ env d l t k s] by (auto simp: OpThreadCancel p)
  qed
qed

subsection \<open>Runs\<close>

lemma steady_protect:
  fixes t :: "'m logical_task"
  assumes "steady ordered pr workers n W t (snd (f pg))"
  shows "steady ordered pr workers n W t (protect f pg)"
proof -
  obtain r pg' where f: "f pg = (r, pg')" by fastforce
  then obtain k p s u where "pg' = at_task t k p s u" "life_ok ordered pr workers n W p u"
    using assms by (auto elim: steadyE)
  then show ?thesis using f by (auto simp: protect_def steadyI split: option.split)
qed

lemma lifecycle_run_steady:
  assumes "steady ordered pr workers n W t pg" "ordered \<Longrightarrow> ordered_run env d ops pg"
  shows "\<exists>n'. steady ordered pr workers n' (fold leave_op ops W) t (lifecycle_run env d ops pg)"
  using assms
proof (induction ops arbitrary: n W pg)
  case (Cons x ops)
  obtain n' where "steady ordered pr workers n' (leave_op x W) t (snd (lifecycle_effect env (\<lambda>_. recording d) x pg))"
    using lifecycle_effect_steady [OF Cons.prems(1), of x env d] Cons.prems(2) by auto
  then have "steady ordered pr workers n' (leave_op x W) t (lifecycle_step env d x pg)"
    unfolding lifecycle_step_def by (rule steady_protect)
  then show ?case using Cons.IH Cons.prems(2) by (auto simp: lifecycle_run_def)
qed (auto simp: lifecycle_run_def)

lemma lifecycle_start_at_task:
  assumes "body \<in> {input_process pr workers, one_to_one_process pr workers, scatter_gather_process pr workers partitions}"
  shows "\<exists>k. lifecycle_start t body s = at_task t k (make_process_task pr workers) s []"
proof -
  have "\<exists>k. body = body_of k (make_process_task pr workers)"
    using assms unfolding input_process_def one_to_one_process_def scatter_gather_process_def by (metis body_of.simps empty_iff insert_iff)
  then show ?thesis by (auto simp: lifecycle_start_def at_task_def)
qed

lemma make_process_task_life_ok: "life_ok ordered pr workers (length (input_ports pr)) {} (make_process_task pr workers) []"
  by (auto simp: life_ok_def make_process_task_def alternate_def paired_def at_most_once_def)

text \<open>The executor cancels the task when the workers have left.\<close>

lemma cancel_tasks_closes:
  fixes t :: "'m logical_task"
  assumes pg: "steady ordered pr workers n W t pg" and W: "ordered \<Longrightarrow> {..<workers} \<subseteq> W"
  shows "\<exists>k q s v n'. cancel_tasks env (\<lambda>_. recording d) [0..<length (pg_tasks pg)] pg = at_task t k q s v \<and>
     life_ok ordered pr workers n' W q v \<and> \<not> global_initialized q"
proof -
  obtain k p s u where p: "pg = at_task t k p s u" and ok: "life_ok ordered pr workers n W p u"
    using pg by (rule steadyE)
  have "ordered \<Longrightarrow> True \<notin> set (thread_local_initialized p)"
    using W ok by (auto simp: life_ok_def in_set_conv_nth)
  then obtain r q v n' where q: "global_cancel env (\<lambda>_. recording d) 0 (at_task t k p s u) = (r, at_task t k q s v)"
    "life_ok ordered pr workers n' W q v" "\<not> global_initialized q"
    using global_final_closes [OF ok, of "replicate n None" _ env d _ t k s] by fastforce
  obtain s' where "protect (global_cancel env (\<lambda>_. recording d) 0) (at_task t k p s u) = at_task t k q s' v"
    using q(1) by (cases r) (auto simp: protect_def)
  then have "cancel_tasks env (\<lambda>_. recording d) [0..<length (pg_tasks pg)] pg = at_task t k q s' v" by (simp add: p)
  then show ?thesis using q(2,3) by blast
qed

lemma life_ok_calls:
  assumes "life_ok ordered pr workers n W p u"
  shows "alternate GlobalInit GlobalFinal u (global_initialized p)" "at_most_once (ThreadInit w) (ThreadFinal w) u"
    "ordered \<Longrightarrow> alternate (ThreadInit w) (ThreadFinal w) u (w < workers \<and> thread_local_initialized p ! w)"
  using assms paired_at_most_once unfolding life_ok_def by (blast, blast, simp add: paired_def)

subsection \<open>Property\<close>

text \<open>
  C30: a process task of any of the three kinds, on which workers run its commands in any order, fragments
  arrive, workers cancel it, and the calls of its processor throw when they like, and which the executor
  cancels in the end. In every such run each successful global initialisation is finalised exactly once, and
  no initialisation of a worker is finalised more than once. If moreover the global finaliser of a processor
  with input ports runs only while no worker is initialised (\<open>ordered_run\<close>, a hypothesis about the run that the
  scheduler has to provide), initialisations and finalisations of each worker alternate; and if then
  every worker has left with its cancellation (\<open>left_workers\<close>), every successful initialisation of a worker
  has been finalised exactly once in the end.
\<close>
theorem initialisations_are_finalised:
  fixes t :: "'m logical_task"
  assumes "body \<in> {input_process pr workers, one_to_one_process pr workers, scatter_gather_process pr workers partitions}"
    and "pg = lifecycle_run env d ops (lifecycle_start t body s)"
    and "log = pg_user (cancel_tasks env (\<lambda>_. recording d) [0..<length (pg_tasks pg)] pg)"
  shows "alternate GlobalInit GlobalFinal log False \<and> (\<forall>w. at_most_once (ThreadInit w) (ThreadFinal w) log) \<and>
    (ordered_run env d ops (lifecycle_start t body s) \<longrightarrow>
       (\<forall>w. \<exists>f. alternate (ThreadInit w) (ThreadFinal w) (pg_user pg) f) \<and>
       ({..<workers} \<subseteq> left_workers ops \<longrightarrow> (\<forall>w. alternate (ThreadInit w) (ThreadFinal w) log False)))"
proof -
  obtain k where start: "lifecycle_start t body s = at_task t k (make_process_task pr workers) s []"
    using lifecycle_start_at_task [OF assms(1)] by blast
  have run: "\<exists>n. steady ordered pr workers n (left_workers ops) t pg"
    if "ordered \<Longrightarrow> ordered_run env d ops (lifecycle_start t body s)" for ordered
    unfolding assms(2) left_workers_def
    by (rule lifecycle_run_steady) (use that start make_process_task_life_ok in \<open>auto intro: steadyI\<close>)
  obtain n where "steady False pr workers n (left_workers ops) t pg" using run [of False] by blast
  then obtain n' and q :: "'m process_task" where q: "life_ok False pr workers n' (left_workers ops) q log" "\<not> global_initialized q"
    using cancel_tasks_closes [of False pr workers n "left_workers ops" t pg env d] by (auto simp: assms(3))
  have "alternate GlobalInit GlobalFinal log False" "\<forall>w. at_most_once (ThreadInit w) (ThreadFinal w) log"
    using life_ok_calls(1,2) [OF q(1)] q(2) by simp_all
  moreover have "\<forall>w. \<exists>f. alternate (ThreadInit w) (ThreadFinal w) (pg_user pg) f"
    if ordered: "ordered_run env d ops (lifecycle_start t body s)"
  proof -
    obtain n where "steady True pr workers n (left_workers ops) t pg" using run [of True] ordered by blast
    then obtain k and p :: "'m process_task" and s u where "pg = at_task t k p s u" "life_ok True pr workers n (left_workers ops) p u"
      by (rule steadyE)
    then show ?thesis using life_ok_calls(3) by fastforce
  qed
  moreover have "\<forall>w. alternate (ThreadInit w) (ThreadFinal w) log False"
    if ordered: "ordered_run env d ops (lifecycle_start t body s)" and left: "{..<workers} \<subseteq> left_workers ops"
  proof -
    obtain n where "steady True pr workers n (left_workers ops) t pg" using run [of True] ordered by blast
    then obtain n' and q :: "'m process_task" where q: "life_ok True pr workers n' (left_workers ops) q log"
      using cancel_tasks_closes [of True pr workers n "left_workers ops" t pg env d] left by (auto simp: assms(3))
    have "\<not> (w < workers \<and> thread_local_initialized q ! w)" for w using q left by (auto simp: life_ok_def)
    then show ?thesis using life_ok_calls(3) [OF q TrueI] by metis
  qed
  ultimately show ?thesis by blast
qed

text \<open>
  A processor with a broadcast input on two workers: the fragment arrives, the processor is initialised, runs
  on worker 0, whose finalizer and then the global one are called; then both workers leave.
\<close>

definition broadcast_processor :: processor where
  "broadcast_processor = default_processor\<lparr>input_ports := [default_input_port\<lparr>ip_movement := BROADCAST\<rparr>]\<rparr>"

definition sample_run :: "unit lifecycle_op list" where
  "sample_run =
     (let w = (\<lambda>w. self_locality idle_environment w)
      in [OpReceive 0 0 (), OpGlobalInitialize (w 0), OpProcess (w 0) (InputProcessRunCommand 0),
          OpProcess (w 0) ThreadLocalFinalizeCommand, OpGlobalFinalize (w 0), OpThreadCancel (w 0), OpThreadCancel (w 1)])"

definition sample_start :: "(unit, call_log) program" where
  "sample_start = lifecycle_start (make_logical_task gather_task) (input_process broadcast_processor 2) default_scheduler"

definition sample_end :: "(unit, call_log) program" where
  "sample_end = lifecycle_run idle_environment (\<lambda>_ _. None) sample_run sample_start"

lemma sample_run_ordered: "ordered_run idle_environment (\<lambda>_ _. None) sample_run sample_start"
proof -
  have start: "sample_start = at_task (make_logical_task gather_task) InputShape (make_process_task broadcast_processor 2) default_scheduler []"
    by (simp add: sample_start_def lifecycle_start_def at_task_def input_process_def)
  note ops = lifecycle_step_def protect_def run_prepared_def prepare_command_def self_locality_def
    process_updates(2) [of "\<lambda>bs. bs[0 := Some ()]"]
  show ?thesis
    unfolding sample_run_def start Let_def
    by (simp add: ops receive_fragment_def process_receive_def movement_of_def broadcast_processor_def make_process_task_def
        default_processor_def default_input_port_def global_initialize_def recorded_calls after_global_initialize_def run_wrapper_def
        process_run_def thread_local_initialize_def thread_local_finalize_def notify_completion_def limiter_complete_def
        global_finalize_def numeral_2_eq_2)
qed

theorem initialisations_are_finalised_witness:
  "\<forall>w. alternate (ThreadInit w) (ThreadFinal w)
     (pg_user (cancel_tasks idle_environment (\<lambda>_. recording (\<lambda>_ _. None)) [0..<length (pg_tasks sample_end)] sample_end)) False"
proof -
  have "{..<2} \<subseteq> left_workers sample_run"
    by (auto simp: left_workers_def sample_run_def self_locality_def Let_def)
  with initialisations_are_finalised [OF insertI1 sample_end_def [unfolded sample_start_def] refl] sample_run_ordered
  show ?thesis unfolding sample_start_def by blast
qed

end
