(* ===== verification/EventLogProperties.thy ===== *)
theory EventLogProperties
  imports EventLog
begin

text \<open>
  The binary log is read back as it was written: the text of \<open>to_json\<close> is the list of the logged events in
  their order, whatever the number of blocks. Reading does not depend on what fresh blocks held.
\<close>

subsection \<open>The bytes of a record\<close>

definition loggers :: "binary_logger list" where
  "loggers = [CreatePhysicalTaskLogger, PhysicalDependencyLogger, BeginPreparationLogger, EndPreparationLogger, BeginExecutionLogger,
     EndExecutionLogger, AllocateMemoryLogger, ReleaseMemoryLogger, LockMemoryLogger, UnlockMemoryLogger]"

lemmas logger_defs = CreatePhysicalTaskLogger_def PhysicalDependencyLogger_def BeginPreparationLogger_def EndPreparationLogger_def
  BeginExecutionLogger_def EndExecutionLogger_def AllocateMemoryLogger_def ReleaseMemoryLogger_def LockMemoryLogger_def UnlockMemoryLogger_def

type_synonym event = "binary_logger \<times> size_type list"

definition event_ok :: "event \<Rightarrow> bool" where
  "event_ok e \<longleftrightarrow> fst e \<in> set loggers \<and> length (snd e) = length (bl_fields (fst e)) \<and> (\<forall>x\<in>set (snd e). x < size_modulus)"

definition encode_event :: "event \<Rightarrow> u8 list" where
  "encode_event e = le_bytes 4 (magic_value (bl_magic (fst e))) @ concat (map (le_bytes 8) (snd e))"

fun named_fields :: "string list \<Rightarrow> size_type list \<Rightarrow> string" where
  "named_fields (f # fs) (x # xs) = '','' @ quoted f @ '':'' @ show_size x @ named_fields fs xs"
| "named_fields fs xs = []"

definition event_text :: "event \<Rightarrow> string" where
  "event_text e = ''{'' @ quoted ''type'' @ '':'' @ quoted (bl_type (fst e)) @ named_fields (bl_fields (fst e)) (snd e) @ ''}''"

fun comma_list :: "string list \<Rightarrow> string" where
  "comma_list [] = []"
| "comma_list [x] = x"
| "comma_list (x # xs) = x @ '','' @ comma_list xs"

lemma fields_size_length: "fields_size fs = 8 * length fs"
  by (induction fs) auto

lemma length_encode_event: "event_ok e \<Longrightarrow> length (encode_event e) = logger_size (fst e)"
  by (simp add: event_ok_def encode_event_def logger_size_def fields_size_length length_concat o_def sum_list_triv)

lemma fields_write_bytes:
  "length xs = length fs \<Longrightarrow> load_bytes (fields_write fs dst xs m) dst (8 * length fs) = concat (map (le_bytes 8) xs) \<and>
    (\<forall>a. a < dst \<longrightarrow> fields_write fs dst xs m a = m a)"
proof (induction fs dst xs m rule: fields_write.induct)
  case (1 f fs dst x xs m)
  let ?m = "fields_write fs (dst + 8) xs (store_size m dst x)"
  have IH: "load_bytes ?m (dst + 8) (8 * length fs) = concat (map (le_bytes 8) xs)" "\<forall>a<dst + 8. ?m a = store_size m dst x a"
    using 1 by auto
  have "load_bytes ?m dst 8 = load_bytes (store_size m dst x) dst 8"
    using IH(2) by (intro load_bytes_cong) auto
  also have "\<dots> = le_bytes 8 x" using store_bytes_same [of m dst "le_bytes 8 x"] by (simp add: store_size_def)
  finally have head: "load_bytes ?m dst 8 = le_bytes 8 x" .
  have "load_bytes ?m dst (8 * length (f # fs)) = le_bytes 8 x @ concat (map (le_bytes 8) xs)"
    using load_bytes_add [of ?m dst 8 "8 * length fs"] head IH(1) by simp
  moreover have "?m a = m a" if "a < dst" for a
    using IH(2) that by (simp add: store_size_def store_bytes_def)
  ultimately show ?case by simp
qed auto

lemma logger_write_bytes:
  assumes "event_ok (l, args)"
  shows "load_bytes (logger_write l dst args m) dst (logger_size l) = encode_event (l, args)"
    "a < dst \<Longrightarrow> logger_write l dst args m a = m a"
proof -
  let ?h = "le_bytes 4 (magic_value (bl_magic l))"
  let ?m = "store_bytes m dst ?h"
  have len: "length args = length (bl_fields l)" using assms by (simp add: event_ok_def)
  note w = fields_write_bytes [OF len, of "dst + 4" ?m]
  have "load_bytes (logger_write l dst args m) dst 4 = load_bytes ?m dst 4"
    using w by (intro load_bytes_cong) (auto simp: logger_write_def)
  also have "\<dots> = ?h" using store_bytes_same [of m dst ?h] by simp
  finally show "load_bytes (logger_write l dst args m) dst (logger_size l) = encode_event (l, args)"
    using load_bytes_add [of "logger_write l dst args m" dst 4 "8 * length (bl_fields l)"] w
    by (simp add: logger_size_def fields_size_length encode_event_def logger_write_def)
  show "logger_write l dst args m a = m a" if "a < dst"
    using w that by (simp add: logger_write_def store_bytes_def)
qed

subsection \<open>Reading a record\<close>

lemma fields_json_text:
  assumes "load_bytes m src (8 * length fs) = concat (map (le_bytes 8) xs)" "length xs = length fs" "\<forall>x\<in>set xs. x < size_modulus"
  shows "fields_json fs src m = named_fields fs xs"
  using assms
proof (induction fs arbitrary: src xs)
  case (Cons f fs)
  obtain x ys where xs: "xs = x # ys" using Cons.prems(2) by (cases xs) auto
  have "load_bytes m src 8 @ load_bytes m (src + 8) (8 * length fs) = le_bytes 8 x @ concat (map (le_bytes 8) ys)"
    using Cons.prems(1) load_bytes_add [of m src 8 "8 * length fs"] xs by simp
  then have parts: "load_bytes m src 8 = le_bytes 8 x" "load_bytes m (src + 8) (8 * length fs) = concat (map (le_bytes 8) ys)"
    by (simp_all add: append_eq_append_conv)
  have "load_size m src = x" using parts(1) Cons.prems(3) xs by (simp add: load_size_def le_val_le_bytes size_modulus_def)
  have "fields_json fs (src + 8) m = named_fields fs ys"
    by (rule Cons.IH [OF parts(2)]) (use Cons.prems(2,3) xs in auto)
  then show ?case using \<open>load_size m src = x\<close> xs by simp
qed simp

lemma logger_of_magic_loggers: "l \<in> set loggers \<Longrightarrow> logger_of_magic (magic_value (bl_magic l)) = Some l \<and> magic_value (bl_magic l) < 10"
  by (simp add: loggers_def logger_of_magic_def) (elim disjE; simp add: logger_defs)

lemma read_record:
  assumes "load_bytes m p (logger_size (fst e)) = encode_event e" "event_ok e"
  shows "le_val (load_bytes m p 4) = magic_value (bl_magic (fst e))" "logger_json (fst e) p m = ok (event_text e)"
proof -
  let ?l = "fst e"
  have "load_bytes m p 4 @ load_bytes m (p + 4) (8 * length (bl_fields ?l)) = encode_event e"
    using assms(1) load_bytes_add [of m p 4 "8 * length (bl_fields ?l)"] by (simp add: logger_size_def fields_size_length)
  then have parts: "load_bytes m p 4 = le_bytes 4 (magic_value (bl_magic ?l))"
      "load_bytes m (p + 4) (8 * length (bl_fields ?l)) = concat (map (le_bytes 8) (snd e))"
    by (simp_all add: encode_event_def append_eq_append_conv)
  have "magic_value (bl_magic ?l) < 10" using logger_of_magic_loggers assms(2) by (simp add: event_ok_def)
  then show magic: "le_val (load_bytes m p 4) = magic_value (bl_magic ?l)" using parts(1) by (simp add: le_val_le_bytes)
  show "logger_json ?l p m = ok (event_text e)"
    using magic fields_json_text [OF parts(2)] assms(2) by (simp add: logger_json_def event_text_def event_ok_def)
qed

subsection \<open>A block and the events it holds\<close>

definition block_holds :: "log_block \<Rightarrow> event list \<Rightarrow> bool" where
  "block_holds b es \<longleftrightarrow> lb_written_bytes b \<le> LOG_BLOCK_SIZE \<and> list_all event_ok es \<and>
     load_bytes (lb_log_buffer b) 0 (lb_written_bytes b) = concat (map encode_event es)"

lemma block_holds_new: "block_holds (new_log_block junk) []"
  by (simp add: block_holds_def new_log_block_def)

lemma logger_size_bounds: "l \<in> set loggers \<Longrightarrow> 20 \<le> logger_size l \<and> logger_size l \<le> 36"
  by (simp add: loggers_def) (elim disjE; simp add: logger_defs logger_size_def)

lemma block_write_holds:
  assumes holds: "block_holds b es" and e: "event_ok (l, args)" and w: "block_write l args b = Some b'"
  shows "block_holds b' (es @ [(l, args)])"
proof -
  let ?w = "lb_written_bytes b" and ?n = "logger_size l"
  let ?m = "logger_write l ?w args (lb_log_buffer b)"
  have small: "LOG_BLOCK_SIZE < size_modulus" by (simp add: LOG_BLOCK_SIZE_def size_modulus_def)
  have le: "?w \<le> LOG_BLOCK_SIZE" using holds by (simp add: block_holds_def)
  have rem: "sz_sub LOG_BLOCK_SIZE ?w = LOG_BLOCK_SIZE - ?w" using le small by (rule sz_sub_exact)
  have fits: "?w + ?n \<le> LOG_BLOCK_SIZE" using w rem le by (auto simp: block_write_def Let_def split: if_splits)
  have b': "b' = \<lparr>lb_written_bytes = ?w + ?n, lb_log_buffer = ?m\<rparr>"
    using w fits small by (auto simp: block_write_def Let_def sz_add_exact split: if_splits)
  have "load_bytes ?m 0 ?w = load_bytes (lb_log_buffer b) 0 ?w"
    using logger_write_bytes(2) [OF e] by (intro load_bytes_cong) auto
  then have "load_bytes ?m 0 (?w + ?n) = concat (map encode_event es) @ encode_event (l, args)"
    using load_bytes_add [of ?m 0 ?w ?n] holds logger_write_bytes(1) [OF e, of ?w "lb_log_buffer b"] by (simp add: block_holds_def)
  then show ?thesis using fits holds e by (simp add: b' block_holds_def)
qed

lemma block_write_new: "event_ok (l, args) \<Longrightarrow> block_write l args (new_log_block junk) \<noteq> None"
  using logger_size_bounds [of l]
  by (auto simp: block_write_def new_log_block_def event_ok_def LOG_BLOCK_SIZE_def sz_sub_exact size_modulus_def)

lemma block_json_holds:
  assumes "load_bytes (lb_log_buffer b) p (lb_written_bytes b - p) = concat (map encode_event es)" "list_all event_ok es"
    "p \<le> lb_written_bytes b"
  shows "block_json b p = ok ((if p \<noteq> 0 \<and> es \<noteq> [] then '','' else []) @ comma_list (map event_text es))"
  using assms
proof (induction es arbitrary: p)
  case Nil
  then have "lb_written_bytes b - p = 0" by (metis concat.simps(1) length_load_bytes list.map(1) list.size(3))
  then show ?case by (simp add: block_json.simps)
next
  case (Cons e es)
  let ?n = "logger_size (fst e)" and ?m = "lb_log_buffer b" and ?w = "lb_written_bytes b"
  have e: "event_ok e" using Cons.prems(2) by simp
  have len: "length (encode_event e) = ?n" by (rule length_encode_event [OF e])
  have "length (load_bytes ?m p (?w - p)) = ?n + length (concat (map encode_event es))"
    using Cons.prems(1) len by simp
  then have fits: "p + ?n \<le> ?w" using Cons.prems(3) by simp
  have pos: "0 < ?n" by (simp add: logger_size_def)
  have "load_bytes ?m p ?n @ load_bytes ?m (p + ?n) (?w - (p + ?n)) = encode_event e @ concat (map encode_event es)"
    using load_bytes_add [of ?m p ?n "?w - (p + ?n)"] Cons.prems(1) fits by simp
  then have parts: "load_bytes ?m p ?n = encode_event e" "load_bytes ?m (p + ?n) (?w - (p + ?n)) = concat (map encode_event es)"
    using len by (simp_all add: append_eq_append_conv)
  have rest: "block_json b (p + ?n) = ok ((if es \<noteq> [] then '','' else []) @ comma_list (map event_text es))"
    using Cons.IH [OF parts(2)] Cons.prems(2) fits pos by simp
  have magic: "logger_of_magic (le_val (load_bytes ?m p 4)) = Some (fst e)"
    using read_record(1) [OF parts(1) e] logger_of_magic_loggers e by (simp add: event_ok_def)
  have "block_json b p = andThen (logger_json (fst e) p ?m)
      (\<lambda>x. andThen (block_json b (p + ?n)) (\<lambda>xs. ok ((if p \<noteq> 0 then '','' else []) @ x @ xs)))"
    using fits pos magic by (subst block_json.simps) simp
  then show ?case unfolding read_record(2) [OF parts(1) e] rest by (cases es) simp_all
qed

subsection \<open>The chain of blocks\<close>

lemma comma_list_append:
  "comma_list (xs @ ys) = comma_list xs @ (if xs \<noteq> [] \<and> ys \<noteq> [] then '','' else []) @ comma_list ys"
  by (induction xs rule: comma_list.induct) (cases ys; simp)+

lemma pop_blocks_rev: "pop_blocks xs = comma_list (rev xs)"
proof (induction xs rule: rev_induct)
  case (snoc x xs)
  have "pop_blocks (xs @ [x]) = x @ (if xs \<noteq> [] then '','' else []) @ pop_blocks xs"
    by (subst pop_blocks.simps) simp
  then show ?case using snoc comma_list_append [of "[x]" "rev xs"] by simp
qed (simp add: pop_blocks.simps)

definition event_texts :: "event list \<Rightarrow> string" where
  "event_texts es = comma_list (map event_text es)"

lemma event_texts_empty: "event_texts es = [] \<longleftrightarrow> es = []"
  by (cases es; cases "tl es") (auto simp: event_texts_def event_text_def)

lemma collect_blocks_holds:
  "list_all2 block_holds bs ess \<Longrightarrow> collect_blocks bs acc = ok (acc @ filter (\<lambda>s. s \<noteq> []) (map event_texts ess))"
proof (induction bs arbitrary: ess acc)
  case (Cons b bs)
  obtain es rest where ess: "ess = es # rest" "block_holds b es" "list_all2 block_holds bs rest"
    using Cons.prems by (auto simp: list_all2_Cons1)
  have "block_json b 0 = ok (event_texts es)"
    using block_json_holds [of b 0 es] ess(2) by (simp add: block_holds_def event_texts_def)
  then show ?case using Cons.IH [OF ess(3)] ess(1) by simp
qed simp

lemma comma_list_texts: "comma_list (filter (\<lambda>s. s \<noteq> []) (map event_texts ess)) = event_texts (concat ess)"
proof (induction ess)
  case (Cons es ess)
  let ?texts = "filter (\<lambda>s. s \<noteq> []) (map event_texts ess)"
  have empty: "?texts = [] \<longleftrightarrow> concat ess = []" by (auto simp: filter_empty_conv event_texts_empty)
  have whole: "event_texts (concat (es # ess)) = event_texts es @ (if es \<noteq> [] \<and> concat ess \<noteq> [] then '','' else []) @ event_texts (concat ess)"
    using comma_list_append [of "map event_text es" "map event_text (concat ess)"] unfolding event_texts_def by simp
  show ?case
  proof (cases "es = []")
    case True
    then show ?thesis using Cons.IH by (simp add: event_texts_def)
  next
    case False
    then have "filter (\<lambda>s. s \<noteq> []) (map event_texts (es # ess)) = event_texts es # ?texts" by (simp add: event_texts_empty)
    then show ?thesis unfolding whole using comma_list_append [of "[event_texts es]" ?texts] False empty Cons.IH by simp
  qed
qed (simp add: event_texts_def)

definition logger_holds :: "event_logger \<Rightarrow> event list \<Rightarrow> bool" where
  "logger_holds bs es \<longleftrightarrow> bs \<noteq> [] \<and> (\<exists>ess. list_all2 block_holds bs ess \<and> concat (rev ess) = es)"

lemma to_json_holds:
  assumes "logger_holds bs es"
  shows "to_json bs = ok (''['' @ event_texts es @ '']'')"
proof -
  obtain ess where ess: "list_all2 block_holds bs ess" "concat (rev ess) = es" using assms by (auto simp: logger_holds_def)
  have "rev (filter (\<lambda>s. s \<noteq> []) (map event_texts ess)) = filter (\<lambda>s. s \<noteq> []) (map event_texts (rev ess))"
    by (simp add: rev_filter rev_map)
  then show ?thesis
    using collect_blocks_holds [OF ess(1), of "[]"] comma_list_texts [of "rev ess"] ess(2) by (simp add: to_json_def pop_blocks_rev)
qed

lemma write_binary_holds:
  assumes "logger_holds bs es" and e: "event_ok (l, args)"
  shows "\<exists>bs'. write_binary junk l args bs = Some bs' \<and> logger_holds bs' (es @ [(l, args)])"
proof -
  obtain cur prev where bs: "bs = cur # prev" using assms(1) by (cases bs) (auto simp: logger_holds_def)
  obtain ces pess where h: "block_holds cur ces" "list_all2 block_holds prev pess" "concat (rev pess) @ ces = es"
    using assms(1) bs by (auto simp: logger_holds_def list_all2_Cons1)
  show ?thesis
  proof (cases "block_write l args cur")
    case None
    obtain b where b: "block_write l args (new_log_block junk) = Some b" using block_write_new [OF e] by blast
    have "write_binary junk l args bs = Some (b # cur # prev)"
      using None b bs by (simp add: write_binary_def write_loop.simps)
    moreover have "block_holds b [(l, args)]" using block_write_holds [OF block_holds_new e b] by simp
    then have "logger_holds (b # cur # prev) (es @ [(l, args)])"
      unfolding logger_holds_def using h by (intro conjI exI [of _ "[(l, args)] # ces # pess"]) auto
    ultimately show ?thesis by blast
  next
    case (Some b)
    have "logger_holds (b # prev) (es @ [(l, args)])"
      unfolding logger_holds_def using h block_write_holds [OF h(1) e Some]
      by (intro conjI exI [of _ "(ces @ [(l, args)]) # pess"]) auto
    then show ?thesis using Some bs by (simp add: write_binary_def write_loop.simps)
  qed
qed

subsection \<open>Numbers\<close>

definition read_decimal :: "string \<Rightarrow> nat" where
  "read_decimal s = foldl (\<lambda>v c. 10 * v + (of_char c - 48)) 0 s"

lemma read_show_size: "read_decimal (show_size n) = n"
proof (induction n rule: show_size.induct)
  case (1 n)
  have digit: "of_char (char_of (48 + k) :: char) - 48 = k" if "k < 10" for k :: nat
  proof -
    have "of_char (char_of (48 + k) :: char) = (48 + k) mod 256" by (rule of_char_of)
    then show ?thesis using that by simp
  qed
  show ?case
  proof (cases "n < 10")
    case True
    then show ?thesis using digit [of n] by (subst show_size.simps) (simp add: read_decimal_def)
  next
    case False
    then show ?thesis using 1 digit [of "n mod 10"] by (subst show_size.simps) (simp add: read_decimal_def)
  qed
qed

subsection \<open>Property\<close>

text \<open>A call of a log function, with its time stamp. All numbers are 64-bit words.\<close>

datatype log_call =
    Create_physical_task u64 u64 u64
  | Physical_dependency u64 u64 u64
  | Begin_preparation u64 u64
  | End_preparation u64 u64
  | Begin_execution u64 u64
  | End_execution u64 u64
  | Allocate_memory u64 u64 u64
  | Allocate_memory_on u64 u64 u64 u64
  | Release_memory u64 u64
  | Lock_memory u64 u64
  | Unlock_memory u64 u64

abbreviation physical_word :: "u64 \<Rightarrow> PhysicalTaskIdentifier" where
  "physical_word w \<equiv> PhysicalTaskIdentifier (unat w)"

abbreviation reference_word :: "u64 \<Rightarrow> memory_reference" where
  "reference_word w \<equiv> \<lparr>mr_object = None, mr_identifier = unat w\<rparr>"

fun log_event :: "mem \<Rightarrow> log_call \<Rightarrow> event_logger \<Rightarrow> event_logger option" where
  "log_event junk (Create_physical_task t p l) = log_create_physical_task junk (unat t) (physical_word p) (LogicalTaskIdentifier (unat l))"
| "log_event junk (Physical_dependency t p c) = log_physical_dependency junk (unat t) (physical_word p) (physical_word c)"
| "log_event junk (Begin_preparation t p) = log_begin_preparation junk (unat t) (physical_word p)"
| "log_event junk (End_preparation t p) = log_end_preparation junk (unat t) (physical_word p)"
| "log_event junk (Begin_execution t p) = log_begin_execution junk (unat t) (physical_word p)"
| "log_event junk (End_execution t p) = log_end_execution junk (unat t) (physical_word p)"
| "log_event junk (Allocate_memory t m n) = log_allocate_memory junk (unat t) (unat m) (unat n)"
| "log_event junk (Allocate_memory_on t m n k) = log_allocate_memory_on junk (unat t) (unat m) (unat n) (unat k)"
| "log_event junk (Release_memory t m) = log_release_memory junk (unat t) (unat m)"
| "log_event junk (Lock_memory t m) = log_lock_memory junk (unat t) (reference_word m)"
| "log_event junk (Unlock_memory t m) = log_unlock_memory junk (unat t) (reference_word m)"

fun log_events :: "(mem \<times> log_call) list \<Rightarrow> event_logger \<Rightarrow> event_logger option" where
  "log_events [] bs = Some bs"
| "log_events ((junk, c) # cs) bs = Option.bind (log_event junk c bs) (log_events cs)"

definition record_text :: "string \<Rightarrow> (string \<times> nat) list \<Rightarrow> string" where
  "record_text n fs = ''{'' @ quoted ''type'' @ '':'' @ quoted n @ concat (map (\<lambda>(f, x). '','' @ quoted f @ '':'' @ show_size x) fs) @ ''}''"

fun call_text :: "log_call \<Rightarrow> string" where
  "call_text (Create_physical_task t p l) =
     record_text ''create_physical_task'' [(''timestamp'', unat t), (''physical_id'', unat p), (''logical_id'', unat l)]"
| "call_text (Physical_dependency t p c) =
     record_text ''physical_dependency'' [(''timestamp'', unat t), (''producer'', unat p), (''consumer'', unat c)]"
| "call_text (Begin_preparation t p) = record_text ''begin_preparation'' [(''timestamp'', unat t), (''task_id'', unat p)]"
| "call_text (End_preparation t p) = record_text ''end_preparation'' [(''timestamp'', unat t), (''task_id'', unat p)]"
| "call_text (Begin_execution t p) = record_text ''begin_execution'' [(''timestamp'', unat t), (''task_id'', unat p)]"
| "call_text (End_execution t p) = record_text ''end_execution'' [(''timestamp'', unat t), (''task_id'', unat p)]"
| "call_text (Allocate_memory t m n) =
     record_text ''allocate_memory'' [(''timestamp'', unat t), (''object_id'', unat m), (''size'', unat n), (''numa_node'', 18446744073709551615)]"
| "call_text (Allocate_memory_on t m n k) =
     record_text ''allocate_memory'' [(''timestamp'', unat t), (''object_id'', unat m), (''size'', unat n), (''numa_node'', unat k)]"
| "call_text (Release_memory t m) = record_text ''release_memory'' [(''timestamp'', unat t), (''object_id'', unat m)]"
| "call_text (Lock_memory t m) = record_text ''lock_memory'' [(''timestamp'', unat t), (''object_id'', unat m)]"
| "call_text (Unlock_memory t m) = record_text ''unlock_memory'' [(''timestamp'', unat t), (''object_id'', unat m)]"

lemmas log_function_defs = log_create_physical_task_def log_physical_dependency_def log_begin_preparation_def log_end_preparation_def
  log_begin_execution_def log_end_execution_def log_allocate_memory_def log_allocate_memory_on_def log_release_memory_def
  log_lock_memory_def log_unlock_memory_def

lemma log_event_write:
  "\<exists>l args. (\<forall>junk bs. log_event junk c bs = write_binary junk l args bs) \<and> event_ok (l, args) \<and> event_text (l, args) = call_text c"
proof -
  have word: "unat (w :: u64) < size_modulus" for w using unsigned_less [of w, where 'a = nat] by (simp add: size_modulus_def)
  have max: "18446744073709551615 < size_modulus" "size_modulus - Suc 0 = 18446744073709551615" by (simp_all add: size_modulus_def)
  have fits: "?thesis" if "\<And>junk bs. log_event junk c bs = write_binary junk l args bs" "l \<in> set loggers"
    "length args = length (bl_fields l)" "\<forall>x\<in>set args. x < size_modulus" "event_text (l, args) = call_text c" for l args
    using that by (intro exI [of _ l] exI [of _ args]) (simp add: event_ok_def)
  show ?thesis
    by (cases c; rule fits; (simp add: log_function_defs)?)
      (simp_all add: loggers_def logger_defs event_text_def record_text_def word max)
qed

lemma log_events_holds:
  "logger_holds bs es \<Longrightarrow> \<exists>bs' es'. log_events cs bs = Some bs' \<and> logger_holds bs' es' \<and> map event_text es' = map event_text es @ map (call_text \<circ> snd) cs"
proof (induction cs arbitrary: bs es)
  case (Cons x cs)
  obtain junk c where x: "x = (junk, c)" by (cases x)
  obtain l args where w: "\<And>junk bs. log_event junk c bs = write_binary junk l args bs" "event_ok (l, args)" "event_text (l, args) = call_text c"
    using log_event_write by blast
  obtain bs1 where bs1: "write_binary junk l args bs = Some bs1" "logger_holds bs1 (es @ [(l, args)])"
    using write_binary_holds [OF Cons.prems w(2)] by blast
  then show ?case using Cons.IH [OF bs1(2)] x w by auto
qed auto

lemma log_events_disabled: "log_events cs [] = Some []"
proof (induction cs)
  case (Cons x cs)
  obtain l args where w: "\<And>junk bs. log_event junk (snd x) bs = write_binary junk l args bs" using log_event_write by blast
  show ?case using Cons w [of "fst x" "[]"] by (cases x) (simp add: write_binary_def)
qed simp

lemma enabled_log_events:
  "\<exists>bs es. log_events cs (enable junk new_event_logger) = Some bs \<and> logger_holds bs es \<and> map event_text es = map (call_text \<circ> snd) cs"
proof -
  have "logger_holds (enable junk new_event_logger) []"
    unfolding logger_holds_def enable_def using block_holds_new by (intro conjI exI [of _ "[[]]"]) simp_all
  from log_events_holds [OF this, of cs] show ?thesis by auto
qed

lemma enabled_to_json:
  "log_events cs (enable junk new_event_logger) = Some bs \<Longrightarrow> to_json bs = ok (''['' @ comma_list (map (call_text \<circ> snd) cs) @ '']'')"
  using enabled_log_events [of cs junk] to_json_holds by (auto simp: event_texts_def)

text \<open>
  C32: log any events on an enabled logger: every write ends, and \<open>to_json\<close> is the list of these events in their
  order, whatever number of blocks they fill and whatever fresh blocks held; no block is overfull.
  A logger that is not enabled logs nothing.
\<close>
theorem event_log_roundtrip:
  "(\<exists>bs. log_events cs (enable junk new_event_logger) = Some bs \<and> list_all (\<lambda>b. lb_written_bytes b \<le> LOG_BLOCK_SIZE) bs \<and>
     to_json bs = ok (''['' @ comma_list (map (call_text \<circ> snd) cs) @ '']'')) \<and>
   log_events cs new_event_logger = Some new_event_logger \<and> to_json new_event_logger = ok ''[]''"
proof -
  obtain bs es where bs: "log_events cs (enable junk new_event_logger) = Some bs" "logger_holds bs es"
      "map event_text es = map (call_text \<circ> snd) cs"
    using enabled_log_events by blast
  have "list_all (\<lambda>b. lb_written_bytes b \<le> LOG_BLOCK_SIZE) bs"
    using bs(2) by (auto simp: logger_holds_def list_all_iff block_holds_def list_all2_conv_all_nth in_set_conv_nth)
  then show ?thesis
    using bs(1) enabled_to_json [OF bs(1)] log_events_disabled
    by (simp add: new_event_logger_def to_json_def pop_blocks.simps)
qed

end
