(* ===== verification/ProfileLogProperties.thy ===== *)
theory ProfileLogProperties
  imports ProfileLog EventLogProperties
begin

text \<open>
  The text of a profile is JSON when the names of the tasks need no escaping. The grammar below is a part
  of the JSON grammar: strings without escapes, natural numbers, and blanks before a value.
\<close>

subsection \<open>A grammar\<close>

definition plain_char :: "char \<Rightarrow> bool" where
  "plain_char c \<longleftrightarrow> c \<noteq> CHR 0x22 \<and> c \<noteq> CHR 0x5C \<and> 32 \<le> (of_char c :: nat)"

abbreviation plain :: "string \<Rightarrow> bool" where
  "plain s \<equiv> list_all plain_char s"

definition json_number :: "string \<Rightarrow> bool" where
  "json_number s \<longleftrightarrow> s \<noteq> [] \<and> list_all (\<lambda>c. 48 \<le> (of_char c :: nat) \<and> (of_char c :: nat) \<le> 57) s \<and>
     (hd s = CHR ''0'' \<longrightarrow> tl s = [])"

inductive json :: "string \<Rightarrow> bool" and json_elements :: "string \<Rightarrow> bool" and json_members :: "string \<Rightarrow> bool" where
  number: "json_number s \<Longrightarrow> json s"
| characters: "plain s \<Longrightarrow> json (quoted s)"
| blank: "json s \<Longrightarrow> json ('' '' @ s)"
| no_elements: "json ''[]''"
| array: "json_elements s \<Longrightarrow> json (''['' @ s @ '']'')"
| no_members: "json ''{}''"
| object: "json_members s \<Longrightarrow> json (''{'' @ s @ ''}'')"
| element: "json s \<Longrightarrow> json_elements s"
| elements: "json s \<Longrightarrow> json_elements t \<Longrightarrow> json_elements (s @ '','' @ t)"
| member: "plain f \<Longrightarrow> json s \<Longrightarrow> json_members (named f @ s)"
| members: "plain f \<Longrightarrow> json s \<Longrightarrow> json_members t \<Longrightarrow> json_members ((named f @ s) @ '','' @ t)"

subsection \<open>Numbers, arrays and objects\<close>

lemma number_show_size: "json_number (show_size n)"
proof -
  have digit: "of_char (char_of (48 + k) :: char) = 48 + k" if "k < 10" for k :: nat
  proof -
    have "of_char (char_of (48 + k) :: char) = (48 + k) mod 256" by (rule of_char_of)
    then show ?thesis using that by simp
  qed
  have zero: "(char_of (48 + k) = CHR ''0'') = (k = 0)" if "k < 10" for k :: nat
  proof -
    have "(char_of (48 + k) = CHR ''0'') \<longleftrightarrow> of_char (char_of (48 + k) :: char) = (of_char (CHR ''0'') :: nat)"
      by (rule of_char_eq_iff [symmetric])
    also have "\<dots> \<longleftrightarrow> k = 0" unfolding digit [OF that] by simp
    finally show ?thesis .
  qed
  have "json_number (show_size n) \<and> (hd (show_size n) = CHR ''0'' \<longrightarrow> n = 0)"
  proof (induction n rule: show_size.induct)
    case (1 n)
    show ?case
    proof (cases "n < 10")
      case True
      then show ?thesis using digit zero by (subst (1 2) show_size.simps) (simp add: json_number_def)
    next
      case False
      then have IH: "json_number (show_size (n div 10))" "hd (show_size (n div 10)) \<noteq> CHR ''0''"
        using 1 by auto
      then have "show_size (n div 10) \<noteq> []" by (simp add: json_number_def)
      then show ?thesis using False IH digit [of "n mod 10"] by (subst (1 2) show_size.simps) (simp add: json_number_def)
    qed
  qed
  then show ?thesis by blast
qed

lemma json_show_size: "json (show_size n)"
  by (rule json_json_elements_json_members.number [OF number_show_size])

lemma plain_show_size: "plain (show_size n)"
  using number_show_size [of n] by (auto simp: json_number_def list_all_iff plain_char_def)

lemma json_array: "list_all json ss \<Longrightarrow> json (''['' @ comma_list ss @ '']'')"
proof (cases "ss = []")
  case False
  assume "list_all json ss"
  then have "json_elements (comma_list ss)"
    using False
  proof (induction ss rule: comma_list.induct)
    case (3 x v va)
    then have "json_elements (x @ '','' @ comma_list (v # va))" by (intro json_json_elements_json_members.elements) auto
    then show ?case by simp
  qed (auto intro: json_json_elements_json_members.element)
  then show ?thesis by (rule json_json_elements_json_members.array)
qed (simp add: json_json_elements_json_members.no_elements)

definition members_text :: "(string \<times> string) list \<Rightarrow> string" where
  "members_text ms = comma_list (map (\<lambda>(f, s). named f @ s) ms)"

lemma json_object: "list_all (\<lambda>(f, s). plain f \<and> json s) ms \<Longrightarrow> json (''{'' @ members_text ms @ ''}'')"
proof (cases "ms = []")
  case False
  assume "list_all (\<lambda>(f, s). plain f \<and> json s) ms"
  then have "json_members (members_text ms)"
    using False
  proof (induction ms rule: induct_list012)
    case (2 x)
    then show ?case by (cases x) (simp add: members_text_def json_json_elements_json_members.member)
  next
    case (3 x y zs)
    obtain f s where x: "x = (f, s)" by (cases x)
    have "json_members (members_text (y # zs))" using 3 by simp
    then have "json_members ((named f @ s) @ '','' @ members_text (y # zs))"
      using 3 x by (intro json_json_elements_json_members.members) auto
    then show ?case by (simp add: members_text_def x)
  qed simp
  then show ?thesis by (rule json_json_elements_json_members.object)
qed (simp add: members_text_def json_json_elements_json_members.no_members)

subsection \<open>The parts of a profile\<close>

subsection \<open>The parts of a profile\<close>

lemma json_configuration: "json (pl_configuration_json (set_configuration config l))"
  using json_object [of "[(''max_concurrency'', show_size (Configuration.max_concurrency config)), (''partition_count'', show_size (partition_count config)),
      (''default_output_buffer_size'', show_size (default_output_buffer_size config)),
      (''default_records_per_buffer'', show_size (default_records_per_buffer config))]"]
  by (simp add: set_configuration_def members_text_def plain_char_def json_show_size)

definition task_text :: "'m logical_task \<Rightarrow> string" where
  "task_text t = ''{'' @ members_text [(''task_id'', show_size (logical_id (lt_task_id t))), (''task_name'', quoted (lt_task_name t))] @ ''}''"

definition port_text :: "lg_port \<Rightarrow> string" where
  "port_text p = ''{'' @ members_text [(''id'', show_size (logical_id (port_task p))), (''port'', show_size (port_id p))] @ ''}''"

definition edge_text :: "lg_edge \<Rightarrow> string" where
  "edge_text e = ''{'' @ members_text [(''producer'', port_text (edge_producer e)), (''consumer'', port_text (edge_consumer e))] @ ''}''"

lemma json_texts: "plain (lt_task_name t) \<Longrightarrow> json (task_text t)" "json (port_text p)" "json (edge_text e)"
proof -
  show "plain (lt_task_name t) \<Longrightarrow> json (task_text t)"
    unfolding task_text_def by (rule json_object) (simp add: plain_char_def json_show_size json_json_elements_json_members.characters)
  show port: "json (port_text p)" for p
    unfolding port_text_def by (rule json_object) (simp add: plain_char_def json_show_size)
  show "json (edge_text e)"
    unfolding edge_text_def by (rule json_object) (simp add: plain_char_def port)
qed

lemma comma_list_flag: "(if ss \<noteq> [] then '','' else []) @ comma_list ss = concat (map (\<lambda>s. '','' @ s) ss)"
  by (induction ss rule: comma_list.induct) auto

lemma tasks_json_text: "tasks_json is_first ts = (if \<not> is_first \<and> ts \<noteq> [] then '','' else []) @ comma_list (map task_text ts)"
proof (induction ts arbitrary: is_first)
  case (Cons t ts)
  then show ?case by (cases ts) (simp_all add: task_text_def members_text_def)
qed simp

lemma edges_json_text: "edges_json is_first es = (if \<not> is_first \<and> es \<noteq> [] then '','' else []) @ comma_list (map edge_text es)"
proof (induction es arbitrary: is_first)
  case (Cons e es)
  then show ?case by (cases es) (simp_all add: edge_text_def port_text_def members_text_def Let_def)
qed simp

lemma events_json_text:
  "events_json is_first ps = (if \<not> is_first \<and> ps \<noteq> [] then '','' else []) @ members_text (map (\<lambda>p. (show_size (fst p), snd p)) ps)"
proof (induction ps arbitrary: is_first)
  case (Cons p ps)
  then show ?case by (cases ps) (simp_all add: members_text_def named_def)
qed (simp add: members_text_def)

lemma json_graph:
  assumes "list_all (\<lambda>t. plain (lt_task_name t)) (lg_tasks g)"
  shows "json (pl_logical_tasks_json (set_logical_graph g l))" "json (pl_logical_dependencies_json (set_logical_graph g l))"
proof -
  have "list_all json (map task_text (lg_tasks g))" using assms by (auto simp: list_all_iff intro!: json_texts(1))
  then show "json (pl_logical_tasks_json (set_logical_graph g l))"
    using json_array by (simp add: set_logical_graph_def tasks_json_text)
  have "list_all json (map edge_text (lg_edges g))" using json_texts(3) by (auto simp: list_all_iff)
  then show "json (pl_logical_dependencies_json (set_logical_graph g l))"
    using json_array by (simp add: set_logical_graph_def edges_json_text)
qed

lemma members_text_Cons: "members_text ((f, s) # ms) = named f @ s @ concat (map (\<lambda>(f, s). '','' @ named f @ s) ms)"
  using comma_list_flag [of "map (\<lambda>(f, s). named f @ s) ms"]
  by (cases ms) (auto simp: members_text_def o_def case_prod_unfold)

lemma json_call: "json (call_text c)"
proof -
  have rec: "json (record_text n fs)" if "plain n" "list_all (\<lambda>(f, x). plain f) fs" for n and fs :: "(string \<times> nat) list"
  proof -
    have "record_text n fs = ''{'' @ members_text ((''type'', quoted n) # map (\<lambda>(f, x). (f, show_size x)) fs) @ ''}''"
      unfolding members_text_Cons by (simp add: record_text_def named_def o_def case_prod_unfold)
    also have "json \<dots>"
    proof (rule json_object)
      have "json (quoted n)" using that(1) by (rule json_json_elements_json_members.characters)
      moreover have "list_all (\<lambda>(f, s). plain f \<and> json s) (map (\<lambda>(f, x). (f, show_size x)) fs)"
        using that(2) by (induction fs) (auto simp: json_show_size)
      ultimately show "list_all (\<lambda>(f, s). plain f \<and> json s) ((''type'', quoted n) # map (\<lambda>(f, x). (f, show_size x)) fs)"
        by (simp add: plain_char_def)
    qed
    finally show ?thesis .
  qed
  show ?thesis by (cases c) (simp_all add: rec plain_char_def)
qed

subsection \<open>Flushing\<close>

fun flush_all :: "(identifier_type \<times> event_logger) list \<Rightarrow> profile_logger \<Rightarrow> profile_logger result" where
  "flush_all [] l = ok l"
| "flush_all ((w, bs) # fs) l = andThen (flush_thread_local_log w bs l) (flush_all fs)"

text \<open>The event logger of a thread that logged \<open>cs\<close> after it was enabled.\<close>

definition logged :: "log_call list \<Rightarrow> event_logger \<Rightarrow> bool" where
  "logged cs bs \<longleftrightarrow> (\<exists>junk js. length js = length cs \<and> log_events (zip js cs) (enable junk new_event_logger) = Some bs)"

definition calls_text :: "log_call list \<Rightarrow> string" where
  "calls_text cs = ''['' @ comma_list (map call_text cs) @ '']''"

lemma logged_text: "logged cs bs \<Longrightarrow> to_json bs = ok (calls_text cs)"
  using enabled_to_json by (fastforce simp: logged_def calls_text_def simp flip: map_map)

lemma json_calls: "json (calls_text cs)"
  unfolding calls_text_def by (rule json_array) (simp add: list_all_iff json_call)

lemma map_emplace_keys:
  "sorted_wrt (<) (map fst m) \<Longrightarrow> sorted_wrt (<) (map fst (map_emplace k v m)) \<and> set (map fst (map_emplace k v m)) = insert k (set (map fst m))"
  by (induction m rule: map_emplace.induct) (auto simp: insert_commute)

lemma map_of_emplace:
  "sorted_wrt (<) (map fst m) \<Longrightarrow> map_of (map_emplace k v m) = (if map_of m k = None then (map_of m)(k \<mapsto> v) else map_of m)"
proof (induction k v m rule: map_emplace.induct)
  case (2 k v k' v' m)
  have "map_of m k = None" if "k < k'" using 2(2) that by (force simp: map_of_eq_None_iff)
  then show ?case using 2 by (auto simp: fun_eq_iff)
qed simp

lemma list_all_emplace: "list_all P (map snd m) \<Longrightarrow> P v \<Longrightarrow> list_all P (map snd (map_emplace k v m))"
  by (induction k v m rule: map_emplace.induct) auto

lemma flush_all_entries:
  assumes "list_all2 (\<lambda>(w, bs) (w', cs). w = w' \<and> logged cs bs) fs calls" "sorted_wrt (<) (map fst (pl_event_jsons l))"
    "list_all json (map snd (pl_event_jsons l))"
  shows "\<exists>es. flush_all fs l = ok (l\<lparr>pl_event_jsons := es\<rparr>) \<and> sorted_wrt (<) (map fst es) \<and> list_all json (map snd es) \<and>
    map_of es = map_of (map (\<lambda>(w, cs). (w, calls_text cs)) calls) ++ map_of (pl_event_jsons l)"
  using assms
proof (induction fs arbitrary: calls l)
  case (Cons f fs)
  obtain w bs where f: "f = (w, bs)" by (cases f)
  obtain cs rest where calls: "calls = (w, cs) # rest" "logged cs bs" "list_all2 (\<lambda>(w, bs) (w', cs). w = w' \<and> logged cs bs) fs rest"
    using Cons.prems(1) f by (auto simp: list_all2_Cons1)
  let ?m = "pl_event_jsons l" and ?m' = "map_emplace w (calls_text cs) (pl_event_jsons l)"
  let ?l = "l\<lparr>pl_event_jsons := ?m'\<rparr>"
  have "list_all json (map snd ?m')"
    by (rule list_all_emplace [OF Cons.prems(3) json_calls])
  then obtain es where es: "flush_all fs ?l = ok (?l\<lparr>pl_event_jsons := es\<rparr>)" "sorted_wrt (<) (map fst es)" "list_all json (map snd es)"
      "map_of es = map_of (map (\<lambda>(w, cs). (w, calls_text cs)) rest) ++ map_of ?m'"
    using Cons.IH [OF calls(3), of ?l] map_emplace_keys [OF Cons.prems(2)] by auto
  have "flush_all (f # fs) l = ok (l\<lparr>pl_event_jsons := es\<rparr>)"
    using es(1) logged_text [OF calls(2)] by (simp add: f flush_thread_local_log_def)
  moreover have "map_of es = map_of (map (\<lambda>(w, cs). (w, calls_text cs)) calls) ++ map_of ?m"
    unfolding es(4) map_of_emplace [OF Cons.prems(2)] using calls(1)
    by (auto simp: map_add_def fun_eq_iff split: option.splits)
  ultimately show ?case using es(2,3) by blast
next
  case Nil
  then show ?case by (intro exI [of _ "pl_event_jsons l"]) simp
qed

subsection \<open>Property\<close>

text \<open>
  C33: let threads log events and flush them to the profile of a graph whose task names need no escaping. The
  flushes succeed, the dump is JSON, its workers come in increasing order, each once, and each with
  the events of its first flush, in the order they were logged.
\<close>
theorem profile_is_json:
  assumes "list_all (\<lambda>t. plain (lt_task_name t)) (lg_tasks g)"
    and "list_all2 (\<lambda>(w, bs) (w', cs). w = w' \<and> logged cs bs) fs calls"
  shows "\<exists>l. flush_all fs (make_profile_logger config g) = ok l \<and> json (dump l) \<and> sorted_wrt (<) (map fst (pl_event_jsons l)) \<and>
    map_of (pl_event_jsons l) = map_of (map (\<lambda>(w, cs). (w, calls_text cs)) calls)"
proof -
  let ?l = "make_profile_logger config g"
  have "pl_event_jsons ?l = []"
    by (simp add: make_profile_logger_def set_logical_graph_def set_configuration_def empty_profile_logger_def)
  then obtain es where es: "flush_all fs ?l = ok (?l\<lparr>pl_event_jsons := es\<rparr>)" "sorted_wrt (<) (map fst es)" "list_all json (map snd es)"
      "map_of es = map_of (map (\<lambda>(w, cs). (w, calls_text cs)) calls)"
    using flush_all_entries [OF assms(2), of ?l] by auto
  have "json (pl_configuration_json ?l)"
    using json_configuration [of config empty_profile_logger] by (simp add: make_profile_logger_def set_logical_graph_def)
  moreover have "json (pl_logical_tasks_json ?l)" "json (pl_logical_dependencies_json ?l)"
    unfolding make_profile_logger_def by (rule json_graph [OF assms(1)])+
  moreover have "json ('' '' @ pl_logical_dependencies_json ?l)"
    using calculation(3) by (rule json_json_elements_json_members.blank)
  moreover have "json (''{'' @ members_text (map (\<lambda>p. (show_size (fst p), snd p)) es) @ ''}'')"
    using es(3) plain_show_size by (intro json_object) (auto simp: list_all_iff)
  ultimately have "json (''{'' @ members_text [(''configuration'', pl_configuration_json ?l), (''logical_tasks'', pl_logical_tasks_json ?l),
      (''logical_dependencies'', '' '' @ pl_logical_dependencies_json ?l),
      (''events'', ''{'' @ members_text (map (\<lambda>p. (show_size (fst p), snd p)) es) @ ''}'')] @ ''}'')"
    by (intro json_object) (simp add: plain_char_def)
  then have "json (dump (?l\<lparr>pl_event_jsons := es\<rparr>))"
    by (simp add: dump_def members_text_def events_json_text)
  then show ?thesis using es by (intro exI [of _ "?l\<lparr>pl_event_jsons := es\<rparr>"]) simp
qed

definition named_graph :: "unit logical_graph" where
  "named_graph = snd (add_logical_task (set_task_name ''words'' (make_logical_task (Gather []))) empty_logical_graph)"

theorem profile_is_json_witness:
  "\<exists>bs l. flush_all [(0, bs)] (make_profile_logger (default_configuration (plain_topology 4)) named_graph) = ok l \<and>
     json (dump l) \<and> map_of (pl_event_jsons l) 0 =
       Some (''['' @ record_text ''begin_execution'' [(''timestamp'', 7), (''task_id'', 3)] @ '']'')"
proof -
  let ?calls = "[(0, [Begin_execution 7 3])]" and ?js = "[\<lambda>_. 0] :: mem list" and ?config = "default_configuration (plain_topology 4)"
  obtain bs where "log_events (zip ?js [Begin_execution 7 3]) (enable (\<lambda>_. 0) new_event_logger) = Some bs"
    using enabled_log_events by blast
  then have "logged [Begin_execution 7 3] bs" unfolding logged_def by (intro exI [of _ "\<lambda>_. 0"] exI [of _ ?js]) simp
  then have logged: "list_all2 (\<lambda>(w, bs) (w', cs). w = w' \<and> logged cs bs) [(0, bs)] ?calls" by simp
  have "list_all (\<lambda>t. plain (lt_task_name t)) (lg_tasks named_graph)"
    by (simp add: named_graph_def add_logical_task_def empty_logical_graph_def set_task_id_def set_task_name_def plain_char_def Let_def)
  from profile_is_json [OF this logged, of ?config] obtain l where l: "flush_all [(0, bs)] (make_profile_logger ?config named_graph) = ok l"
      "json (dump l)" "map_of (pl_event_jsons l) = map_of (map (\<lambda>(w, cs). (w, calls_text cs)) ?calls)"
    by blast
  have "map_of (pl_event_jsons l) 0 = Some (''['' @ record_text ''begin_execution'' [(''timestamp'', 7), (''task_id'', 3)] @ '']'')"
    unfolding l(3) by (simp add: calls_text_def)
  then show ?thesis using l(1,2) by blast
qed

end
