(* ===== verification/ExecutorProperties.thy ===== *)
theory ExecutorProperties
  imports Executor WorkerThreadProperties TaskGraphProperties ProfileLogProperties
begin

text \<open>
  From the public \<open>Context\<close> down to the workers: a graph the context accepts starts an execution from a state
  its workers cannot get stuck in, an execution reports the first exception, and \<open>execute\<close> and
  \<open>wait\<close> keep to their protocol.
\<close>

subsection \<open>Starting an execution\<close>

definition machine_ok :: "topology \<Rightarrow> configuration \<Rightarrow> bool" where
  "machine_ok topo config \<longleftrightarrow> topology_ok topo \<and> 0 < total_processing_unit_count topo \<and>
     0 < Configuration.max_concurrency config \<and> Configuration.max_concurrency config < size_modulus"

lemma make_locality_manager_shape:
  assumes m: "machine_ok topo config" and lm: "make_locality_manager config topo = Some lm"
  shows "shape_ok (make_scheduler lm :: 'c scheduler)" "lm_max_concurrency lm = Configuration.max_concurrency config"
proof -
  have "0 < Configuration.max_concurrency config" "Configuration.max_concurrency config < size_modulus" using m by (simp_all add: machine_ok_def)
  moreover have "lm_max_concurrency lm = Configuration.max_concurrency config \<and> 0 < lm_node_count lm \<and>
      (\<forall>w<lm_max_concurrency lm. thread_mapping lm w < lm_node_count lm)"
  proof (cases "affinity config = AffinityNONE")
    case True
    then have "lm = default_locality_manager\<lparr>lm_max_concurrency := Configuration.max_concurrency config\<rparr>"
      using lm by (simp add: make_locality_manager_def)
    then show ?thesis by (simp add: default_locality_manager_def thread_mapping_def)
  next
    case False
    have t: "topology_ok topo" "0 < total_processing_unit_count topo" "0 < Configuration.max_concurrency config"
      using m by (simp_all add: machine_ok_def)
    from make_locality_manager_ok [OF t(1,2) False t(3)] have ok: "locality_ok config topo lm" using lm by auto
    then show ?thesis using t by (auto simp: locality_ok_def thread_mapping_def topology_ok_def)
  qed
  ultimately show "shape_ok (make_scheduler lm :: 'c scheduler)" "lm_max_concurrency lm = Configuration.max_concurrency config"
    by (simp_all add: shape_ok_def make_scheduler_def Let_def)
qed

lemma make_context_parts:
  assumes "make_context topo config fg = Some (ok ctx)"
  shows "build_logical_graph fg config = ok (xc_logical_graph ctx)" "make_locality_manager config topo = Some (xc_locality_manager ctx)"
    "xc_scheduler ctx = make_scheduler (xc_locality_manager ctx)" "xc_configuration ctx = config"
  using assms by (auto simp: make_context_def build_context_def throw_def ok_def split: sum.splits)

lemma has_cycle_built: "has_cycle (built_graph ops) = Some (\<not> acyclic (flow_edges (built_graph ops)))"
  unfolding has_cycle_def by (rule has_cycle_fuel_correct [OF built_graph_ok]) simp

lemma accepted_graph:
  "context_set_flow_graph (built_graph ops) x =
     Some (if acyclic (flow_edges (built_graph ops)) then ok (set_flow_graph (built_graph ops) x) else throw RoutingError)"
  by (simp add: context_set_flow_graph_def has_cycle_built)

text \<open>
  C36: the context refuses a flow graph with a cycle and accepts every other. When a graph it accepted is
  executed, creating the physical tasks fails no assertion, and the workers start from a state of the
  scheduler's machine with every task committed and dependencies without a cycle, in which they are never
  stuck.
\<close>
theorem accepted_graph_starts_execution:
  fixes ctx :: "'m execution_context"
  assumes "make_context topo config (built_graph ops) = Some (ok ctx)" and "machine_ok topo config" and "uniform_draw draw"
    and "3 * length (lg_tasks (xc_logical_graph ctx)) + length (lg_edges (xc_logical_graph ctx)) + 3 < size_modulus"
  shows "(case context_set_flow_graph (built_graph ops) x of
      Some (Inr x') \<Rightarrow> xr_flow_graph x' = built_graph ops \<and>
        (\<exists>pg m. prepare_program draw u ctx = ok pg \<and> pg_scheduler pg = sch m \<and> reachable (xc_locality_manager ctx) False m \<and>
           uncommitted m = {} \<and> acyclic (depends m) \<and> length (ex_workers (start_workers ctx pg)) = lm_max_concurrency (xc_locality_manager ctx))
    | Some (Inl e) \<Rightarrow> e = RoutingError \<and> \<not> acyclic (flow_edges (built_graph ops))
    | None \<Rightarrow> False)"
proof (cases "acyclic (flow_edges (built_graph ops))")
  case True
  note p = make_context_parts [OF assms(1)]
  let ?g = "xc_logical_graph ctx" and ?lm = "xc_locality_manager ctx"
  have c: "has_cycle (built_graph ops) = Some False"
    using True by (simp add: has_cycle_built)
  note s = make_locality_manager_shape [OF assms(2) p(2)]
  have "well_built (built_graph ops) config ?g" by (rule built_logical_graph_ok [OF p(1)])
  then have e: "edges_match ?g" by (simp add: well_built_def frame_ok_def)
  from create_physical_tasks_ok [OF built_logical_graph_acyclic [OF c p(1)] e s(1) assms(3,4)]
  obtain g' m where m: "create_physical_tasks draw ?g (make_scheduler ?lm) = Some (g', sch m)" "reachable ?lm False m"
      "uncommitted m = {}" "acyclic (depends m)"
    by blast
  then show ?thesis
    using m True s(2) p by (auto simp: accepted_graph prepare_program_def set_flow_graph_def start_workers_def ok_def)
next
  case False
  then show ?thesis by (simp add: accepted_graph throw_def)
qed

theorem accepted_graph_starts_execution_witness:
  "\<exists>(ctx :: nat execution_context) pg m.
     make_context sample_topology example_configuration (built_graph example_ops) = Some (ok ctx) \<and>
     prepare_program (\<lambda>lo hi. lo) (0 :: nat) ctx = ok pg \<and> pg_scheduler pg = sch m \<and> reachable (xc_locality_manager ctx) False m \<and>
     uncommitted m = {} \<and> acyclic (depends m)"
proof -
  obtain g :: "nat logical_graph" where g: "build_logical_graph (built_graph example_ops) example_configuration = ok g"
    "edge_ends g = [((0, 0), (2, 0)), ((2, 0), (1, 0))]" "length (lg_tasks g) = 3"
    by (rule example_build)
  let ?config = example_configuration and ?lm = "default_locality_manager\<lparr>lm_max_concurrency := 1\<rparr>"
  have lm: "make_locality_manager ?config sample_topology = Some ?lm"
    by (simp add: make_locality_manager_def example_configuration_def)
  obtain ctx :: "nat execution_context" where ctx: "make_context sample_topology ?config (built_graph example_ops) = Some (ok ctx)"
      "xc_logical_graph ctx = g"
    using g(1) lm by (simp add: make_context_def build_context_def ok_def)
  have m: "machine_ok sample_topology ?config"
    using sample_topology_ok by (simp add: machine_ok_def example_configuration_def size_modulus_def)
  have "length (lg_edges g) = length (edge_ends g)" by (simp add: edge_ends_def)
  then have small: "3 * length (lg_tasks (xc_logical_graph ctx)) + length (lg_edges (xc_logical_graph ctx)) + 3 < size_modulus"
    using g ctx(2) by (simp add: size_modulus_def)
  have "context_set_flow_graph (built_graph example_ops) (make_executor sample_topology :: (nat, nat) executor) =
      Some (ok (set_flow_graph (built_graph example_ops) (make_executor sample_topology)))"
    using example_has_no_cycle by (simp add: context_set_flow_graph_def)
  with accepted_graph_starts_execution [where x = "make_executor sample_topology :: (nat, nat) executor" and u = "0 :: nat",
      OF ctx(1) m uniform_draw_lo small]
  show ?thesis using ctx(1) by (auto simp: ok_def)
qed

subsection \<open>The end of an execution\<close>

text \<open>A call keeps an exception that was recorded.\<close>

definition keeps_exception :: "('m, 'u) effect \<Rightarrow> bool" where
  "keeps_exception f \<longleftrightarrow> (\<forall>e. keeps (\<lambda>pg. cancellation (pg_scheduler pg) = Some e) f)"

lemma keeps_exceptionD: "keeps_exception f \<Longrightarrow> cancellation (pg_scheduler pg) = Some e \<Longrightarrow> f pg = (r, pg') \<Longrightarrow> cancellation (pg_scheduler pg') = Some e"
  unfolding keeps_exception_def using keepsD [of "\<lambda>pg. cancellation (pg_scheduler pg) = Some e"] by blast

interpretation recorded: task_invariant "\<lambda>pg. cancellation (pg_scheduler pg) = Some e" for e
  by unfold_locales simp

lemma keeps_exception_global_cancel:
  "(\<And>t. keeps_exception (cb_global_finalize (procs this) t)) \<Longrightarrow> keeps_exception (global_cancel env procs this)"
  by (simp add: keeps_exception_def recorded.keeps_global_cancel)

lemma protect_keeps: "keeps_exception f \<Longrightarrow> cancellation (pg_scheduler pg) = Some e \<Longrightarrow> cancellation (pg_scheduler (protect f pg)) = Some e"
  by (auto simp: protect_def notify_program_def notify_exception_def notify_all_cancellation cm_notify_exception_def
      split: prod.split option.split dest: keeps_exceptionD)

lemma cancel_tasks_keeps:
  assumes "\<And>this t. keeps_exception (cb_global_finalize (procs this) t)" "cancellation (pg_scheduler pg) = Some e"
  shows "cancellation (pg_scheduler (cancel_tasks env procs ts pg)) = Some e"
  using assms(2)
proof (induction ts arbitrary: pg)
  case (Cons this ts)
  then show ?case using protect_keeps [OF keeps_exception_global_cancel [OF assms(1)]] by simp
qed simp

text \<open>
  C37: when the workers have left, an execution that was cancelled reports the exception that was recorded
  first, whatever the finalisers throw while it cancels, and writes no profile. One that was not
  cancelled reports no exception, and its profile contains the log of every worker that flushed and of the
  executor.
\<close>
theorem execution_reports_first_exception:
  assumes "\<forall>this t. keeps_exception (cb_global_finalize (procs this) t)" and "logged cs events"
  shows "fst (finish_execution env procs events ex) =
    (case cancellation (pg_scheduler (ex_program ex)) of
       Some e \<Rightarrow> throw e
     | None \<Rightarrow> ok (map_option (\<lambda>l. dump (l\<lparr>pl_event_jsons := map_emplace (length (ex_workers ex)) (calls_text cs) (pl_event_jsons l)\<rparr>))
                 (ex_profile ex)))"
proof (cases "cancellation (pg_scheduler (ex_program ex))")
  case None
  then show ?thesis using logged_text [OF assms(2)]
    by (simp add: finish_execution_def is_cancelled_def cm_is_cancelled_def flush_thread_local_log_def Let_def split: option.split)
next
  case (Some e)
  let ?pg = "cancel_tasks env procs [0..<length (pg_tasks (ex_program ex))] (ex_program ex)"
  have "cancellation (pg_scheduler ?pg) = Some e" using cancel_tasks_keeps [OF _ Some] assms(1) by blast
  then show ?thesis using Some
    by (simp add: finish_execution_def is_cancelled_def cm_is_cancelled_def rethrow_exception_def cm_rethrow_exception_def Let_def)
qed

theorem execution_reports_first_exception_witness:
  "fst (finish_execution idle_environment (\<lambda>_. idle_callbacks) (enable (\<lambda>_. 0) new_event_logger)
     (start_execution 1 None failed_program)) = throw (User_exception 1)"
proof -
  have keeps: "\<forall>this t. keeps_exception (cb_global_finalize idle_callbacks t)"
    by (simp add: idle_callbacks_def keeps_exception_def keeps_basic)
  have "logged [] (enable (\<lambda>_. 0) new_event_logger)" unfolding logged_def by (intro exI [of _ "\<lambda>_. 0"] exI [of _ "[]"]) simp
  from execution_reports_first_exception [OF keeps this, of idle_environment "start_execution 1 None failed_program"]
  show ?thesis
    by (simp add: start_execution_def failed_program_def notify_exception_def notify_all_cancellation cm_notify_exception_def
        make_scheduler_def Let_def)
qed

subsection \<open>The protocol of execute and wait\<close>

text \<open>What a client and the thread of the executor do, in the order it happens.\<close>

datatype ('m, 'u) context_event =
    Set_graph "flow_graph"
  | Set_configuration "configuration"
  | Add_observer "('m, 'u) thread_observer"
  | Execute
  | Thread_end "string option result"
  | Wait

text \<open>
  The context with the number of executions started so far, the results with which their threads ended and what
  the calls of \<open>wait\<close> that joined a thread reported. A refused call changes nothing; the end of a thread needs
  a running thread, and a call of \<open>wait\<close> that blocks is not part of the order yet.
\<close>

record ('m, 'u) client =
  cl_context :: "('m, 'u) executor"
  cl_started :: nat
  cl_ended :: "exn option list"
  cl_reported :: "exn option list"

definition thrown :: "'a result \<Rightarrow> exn option" where
  "thrown r = (case r of Inl e \<Rightarrow> Some e | Inr _ \<Rightarrow> None)"

fun client_step :: "('m, 'u) context_event \<Rightarrow> ('m, 'u) client \<Rightarrow> ('m, 'u) client" where
  "client_step (Set_graph g) c =
     (case context_set_flow_graph g (cl_context c) of Some (Inr x) \<Rightarrow> c\<lparr>cl_context := x\<rparr> | _ \<Rightarrow> c)"
| "client_step (Set_configuration k) c = c\<lparr>cl_context := executor_set_configuration k (cl_context c)\<rparr>"
| "client_step (Add_observer ob) c = c\<lparr>cl_context := add_thread_observer ob (cl_context c)\<rparr>"
| "client_step Execute c =
     (case execute (cl_context c) of Inl _ \<Rightarrow> c | Inr x \<Rightarrow> c\<lparr>cl_context := x, cl_started := cl_started c + 1\<rparr>)"
| "client_step (Thread_end r) c =
     (if xr_thread (cl_context c) = Executing
      then c\<lparr>cl_context := thread_ends r (cl_context c), cl_ended := cl_ended c @ [thrown r]\<rparr>
      else c)"
| "client_step Wait c =
     (case wait (cl_context c) of
        None \<Rightarrow> c
      | Some (r, x) \<Rightarrow>
          (if xr_thread (cl_context c) = No_thread then c
           else c\<lparr>cl_context := x, cl_reported := cl_reported c @ [thrown r]\<rparr>))"

definition new_client :: "topology \<Rightarrow> ('m, 'u) client" where
  "new_client topo = \<lparr>cl_context = make_executor topo, cl_started = 0, cl_ended = [], cl_reported = []\<rparr>"

definition client_inv :: "('m, 'u) client \<Rightarrow> bool" where
  "client_inv c \<longleftrightarrow>
     cl_started c = length (cl_ended c) + (if xr_thread (cl_context c) = Executing then 1 else 0) \<and>
     cl_ended c = cl_reported c @ (if xr_thread (cl_context c) = Ended then [xr_thrown_exception (cl_context c)] else []) \<and>
     (xr_thread (cl_context c) = Executing \<longrightarrow> xr_thrown_exception (cl_context c) = None)"

lemma context_set_flow_graph_thread:
  "context_set_flow_graph g x = Some (Inr x') \<Longrightarrow> xr_thread x' = xr_thread x \<and> xr_thrown_exception x' = xr_thrown_exception x"
  by (auto simp: context_set_flow_graph_def set_flow_graph_def throw_def ok_def split: if_splits)

lemma client_step_inv: "client_inv c \<Longrightarrow> client_inv (client_step ev c)"
proof (cases ev)
  case (Set_graph g)
  then show "client_inv c \<Longrightarrow> ?thesis"
    by (auto simp: client_inv_def dest: context_set_flow_graph_thread split: option.split sum.split)
qed (auto simp: client_inv_def executor_set_configuration_def add_thread_observer_def execute_def thread_ends_def wait_def thrown_def
    throw_def ok_def Let_def split: option.split sum.split thread_state.splits)

text \<open>
  C38: whatever a client calls and whenever the threads end, every execution is reported by exactly one
  \<open>wait\<close>, in the order they were started, with its own exception: the results reported are those of the
  executions that ended, except the last one while nobody has waited for it, and at most one more was started.
  A call of \<open>execute\<close> in between is refused, and so is \<open>wait\<close> without an execution.
\<close>
theorem executions_reported_once:
  "let c = fold client_step evs (new_client topo); x = cl_context c
   in cl_ended c = cl_reported c @ (if xr_thread x = Ended then [xr_thrown_exception x] else []) \<and>
      cl_started c = length (cl_ended c) + (if xr_thread x = Executing then 1 else 0) \<and>
      execute x = (if xr_thread x = No_thread then ok (x\<lparr>xr_thrown_exception := None, xr_thread := Executing\<rparr>) else throw Runtime_error) \<and>
      map_option fst (wait x) =
        (case xr_thread x of No_thread \<Rightarrow> Some (throw System_error) | Executing \<Rightarrow> None
         | Ended \<Rightarrow> Some (case last (cl_ended c) of None \<Rightarrow> ok () | Some e \<Rightarrow> throw e))"
proof -
  have "client_inv (fold client_step evs c)" if "client_inv c" for c :: "('a, 'b) client"
    using that by (induction evs arbitrary: c) (simp_all add: client_step_inv)
  then have "client_inv (fold client_step evs (new_client topo :: ('a, 'b) client))"
    by (simp add: new_client_def client_inv_def make_executor_def)
  then show ?thesis
    by (auto simp: client_inv_def Let_def execute_def wait_def split: thread_state.split)
qed

end
