(* ===== verification/GatherData.thy ===== *)
theory GatherData
  imports SerializedBuffer
begin

text \<open>
  What the command of a gather task does to the memory (tasks/gather/gather_logical_task.cpp, lines 65 to 152):
  the values of all its inputs are copied one after the other into one new value-only buffer. The
  locks on the inputs are held until the end and released with the buffers; the release is not part of the
  definitions. Sums of counts of values that are in memory are plain sums.
\<close>

definition value_offset :: "mem \<Rightarrow> serialized_buffer \<Rightarrow> nat \<Rightarrow> size_type" where
  "value_offset m b i = ar_get m (values_offsets m b) i"

definition compute_actual_values_size :: "mem \<Rightarrow> serialized_buffer \<Rightarrow> size_type" where
  "compute_actual_values_size m sb = sz_sub (value_offset m sb (record_count m sb)) (value_offset m sb 0)"

text \<open>The loop over the offsets of the source, and the whole function.\<close>

definition append_offsets :: "serialized_buffer \<Rightarrow> serialized_buffer \<Rightarrow> size_type \<Rightarrow> size_type \<Rightarrow> mem \<Rightarrow> mem" where
  "append_offsets dst src base_count src_count m =
     fold (\<lambda>i m. store_size m (ar_index (values_offsets m dst) (base_count + i))
         (sz_sub (sz_add (value_offset m dst base_count) (value_offset m src i)) (value_offset m src 0)))
       [1..<src_count + 1] m"

definition append_serialized_buffer :: "serialized_buffer \<Rightarrow> serialized_buffer \<Rightarrow> mem \<Rightarrow> mem" where
  "append_serialized_buffer dst src m =
     (let base_count = record_count m dst; src_count = record_count m src;
          m = store_size m (ar_index (values_offsets m dst) 0) 0;
          m = append_offsets dst src base_count src_count m;
          m = memcpy m (values_data dst + value_offset m dst base_count) (values_data src + value_offset m src 0)
                (sz_sub (value_offset m src src_count) (value_offset m src 0))
      in set_record_count dst (base_count + record_count m src) m)"

text \<open>The totals of the first loop and what follows it.\<close>

definition gather_totals :: "mem \<Rightarrow> serialized_buffer list \<Rightarrow> size_type \<times> size_type" where
  "gather_totals m sources =
     fold (\<lambda>src (count, size). (sz_add count (record_count m src), sz_add size (compute_actual_values_size m src))) sources (0, 0)"

definition gather_buffers ::
  "bool \<Rightarrow> nat \<Rightarrow> nat \<Rightarrow> addr \<Rightarrow> serialized_buffer list \<Rightarrow> mem_state \<times> mem \<Rightarrow> (serialized_buffer \<times> mem_state \<times> mem) option" where
  "gather_buffers nd tmp slot p sources st =
     (let (total_record_count, total_record_size) = gather_totals (snd st) sources
      in map_option (\<lambda>(dst, ms, m). (dst, ms, set_record_count dst total_record_count (fold (append_serialized_buffer dst) sources m)))
           (allocate_value_only_buffer nd tmp slot p total_record_count total_record_size invalid_id st))"

text \<open>The inputs are locked in the slots \<open>inputs\<close>.\<close>

definition run_gather_data ::
  "bool \<Rightarrow> nat \<Rightarrow> nat \<Rightarrow> addr \<Rightarrow> nat list \<Rightarrow> mem_state \<times> mem \<Rightarrow> (serialized_buffer \<times> mem_state \<times> mem) option" where
  "run_gather_data nd tmp slot p inputs st =
     gather_buffers nd tmp slot p
       (map (\<lambda>i. make_serialized_buffer (snd st) (Some i) (lmr_pointer nd i (fst st))) inputs) st"

subsection \<open>The values of a buffer\<close>

definition value_at :: "mem \<Rightarrow> serialized_buffer \<Rightarrow> nat \<Rightarrow> u8 list" where
  "value_at m b i = load_bytes m (values_data b + value_offset m b i) (sz_sub (value_offset m b (i + 1)) (value_offset m b i))"

definition values_of :: "mem \<Rightarrow> serialized_buffer \<Rightarrow> u8 list list" where
  "values_of m b = map (value_at m b) [0..<record_count m b]"

text \<open>A source whose offsets do not decrease, and one whose header, offsets and data lie apart from a region.\<close>

definition values_ok :: "mem \<Rightarrow> serialized_buffer \<Rightarrow> bool" where
  "values_ok m b \<longleftrightarrow> (\<forall>i<record_count m b. value_offset m b i \<le> value_offset m b (i + 1))"

definition values_apart :: "mem \<Rightarrow> serialized_buffer \<Rightarrow> addr \<Rightarrow> addr \<Rightarrow> bool" where
  "values_apart m b lo hi \<longleftrightarrow>
     apart (the (values_header b)) 24 lo hi \<and> apart (the (values_offsets_ptr b)) (8 * (record_count m b + 1)) lo hi \<and>
     apart (values_data b + value_offset m b 0) (value_offset m b (record_count m b) - value_offset m b 0) lo hi"

lemma value_offset_simp: "value_offset m b i = load_size m (the (values_offsets_ptr b) + 8 * i)"
  by (simp add: value_offset_def values_offsets_def)

lemma value_offset_bound: "value_offset m b i < size_modulus"
  by (simp add: value_offset_simp load_size_bound)

lemma length_values_of [simp]: "length (values_of m b) = record_count m b"
  by (simp add: values_of_def)

lemma values_ok_mono:
  assumes "values_ok m b" "i \<le> j" "j \<le> record_count m b"
  shows "value_offset m b i \<le> value_offset m b j"
  using assms(2,3)
proof (induction j rule: dec_induct)
  case (step j)
  then show ?case using assms(1) unfolding values_ok_def by (metis Suc_eq_plus1 Suc_le_eq le_trans less_imp_le)
qed simp

lemma length_value_at:
  "values_ok m b \<Longrightarrow> i < record_count m b \<Longrightarrow> length (value_at m b i) = value_offset m b (i + 1) - value_offset m b i"
  by (simp add: value_at_def values_ok_def sz_sub_exact value_offset_bound)

text \<open>The values lie one after the other.\<close>

lemma values_of_bytes:
  assumes "values_ok m b" "n \<le> record_count m b"
  shows "concat (take n (values_of m b)) =
    load_bytes m (values_data b + value_offset m b 0) (value_offset m b n - value_offset m b 0)"
  using assms(2)
proof (induction n)
  case (Suc n)
  let ?o = "value_offset m b"
  have o: "?o 0 \<le> ?o n" "?o n \<le> ?o (n + 1)"
    using values_ok_mono [OF assms(1)] Suc.prems by simp_all
  have "value_at m b n = load_bytes m (values_data b + ?o n) (?o (n + 1) - ?o n)"
    using o(2) by (simp add: value_at_def sz_sub_exact value_offset_bound)
  moreover have "take (Suc n) (values_of m b) = take n (values_of m b) @ [value_at m b n]"
    using Suc.prems by (simp add: values_of_def take_map)
  moreover have "load_bytes m (values_data b + ?o 0) (?o (n + 1) - ?o 0) =
      load_bytes m (values_data b + ?o 0) (?o n - ?o 0) @ load_bytes m (values_data b + ?o n) (?o (n + 1) - ?o n)"
    using load_bytes_add [of m "values_data b + ?o 0" "?o n - ?o 0" "?o (n + 1) - ?o n"] o by simp
  ultimately show ?case using Suc by simp
qed simp

lemma length_concat_values:
  "values_ok m b \<Longrightarrow> n \<le> record_count m b \<Longrightarrow> length (concat (take n (values_of m b))) = value_offset m b n - value_offset m b 0"
  by (simp add: values_of_bytes)

lemma actual_size: "values_ok m b \<Longrightarrow> compute_actual_values_size m b = length (concat (values_of m b))"
  using length_concat_values [of m b "record_count m b"] values_ok_mono [of m b 0 "record_count m b"]
  by (simp add: compute_actual_values_size_def sz_sub_exact value_offset_bound)

lemma values_same:
  assumes same: "same_outside lo hi m m'" and ap: "values_apart m b lo hi" and v: "values_ok m b"
  shows "record_count m' b = record_count m b" "i \<le> record_count m b \<Longrightarrow> value_offset m' b i = value_offset m b i"
    "values_of m' b = values_of m b" "values_ok m' b" "values_apart m' b lo hi"
proof -
  note ap' = ap [unfolded values_apart_def]
  show c: "record_count m' b = record_count m b" unfolding record_count_def
    by (rule load_size_same_outside [OF same], rule apart_sub) (use ap' in auto)
  show off: "value_offset m' b i = value_offset m b i" if "i \<le> record_count m b" for i
    unfolding value_offset_simp
    by (rule load_size_same_outside [OF same], rule apart_sub [of "the (values_offsets_ptr b)"]) (use ap' that in auto)
  have "value_at m' b i = value_at m b i" if i: "i < record_count m b" for i
  proof -
    have o: "value_offset m b 0 \<le> value_offset m b i" "value_offset m b i \<le> value_offset m b (i + 1)"
        "value_offset m b (i + 1) \<le> value_offset m b (record_count m b)"
      using values_ok_mono [OF v] i by simp_all
    have "apart (values_data b + value_offset m b i) (value_offset m b (i + 1) - value_offset m b i) lo hi"
      by (rule apart_sub [of "values_data b + value_offset m b 0"]) (use ap' o in auto)
    then show ?thesis
      using off [of i] off [of "i + 1"] i o(2) load_bytes_same_outside [OF same]
      by (simp add: value_at_def sz_sub_exact value_offset_bound)
  qed
  then show "values_of m' b = values_of m b" by (simp add: values_of_def c)
  show "values_ok m' b" using v off c by (simp add: values_ok_def)
  show "values_apart m' b lo hi" using ap' off c by (simp add: values_apart_def)
qed

subsection \<open>Appending a buffer\<close>

lemma sz_add_sub: "c \<le> b \<Longrightarrow> b < size_modulus \<Longrightarrow> a + (b - c) < size_modulus \<Longrightarrow> sz_sub (sz_add a b) c = a + (b - c)"
proof -
  assume a: "c \<le> b" "b < size_modulus" "a + (b - c) < size_modulus"
  show ?thesis
  proof (cases "a + b < size_modulus")
    case True
    then show ?thesis using a by (simp add: sz_add_exact sz_sub_exact)
  next
    case False
    then have "sz_add a b = a + b - size_modulus"
      using a by (simp add: sz_add_def mod_if)
    then show ?thesis using a False by (simp add: sz_sub_def)
  qed
qed

text \<open>The new buffer with room for \<open>mx\<close> values of \<open>tot\<close> bytes, and what it holds after some sources.\<close>

definition gather_layout :: "addr \<Rightarrow> size_type \<Rightarrow> size_type \<Rightarrow> serialized_buffer \<Rightarrow> bool" where
  "gather_layout p tot mx dst \<longleftrightarrow> values_header dst = Some (p + 16) \<and> values_data dst = p + 48 \<and>
     values_offsets_ptr dst = Some (p + 48 + ceil8 tot) \<and> tot < size_modulus \<and> mx < size_modulus"

definition gathered :: "mem \<Rightarrow> serialized_buffer \<Rightarrow> u8 list list \<Rightarrow> bool" where
  "gathered m dst vs \<longleftrightarrow> record_count m dst = length vs \<and> (vs \<noteq> [] \<longrightarrow> (\<forall>i\<le>length vs. value_offset m dst i = length (concat (take i vs)))) \<and>
     load_bytes m (values_data dst) (length (concat vs)) = concat vs"

lemma length_concat_take: "length (concat (take i vs)) \<le> length (concat vs)"
  by (metis append_take_drop_id concat_append le_add1 length_append)

lemma gathered_values:
  assumes "gathered m dst vs"
  shows "values_of m dst = vs"
proof (rule nth_equalityI)
  show l: "length (values_of m dst) = length vs" using assms by (simp add: gathered_def)
  fix i assume "i < length (values_of m dst)"
  then have i: "i < length vs" using l by simp
  then have o: "value_offset m dst i = length (concat (take i vs))" "value_offset m dst (i + 1) = length (concat (take (i + 1) vs))"
    using assms by (auto simp: gathered_def)
  have t: "take (i + 1) vs = take i vs @ [vs ! i]" using i by (simp add: take_Suc_conv_app_nth)
  have le: "length (concat (take (i + 1) vs)) \<le> length (concat vs)" by (rule length_concat_take)
  have "sz_sub (value_offset m dst (i + 1)) (value_offset m dst i) = length (vs ! i)"
    using value_offset_bound [of m dst "i + 1"] o t by (simp add: sz_sub_exact)
  moreover have "load_bytes m (values_data dst + length (concat (take i vs))) (length (vs ! i)) = vs ! i"
  proof -
    have split: "concat vs = concat (take i vs) @ vs ! i @ concat (drop (i + 1) vs)"
      using t by (metis append.assoc append_take_drop_id concat.simps concat_append append_Nil2)
    then have n: "length (concat vs) = length (concat (take i vs)) + (length (vs ! i) + length (concat (drop (i + 1) vs)))" by simp
    have "load_bytes m (values_data dst) (length (concat (take i vs))) @
        load_bytes m (values_data dst + length (concat (take i vs))) (length (vs ! i)) @
        load_bytes m (values_data dst + length (concat (take i vs)) + length (vs ! i)) (length (concat (drop (i + 1) vs))) = concat vs"
      using assms by (simp add: gathered_def n flip: load_bytes_add)
    then show ?thesis unfolding split by (metis append_eq_append_conv length_load_bytes)
  qed
  ultimately show "values_of m dst ! i = vs ! i"
    using i l o by (simp add: values_of_def value_at_def)
qed

text \<open>The offsets after the loop.\<close>

lemma append_offsets_correct:
  assumes lay: "gather_layout p tot mx dst" and v: "values_ok m src"
    and ap: "values_apart m src p (p + 48 + ceil8 tot + 8 * (mx + 1))"
    and room: "length vs + record_count m src \<le> mx" "length (concat (vs @ values_of m src)) \<le> tot"
    and offs: "\<forall>i\<le>length vs. value_offset m dst i = length (concat (take i vs))"
    and j: "j \<le> record_count m src"
  defines "m' \<equiv> append_offsets dst src (length vs) j m"
  shows "same_outside (p + 48 + ceil8 tot) (p + 48 + ceil8 tot + 8 * (mx + 1)) m m' \<and>
    (\<forall>i\<le>length vs + j. value_offset m' dst i = length (concat (take i (vs @ values_of m src))))"
  using j unfolding m'_def
proof (induction j)
  case 0
  then show ?case using offs by (simp add: append_offsets_def)
next
  case (Suc j)
  let ?m = "append_offsets dst src (length vs) j m" and ?hi = "p + 48 + ceil8 tot + 8 * (mx + 1)"
  let ?O = "p + 48 + ceil8 tot" and ?ss = "values_of m src"
  have IH: "same_outside ?O ?hi m ?m" "\<forall>i\<le>length vs + j. value_offset ?m dst i = length (concat (take i (vs @ ?ss)))"
    using Suc by simp_all
  have wide: "same_outside p ?hi m ?m" using IH(1) by (simp add: same_outside_def)
  note src = values_same [OF wide ap v]
  let ?x = "length (concat vs) + length (concat (take (Suc j) ?ss))"
  have x: "?x \<le> tot" using room(2) length_concat_take [of "Suc j" ?ss] by simp
  then have x_less: "?x < size_modulus" using lay by (simp add: gather_layout_def)
  have s: "value_offset m src (Suc j) - value_offset m src 0 = length (concat (take (Suc j) ?ss))"
    using length_concat_values [OF v, of "Suc j"] Suc.prems by simp
  have le: "value_offset m src 0 \<le> value_offset m src (Suc j)" by (rule values_ok_mono [OF v]) (use Suc.prems in simp_all)
  have stored: "sz_sub (sz_add (value_offset ?m dst (length vs)) (value_offset ?m src (Suc j))) (value_offset ?m src 0) = ?x"
    using sz_add_sub [OF le value_offset_bound, of "length (concat vs)"] IH(2) src(2) [of "Suc j"] src(2) [of 0] Suc.prems s x_less by simp
  have step: "append_offsets dst src (length vs) (Suc j) m = store_size ?m (?O + 8 * (length vs + Suc j)) ?x"
    using stored lay by (simp add: append_offsets_def values_offsets_def gather_layout_def)
  have "same_outside ?O ?hi ?m (append_offsets dst src (length vs) (Suc j) m)"
    unfolding step by (rule same_outside_store_size) (use room(1) Suc.prems in simp_all)
  moreover have "value_offset (append_offsets dst src (length vs) (Suc j) m) dst i = length (concat (take i (vs @ ?ss)))"
    if i: "i \<le> length vs + Suc j" for i
  proof (cases "i = length vs + Suc j")
    case True
    then show ?thesis
      unfolding step using lay x_less by (simp add: value_offset_simp gather_layout_def mem_simps)
  next
    case False
    then have "i < length vs + Suc j" using i by simp
    then have "load_size (store_size ?m (?O + 8 * (length vs + Suc j)) ?x) (?O + 8 * i) = load_size ?m (?O + 8 * i)"
      by (intro load_size_store_size_disjoint) simp
    then show ?thesis
      unfolding step using IH(2) lay False i by (simp add: value_offset_simp gather_layout_def)
  qed
  ultimately show ?case using same_outside_trans [OF IH(1)] by simp
qed

lemma append_serialized_buffer_correct:
  assumes lay: "gather_layout p tot mx dst" and v: "values_ok m src"
    and ap: "values_apart m src p (p + 48 + ceil8 tot + 8 * (mx + 1))"
    and room: "length vs + record_count m src \<le> mx" "length (concat (vs @ values_of m src)) \<le> tot"
    and held: "gathered m dst vs"
  shows "same_outside p (p + 48 + ceil8 tot + 8 * (mx + 1)) m (append_serialized_buffer dst src m) \<and>
    gathered (append_serialized_buffer dst src m) dst (vs @ values_of m src)"
proof -
  let ?hi = "p + 48 + ceil8 tot + 8 * (mx + 1)" and ?O = "p + 48 + ceil8 tot" and ?ss = "values_of m src"
  let ?n = "length vs" and ?k = "record_count m src" and ?d = "length (concat vs)"
  have l: "the (values_header dst) = p + 16" "values_data dst = p + 48" "the (values_offsets_ptr dst) = ?O" "mx < size_modulus"
    using lay by (simp_all add: gather_layout_def)
  have tot: "tot \<le> ceil8 tot" by (rule ceil8_bounds)
  have n: "record_count m dst = ?n" using held by (simp add: gathered_def)
  define m1 where "m1 = store_size m ?O 0"
  have s1: "same_outside ?O ?hi m m1" unfolding m1_def by (rule same_outside_store_size) simp_all
  then have w1: "same_outside p ?hi m m1" by (simp add: same_outside_def)
  note src1 = values_same [OF w1 ap v]
  have o1: "\<forall>i\<le>?n. value_offset m1 dst i = length (concat (take i vs))"
  proof (intro allI impI)
    fix i assume "i \<le> ?n"
    then show "value_offset m1 dst i = length (concat (take i vs))"
      using held l by (cases "i = 0") (auto simp: m1_def value_offset_simp gathered_def mem_simps)
  qed
  define m2 where "m2 = append_offsets dst src ?n ?k m1"
  have r2: "?n + record_count m1 src \<le> mx" "length (concat (vs @ values_of m1 src)) \<le> tot" using room src1(1,3) by simp_all
  have "same_outside ?O ?hi m1 m2 \<and> (\<forall>i\<le>?n + ?k. value_offset m2 dst i = length (concat (take i (vs @ ?ss))))"
    using append_offsets_correct [OF lay src1(4,5) r2 o1, of ?k] src1(1,3) by (simp add: m2_def)
  then have s2: "same_outside ?O ?hi m m2" and o2: "\<forall>i\<le>?n + ?k. value_offset m2 dst i = length (concat (take i (vs @ ?ss)))"
    using same_outside_trans [OF s1] by blast+
  have w2: "same_outside p ?hi m m2" using s2 by (simp add: same_outside_def)
  note src2 = values_same [OF w2 ap v]
  have len: "sz_sub (value_offset m2 src ?k) (value_offset m2 src 0) = length (concat ?ss)"
    using length_concat_values [OF src2(4), of ?k] values_ok_mono [OF src2(4), of 0 ?k] src2(1,3)
    by (simp add: sz_sub_exact value_offset_bound)
  have d2: "value_offset m2 dst ?n = ?d" using o2 by simp
  define m3 where "m3 = memcpy m2 (p + 48 + ?d) (values_data src + value_offset m2 src 0) (length (concat ?ss))"
  have s3: "same_outside (p + 48 + ?d) (p + 48 + tot) m2 m3"
    unfolding m3_def by (rule same_outside_memcpy) (use room(2) in simp_all)
  have w3: "same_outside p ?hi m m3"
  proof -
    have "same_outside p ?hi m2 m3" using s3 tot by (auto simp: same_outside_def)
    then show ?thesis by (rule same_outside_trans [OF w2])
  qed
  have "values_of m3 src = ?ss" "record_count m3 src = ?k" using values_same [OF w3 ap v] by simp_all
  have app: "append_serialized_buffer dst src m = set_record_count dst (?n + ?k) m3"
    using values_same(1) [OF w3 ap v] l len d2 n
    by (simp add: append_serialized_buffer_def values_offsets_def m1_def m2_def m3_def Let_def)
  let ?m4 = "set_record_count dst (?n + ?k) m3"
  have s4: "same_outside (p + 32) (p + 40) m3 ?m4"
    unfolding set_record_count_def l by (simp add: same_outside_store_size)
  have "same_outside p ?hi m ?m4"
    using w3 s4 unfolding same_outside_def by auto
  moreover have "gathered ?m4 dst (vs @ ?ss)"
  proof -
    have "record_count ?m4 dst = length (vs @ ?ss)"
      using room(1) l by (simp add: record_count_def set_record_count_def mem_simps)
    moreover have "value_offset ?m4 dst i = length (concat (take i (vs @ ?ss)))" if "i \<le> ?n + ?k" for i
    proof -
      have "value_offset ?m4 dst i = value_offset m3 dst i" "value_offset m3 dst i = value_offset m2 dst i"
        unfolding value_offset_simp l
        by (rule load_size_same_outside [OF s4] load_size_same_outside [OF s3], use tot in \<open>simp add: apart_def\<close>)+
      then show ?thesis using o2 that by simp
    qed
    moreover have "load_bytes ?m4 (p + 48) (?d + length (concat ?ss)) = concat vs @ concat ?ss"
    proof -
      have "load_bytes ?m4 (p + 48) ?d = load_bytes m3 (p + 48) ?d" "load_bytes m3 (p + 48) ?d = load_bytes m2 (p + 48) ?d"
        "load_bytes m2 (p + 48) ?d = load_bytes m (p + 48) ?d"
        by (rule load_bytes_same_outside [OF s4] load_bytes_same_outside [OF s3] load_bytes_same_outside [OF s2],
            use tot room(2) in \<open>simp add: apart_def\<close>)+
      moreover have "load_bytes ?m4 (p + 48 + ?d) (length (concat ?ss)) = load_bytes m3 (p + 48 + ?d) (length (concat ?ss))"
        by (rule load_bytes_same_outside [OF s4]) (simp add: apart_def)
      moreover have "load_bytes m3 (p + 48 + ?d) (length (concat ?ss)) = concat ?ss"
        using values_of_bytes [OF src2(4), of ?k] length_concat_values [OF src2(4), of ?k] src2(1,3)
        by (simp add: m3_def load_bytes_memcpy_same)
      ultimately show ?thesis using held l by (simp add: load_bytes_add gathered_def)
    qed
    ultimately show ?thesis using l by (simp add: gathered_def)
  qed
  ultimately show ?thesis unfolding app by simp
qed

lemma append_all_correct:
  assumes "gather_layout p tot mx dst" "\<forall>src\<in>set sources. values_ok m src \<and> values_apart m src p (p + 48 + ceil8 tot + 8 * (mx + 1))"
    and "length vs + sum_list (map (record_count m) sources) \<le> mx"
    and "length (concat vs) + sum_list (map (\<lambda>src. length (concat (values_of m src))) sources) \<le> tot" and "gathered m dst vs"
  shows "same_outside p (p + 48 + ceil8 tot + 8 * (mx + 1)) m (fold (append_serialized_buffer dst) sources m) \<and>
    gathered (fold (append_serialized_buffer dst) sources m) dst (vs @ concat (map (values_of m) sources))"
  using assms(2-)
proof (induction sources arbitrary: m vs)
  case (Cons src sources)
  let ?hi = "p + 48 + ceil8 tot + 8 * (mx + 1)" and ?m = "append_serialized_buffer dst src m"
  have a: "same_outside p ?hi m ?m" "gathered ?m dst (vs @ values_of m src)"
    using append_serialized_buffer_correct [OF assms(1), of m src vs] Cons.prems by simp_all
  have keep: "values_ok ?m s \<and> values_apart ?m s p ?hi \<and> record_count ?m s = record_count m s \<and> values_of ?m s = values_of m s"
    if "s \<in> set sources" for s
    using values_same [OF a(1), of s] Cons.prems(1) that by simp
  then have maps: "map (record_count ?m) sources = map (record_count m) sources" "map (values_of ?m) sources = map (values_of m) sources"
      "map (\<lambda>s. length (concat (values_of ?m s))) sources = map (\<lambda>s. length (concat (values_of m s))) sources"
    by simp_all
  from Cons.IH [of ?m "vs @ values_of m src"] show ?case
    using keep a(2) maps Cons.prems(2,3) same_outside_trans [OF a(1)] by simp
qed simp

lemma gather_totals_sums:
  assumes "\<forall>src\<in>set sources. values_ok m src" "sum_list (map (record_count m) sources) < size_modulus"
    "sum_list (map (compute_actual_values_size m) sources) < size_modulus"
  shows "gather_totals m sources = (sum_list (map (record_count m) sources), sum_list (map (compute_actual_values_size m) sources))"
proof -
  have "fold (\<lambda>src (count, size). (sz_add count (record_count m src), sz_add size (compute_actual_values_size m src))) sources (c, z) =
      (c + sum_list (map (record_count m) sources), z + sum_list (map (compute_actual_values_size m) sources))"
    if "c + sum_list (map (record_count m) sources) < size_modulus"
      "z + sum_list (map (compute_actual_values_size m) sources) < size_modulus" for c z
    using that by (induction sources arbitrary: c z) (simp_all add: sz_add_exact)
  from this [of 0 0] show ?thesis using assms(2,3) by (simp add: gather_totals_def)
qed

lemma allocated_layout:
  assumes "allocate_value_only_buffer False tmp slot p mx tot node (ms, m) = Some (b, ms', m')" "fits tot mx"
  shows "gather_layout p tot mx b" "record_count m' b = 0"
proof -
  let ?l = "value_only_layout mx tot" and ?sz = "48 + ceil8 tot + 8 * (mx + 1)"
  note l = value_only_layout_exact [OF assms(2)]
  have sz: "?sz < size_modulus"
    using assms(2) ceil8_bounds(2) [of tot] unfolding fits_def distrib_left by linarith
  have b: "b = make_serialized_buffer m' (Some slot) (Some p)" "m' = init_values p ?l mx m"
    using assms(1) by (auto simp: allocate_value_only_buffer_def Let_def)
  have ld: "load_size m' p = 0" "load_size m' (p + 8) = ?sz - 16" "load_size m' (p + 16) = ceil8 tot" "load_size m' (p + 24) = mx"
      "load_size m' (p + 32) = 0"
    unfolding b(2) by (rule init_values_loads [of ?l "ceil8 tot" ?sz]; use sz in \<open>simp add: l\<close>)+
  have "tot < size_modulus" "mx < size_modulus" using assms(2) by (simp_all add: fits_def)
  then show "gather_layout p tot mx b" "record_count m' b = 0"
    using parse_values_only_header [OF ld(1-4), of "Some slot"] sz ld(5)
    by (simp_all add: b(1) gather_layout_def values_data_def record_count_def null_buffer_def add.assoc)
qed

text \<open>Writing the record count again changes nothing else.\<close>

lemma set_count_gathered:
  assumes lay: "gather_layout p tot mx b" and g: "gathered m b vs"
  shows "same_outside p (p + 40) m (set_record_count b (length vs) m)" "gathered (set_record_count b (length vs) m) b vs"
proof -
  have H: "the (values_header b) = p + 16" "values_data b = p + 48" "the (values_offsets_ptr b) = p + 48 + ceil8 tot"
    using lay by (simp_all add: gather_layout_def)
  let ?m = "set_record_count b (length vs) m"
  have n: "length vs < size_modulus" using g load_size_bound [of m "p + 16 + 16"] H by (simp add: gathered_def record_count_def)
  show same: "same_outside p (p + 40) m ?m" unfolding set_record_count_def H by (rule same_outside_store_size) simp_all
  have "value_offset ?m b i = value_offset m b i" for i
    unfolding value_offset_simp H by (rule load_size_same_outside [OF same]) (simp add: apart_def)
  moreover have "load_bytes ?m (p + 48) k = load_bytes m (p + 48) k" for k
    by (rule load_bytes_same_outside [OF same]) (simp add: apart_def)
  moreover have "record_count ?m b = length vs" using n by (simp add: record_count_def set_record_count_def mem_simps)
  ultimately show "gathered ?m b vs" using g H by (simp add: gathered_def)
qed

subsection \<open>Properties\<close>

text \<open>
  C39: a gather task copies all values of all its inputs, in the order of the inputs, into one new buffer that
  holds nothing else; the buffer is exactly as large as they need and nothing outside it is written,
  so the inputs are as before.
\<close>
theorem gather_concatenates:
  assumes "mem_inv ms" and "fresh_mref tmp ms" and "fresh_locked slot ms" and "next_identifier ms < invalid_id"
    and "tot = sum_list (map (compute_actual_values_size m) sources)" and "mx = sum_list (map (record_count m) sources)" and "fits tot mx"
    and "\<forall>src\<in>set sources. values_ok m src \<and> values_apart m src p (p + 48 + ceil8 tot + 8 * (mx + 1))"
  shows "\<exists>b ms' m'. gather_buffers False tmp slot p sources (ms, m) = Some (b, ms', m') \<and> mem_inv ms' \<and>
    record_count m' b = mx \<and> values_of m' b = concat (map (values_of m) sources) \<and>
    map_option buffer_size (objects ms' (next_identifier ms)) = Some (48 + ceil8 tot + 8 * (mx + 1)) \<and>
    same_outside p (p + 48 + ceil8 tot + 8 * (mx + 1)) m m'"
proof -
  let ?hi = "p + 48 + ceil8 tot + 8 * (mx + 1)"
  have "mx < size_modulus" "tot < size_modulus" using assms(7) by (simp_all add: fits_def)
  then have totals: "gather_totals m sources = (mx, tot)" using gather_totals_sums [of sources m] assms(5,6,8) by simp
  from allocate_values_ok [OF assms(1-4,7), of p invalid_id m]
  obtain b ms' m1 where a: "allocate_value_only_buffer False tmp slot p mx tot invalid_id (ms, m) = Some (b, ms', m1)" "mem_inv ms'"
      "map_option buffer_size (objects ms' (next_identifier ms)) = Some (48 + ceil8 tot + 8 * (mx + 1))"
      "\<forall>x. x < p \<or> p + 40 \<le> x \<longrightarrow> m1 x = m x"
    by blast
  note lay = allocated_layout [OF a(1) assms(7)]
  have s1: "same_outside p ?hi m m1" using a(4) by (simp add: same_outside_def)
  have keep: "values_ok m1 s \<and> values_apart m1 s p ?hi \<and> record_count m1 s = record_count m s \<and> values_of m1 s = values_of m s"
    if "s \<in> set sources" for s
    using values_same [OF s1, of s] assms(8) that by simp
  have sizes: "map (compute_actual_values_size m) sources = map (\<lambda>s. length (concat (values_of m s))) sources"
    using actual_size assms(8) by simp
  have maps: "map (record_count m1) sources = map (record_count m) sources" "map (values_of m1) sources = map (values_of m) sources"
      "map (\<lambda>s. length (concat (values_of m1 s))) sources = map (\<lambda>s. length (concat (values_of m s))) sources"
    using keep by simp_all
  let ?m2 = "fold (append_serialized_buffer b) sources m1"
  have "gathered m1 b []" using lay(2) by (simp add: gathered_def)
  with append_all_correct [OF lay(1), of sources m1 "[]"] have
    s2: "same_outside p ?hi m1 ?m2" and g: "gathered ?m2 b (concat (map (values_of m) sources))"
    using keep maps assms(5,6) sizes by simp_all
  have n: "length (concat (map (values_of m) sources)) = mx"
    by (simp add: assms(6) length_concat o_def)
  let ?m3 = "set_record_count b mx ?m2"
  have s3: "same_outside p (p + 40) ?m2 ?m3" and "gathered ?m3 b (concat (map (values_of m) sources))"
    using set_count_gathered [OF lay(1) g] n by simp_all
  moreover have "same_outside p ?hi m ?m3"
    using s1 s2 s3 unfolding same_outside_def by auto
  moreover have "gather_buffers False tmp slot p sources (ms, m) = Some (b, ms', ?m3)"
    by (simp add: gather_buffers_def totals a(1))
  ultimately show ?thesis
    using a(2,3) gathered_values n by (fastforce simp: gathered_def)
qed

text \<open>One source with the values of one and two bytes, used twice.\<close>

definition sample_values :: serialized_buffer where
  "sample_values = null_buffer\<lparr>values_header := Some 0, values_offsets_ptr := Some 24, values_data_ptr := Some 48\<rparr>"

definition sample_values_mem :: mem where
  "sample_values_mem = store_size (store_size (store_size (store_size (store_bytes (\<lambda>_. 0) 48 [7, 8, 9]) 16 2) 24 0) 32 1) 40 3"

lemma sample_values_reads:
  "record_count sample_values_mem sample_values = 2" "value_offset sample_values_mem sample_values 0 = 0"
  "value_offset sample_values_mem sample_values 1 = 1" "value_offset sample_values_mem sample_values 2 = 3"
  "values_data sample_values = 48"
  by (simp_all add: sample_values_def sample_values_mem_def null_buffer_def record_count_def value_offset_simp values_data_def
      mem_simps size_modulus_def)

lemma sample_values_contents:
  "values_of sample_values_mem sample_values = [[7], [8, 9]]" "compute_actual_values_size sample_values_mem sample_values = 3"
proof -
  have b: "load_bytes sample_values_mem 48 1 = [7]" "load_bytes sample_values_mem 49 2 = [8, 9]"
    by (simp_all add: sample_values_mem_def mem_simps) (simp_all add: load_bytes_def store_bytes_def upt_rec)
  have s: "sz_sub 1 0 = 1" "sz_sub 3 1 = 2" "sz_sub 3 0 = 3" by (simp_all add: sz_sub_def size_modulus_def)
  show "values_of sample_values_mem sample_values = [[7], [8, 9]]"
    using b s sample_values_reads by (simp add: values_of_def value_at_def upt_rec numeral_2_eq_2)
  show "compute_actual_values_size sample_values_mem sample_values = 3"
    using s sample_values_reads by (simp add: compute_actual_values_size_def)
qed

theorem gather_concatenates_witness:
  "\<exists>b ms' m'. gather_buffers False 0 0 4096 [sample_values, sample_values] (new_memory_manager AffinityNONE 1 1, sample_values_mem) =
     Some (b, ms', m') \<and> record_count m' b = 4 \<and> values_of m' b = [[7], [8, 9], [7], [8, 9]]"
proof -
  note c = sample_values_reads sample_values_contents
  have "values_ok sample_values_mem sample_values"
    using c by (auto simp: values_ok_def less_Suc_eq numeral_2_eq_2)
  moreover have "values_apart sample_values_mem sample_values 4096 (4096 + 48 + ceil8 6 + 8 * (4 + 1))"
    using c by (simp add: values_apart_def apart_def) (simp add: sample_values_def values_data_def null_buffer_def)
  moreover have "fits 6 4" by (simp add: fits_def size_modulus_def)
  ultimately show ?thesis
    using gather_concatenates [OF new_memory_manager_ok [of AffinityNONE 1 1] fresh_start, of 6 sample_values_mem
        "[sample_values, sample_values]" 4 4096] c by fastforce
qed

end
