(* ===== verification/ValueSortData.thy ===== *)
theory ValueSortData
  imports ShuffleSort GatherData Processor
begin

text \<open>
  What the command of a value sort task does to the memory (tasks/value_sort/value_sort_logical_task.cpp, lines
  119 to 174): it copies the keys and the group offsets of a grouped buffer and the values of each
  group in the order of the comparator. \<open>std::sort\<close> is the argument \<open>std_sort\<close>, of which the lemmas
  use what the standard says. The boundaries between values are not in the public interface: an input
  shows the bytes of each group.
\<close>

definition group_offset :: "mem \<Rightarrow> serialized_buffer \<Rightarrow> nat \<Rightarrow> size_type" where
  "group_offset m b g = ar_get m (value_group_offsets m b) g"

text \<open>The loop that collects the values of a group.\<close>

partial_function (option) collect_group ::
  "mem \<Rightarrow> serialized_buffer \<Rightarrow> size_type \<Rightarrow> nat \<Rightarrow> (addr \<times> nat) list \<Rightarrow> ((addr \<times> nat) list \<times> nat) option" where
  "collect_group m src bound v ps =
     (if value_offset m src v < bound
      then collect_group m src bound (v + 1) (ps @ [(values_data src + value_offset m src v, v)])
      else Some (ps, v))"

declare collect_group.simps [code]

text \<open>The loop that copies them.\<close>

definition put_value :: "serialized_buffer \<Rightarrow> serialized_buffer \<Rightarrow> addr \<times> nat \<Rightarrow> nat \<times> mem \<Rightarrow> nat \<times> mem" where
  "put_value src dst q wm =
     (let (a, i) = q; (w, m) = wm;
          len = sz_sub (value_offset m src (i + 1)) (value_offset m src i);
          m = memcpy m (values_data dst + value_offset m dst w) a len
      in (w + 1, store_size m (ar_index (values_offsets m dst) (w + 1)) (sz_add (value_offset m dst w) len)))"

type_synonym std_sort = "(addr \<times> nat \<Rightarrow> addr \<times> nat \<Rightarrow> bool) \<Rightarrow> (addr \<times> nat) list \<Rightarrow> (addr \<times> nat) list"

definition sort_group ::
  "std_sort \<Rightarrow> comparator \<Rightarrow> serialized_buffer \<Rightarrow> serialized_buffer \<Rightarrow> nat \<Rightarrow> nat \<times> mem \<Rightarrow> (nat \<times> mem) option" where
  "sort_group std_sort cmp src dst g vm =
     (let (v, m) = vm
      in map_option (\<lambda>(ps, v'). (v', snd (fold (put_value src dst) (std_sort (\<lambda>a b. cmp m (fst a) (fst b)) ps) (v, m))))
           (collect_group m src (group_offset m src (g + 1)) v []))"

definition sort_all_groups ::
  "std_sort \<Rightarrow> comparator \<Rightarrow> serialized_buffer \<Rightarrow> serialized_buffer \<Rightarrow> size_type \<Rightarrow> mem \<Rightarrow> (nat \<times> mem) option" where
  "sort_all_groups std_sort cmp src dst groups m =
     fold (\<lambda>g st. Option.bind st (sort_group std_sort cmp src dst g)) [0..<groups]
       (Some (0, store_size m (ar_index (values_offsets m dst) 0) 0))"

text \<open>Keys and both tables of the groups are copied as they are.\<close>

definition copy_groups :: "serialized_buffer \<Rightarrow> serialized_buffer \<Rightarrow> size_type \<Rightarrow> size_type \<Rightarrow> mem \<Rightarrow> mem" where
  "copy_groups src dst keys_size groups m =
     (let m = memcpy m (keys_data dst) (keys_data src) keys_size;
          m = memcpy m (m_first (keys_offsets m dst)) (m_first (keys_offsets m src)) ((groups + 1) * 8)
      in memcpy m (m_first (value_group_offsets m dst)) (m_first (value_group_offsets m src)) ((groups + 1) * 8))"

definition value_sort_buffer ::
  "std_sort \<Rightarrow> comparator \<Rightarrow> bool \<Rightarrow> nat \<Rightarrow> nat \<Rightarrow> addr \<Rightarrow> serialized_buffer \<Rightarrow> mem_state \<times> mem \<Rightarrow>
   (serialized_buffer \<times> mem_state \<times> mem) option" where
  "value_sort_buffer std_sort cmp nd tmp slot p src st =
     (let value_count = record_count (snd st) src; groups = group_count (snd st) src;
          keys_size = keys_data_size (snd st) src; values_size = values_data_size (snd st) src
      in Option.bind (allocate_grouped_buffer nd tmp slot p value_count groups keys_size values_size invalid_id st)
           (\<lambda>(dst, ms, m). map_option (\<lambda>vm. (dst, ms, snd vm))
              (sort_all_groups std_sort cmp src dst groups (copy_groups src dst keys_size groups m))))"

subsection \<open>What is known of the sort and the comparator\<close>

text \<open>A strict weak ordering of the pointers \<open>A\<close>.\<close>

definition strict_weak :: "('a \<Rightarrow> 'a \<Rightarrow> bool) \<Rightarrow> 'a set \<Rightarrow> bool" where
  "strict_weak lt A \<longleftrightarrow> (\<forall>a\<in>A. \<forall>b\<in>A. lt a b \<longrightarrow> \<not> lt b a) \<and>
     (\<forall>a\<in>A. \<forall>b\<in>A. \<forall>c\<in>A. lt a c \<longrightarrow> lt a b \<or> lt b c)"

definition sorts_pointers :: "std_sort \<Rightarrow> bool" where
  "sorts_pointers std_sort \<longleftrightarrow> (\<forall>lt ps. strict_weak lt (set ps) \<longrightarrow>
     mset (std_sort lt ps) = mset ps \<and> sorted_wrt (\<lambda>x y. \<not> lt y x) (std_sort lt ps))"

text \<open>Values with their addresses, and a reordering of them that is sorted.\<close>

fun located :: "addr \<Rightarrow> u8 list list \<Rightarrow> (addr \<times> u8 list) list" where
  "located a [] = []"
| "located a (v # vs) = (a, v) # located (a + length v) vs"

definition sorted_values :: "(addr \<Rightarrow> addr \<Rightarrow> bool) \<Rightarrow> addr \<Rightarrow> u8 list list \<Rightarrow> u8 list list \<Rightarrow> bool" where
  "sorted_values lt base vs ws \<longleftrightarrow>
     (\<exists>ps. mset ps = mset (located base vs) \<and> sorted_wrt (\<lambda>x y. \<not> lt (fst y) (fst x)) ps \<and> ws = map snd ps)"

lemma map_snd_located: "map snd (located a vs) = vs"
  by (induction a vs rule: located.induct) simp_all

lemma sorted_values_mset: "sorted_values lt base vs ws \<Longrightarrow> mset ws = mset vs"
  by (metis map_snd_located mset_map sorted_values_def)

lemma bytes_of_mset: "mset ws = mset vs \<Longrightarrow> bytes_of ws = bytes_of vs"
  by (metis bytes_of_def mset_map sum_mset_sum_list)

text \<open>Loading inside of copied memory.\<close>

lemma load_bytes_memcpy_inside: "j + k \<le> n \<Longrightarrow> load_bytes (memcpy m d s n) (d + j) k = load_bytes m (s + j) k"
  by (rule nth_equalityI) (auto simp: memcpy_def store_bytes_def add.assoc)

lemma load_size_memcpy_inside: "j + 8 \<le> n \<Longrightarrow> load_size (memcpy m d s n) (d + j) = load_size m (s + j)"
  by (simp add: load_size_def load_bytes_memcpy_inside)

subsection \<open>The source\<close>

text \<open>A grouped buffer with the groups \<open>gs\<close>, apart from a region.\<close>

definition holds_groups :: "mem \<Rightarrow> serialized_buffer \<Rightarrow> kv_group list \<Rightarrow> bool" where
  "holds_groups m src gs \<longleftrightarrow> group_count m src = length gs \<and> record_count m src = length (concat (map snd gs)) \<and>
     written m (arrays_of_buffer m src) gs (concat (map snd gs)) \<and>
     key_bytes gs \<le> keys_data_size m src \<and> value_bytes gs \<le> values_data_size m src"

definition groups_apart :: "mem \<Rightarrow> serialized_buffer \<Rightarrow> addr \<Rightarrow> addr \<Rightarrow> bool" where
  "groups_apart m src lo hi \<longleftrightarrow> values_apart m src lo hi \<and> apart (keys_data src) (keys_data_size m src) lo hi \<and>
     apart (the (keys_offsets_ptr src)) (8 * (group_count m src + 1)) lo hi \<and>
     apart (the (values_group_offsets src)) (8 * (group_count m src + 1)) lo hi"

lemma group_offset_simp: "group_offset m b g = load_size m (the (values_group_offsets b) + 8 * g)"
  by (simp add: group_offset_def value_group_offsets_def)

lemma holds_groups_values:
  assumes "holds_groups m src gs"
  defines "vals \<equiv> concat (map snd gs)"
  shows "record_count m src = length vals" "values_of m src = vals" "values_ok m src"
    "k \<le> length vals \<Longrightarrow> value_offset m src k = bytes_of (take k vals)"
    "k \<le> length gs \<Longrightarrow> group_offset m src k = value_bytes (take k gs)"
proof -
  show c: "record_count m src = length vals" using assms by (simp add: holds_groups_def)
  show off: "value_offset m src k = bytes_of (take k vals)" if "k \<le> length vals" for k
    using assms that by (simp add: holds_groups_def written_def arrays_of_buffer_def values_offsets_def value_offset_simp)
  have "gathered m src vals"
    using assms c off by (simp add: gathered_def holds_groups_def written_def arrays_of_buffer_def length_concat_bytes)
  then show "values_of m src = vals" by (rule gathered_values)
  have "bytes_of (take i vals) \<le> bytes_of (take (Suc i) vals)" if "i < length vals" for i
    using that by (simp add: take_Suc_conv_app_nth)
  then show "values_ok m src" using off c by (simp add: values_ok_def)
  show "group_offset m src k = value_bytes (take k gs)" if "k \<le> length gs"
    using assms that by (simp add: holds_groups_def written_def arrays_of_buffer_def value_group_offsets_def group_offset_simp)
qed

subsection \<open>The loops\<close>

text \<open>
  The destination has room for \<open>tv\<close> bytes of values and \<open>n\<close> offsets, all from \<open>lo\<close> to \<open>hi\<close>; it holds the values
  \<open>outs\<close> so far.
\<close>

definition sort_layout :: "serialized_buffer \<Rightarrow> nat \<Rightarrow> nat \<Rightarrow> addr \<Rightarrow> addr \<Rightarrow> bool" where
  "sort_layout dst tv n lo hi \<longleftrightarrow> values_data dst = lo \<and> lo + tv \<le> the (values_offsets_ptr dst) \<and>
     the (values_offsets_ptr dst) + 8 * (n + 1) = hi \<and> tv < size_modulus"

definition filled :: "mem \<Rightarrow> serialized_buffer \<Rightarrow> u8 list list \<Rightarrow> bool" where
  "filled m dst outs \<longleftrightarrow> (\<forall>k\<le>length outs. value_offset m dst k = bytes_of (take k outs)) \<and>
     load_bytes m (values_data dst) (bytes_of outs) = concat outs"

lemma value_at_same:
  assumes "same_outside lo hi m m'" "values_apart m src lo hi" "values_ok m src" "i < record_count m src"
  shows "value_at m' src i = value_at m src i"
proof -
  note keep = values_same [OF assms(1-3)]
  then have "values_of m' src ! i = values_of m src ! i" by simp
  then show ?thesis using keep(1) assms(4) by (simp add: values_of_def)
qed

lemma put_value_correct:
  assumes lay: "sort_layout dst tv n lo hi" and v: "values_ok m src" "values_apart m src lo hi" and i: "i < record_count m src"
    and f: "filled m dst outs" and room: "length outs < n" "bytes_of (outs @ [value_at m src i]) \<le> tv"
  shows "\<exists>m'. put_value src dst (values_data src + value_offset m src i, i) (length outs, m) = (length outs + 1, m') \<and>
    same_outside lo hi m m' \<and> filled m' dst (outs @ [value_at m src i])"
proof -
  let ?v = "value_at m src i" and ?O = "the (values_offsets_ptr dst)" and ?w = "length outs"
  have l: "values_data dst = lo" "lo + tv \<le> ?O" "?O + 8 * (n + 1) = hi" "tv < size_modulus"
    using lay by (simp_all add: sort_layout_def)
  have len: "sz_sub (value_offset m src (i + 1)) (value_offset m src i) = length ?v"
    using v(1) i length_value_at [OF v(1) i] by (simp add: values_ok_def sz_sub_exact value_offset_bound)
  have w: "value_offset m dst ?w = bytes_of outs" using f by (simp add: filled_def)
  define m1 where "m1 = memcpy m (lo + bytes_of outs) (values_data src + value_offset m src i) (length ?v)"
  define m2 where "m2 = store_size m1 (?O + 8 * (?w + 1)) (bytes_of outs + length ?v)"
  have s1: "same_outside (lo + bytes_of outs) (lo + tv) m m1"
    unfolding m1_def by (rule same_outside_memcpy) (use room(2) in simp_all)
  have o1: "value_offset m1 dst k = value_offset m dst k" for k
    unfolding value_offset_simp by (rule load_size_same_outside [OF s1]) (use l in \<open>simp add: apart_def\<close>)
  have run: "put_value src dst (values_data src + value_offset m src i, i) (?w, m) = (?w + 1, m2)"
    using len w l o1 [of ?w] room(2) by (simp add: put_value_def Let_def m1_def m2_def values_offsets_def sz_add_exact)
  have s2: "same_outside (?O + 8 * (?w + 1)) (?O + 8 * (?w + 2)) m1 m2"
    unfolding m2_def by (rule same_outside_store_size) simp_all
  have "same_outside lo hi m m2" using s1 s2 l room(1) unfolding same_outside_def by auto
  moreover have "filled m2 dst (outs @ [?v])"
    unfolding filled_def
  proof (intro conjI allI impI)
    fix k assume "k \<le> length (outs @ [?v])"
    then consider "k \<le> ?w" | "k = ?w + 1" by fastforce
    then show "value_offset m2 dst k = bytes_of (take k (outs @ [?v]))"
    proof cases
      case 1
      have "value_offset m2 dst k = value_offset m1 dst k"
        unfolding value_offset_simp by (rule load_size_same_outside [OF s2]) (use 1 in \<open>simp add: apart_def\<close>)
      then show ?thesis using 1 o1 f by (simp add: filled_def)
    next
      case 2
      then show ?thesis using room(2) l by (simp add: value_offset_simp m2_def mem_simps)
    qed
  next
    have a: "load_bytes m2 lo k = load_bytes m1 lo k" if "k \<le> tv" for k
      by (rule load_bytes_same_outside [OF s2]) (use l that in \<open>simp add: apart_def\<close>)
    have b: "load_bytes m1 lo (bytes_of outs) = load_bytes m lo (bytes_of outs)"
      by (rule load_bytes_same_outside [OF s1]) (simp add: apart_def)
    have c: "load_bytes m1 (lo + bytes_of outs) (length ?v) = ?v"
      unfolding m1_def load_bytes_memcpy_same using len by (simp only: value_at_def)
    show "load_bytes m2 (values_data dst) (bytes_of (outs @ [?v])) = concat (outs @ [?v])"
      using a [of "bytes_of outs + length ?v"] b c f l room(2) by (simp add: filled_def load_bytes_add)
  qed
  ultimately show ?thesis using run by blast
qed

lemma put_values_correct:
  assumes "sort_layout dst tv n lo hi" "values_ok m src" "values_apart m src lo hi"
    and "\<forall>q\<in>set qs. snd q < record_count m src \<and> fst q = values_data src + value_offset m src (snd q)"
    and "filled m dst outs" "length outs + length qs \<le> n" "bytes_of (outs @ map (\<lambda>q. value_at m src (snd q)) qs) \<le> tv"
  shows "same_outside lo hi m (snd (fold (put_value src dst) qs (length outs, m))) \<and>
    filled (snd (fold (put_value src dst) qs (length outs, m))) dst (outs @ map (\<lambda>q. value_at m src (snd q)) qs)"
  using assms(2-)
proof (induction qs arbitrary: m outs)
  case (Cons q qs)
  let ?v = "value_at m src (snd q)"
  have q: "q = (values_data src + value_offset m src (snd q), snd q)" "snd q < record_count m src"
    using Cons.prems(3) by (simp_all add: prod_eq_iff)
  obtain m1 where m1: "put_value src dst q (length outs, m) = (length outs + 1, m1)" "same_outside lo hi m m1"
      "filled m1 dst (outs @ [?v])"
  proof -
    have "length outs < n" "bytes_of (outs @ [?v]) \<le> tv" using Cons.prems(5,6) by (simp_all add: bytes_of_def)
    from put_value_correct [OF assms(1) Cons.prems(1,2) q(2) Cons.prems(4) this] q(1) show thesis
      using that by metis
  qed
  note keep = values_same [OF m1(2) Cons.prems(2,1)]
  have at: "value_at m1 src (snd r) = value_at m src (snd r)" if "r \<in> set qs" for r
    by (rule value_at_same [OF m1(2) Cons.prems(2,1)]) (use Cons.prems(3) that in simp)
  have at_map: "map (\<lambda>q. value_at m1 src (snd q)) qs = map (\<lambda>q. value_at m src (snd q)) qs" using at by simp
  have "\<forall>r\<in>set qs. snd r < record_count m1 src \<and> fst r = values_data src + value_offset m1 src (snd r)"
    using Cons.prems(3) keep(1) by (auto simp: keep(2) less_imp_le)
  from Cons.IH [OF keep(4,5) this m1(3)] show ?case
    using Cons.prems(5,6) m1(1) at_map same_outside_trans [OF m1(2)] by simp
qed simp

text \<open>The values of a group are collected up to its end.\<close>

lemma collect_group_correct:
  assumes "v \<le> w" "\<forall>k. v \<le> k \<and> k < w \<longrightarrow> value_offset m src k < bound" "bound \<le> value_offset m src w"
  shows "collect_group m src bound v ps = Some (ps @ map (\<lambda>i. (values_data src + value_offset m src i, i)) [v..<w], w)"
  using assms
proof (induction "w - v" arbitrary: v ps)
  case 0
  then show ?case by (subst collect_group.simps) simp
next
  case (Suc d)
  then have "v < w" by simp
  moreover have "collect_group m src bound (v + 1) (ps @ [(values_data src + value_offset m src v, v)]) =
      Some ((ps @ [(values_data src + value_offset m src v, v)]) @ map (\<lambda>i. (values_data src + value_offset m src i, i)) [v + 1..<w], w)"
    by (rule Suc.hyps(1)) (use Suc in simp_all)
  ultimately show ?case
    using Suc.prems(2) by (subst collect_group.simps) (simp add: upt_conv_Cons)
qed

lemma located_upt:
  "located (base + bytes_of (take v vals)) (map ((!) vals) [v..<w]) =
     map (\<lambda>i. (base + bytes_of (take i vals), vals ! i)) [v..<w]" if "w \<le> length vals"
  using that
proof (induction "w - v" arbitrary: v)
  case (Suc d)
  then have v: "v < w" by simp
  moreover have "take (Suc v) vals = take v vals @ [vals ! v]"
    using v Suc.prems by (simp add: take_Suc_conv_app_nth)
  ultimately show ?case
    using Suc.hyps(1) [of "Suc v"] Suc.hyps(2) Suc.prems by (simp add: upt_conv_Cons add.assoc)
qed simp

text \<open>The pieces of a group in the list of all values.\<close>

lemma group_in_values:
  fixes gs :: "kv_group list"
  assumes g: "g < length gs"
  defines "vals \<equiv> concat (map snd gs)" and "v \<equiv> length (concat (map snd (take g gs)))"
  defines "w \<equiv> v + length (snd (gs ! g))"
  shows "take v vals = concat (map snd (take g gs))" "take w vals = concat (map snd (take (g + 1) gs))" "w \<le> length vals"
    "map ((!) vals) [v..<w] = snd (gs ! g)" "length (concat (map snd (take (g + 1) gs))) = w"
proof -
  have t: "take (g + 1) gs = take g gs @ [gs ! g]" using g by (simp add: take_Suc_conv_app_nth)
  have split: "gs = take g gs @ [gs ! g] @ drop (g + 1) gs" using t by (metis append.assoc append_take_drop_id)
  have vals: "vals = concat (map snd (take g gs)) @ snd (gs ! g) @ concat (map snd (drop (g + 1) gs))"
  proof -
    have "concat (map snd (take g gs @ [gs ! g] @ drop (g + 1) gs)) =
        concat (map snd (take g gs)) @ snd (gs ! g) @ concat (map snd (drop (g + 1) gs))"
      by simp
    then show ?thesis unfolding vals_def using split by metis
  qed
  show a: "take v vals = concat (map snd (take g gs))" unfolding vals v_def by simp
  show b: "take w vals = concat (map snd (take (g + 1) gs))" unfolding t vals w_def v_def by simp
  show w: "w \<le> length vals" unfolding vals w_def v_def by simp
  show "length (concat (map snd (take (g + 1) gs))) = w" unfolding t w_def v_def by simp
  have "map ((!) vals) [v..<w] = drop v (take w vals)"
    using w by (intro nth_equalityI) auto
  then show "map ((!) vals) [v..<w] = snd (gs ! g)" unfolding b t by (simp add: v_def)
qed

lemma bytes_of_take_less:
  assumes "\<forall>v\<in>set vals. v \<noteq> []" "k < w" "w \<le> length vals"
  shows "bytes_of (take k vals) < bytes_of (take w vals)"
proof -
  have "take w vals = take k vals @ vals ! k # drop (k + 1) (take w vals)"
    using assms(2,3) id_take_nth_drop [of k "take w vals"] by (simp add: min_def)
  moreover have "bytes_of (xs @ y # ys) = bytes_of xs + (length y + bytes_of ys)" for xs ys and y :: "u8 list"
    by (simp add: bytes_of_def)
  ultimately have "bytes_of (take w vals) = bytes_of (take k vals) + (length (vals ! k) + bytes_of (drop (k + 1) (take w vals)))"
    by metis
  moreover have "vals ! k \<noteq> []" using assms by simp
  ultimately show ?thesis by simp
qed

definition value_addresses :: "mem \<Rightarrow> serialized_buffer \<Rightarrow> addr set" where
  "value_addresses m src = {values_data src + value_offset m src i | i. i < record_count m src}"

lemma sort_group_correct:
  assumes lay: "sort_layout dst tv n lo hi" and ok: "values_ok m src" "values_apart m src lo hi"
    and src: "values_of m src = concat (map snd gs)" "record_count m src = length (concat (map snd gs))"
      "\<forall>k\<le>length (concat (map snd gs)). value_offset m src k = bytes_of (take k (concat (map snd gs)))"
      "group_offset m src (g + 1) = value_bytes (take (g + 1) gs)"
    and g: "g < length gs" and nonempty: "\<forall>v\<in>set (concat (map snd gs)). v \<noteq> []"
    and sort: "sorts_pointers std_sort" "strict_weak (cmp m) (value_addresses m src)"
    and f: "filled m dst outs" "length outs = length (concat (map snd (take g gs)))" "bytes_of outs = value_bytes (take g gs)"
    and room: "value_bytes gs \<le> tv" "length (concat (map snd gs)) \<le> n"
  shows "\<exists>m' ws. sort_group std_sort cmp src dst g (length outs, m) = Some (length outs + length (snd (gs ! g)), m') \<and>
    same_outside lo hi m m' \<and> filled m' dst (outs @ ws) \<and>
    sorted_values (cmp m) (values_data src + value_bytes (take g gs)) (snd (gs ! g)) ws"
proof -
  let ?vals = "concat (map snd gs)" and ?v = "length outs" and ?V = "values_data src"
  let ?w = "?v + length (snd (gs ! g))"
  note parts = group_in_values [OF g, folded f(2)]
  have bound: "group_offset m src (g + 1) = bytes_of (take ?w ?vals)"
    using src(4) parts(2) by (simp add: value_bytes_def)
  let ?ps = "map (\<lambda>i. (?V + value_offset m src i, i)) [?v..<?w]"
  have collect: "collect_group m src (group_offset m src (g + 1)) ?v [] = Some (?ps, ?w)"
  proof -
    have "collect_group m src (group_offset m src (g + 1)) ?v [] = Some ([] @ ?ps, ?w)"
      unfolding bound
      by (rule collect_group_correct) (use bytes_of_take_less [OF nonempty _ parts(3)] src(3) parts(3) in auto)
    then show ?thesis by simp
  qed
  define qs where "qs = std_sort (\<lambda>a b. cmp m (fst a) (fst b)) ?ps"
  have "strict_weak (\<lambda>a b. cmp m (fst a) (fst b)) (set ?ps)"
  proof -
    have "fst x \<in> value_addresses m src" if "x \<in> set ?ps" for x
      using that parts(3) src(2) by (auto simp: value_addresses_def)
    then show ?thesis using sort(2) unfolding strict_weak_def by meson
  qed
  then have qs: "mset qs = mset ?ps" "sorted_wrt (\<lambda>x y. \<not> cmp m (fst y) (fst x)) qs"
    using sort(1) by (auto simp: sorts_pointers_def qs_def)
  have sq: "set qs = set ?ps" using mset_eq_setD [OF qs(1)] .
  have q_ok: "\<forall>q\<in>set qs. snd q < record_count m src \<and> fst q = ?V + value_offset m src (snd q)"
    unfolding sq using parts(3) src(2) by auto
  have at: "value_at m src i = ?vals ! i" if "i < length ?vals" for i
    using src(1,2) that by (metis (no_types, lifting) add_0 diff_zero length_upt nth_map nth_upt values_of_def)
  let ?ws = "map (\<lambda>q. value_at m src (snd q)) qs"
  have "sorted_values (cmp m) (?V + value_bytes (take g gs)) (snd (gs ! g)) ?ws"
  proof -
    let ?z = "map (\<lambda>q. (fst q, value_at m src (snd q))) qs"
    have "mset ?z = mset (map (\<lambda>i. (?V + value_offset m src i, value_at m src i)) [?v..<?w])"
    proof -
      have "mset ?z = image_mset (\<lambda>q. (fst q, value_at m src (snd q))) (mset ?ps)" by (simp only: mset_map qs(1))
      then show ?thesis by (simp flip: mset_map add: o_def)
    qed
    also have "map (\<lambda>i. (?V + value_offset m src i, value_at m src i)) [?v..<?w] =
        located (?V + bytes_of (take ?v ?vals)) (map ((!) ?vals) [?v..<?w])"
      unfolding located_upt [OF parts(3)] using at src(3) parts(3) by simp
    also have "\<dots> = located (?V + value_bytes (take g gs)) (snd (gs ! g))"
      using parts(1,4) by (simp add: value_bytes_def)
    finally have "mset ?z = mset (located (?V + value_bytes (take g gs)) (snd (gs ! g)))" .
    moreover have "sorted_wrt (\<lambda>x y. \<not> cmp m (fst y) (fst x)) ?z" using qs(2) by (simp add: sorted_wrt_map)
    ultimately show ?thesis unfolding sorted_values_def by (intro exI [of _ ?z]) (simp add: o_def)
  qed
  moreover have "mset ?ws = mset (snd (gs ! g))" using sorted_values_mset [OF calculation] .
  then have ws: "length ?ws = length (snd (gs ! g))" "bytes_of ?ws = bytes_of (snd (gs ! g))"
    by (rule mset_eq_length, rule bytes_of_mset)
  have "bytes_of (outs @ ?ws) = value_bytes (take (g + 1) gs)"
    using ws(2) f(3) g by (simp add: take_Suc_conv_app_nth)
  then have fits: "bytes_of (outs @ ?ws) \<le> tv" using room(1) value_bytes_take_le [of "g + 1" gs] by simp
  have len: "?v + length qs \<le> n" using ws(1) parts(3) room(2) by simp
  note put = put_values_correct [OF lay ok q_ok f(1) len fits]
  show ?thesis
    using put calculation collect
    by (intro exI [of _ "snd (fold (put_value src dst) qs (?v, m))"] exI [of _ ?ws]) (simp add: sort_group_def qs_def)
qed

text \<open>All groups.\<close>

definition sorted_groups :: "(addr \<Rightarrow> addr \<Rightarrow> bool) \<Rightarrow> addr \<Rightarrow> kv_group list \<Rightarrow> kv_group list \<Rightarrow> bool" where
  "sorted_groups lt base gs hs \<longleftrightarrow> map fst hs = map fst gs \<and>
     (\<forall>g<length gs. sorted_values lt (base + value_bytes (take g gs)) (snd (gs ! g)) (snd (hs ! g)))"

lemma sorted_groups_same:
  assumes "sorted_groups lt base gs hs"
  shows "length hs = length gs" "g \<le> length gs \<Longrightarrow> key_bytes (take g hs) = key_bytes (take g gs)"
    "g \<le> length gs \<Longrightarrow> value_bytes (take g hs) = value_bytes (take g gs)"
    "g \<le> length gs \<Longrightarrow> length (concat (map snd (take g hs))) = length (concat (map snd (take g gs)))"
proof -
  show l: "length hs = length gs" using assms by (metis length_map sorted_groups_def)
  show "key_bytes (take g hs) = key_bytes (take g gs)"
    using assms by (metis key_bytes_def sorted_groups_def take_map)
  have step: "mset (snd (hs ! i)) = mset (snd (gs ! i))" if "i < length gs" for i
    using assms that sorted_values_mset by (auto simp: sorted_groups_def)
  have "value_bytes (take g hs) = value_bytes (take g gs) \<and>
      length (concat (map snd (take g hs))) = length (concat (map snd (take g gs)))" if "g \<le> length gs"
    using that
  proof (induction g)
    case (Suc g)
    then show ?case
      using l bytes_of_mset [OF step [of g]] mset_eq_length [OF step [of g]] by (simp add: take_Suc_conv_app_nth)
  qed simp
  then show "g \<le> length gs \<Longrightarrow> value_bytes (take g hs) = value_bytes (take g gs)"
    "g \<le> length gs \<Longrightarrow> length (concat (map snd (take g hs))) = length (concat (map snd (take g gs)))"
    by blast+
qed

text \<open>What the loop over the groups needs: the source, apart from the values of the destination.\<close>

definition sort_source :: "comparator \<Rightarrow> mem \<Rightarrow> serialized_buffer \<Rightarrow> kv_group list \<Rightarrow> addr \<Rightarrow> addr \<Rightarrow> bool" where
  "sort_source cmp m src gs lo hi \<longleftrightarrow> values_ok m src \<and> values_apart m src lo hi \<and> values_of m src = concat (map snd gs) \<and>
     record_count m src = length (concat (map snd gs)) \<and>
     (\<forall>k\<le>length (concat (map snd gs)). value_offset m src k = bytes_of (take k (concat (map snd gs)))) \<and>
     (\<forall>g<length gs. group_offset m src (g + 1) = value_bytes (take (g + 1) gs)) \<and>
     apart (the (values_group_offsets src)) (8 * (length gs + 1)) lo hi \<and> strict_weak (cmp m) (value_addresses m src) \<and>
     (\<forall>m'. same_outside lo hi m m' \<longrightarrow> (\<forall>a\<in>value_addresses m src. \<forall>b\<in>value_addresses m src. cmp m' a b = cmp m a b))"

lemma sort_sourceD:
  assumes "sort_source cmp m src gs lo hi"
  shows "values_ok m src" "values_apart m src lo hi" "values_of m src = concat (map snd gs)"
    "record_count m src = length (concat (map snd gs))"
    "\<forall>k\<le>length (concat (map snd gs)). value_offset m src k = bytes_of (take k (concat (map snd gs)))"
    "\<forall>g<length gs. group_offset m src (g + 1) = value_bytes (take (g + 1) gs)"
    "apart (the (values_group_offsets src)) (8 * (length gs + 1)) lo hi" "strict_weak (cmp m) (value_addresses m src)"
  using assms unfolding sort_source_def by blast+

lemma sort_source_cmp:
  "sort_source cmp m src gs lo hi \<Longrightarrow> same_outside lo hi m m' \<Longrightarrow> a \<in> value_addresses m src \<Longrightarrow> b \<in> value_addresses m src \<Longrightarrow>
     cmp m' a b = cmp m a b"
  unfolding sort_source_def by (elim conjE) blast

lemma sort_source_same:
  assumes s: "sort_source cmp m src gs lo hi" and same: "same_outside lo hi m m'"
  shows "sort_source cmp m' src gs lo hi" "value_addresses m' src = value_addresses m src"
proof -
  note ok = sort_sourceD(1,2) [OF s]
  note k = values_same [OF same ok(2,1)]
  show ad: "value_addresses m' src = value_addresses m src"
    using k(1,2) unfolding value_addresses_def by (metis (no_types, lifting) less_imp_le)
  have goff: "group_offset m' src (g + 1) = group_offset m src (g + 1)" if "g < length gs" for g
    unfolding group_offset_simp
    by (rule load_size_same_outside [OF same], rule apart_sub [of "the (values_group_offsets src)"])
      (use sort_sourceD(7) [OF s] that in auto)
  have cmp: "cmp m' a b = cmp m a b" if "a \<in> value_addresses m src" "b \<in> value_addresses m src" for a b
    by (rule sort_source_cmp [OF s same that])
  have later: "\<forall>m''. same_outside lo hi m' m'' \<longrightarrow> (\<forall>a\<in>value_addresses m src. \<forall>b\<in>value_addresses m src. cmp m'' a b = cmp m' a b)"
    using sort_source_cmp [OF s same_outside_trans [OF same]] cmp by simp
  have "strict_weak (cmp m) (value_addresses m src)" by (rule sort_sourceD [OF s])
  then have weak: "strict_weak (cmp m') (value_addresses m src)"
    by (simp add: strict_weak_def cmp)
  show "sort_source cmp m' src gs lo hi"
    unfolding sort_source_def ad k(1,3) 
  proof (intro conjI)
    show "\<forall>k\<le>length (concat (map snd gs)). value_offset m' src k = bytes_of (take k (concat (map snd gs)))"
      using sort_sourceD(4,5) [OF s] k(2) by simp
    show "\<forall>g<length gs. group_offset m' src (g + 1) = value_bytes (take (g + 1) gs)"
      using sort_sourceD(6) [OF s] goff by simp
  qed (rule k weak later sort_sourceD [OF s])+
qed

lemma sorted_values_cong:
  assumes "sorted_values lt base vs ws" "\<And>a b. a \<in> fst ` set (located base vs) \<Longrightarrow> b \<in> fst ` set (located base vs) \<Longrightarrow> lt' a b = lt a b"
  shows "sorted_values lt' base vs ws"
proof -
  obtain ps where ps: "mset ps = mset (located base vs)" "sorted_wrt (\<lambda>x y. \<not> lt (fst y) (fst x)) ps" "ws = map snd ps"
    using assms(1) by (auto simp: sorted_values_def)
  have "sorted_wrt (\<lambda>x y. \<not> lt' (fst y) (fst x)) ps"
    by (rule sorted_wrt_mono_rel [OF _ ps(2)]) (use assms(2) mset_eq_setD [OF ps(1)] in auto)
  then show ?thesis using ps by (auto simp: sorted_values_def)
qed

lemma located_addresses:
  assumes "sort_source cmp m src gs lo hi" "g < length gs"
  shows "fst ` set (located (values_data src + value_bytes (take g gs)) (snd (gs ! g))) \<subseteq> value_addresses m src"
proof (intro subsetI)
  note parts = group_in_values [OF assms(2)]
  let ?v = "length (concat (map snd (take g gs)))"
  have loc: "located (values_data src + value_bytes (take g gs)) (snd (gs ! g)) =
      map (\<lambda>i. (values_data src + bytes_of (take i (concat (map snd gs))), concat (map snd gs) ! i)) [?v..<?v + length (snd (gs ! g))]"
    using located_upt [OF parts(3), of "values_data src" ?v] parts(1,4) by (simp add: value_bytes_def)
  fix x assume "x \<in> fst ` set (located (values_data src + value_bytes (take g gs)) (snd (gs ! g)))"
  then obtain i where i: "i < ?v + length (snd (gs ! g))" "x = values_data src + bytes_of (take i (concat (map snd gs)))"
    using loc by auto
  then have "i < record_count m src" "x = values_data src + value_offset m src i"
    using sort_sourceD(4,5) [OF assms(1)] parts(3) by simp_all
  then show "x \<in> value_addresses m src" by (auto simp: value_addresses_def)
qed

lemma sort_all_groups_correct:
  assumes lay: "sort_layout dst tv n lo hi" and src: "sort_source cmp m src gs lo hi"
    and nonempty: "\<forall>v\<in>set (concat (map snd gs)). v \<noteq> []" and sort: "sorts_pointers std_sort"
    and room: "value_bytes gs \<le> tv" "length (concat (map snd gs)) \<le> n"
  shows "\<exists>m' hs. sort_all_groups std_sort cmp src dst (length gs) m = Some (length (concat (map snd gs)), m') \<and> same_outside lo hi m m' \<and>
    filled m' dst (concat (map snd hs)) \<and> sorted_groups (cmp m) (values_data src) gs hs"
proof -
  let ?m0 = "store_size m (ar_index (values_offsets m dst) 0) 0"
  have l: "ar_index (values_offsets m dst) 0 = the (values_offsets_ptr dst)" by (simp add: values_offsets_def)
  have s0: "same_outside lo hi m ?m0" unfolding l by (rule same_outside_store_size) (use lay in \<open>auto simp: sort_layout_def\<close>)
  let ?f = "\<lambda>g st. Option.bind st (sort_group std_sort cmp src dst g)"
  have "\<exists>m' hs. fold ?f [0..<g] (Some (0, ?m0)) = Some (length (concat (map snd (take g gs))), m') \<and> same_outside lo hi m m' \<and>
      filled m' dst (concat (map snd hs)) \<and> length hs = g \<and> map fst hs = map fst (take g gs) \<and>
      (\<forall>i<g. sorted_values (cmp m) (values_data src + value_bytes (take i gs)) (snd (gs ! i)) (snd (hs ! i)))" if "g \<le> length gs" for g
    using that
  proof (induction g)
    case 0
    have "filled ?m0 dst []" unfolding l by (simp add: filled_def value_offset_simp mem_simps)
    then show ?case using s0 by simp
  next
    case (Suc g)
    then have g: "g < length gs" by simp
    obtain m1 hs where IH: "fold ?f [0..<g] (Some (0, ?m0)) = Some (length (concat (map snd (take g gs))), m1)" "same_outside lo hi m m1"
        "filled m1 dst (concat (map snd hs))" "length hs = g" "map fst hs = map fst (take g gs)"
        "\<forall>i<g. sorted_values (cmp m) (values_data src + value_bytes (take i gs)) (snd (gs ! i)) (snd (hs ! i))"
      using Suc by auto
    have "sorted_groups (cmp m) (values_data src) (take g gs) hs"
      using IH(4,5,6) g by (simp add: sorted_groups_def min_def)
    note same = sorted_groups_same(3,4) [OF this, of g]
    have outs: "length (concat (map snd hs)) = length (concat (map snd (take g gs)))" using same(2) IH(4) g by simp
    have outs_bytes: "bytes_of (concat (map snd hs)) = value_bytes (take g gs)" using same(1) IH(4) g by (simp add: value_bytes_def)
    note s1 = sort_source_same [OF src IH(2)]
    note src1 = sort_sourceD [OF s1(1)]
    have "group_offset m1 src (g + 1) = value_bytes (take (g + 1) gs)" using src1 g by blast
    from sort_group_correct [OF lay _ _ _ _ _ this g nonempty sort _ IH(3) outs outs_bytes room, of cmp] src1
    obtain m2 ws where m2: "sort_group std_sort cmp src dst g (length (concat (map snd hs)), m1) =
          Some (length (concat (map snd hs)) + length (snd (gs ! g)), m2)"
        "same_outside lo hi m1 m2" "filled m2 dst (concat (map snd hs) @ ws)"
        "sorted_values (cmp m1) (values_data src + value_bytes (take g gs)) (snd (gs ! g)) ws"
      by metis
    have "sorted_values (cmp m) (values_data src + value_bytes (take g gs)) (snd (gs ! g)) ws"
    proof (rule sorted_values_cong [OF m2(4)])
      note sub = located_addresses [OF src g]
      show "cmp m a b = cmp m1 a b" if "a \<in> fst ` set (located (values_data src + value_bytes (take g gs)) (snd (gs ! g)))"
          "b \<in> fst ` set (located (values_data src + value_bytes (take g gs)) (snd (gs ! g)))" for a b
        by (rule sym, rule sort_source_cmp [OF src IH(2)]) (use that sub in blast)+
    qed
    then have "\<forall>i<Suc g. sorted_values (cmp m) (values_data src + value_bytes (take i gs)) (snd (gs ! i)) (snd ((hs @ [(fst (gs ! g), ws)]) ! i))"
      using IH(4,6) by (simp add: nth_append less_Suc_eq)
    moreover have "fold ?f [0..<Suc g] (Some (0, ?m0)) = Some (length (concat (map snd (take (Suc g) gs))), m2)"
      using IH(1) m2(1) outs g by (simp add: take_Suc_conv_app_nth)
    ultimately show ?case
      using same_outside_trans [OF IH(2) m2(2)] m2(3) IH(4,5) g
      by (intro exI [of _ m2] exI [of _ "hs @ [(fst (gs ! g), ws)]"]) (simp add: take_Suc_conv_app_nth)
  qed
  from this [of "length gs"] show ?thesis
    unfolding sort_all_groups_def sorted_groups_def by auto
qed

lemma apart_mono: "apart a n lo hi \<Longrightarrow> lo \<le> lo' \<Longrightarrow> hi' \<le> hi \<Longrightarrow> apart a n lo' hi'"
  by (auto simp: apart_def)

lemma same_outside_mono: "same_outside lo' hi' m m' \<Longrightarrow> lo \<le> lo' \<Longrightarrow> hi' \<le> hi \<Longrightarrow> same_outside lo hi m m'"
  by (auto simp: same_outside_def)

lemma sort_source_shrink:
  assumes "sort_source cmp m src gs lo hi" "lo \<le> lo'" "hi' \<le> hi"
  shows "sort_source cmp m src gs lo' hi'"
  unfolding sort_source_def
proof (intro conjI)
  show "values_apart m src lo' hi'"
    using sort_sourceD(2) [OF assms(1)] apart_mono [OF _ assms(2,3)] by (simp add: values_apart_def)
  show "apart (the (values_group_offsets src)) (8 * (length gs + 1)) lo' hi'"
    by (rule apart_mono [OF sort_sourceD(7) [OF assms(1)] assms(2,3)])
  show "\<forall>m'. same_outside lo' hi' m m' \<longrightarrow> (\<forall>a\<in>value_addresses m src. \<forall>b\<in>value_addresses m src. cmp m' a b = cmp m a b)"
    using sort_source_cmp [OF assms(1) same_outside_mono [OF _ assms(2,3)]] by blast
qed (rule sort_sourceD [OF assms(1)])+

lemma holds_groups_source:
  assumes "holds_groups m src gs" "groups_apart m src lo hi" "strict_weak (cmp m) (value_addresses m src)"
    "\<forall>m'. same_outside lo hi m m' \<longrightarrow> (\<forall>a\<in>value_addresses m src. \<forall>b\<in>value_addresses m src. cmp m' a b = cmp m a b)"
  shows "sort_source cmp m src gs lo hi"
  unfolding sort_source_def
proof (intro conjI)
  show "values_apart m src lo hi" "apart (the (values_group_offsets src)) (8 * (length gs + 1)) lo hi"
    using assms(1,2) by (simp_all add: groups_apart_def holds_groups_def)
qed (use holds_groups_values [OF assms(1)] assms(3) in \<open>simp_all\<close>, rule assms(4))

lemma sorted_groups_source:
  assumes "sorted_groups (cmp m') (values_data src) gs hs" "sort_source cmp m src gs lo hi" "same_outside lo hi m m'"
  shows "sorted_groups (cmp m) (values_data src) gs hs"
  unfolding sorted_groups_def
proof (intro conjI allI impI)
  show "map fst hs = map fst gs" using assms(1) by (simp add: sorted_groups_def)
  fix g assume g: "g < length gs"
  then have "sorted_values (cmp m') (values_data src + value_bytes (take g gs)) (snd (gs ! g)) (snd (hs ! g))"
    using assms(1) by (simp add: sorted_groups_def)
  then show "sorted_values (cmp m) (values_data src + value_bytes (take g gs)) (snd (gs ! g)) (snd (hs ! g))"
  proof (rule sorted_values_cong)
    note sub = located_addresses [OF assms(2) g]
    show "cmp m a b = cmp m' a b" if "a \<in> fst ` set (located (values_data src + value_bytes (take g gs)) (snd (gs ! g)))"
        "b \<in> fst ` set (located (values_data src + value_bytes (take g gs)) (snd (gs ! g)))" for a b
      by (rule sym, rule sort_source_cmp [OF assms(2,3)]) (use that sub in blast)+
  qed
qed

lemma sorted_groups_keys: "sorted_groups lt base gs hs \<Longrightarrow> map fst hs = map fst gs"
  by (simp add: sorted_groups_def)

lemma key_bytes_same: "sorted_groups lt base gs hs \<Longrightarrow> key_bytes hs = key_bytes gs"
  using sorted_groups_same(1) [of lt base gs hs] sorted_groups_same(2) [of lt base gs hs "length gs"] by simp

lemma value_bytes_same: "sorted_groups lt base gs hs \<Longrightarrow> value_bytes hs = value_bytes gs"
  using sorted_groups_same(1) [of lt base gs hs] sorted_groups_same(3) [of lt base gs hs "length gs"] by simp

text \<open>The tables of a buffer do not depend on the memory.\<close>

lemma table_pointers:
  "keys_offsets m b = array_of a k \<Longrightarrow> the (keys_offsets_ptr b) = a"
  "values_offsets m b = array_of a k \<Longrightarrow> the (values_offsets_ptr b) = a"
  "value_group_offsets m b = array_of a k \<Longrightarrow> the (values_group_offsets b) = a"
  by (metis array_of_simps(1) keys_offsets_def values_offsets_def value_group_offsets_def)+

lemma first_pointers [simp]:
  "m_first (keys_offsets m b) = the (keys_offsets_ptr b)" "m_first (values_offsets m b) = the (values_offsets_ptr b)"
  "m_first (value_group_offsets m b) = the (values_group_offsets b)"
  by (simp_all add: keys_offsets_def values_offsets_def value_group_offsets_def)

lemma copy_groups_correct:
  assumes h: "holds_groups m src gs" and ap: "groups_apart m src p hi" and s1: "same_outside p hi m m1"
    and pos: "p \<le> keys_data dst" "keys_data dst + keys_data_size m src \<le> the (keys_offsets_ptr dst)"
      "the (keys_offsets_ptr dst) + 8 * (length gs + 1) \<le> the (values_group_offsets dst)"
      "the (values_group_offsets dst) + 8 * (length gs + 1) \<le> hi"
  defines "m4 \<equiv> copy_groups src dst (keys_data_size m src) (length gs) m1"
  shows "same_outside p hi m m4"
    "k \<le> length gs \<Longrightarrow> load_size m4 (the (keys_offsets_ptr dst) + 8 * k) = key_bytes (take k gs)"
    "k \<le> length gs \<Longrightarrow> load_size m4 (the (values_group_offsets dst) + 8 * k) = value_bytes (take k gs)"
    "load_bytes m4 (keys_data dst) (key_bytes gs) = concat (map fst gs)"
    "x < keys_data dst \<or> the (keys_offsets_ptr dst) + 8 * (length gs + 1) \<le> x \<and> x < the (values_group_offsets dst) \<Longrightarrow> m4 x = m1 x"
proof -
  let ?KD = "keys_data dst" and ?KO = "the (keys_offsets_ptr dst)" and ?GO = "the (values_group_offsets dst)" and ?ks = "keys_data_size m src"
  let ?kd = "keys_data src" and ?ko = "the (keys_offsets_ptr src)" and ?go = "the (values_group_offsets src)" and ?n = "8 * (length gs + 1)"
  have g: "group_count m src = length gs" and kb: "key_bytes gs \<le> ?ks" using h by (simp_all add: holds_groups_def)
  note src_written = h [unfolded holds_groups_def written_def arrays_of_buffer_def, simplified]
  define m2 where "m2 = memcpy m1 ?KD ?kd ?ks"
  define m3 where "m3 = memcpy m2 ?KO ?ko ?n"
  have m4: "m4 = memcpy m3 ?GO ?go ?n" by (simp add: m4_def copy_groups_def m2_def m3_def Let_def mult.commute)
  have w2: "same_outside ?KD ?KO m1 m2" unfolding m2_def by (rule same_outside_memcpy) (use pos in simp_all)
  have w3: "same_outside ?KO (?KO + ?n) m2 m3" unfolding m3_def by (rule same_outside_memcpy) simp_all
  have w4: "same_outside ?GO (?GO + ?n) m3 m4" unfolding m4 by (rule same_outside_memcpy) simp_all
  have s2: "same_outside p hi m m2" by (rule same_outside_trans [OF s1 same_outside_mono [OF w2]]) (use pos in simp_all)
  have s3: "same_outside p hi m m3" by (rule same_outside_trans [OF s2 same_outside_mono [OF w3]]) (use pos in simp_all)
  show "same_outside p hi m m4" by (rule same_outside_trans [OF s3 same_outside_mono [OF w4]]) (use pos in simp_all)
  have table: "load_size (memcpy m' d a ?n) (d + 8 * k) = load_size m (a + 8 * k)"
    if "k \<le> length gs" "same_outside p hi m m'" "apart a ?n p hi" for m' d a k
  proof -
    have "load_size (memcpy m' d a ?n) (d + 8 * k) = load_size m' (a + 8 * k)" by (rule load_size_memcpy_inside) (use that in simp)
    also have "\<dots> = load_size m (a + 8 * k)"
      by (rule load_size_same_outside [OF that(2)], rule apart_sub [OF that(3)]) (use that(1) in simp_all)
    finally show ?thesis .
  qed
  have aps: "apart ?kd ?ks p hi" "apart ?ko ?n p hi" "apart ?go ?n p hi" using ap g by (simp_all add: groups_apart_def)
  show "load_size m4 (?KO + 8 * k) = key_bytes (take k gs)" if "k \<le> length gs"
  proof -
    have "load_size m4 (?KO + 8 * k) = load_size m3 (?KO + 8 * k)"
      by (rule load_size_same_outside [OF w4]) (use that pos in \<open>simp add: apart_def\<close>)
    then show ?thesis using table [OF that s2 aps(2)] that src_written by (simp add: m3_def)
  qed
  show "load_size m4 (?GO + 8 * k) = value_bytes (take k gs)" if "k \<le> length gs"
    using table [OF that s3 aps(3)] that src_written by (simp add: m4)
  have "load_bytes m4 ?KD (key_bytes gs) = load_bytes m3 ?KD (key_bytes gs)" "load_bytes m3 ?KD (key_bytes gs) = load_bytes m2 ?KD (key_bytes gs)"
    by (rule load_bytes_same_outside [OF w4] load_bytes_same_outside [OF w3], use pos kb in \<open>simp add: apart_def\<close>)+
  moreover have "load_bytes m2 (?KD + 0) (key_bytes gs) = load_bytes m1 (?kd + 0) (key_bytes gs)"
    unfolding m2_def by (rule load_bytes_memcpy_inside) (use kb in simp)
  moreover have "load_bytes m1 ?kd (key_bytes gs) = load_bytes m ?kd (key_bytes gs)"
    by (rule load_bytes_same_outside [OF s1], rule apart_sub [OF aps(1)]) (use kb in simp_all)
  ultimately show "load_bytes m4 ?KD (key_bytes gs) = concat (map fst gs)" using src_written by simp
  show "x < ?KD \<or> ?KO + ?n \<le> x \<and> x < ?GO \<Longrightarrow> m4 x = m1 x"
    using w2 w3 w4 pos unfolding same_outside_def by auto
qed

text \<open>The new buffer, by the positions of its parts.\<close>

lemma allocated_groups:
  assumes "mem_inv ms" "fresh_mref tmp ms" "fresh_locked slot ms" "next_identifier ms < invalid_id" "grouped_fits ks vs n g"
  shows "\<exists>b ms' m1 KO vh vd VO. allocate_grouped_buffer False tmp slot p n g ks vs node (ms, m) = Some (b, ms', m1) \<and> mem_inv ms' \<and>
    group_count m1 b = g \<and> record_count m1 b = 0 \<and> keys_header b = Some (p + 16) \<and> values_header b = Some (p + vh) \<and>
    keys_data b = p + 32 \<and> the (keys_offsets_ptr b) = KO \<and> values_data b = p + vd \<and> the (values_offsets_ptr b) = VO \<and>
    the (values_group_offsets b) = VO + 8 * (n + 1) \<and> p + 32 + ks \<le> KO \<and> KO + 8 * (g + 1) = p + vh \<and> vh + 24 \<le> vd \<and>
    p + vd + values_data_size m1 b = VO \<and> vs \<le> values_data_size m1 b \<and>
    VO + 8 * (n + 1) + 8 * (g + 1) \<le> p + (ks + vs + 8 * n + 16 * g + 512) \<and>
    same_outside p (p + (ks + vs + 8 * n + 16 * g + 512)) m m1"
proof -
  from allocate_grouped_ok [OF assms, of p node m]
  obtain b ms' m1 vh vd sz where
    alloc: "allocate_grouped_buffer False tmp slot p n g ks vs node (ms, m) = Some (b, ms', m1)" "mem_inv ms'"
      "group_count m1 b = g" "record_count m1 b = 0" "keys_header b = Some (p + 16)" "values_header b = Some (p + vh)" and
    keys: "keys_data b = p + 32" "ks \<le> keys_data_size m1 b" "keys_offsets m1 b = array_of (p + 32 + keys_data_size m1 b) (g + 1)"
      "p + 32 + keys_data_size m1 b + 8 * (g + 1) = p + vh" and
    area: "vh + 24 \<le> vd" "values_data b = p + vd" "vs \<le> values_data_size m1 b"
      "values_offsets m1 b = array_of (p + vd + values_data_size m1 b) (n + 1)"
      "value_group_offsets m1 b = array_of (p + vd + values_data_size m1 b + 8 * (n + 1)) (g + 1)"
      "vd + values_data_size m1 b + 8 * (n + 1) + 8 * (g + 1) = sz" and
    rest: "sz \<le> ks + vs + 8 * n + 16 * g + 512" "\<forall>x. x < p \<or> p + sz \<le> x \<longrightarrow> m1 x = m x"
    by blast
  note ptr = table_pointers(1) [OF keys(3)] table_pointers(2) [OF area(4)] table_pointers(3) [OF area(5)]
  have pos: "p + 32 + ks \<le> p + 32 + keys_data_size m1 b"
    "p + vd + values_data_size m1 b + 8 * (n + 1) + 8 * (g + 1) \<le> p + (ks + vs + 8 * n + 16 * g + 512)"
    using keys(2) area(6) rest(1) by simp_all
  have same: "same_outside p (p + (ks + vs + 8 * n + 16 * g + 512)) m m1"
    using rest by (simp add: same_outside_def)
  show ?thesis
    by (intro exI conjI; (rule alloc keys(1,4) area(1,2,3) ptr pos same refl)?)
qed

subsection \<open>Properties\<close>


text \<open>One group with two values of one byte, compared as bytes and sorted by insertion.\<close>

fun insert_pointer :: "('a \<Rightarrow> 'a \<Rightarrow> bool) \<Rightarrow> 'a \<Rightarrow> 'a list \<Rightarrow> 'a list" where
  "insert_pointer lt x [] = [x]"
| "insert_pointer lt x (y # ys) = (if lt y x then y # insert_pointer lt x ys else x # y # ys)"

definition insertion_sort :: std_sort where
  "insertion_sort lt ps = foldr (insert_pointer lt) ps []"

lemma insert_pointer_mset: "mset (insert_pointer lt x ys) = add_mset x (mset ys)"
  by (induction ys) simp_all

lemma insert_pointer_sorted:
  assumes "strict_weak lt A" "x \<in> A" "set ys \<subseteq> A" "sorted_wrt (\<lambda>x y. \<not> lt y x) ys"
  shows "sorted_wrt (\<lambda>x y. \<not> lt y x) (insert_pointer lt x ys)"
  using assms(3,4)
proof (induction ys)
  case (Cons y ys)
  have s: "set (insert_pointer lt x ys) = insert x (set ys)" by (metis insert_pointer_mset set_mset_add_mset_insert set_mset_mset)
  show ?case
  proof (cases "lt y x")
    case True
    then have "\<not> lt x y" using assms(1,2) Cons.prems(1) by (auto simp: strict_weak_def)
    then show ?thesis using True Cons s by simp
  next
    case False
    have "\<not> lt z x" if "z \<in> set ys" for z
      using assms(1,2) Cons.prems that False unfolding strict_weak_def by (metis list.set_intros sorted_wrt.simps(2) subsetD)
    then show ?thesis using False Cons.prems by simp
  qed
qed simp

lemma insertion_sort_sorts: "sorts_pointers insertion_sort"
  unfolding sorts_pointers_def
proof (intro allI impI)
  fix lt :: "addr \<times> nat \<Rightarrow> addr \<times> nat \<Rightarrow> bool" and ps
  assume w: "strict_weak lt (set ps)"
  have "mset (foldr (insert_pointer lt) qs []) = mset qs \<and> sorted_wrt (\<lambda>x y. \<not> lt y x) (foldr (insert_pointer lt) qs [])"
    if "set qs \<subseteq> set ps" for qs
    using that
  proof (induction qs)
    case (Cons q qs)
    then have "set (foldr (insert_pointer lt) qs []) \<subseteq> set ps" by (metis list.set_intros(2) set_mset_mset subset_code(1))
    then show ?case using Cons insert_pointer_sorted [OF w] by (simp add: insert_pointer_mset)
  qed simp
  then show "mset (insertion_sort lt ps) = mset ps \<and> sorted_wrt (\<lambda>x y. \<not> lt y x) (insertion_sort lt ps)"
    by (simp add: insertion_sort_def)
qed

definition sample_groups :: serialized_buffer where
  "sample_groups = null_buffer\<lparr>keys_header := Some 0, keys_data_ptr := Some 16, keys_offsets_ptr := Some 24, values_header := Some 40,
     values_data_ptr := Some 64, values_offsets_ptr := Some 72, values_group_offsets := Some 96\<rparr>"

definition sample_groups_mem :: mem where
  "sample_groups_mem =
     fold (\<lambda>(a, v) m. store_size m a v)
       [(0, 8), (8, 1), (24, 0), (32, 1), (40, 8), (48, 2), (56, 2), (72, 0), (80, 1), (88, 2), (96, 0), (104, 2)]
       (store_bytes (store_bytes (\<lambda>_. 0) 16 [9]) 64 [3, 1])"

lemma sample_groups_reads:
  "load_size sample_groups_mem 0 = 8" "load_size sample_groups_mem 8 = 1" "load_size sample_groups_mem 24 = 0"
  "load_size sample_groups_mem 32 = 1" "load_size sample_groups_mem 40 = 8" "load_size sample_groups_mem 56 = 2"
  "load_size sample_groups_mem 72 = 0" "load_size sample_groups_mem 80 = 1" "load_size sample_groups_mem 88 = 2"
  "load_size sample_groups_mem 96 = 0" "load_size sample_groups_mem 104 = 2"
  by (simp_all add: sample_groups_mem_def mem_simps size_modulus_def)

lemma sample_groups_bytes: "load_bytes sample_groups_mem 16 1 = [9]" "load_bytes sample_groups_mem 64 2 = [3, 1]"
  by (simp_all add: sample_groups_mem_def mem_simps) (simp_all add: load_bytes_def store_bytes_def upt_rec)

lemma sample_groups_holds:
  "holds_groups sample_groups_mem sample_groups [([9], [[3], [1]])]"
  "groups_apart sample_groups_mem sample_groups 4096 (4096 + (8 + 8 + 16 + 16 + 512))"
  "value_addresses sample_groups_mem sample_groups = {64, 65}"
proof -
  note fields = sample_groups_def null_buffer_def group_count_def record_count_def keys_data_size_def values_data_size_def keys_data_def
    values_data_def
  have two: "k \<le> 2 \<longleftrightarrow> k = 0 \<or> k = 1 \<or> k = 2" "k \<le> 1 \<longleftrightarrow> k = 0 \<or> k = 1" "k < 2 \<longleftrightarrow> k = 0 \<or> k = 1" for k :: nat by auto
  show "holds_groups sample_groups_mem sample_groups [([9], [[3], [1]])]"
    using sample_groups_reads sample_groups_bytes
    by (auto simp: holds_groups_def written_def arrays_of_buffer_def fields two key_bytes_def value_bytes_def bytes_of_def numeral_2_eq_2 le_Suc_eq)
  show "groups_apart sample_groups_mem sample_groups 4096 (4096 + (8 + 8 + 16 + 16 + 512))"
    using sample_groups_reads by (simp add: groups_apart_def values_apart_def apart_def fields value_offset_simp)
  show "value_addresses sample_groups_mem sample_groups = {64, 65}"
  proof -
    have "value_addresses sample_groups_mem sample_groups =
        (\<lambda>i. values_data sample_groups + value_offset sample_groups_mem sample_groups i) ` {..<record_count sample_groups_mem sample_groups}"
      by (auto simp: value_addresses_def)
    then show ?thesis using sample_groups_reads by (simp add: fields value_offset_simp lessThan_Suc numeral_2_eq_2 insert_commute)
  qed
qed


end
